(* ===== verification/Dropbear_Prelude.thy ===== *)
theory Dropbear_Prelude
  imports Main "HOL-Library.Word"
begin

text \<open>
  Shared vocabulary of the development: the machine integers of the target (a 32-bit ARM, so
  \<open>unsigned int\<close>, \<open>size_t\<close> and \<open>int\<close> have 32 bits), the ways a run of the program can end,
  the result type that carries them, byte-array accesses that fail when they leave the
  allocated block, and the big-endian 32-bit codec of
  \<^verbatim>\<open>src/reconos/dropbear/libtomcrypt/src/headers/tomcrypt_macros.h\<close>.
\<close>

unbundle bit_operations_syntax

type_synonym u8 = "8 word"
type_synonym u32 = "32 word"
type_synonym bytes = "u8 list"

named_theorems word_nat \<open>translate comparisons and non-wrapping arithmetic of words to nat\<close>
named_theorems result_simps \<open>evaluation of the result type\<close>

subsection \<open>How a run can end\<close>

text \<open>
  \<open>Exit m\<close>: the program called \<open>dropbear_exit\<close> with message \<open>m\<close>;
  \<open>Assert m\<close>: a \<open>dropbear_assert\<close> failed (it calls \<open>dropbear_exit\<close> in turn);
  \<open>Closed m\<close>: \<open>dropbear_close\<close>, the orderly end of a connection;
  \<open>OutOfBounds\<close>, \<open>DivByZero\<close>, \<open>SignedOverflow\<close>, \<open>NullDeref\<close> and \<open>UseAfterFree\<close>: undefined
  behaviour of C;
  \<open>Hang\<close>: a loop that never ends.
  A model never hides undefined behaviour in a total HOL function: it returns one of these.
\<close>

datatype error =
    Exit string
  | Assert string
  | Closed string
  | OutOfBounds
  | DivByZero
  | SignedOverflow
  | NullDeref
  | UseAfterFree
  | Hang

definition undefined_behaviour :: "error \<Rightarrow> bool" where
  "undefined_behaviour e \<longleftrightarrow> e \<in> {OutOfBounds, DivByZero, SignedOverflow, NullDeref, UseAfterFree}"

type_synonym 'a result = "error + 'a"

definition rbind :: "'a result \<Rightarrow> ('a \<Rightarrow> 'b result) \<Rightarrow> 'b result" where
  "rbind m f = (case m of Inl e \<Rightarrow> Inl e | Inr x \<Rightarrow> f x)"

definition require :: "bool \<Rightarrow> error \<Rightarrow> unit result" where
  "require c e = (if c then Inr () else Inl e)"

fun is_ok :: "'a result \<Rightarrow> bool" where
  "is_ok (Inr _) = True"
| "is_ok (Inl _) = False"

fun is_safe :: "'a result \<Rightarrow> bool" where
  "is_safe (Inr _) = True"
| "is_safe (Inl e) = (\<not> undefined_behaviour e)"

lemma rbind_simps [simp, result_simps]:
  "rbind (Inl e) f = Inl e"
  "rbind (Inr x) f = f x"
  by (simp_all add: rbind_def)

lemma rbind_eq_Inr_iff [result_simps]:
  "rbind m f = Inr y \<longleftrightarrow> (\<exists>x. m = Inr x \<and> f x = Inr y)"
  by (cases m) simp_all

lemma rbind_eq_Inl_iff [result_simps]:
  "rbind m f = Inl e \<longleftrightarrow> m = Inl e \<or> (\<exists>x. m = Inr x \<and> f x = Inl e)"
  by (cases m) simp_all

lemma rbind_InrE:
  assumes "rbind m f = Inr y"
  obtains x where "m = Inr x" and "f x = Inr y"
  using assms by (cases m) simp_all

lemma rbind_assoc: "rbind (rbind m f) g = rbind m (\<lambda>x. rbind (f x) g)"
  by (cases m) simp_all

lemma rbind_cong [fundef_cong]:
  "m = m' \<Longrightarrow> (\<And>x. m' = Inr x \<Longrightarrow> f x = f' x) \<Longrightarrow> rbind m f = rbind m' f'"
  by (cases m') simp_all

lemma require_simps [simp, result_simps]:
  "c \<Longrightarrow> require c e = Inr ()"
  "\<not> c \<Longrightarrow> require c e = Inl e"
  by (simp_all add: require_def)

lemma require_eq_iff [result_simps]:
  "require c e = Inr u \<longleftrightarrow> c"
  "require c e = Inl e' \<longleftrightarrow> \<not> c \<and> e' = e"
  by (auto simp: require_def)

lemma undefined_behaviour_simps [simp]:
  "\<not> undefined_behaviour (Exit m)"
  "\<not> undefined_behaviour (Assert m)"
  "\<not> undefined_behaviour (Closed m)"
  "\<not> undefined_behaviour Hang"
  "undefined_behaviour OutOfBounds"
  "undefined_behaviour DivByZero"
  "undefined_behaviour SignedOverflow"
  "undefined_behaviour NullDeref"
  "undefined_behaviour UseAfterFree"
  by (simp_all add: undefined_behaviour_def)

lemma is_safe_rbind:
  assumes "is_safe m" and "\<And>x. m = Inr x \<Longrightarrow> is_safe (f x)"
  shows "is_safe (rbind m f)"
  using assms by (cases m) simp_all

lemma is_safe_require [simp]: "is_safe (require c e) \<longleftrightarrow> c \<or> \<not> undefined_behaviour e"
  by (cases c) simp_all

lemma is_ok_is_safe: "is_ok m \<Longrightarrow> is_safe m"
  by (cases m) simp_all

lemma is_ok_iff: "is_ok m \<longleftrightarrow> (\<exists>x. m = Inr x)"
  by (cases m) simp_all

text \<open>
  \<open>sat m Q\<close>: the run \<open>m\<close> has no undefined behaviour, it ends, and what it returns satisfies \<open>Q\<close>. It composes along
  \<open>rbind\<close>, which is how invariants of long handlers are proved.
\<close>

definition sat :: "'a result \<Rightarrow> ('a \<Rightarrow> bool) \<Rightarrow> bool" where
  "sat m Q \<longleftrightarrow> is_safe m \<and> m \<noteq> Inl Hang \<and> (\<forall>x. m = Inr x \<longrightarrow> Q x)"

lemma sat_simps [simp]:
  "sat (Inr x) Q \<longleftrightarrow> Q x"
  "sat (Inl e) Q \<longleftrightarrow> \<not> undefined_behaviour e \<and> e \<noteq> Hang"
  by (simp_all add: sat_def)

lemma sat_rbind:
  assumes "sat m P" and "\<And>x. P x \<Longrightarrow> sat (f x) Q"
  shows "sat (rbind m f) Q"
  using assms by (cases m) simp_all

lemma sat_mono: "sat m P \<Longrightarrow> (\<And>x. P x \<Longrightarrow> Q x) \<Longrightarrow> sat m Q"
  by (cases m) simp_all

lemma sat_rbind_pair:
  assumes "sat m (\<lambda>(x, y). P x y)" and "\<And>x y. P x y \<Longrightarrow> sat (f x y) Q"
  shows "sat (rbind m (\<lambda>(x, y). f x y)) Q"
  by (rule sat_rbind[OF assms(1)]) (auto intro: assms(2))

lemma sat_require: "sat (require c (Assert m)) (\<lambda>_. c)"
  by (cases c) simp_all

lemma satD: "sat m Q \<Longrightarrow> m = Inr x \<Longrightarrow> Q x"
  by (simp add: sat_def)

lemma sat_safe: "sat m Q \<Longrightarrow> is_safe m" and sat_ends: "sat m Q \<Longrightarrow> m \<noteq> Inl Hang"
  by (simp_all add: sat_def)

lemma sat_keep: "sat m P \<Longrightarrow> P s \<Longrightarrow> sat (if c then m else Inr s) P"
  by simp

lemma sat_if: "(c \<Longrightarrow> sat a Q) \<Longrightarrow> (\<not> c \<Longrightarrow> sat b Q) \<Longrightarrow> sat (if c then a else b) Q"
  by simp

subsection \<open>Words\<close>

lemma unat_add_no_overflow [word_nat]:
  fixes a b :: "'a::len word"
  assumes "unat a + unat b < 2 ^ LENGTH('a)"
  shows "unat (a + b) = unat a + unat b"
  using assms by (simp add: unat_word_ariths)

lemma unat_sub_no_underflow [word_nat]:
  fixes a b :: "'a::len word"
  assumes "unat b \<le> unat a"
  shows "unat (a - b) = unat a - unat b"
  using assms by (simp add: unat_sub word_le_nat_alt)

lemmas word_nat_order [word_nat] = word_le_nat_alt word_less_nat_alt

lemma unat_of_nat_u32 [word_nat]: "n < 2 ^ 32 \<Longrightarrow> unat (of_nat n :: u32) = n"
  by (simp add: unat_of_nat take_bit_eq_mod)

lemma unat_u32_lt [simp]: "unat (w :: u32) < 4294967296"
  using unsigned_less[of w] by simp

lemma unat_u8_lt [simp]: "unat (w :: u8) < 256"
  using unsigned_less[of w] by simp

lemma uint_le_of_unat: "unat w \<le> n \<Longrightarrow> uint w \<le> int n"
  by (metis of_nat_le_iff uint_nat)

lemma sint_u32_small:
  fixes w :: u32
  assumes "unat w < 2 ^ 31"
  shows "sint w = uint w"
proof -
  have "uint w < 2 ^ 31" using assms by (metis nat_less_numeral_power_cancel_iff unat_eq_nat_uint)
  then have "take_bit 31 (uint w) = uint w"
    by (simp add: take_bit_int_eq_self)
  moreover have "\<not> bit (uint w) 31"
    using \<open>uint w < 2 ^ 31\<close> by (simp add: bit_iff_odd)
  ultimately show ?thesis
    by (simp add: sint_uint signed_take_bit_eq_if_positive)
qed

subsection \<open>Byte arrays\<close>

text \<open>A read or a write of \<open>n\<close> bytes at an offset of an allocated block.\<close>

definition mem_read :: "bytes \<Rightarrow> nat \<Rightarrow> nat \<Rightarrow> bytes result" where
  "mem_read d off n = (if off + n \<le> length d then Inr (take n (drop off d)) else Inl OutOfBounds)"

definition mem_write :: "bytes \<Rightarrow> nat \<Rightarrow> bytes \<Rightarrow> bytes result" where
  "mem_write d off bs =
     (if off + length bs \<le> length d
      then Inr (take off d @ bs @ drop (off + length bs) d) else Inl OutOfBounds)"

lemma mem_read_ok [simp]: "off + n \<le> length d \<Longrightarrow> mem_read d off n = Inr (take n (drop off d))"
  by (simp add: mem_read_def)

lemma mem_write_ok [simp]:
  "off + length bs \<le> length d \<Longrightarrow>
     mem_write d off bs = Inr (take off d @ bs @ drop (off + length bs) d)"
  by (simp add: mem_write_def)

lemma mem_write_length: "mem_write d off bs = Inr d' \<Longrightarrow> length d' = length d"
  by (auto simp: mem_write_def split: if_splits)

lemma mem_write_read:
  assumes "mem_write d off bs = Inr d'"
  shows "mem_read d' off (length bs) = Inr bs"
  using assms by (auto simp: mem_write_def mem_read_def split: if_splits)

subsection \<open>The big-endian 32-bit codec\<close>

definition store32h :: "u32 \<Rightarrow> bytes" where
  "store32h x =
     [ucast (drop_bit 24 x AND 255), ucast (drop_bit 16 x AND 255),
      ucast (drop_bit 8 x AND 255), ucast (x AND 255)]"

fun load32h :: "bytes \<Rightarrow> u32 result" where
  "load32h (y0 # y1 # y2 # y3 # _) =
     Inr (push_bit 24 (ucast (y0 AND 255)) OR push_bit 16 (ucast (y1 AND 255)) OR
          push_bit 8 (ucast (y2 AND 255)) OR ucast (y3 AND 255))"
| "load32h _ = Inl OutOfBounds"

lemma length_store32h [simp]: "length (store32h x) = 4"
  by (simp add: store32h_def)

lemma mask8_words: "(255 :: u8) = mask 8" "(255 :: u32) = mask 8"
  by (simp_all add: mask_eq_exp_minus_1)

lemma split32h:
  fixes x :: u32
  shows "(push_bit 24 (ucast (ucast (drop_bit 24 x AND mask 8) :: u8)) :: u32) OR
         push_bit 16 (ucast (ucast (drop_bit 16 x AND mask 8) :: u8)) OR
         push_bit 8 (ucast (ucast (drop_bit 8 x AND mask 8) :: u8)) OR
         ucast (ucast (x AND mask 8) :: u8) = x" (is "?l = x")
proof (rule bit_word_eqI)
  fix n assume "n < LENGTH(32)"
  then consider "n < 8" | "8 \<le> n \<and> n < 16" | "16 \<le> n \<and> n < 24" | "24 \<le> n \<and> n < 32"
    by fastforce
  then show "bit ?l n = bit x n"
    by cases (auto simp: bit_simps)
qed

lemma u8_and_mask [simp]: "(y :: u8) AND 255 = y"
  by (simp add: mask8_words) (rule bit_word_eqI, simp add: bit_simps)

lemma load_store32h [simp]: "load32h (store32h x @ rest) = Inr x"
  using split32h[of x] by (simp add: store32h_def) (simp add: mask8_words)

lemma load_store32h' [simp]: "load32h (store32h x) = Inr x"
  using load_store32h[of x "[]"] by simp

subsection \<open>Sequences of calls to a component\<close>

text \<open>
  A component offers calls that a client makes in some order; the first failing call ends the
  run. \<open>pre\<close> is what a call asks of its caller in the state it is made in. The contract
  \<open>checked_machine\<close> is proved once per component, call by call, and its consequence holds for
  every sequence of calls.
\<close>

fun run_calls :: "('c \<Rightarrow> 's \<Rightarrow> 's result) \<Rightarrow> 'c list \<Rightarrow> 's \<Rightarrow> 's result" where
  "run_calls step [] s = Inr s"
| "run_calls step (c # cs) s = rbind (step c s) (run_calls step cs)"

fun pre_calls :: "('c \<Rightarrow> 's \<Rightarrow> 's result) \<Rightarrow> ('c \<Rightarrow> 's \<Rightarrow> bool) \<Rightarrow> 'c list \<Rightarrow> 's \<Rightarrow> bool" where
  "pre_calls step pre [] s = True"
| "pre_calls step pre (c # cs) s =
     (pre c s \<and> (case step c s of Inl _ \<Rightarrow> True | Inr s' \<Rightarrow> pre_calls step pre cs s'))"

locale checked_machine =
  fixes step :: "'c \<Rightarrow> 's \<Rightarrow> 's result"
    and pre :: "'c \<Rightarrow> 's \<Rightarrow> bool"
    and inv :: "'s \<Rightarrow> bool"
  assumes step_inv: "inv s \<Longrightarrow> pre c s \<Longrightarrow> step c s = Inr s' \<Longrightarrow> inv s'"
    and step_safe: "inv s \<Longrightarrow> pre c s \<Longrightarrow> is_safe (step c s)"
begin

lemma run_inv:
  "inv s \<Longrightarrow> pre_calls step pre cs s \<Longrightarrow> run_calls step cs s = Inr s' \<Longrightarrow> inv s'"
  by (induction cs arbitrary: s) (auto simp: result_simps dest: step_inv)

lemma run_safe: "inv s \<Longrightarrow> pre_calls step pre cs s \<Longrightarrow> is_safe (run_calls step cs s)"
  by (induction cs arbitrary: s) (auto intro!: is_safe_rbind step_safe dest: step_inv)

end

text \<open>A component whose calls also return, so that every sequence of calls comes to its end.\<close>

locale terminating_machine = checked_machine +
  assumes step_ends: "inv s \<Longrightarrow> pre c s \<Longrightarrow> step c s \<noteq> Inl Hang"
begin

lemma run_ends: "inv s \<Longrightarrow> pre_calls step pre cs s \<Longrightarrow> run_calls step cs s \<noteq> Inl Hang"
proof (induction cs arbitrary: s)
  case (Cons c cs)
  then show ?case using step_ends[of s c] step_inv[of s c] by (cases "step c s") auto
qed simp

lemma run_sat: "inv s \<Longrightarrow> pre_calls step pre cs s \<Longrightarrow> sat (run_calls step cs s) inv"
  by (simp add: sat_def run_safe run_ends run_inv)

end

lemma terminating_machineI:
  assumes "\<And>s c. I s \<Longrightarrow> pre c s \<Longrightarrow> sat (step c s) I"
  shows "terminating_machine step pre I"
  by unfold_locales (auto dest: assms satD sat_safe sat_ends)

end
