(* ===== verification/Buffer.thy ===== *)
theory Buffer
  imports Dropbear_Prelude
begin

text \<open>
  The bounds-checked byte buffer of \<^verbatim>\<open>src/reconos/dropbear/buffer.c\<close>, on which every packet is
  built and parsed. \<open>struct buf\<close> is the record \<open>buffer\<close>; its four fields keep their 32-bit
  width, so the checks \<open>pos + len > size\<close> wrap as they do in C, and every access to \<open>data\<close>
  is bounds-checked by the model itself (\<open>OutOfBounds\<close> is the access C would do outside the
  block). A pointer into the buffer, as \<open>buf_getptr\<close> returns it, is an offset into \<open>b_data\<close>.
  The theory ends with the interface \<open>wire_codec\<close>: a pair of a put and a get operation that
  agree on an encoding, interpreted for bytes, booleans, 32-bit integers and strings.
\<close>

subsection \<open>Allocation (dbutil.c)\<close>

text \<open>The allocator is taken to succeed on a request of at least one byte; \<open>calloc\<close> clears it.\<close>

definition m_malloc :: "nat \<Rightarrow> bytes result" where
  "m_malloc n = (if n = 0 then Inl (Exit ''m_malloc failed'') else Inr (replicate n 0))"

text \<open>\<open>junk\<close> is what \<open>realloc\<close> leaves in the part of the block that grew.\<close>

definition m_realloc :: "(nat \<Rightarrow> u8) \<Rightarrow> bytes \<Rightarrow> nat \<Rightarrow> bytes result" where
  "m_realloc junk d n =
     (if n = 0 then Inl (Exit ''m_realloc failed'')
      else Inr (take n d @ map junk [length d..<n]))"

definition m_burn :: "bytes \<Rightarrow> nat \<Rightarrow> bytes result" where
  "m_burn d n = (if d = [] then Inr d else mem_write d 0 (replicate n 0))"

subsection \<open>The structure and its operations\<close>

record buffer =
  b_data :: bytes
  b_len :: u32
  b_pos :: u32
  b_size :: u32

definition BUF_MAX_INCR :: u32 where "BUF_MAX_INCR = 1000000000"
definition BUF_MAX_SIZE :: u32 where "BUF_MAX_SIZE = 1000000000"
definition MAX_STRING_LEN :: u32 where "MAX_STRING_LEN = 1400"

definition buf_new :: "u32 \<Rightarrow> buffer result" where
  "buf_new n =
     (if n > BUF_MAX_SIZE then Inl (Exit ''buf->size too big'')
      else rbind (if n > 0 then m_malloc (unat n) else Inr [])
        (\<lambda>d. Inr \<lparr>b_data = d, b_len = 0, b_pos = 0, b_size = n\<rparr>))"

definition buf_burn :: "buffer \<Rightarrow> buffer result" where
  "buf_burn b = rbind (m_burn (b_data b) (unat (b_size b))) (\<lambda>d. Inr (b\<lparr>b_data := d\<rparr>))"

definition buf_resize :: "(nat \<Rightarrow> u8) \<Rightarrow> buffer \<Rightarrow> u32 \<Rightarrow> buffer result" where
  "buf_resize junk b newsize =
     (if newsize > BUF_MAX_SIZE then Inl (Exit ''buf->size too big'')
      else rbind (m_realloc junk (b_data b) (unat newsize))
        (\<lambda>d. Inr \<lparr>b_data = d, b_len = min newsize (b_len b), b_pos = min newsize (b_pos b),
                  b_size = newsize\<rparr>))"

definition buf_newcopy :: "buffer \<Rightarrow> buffer result" where
  "buf_newcopy b =
     rbind (buf_new (b_len b)) (\<lambda>ret.
     rbind (mem_read (b_data b) 0 (unat (b_len b))) (\<lambda>bs.
     rbind (mem_write (b_data ret) 0 bs) (\<lambda>d.
     Inr (ret\<lparr>b_len := b_len b, b_data := d\<rparr>))))"

definition buf_setlen :: "buffer \<Rightarrow> u32 \<Rightarrow> buffer result" where
  "buf_setlen b n =
     (if n > b_size b then Inl (Exit ''Bad buf_setlen'') else Inr (b\<lparr>b_len := n\<rparr>))"

definition buf_incrlen :: "buffer \<Rightarrow> u32 \<Rightarrow> buffer result" where
  "buf_incrlen b incr =
     (if incr > BUF_MAX_INCR \<or> b_len b + incr > b_size b then Inl (Exit ''Bad buf_incrlen'')
      else Inr (b\<lparr>b_len := b_len b + incr\<rparr>))"

definition buf_setpos :: "buffer \<Rightarrow> u32 \<Rightarrow> buffer result" where
  "buf_setpos b p =
     (if p > b_len b then Inl (Exit ''Bad buf_setpos'') else Inr (b\<lparr>b_pos := p\<rparr>))"

definition buf_incrwritepos :: "buffer \<Rightarrow> u32 \<Rightarrow> buffer result" where
  "buf_incrwritepos b incr =
     (if incr > BUF_MAX_INCR \<or> b_pos b + incr > b_size b
      then Inl (Exit ''Bad buf_incrwritepos'')
      else let p = b_pos b + incr
           in Inr (if p > b_len b then b\<lparr>b_pos := p, b_len := p\<rparr> else b\<lparr>b_pos := p\<rparr>))"

text \<open>
  \<open>incr\<close> is a signed \<open>int\<close>: its word is read with \<open>sint\<close>. The sum \<open>(int)pos + incr\<close> is a
  signed addition, undefined when it leaves the range of \<open>int\<close>; the first test of the
  disjunction is evaluated before it.
\<close>

definition buf_incrpos :: "buffer \<Rightarrow> u32 \<Rightarrow> buffer result" where
  "buf_incrpos b incr =
     (if sint incr > sint BUF_MAX_INCR then Inl (Exit ''Bad buf_incrpos'')
      else if sint (b_pos b) + sint incr > 2147483647 \<or> sint (b_pos b) + sint incr < - 2147483648
        then Inl SignedOverflow
      else if b_pos b + incr > b_len b \<or> sint (b_pos b) + sint incr < 0
        then Inl (Exit ''Bad buf_incrpos'')
      else Inr (b\<lparr>b_pos := b_pos b + incr\<rparr>))"

definition buf_getbyte :: "buffer \<Rightarrow> (u8 \<times> buffer) result" where
  "buf_getbyte b =
     (if b_pos b \<ge> b_len b then Inl (Exit ''Bad buf_getbyte'')
      else rbind (mem_read (b_data b) (unat (b_pos b)) 1)
        (\<lambda>bs. Inr (hd bs, b\<lparr>b_pos := b_pos b + 1\<rparr>)))"

definition buf_getbool :: "buffer \<Rightarrow> (u8 \<times> buffer) result" where
  "buf_getbool b = rbind (buf_getbyte b) (\<lambda>(v, b'). Inr (if v \<noteq> 0 then 1 else v, b'))"

definition buf_putbyte :: "buffer \<Rightarrow> u8 \<Rightarrow> buffer result" where
  "buf_putbyte b v =
     rbind (if b_pos b \<ge> b_len b then buf_incrlen b 1 else Inr b) (\<lambda>b'.
     rbind (mem_write (b_data b') (unat (b_pos b')) [v]) (\<lambda>d.
     Inr (b'\<lparr>b_data := d, b_pos := b_pos b' + 1\<rparr>)))"

definition buf_getptr :: "buffer \<Rightarrow> u32 \<Rightarrow> nat result" where
  "buf_getptr b n =
     (if b_pos b + n > b_len b then Inl (Exit ''Bad buf_getptr'') else Inr (unat (b_pos b)))"

definition buf_getwriteptr :: "buffer \<Rightarrow> u32 \<Rightarrow> nat result" where
  "buf_getwriteptr b n =
     (if b_pos b + n > b_size b then Inl (Exit ''Bad buf_getwriteptr'')
      else Inr (unat (b_pos b)))"

definition buf_getint :: "buffer \<Rightarrow> (u32 \<times> buffer) result" where
  "buf_getint b =
     rbind (buf_getptr b 4) (\<lambda>p.
     rbind (mem_read (b_data b) p 4) (\<lambda>bs.
     rbind (load32h bs) (\<lambda>ret.
     rbind (buf_incrpos b 4) (\<lambda>b'. Inr (ret, b')))))"

definition buf_putint :: "buffer \<Rightarrow> u32 \<Rightarrow> buffer result" where
  "buf_putint b val =
     rbind (buf_getwriteptr b 4) (\<lambda>p.
     rbind (mem_write (b_data b) p (store32h val)) (\<lambda>d.
     buf_incrwritepos (b\<lparr>b_data := d\<rparr>) 4))"

text \<open>The block that \<open>buf_getstring\<close> allocates has \<open>len + 1\<close> bytes, the last one NUL.\<close>

definition buf_getstring :: "buffer \<Rightarrow> (bytes \<times> u32 \<times> buffer) result" where
  "buf_getstring b =
     rbind (buf_getint b) (\<lambda>(n, b1).
     if n > MAX_STRING_LEN then Inl (Exit ''String too long'')
     else rbind (m_malloc (unat (n + 1))) (\<lambda>ret.
          rbind (buf_getptr b1 n) (\<lambda>p.
          rbind (mem_read (b_data b1) p (unat n)) (\<lambda>bs.
          rbind (mem_write ret 0 bs) (\<lambda>ret1.
          rbind (buf_incrpos b1 n) (\<lambda>b2.
          rbind (mem_write ret1 (unat n) [0]) (\<lambda>ret2.
          Inr (ret2, n, b2))))))))"

definition buf_getstringbuf :: "buffer \<Rightarrow> (buffer \<times> buffer) result" where
  "buf_getstringbuf b =
     rbind (buf_getstring b) (\<lambda>(str, n, b').
     Inr (\<lparr>b_data = str, b_len = n, b_pos = 0, b_size = n\<rparr>, b'))"

definition buf_eatstring :: "buffer \<Rightarrow> buffer result" where
  "buf_eatstring b = rbind (buf_getint b) (\<lambda>(n, b'). buf_incrpos b' n)"

definition buf_putbytes :: "buffer \<Rightarrow> bytes \<Rightarrow> u32 \<Rightarrow> buffer result" where
  "buf_putbytes b bs n =
     rbind (buf_getwriteptr b n) (\<lambda>p.
     rbind (mem_read bs 0 (unat n)) (\<lambda>src.
     rbind (mem_write (b_data b) p src) (\<lambda>d.
     buf_incrwritepos (b\<lparr>b_data := d\<rparr>) n)))"

definition buf_putstring :: "buffer \<Rightarrow> bytes \<Rightarrow> u32 \<Rightarrow> buffer result" where
  "buf_putstring b str n = rbind (buf_putint b n) (\<lambda>b'. buf_putbytes b' str n)"

subsection \<open>The invariant and the abstract view\<close>

text \<open>
  \<open>size\<close> bytes are allocated (a buffer made by \<open>buf_getstringbuf\<close> owns one more), and
  \<open>pos\<close>, \<open>len\<close> and \<open>size\<close> are in order. The bytes still to be read are \<open>unread\<close>, the bytes
  up to the position are \<open>written\<close>.
\<close>

definition buf_inv :: "buffer \<Rightarrow> bool" where
  "buf_inv b \<longleftrightarrow>
     unat (b_size b) \<le> length (b_data b) \<and> unat (b_size b) \<le> 1000000000 \<and>
     unat (b_pos b) \<le> unat (b_len b) \<and> unat (b_len b) \<le> unat (b_size b)"

definition unread :: "buffer \<Rightarrow> bytes" where
  "unread b = drop (unat (b_pos b)) (take (unat (b_len b)) (b_data b))"

definition contents :: "buffer \<Rightarrow> bytes" where
  "contents b = take (unat (b_len b)) (b_data b)"

definition written :: "buffer \<Rightarrow> bytes" where
  "written b = take (unat (b_pos b)) (b_data b)"

definition room :: "buffer \<Rightarrow> nat" where
  "room b = unat (b_size b) - unat (b_pos b)"

definition advance :: "buffer \<Rightarrow> nat \<Rightarrow> buffer" where
  "advance b n = b\<lparr>b_pos := b_pos b + of_nat n\<rparr>"

definition overwrite :: "buffer \<Rightarrow> bytes \<Rightarrow> buffer" where
  "overwrite b bs =
     (let p = unat (b_pos b); q = p + length bs
      in b\<lparr>b_data := take p (b_data b) @ bs @ drop q (b_data b),
           b_pos := of_nat q, b_len := of_nat (max q (unat (b_len b)))\<rparr>)"

subsection \<open>Reading\<close>

lemma buf_invD:
  assumes "buf_inv b"
  shows "unat (b_size b) \<le> length (b_data b)" "unat (b_size b) \<le> 1000000000"
    "unat (b_pos b) \<le> unat (b_len b)" "unat (b_len b) \<le> unat (b_size b)"
  using assms by (simp_all add: buf_inv_def)

lemma length_unread: "buf_inv b \<Longrightarrow> length (unread b) = unat (b_len b) - unat (b_pos b)"
  by (simp add: unread_def buf_inv_def)

lemma length_written: "buf_inv b \<Longrightarrow> length (written b) = unat (b_pos b)"
  by (simp add: written_def buf_inv_def)

lemma length_contents: "buf_inv b \<Longrightarrow> length (contents b) = unat (b_len b)"
  by (simp add: contents_def buf_inv_def)

lemma unread_le: "buf_inv b \<Longrightarrow> length (unread b) \<le> 1000000000"
  using buf_invD[of b] by (simp add: length_unread)

lemma unat_pos_add:
  assumes "buf_inv b" and "n \<le> 1000000000"
  shows "unat (b_pos b + of_nat n) = unat (b_pos b) + n"
  using buf_invD[OF assms(1)] assms(2) by (simp add: word_nat)

lemma advance_fields [simp]:
  "b_data (advance b n) = b_data b" "b_len (advance b n) = b_len b" "b_size (advance b n) = b_size b"
  by (simp_all add: advance_def)

lemma advance_pos:
  "buf_inv b \<Longrightarrow> n \<le> length (unread b) \<Longrightarrow> unat (b_pos (advance b n)) = unat (b_pos b) + n"
  using unread_le[of b] by (simp add: advance_def unat_pos_add)

lemma advance_inv: "buf_inv b \<Longrightarrow> n \<le> length (unread b) \<Longrightarrow> buf_inv (advance b n)"
  using buf_invD[of b] length_unread[of b] advance_pos[of b n] by (simp add: buf_inv_def[of "advance b n"])

lemma unread_advance: "buf_inv b \<Longrightarrow> n \<le> length (unread b) \<Longrightarrow> unread (advance b n) = drop n (unread b)"
  by (simp add: unread_def advance_pos add.commute drop_take)

lemma advance_0 [simp]: "advance b 0 = b"
  by (simp add: advance_def)

lemma advance_advance: "advance (advance b m) n = advance b (m + n)"
  by (simp add: advance_def add.assoc)

lemma sint_BUF_MAX_INCR: "sint BUF_MAX_INCR = 1000000000"
  by (simp add: BUF_MAX_INCR_def)

lemma pos_sint:
  assumes "buf_inv b"
  shows "sint (b_pos b) = uint (b_pos b)" "uint (b_pos b) \<le> 1000000000"
  using buf_invD[OF assms] uint_le_of_unat[of "b_pos b" 1000000000]
  by (auto intro!: sint_u32_small)

lemma buf_incrpos_small:
  assumes "buf_inv b" and "unat n < 2 ^ 31"
  shows "buf_incrpos b n =
    (if unat n \<le> length (unread b) then Inr (advance b (unat n))
     else Inl (Exit ''Bad buf_incrpos''))"
proof (cases "unat n \<le> 1000000000")
  case True
  have n: "sint n = uint n" "0 \<le> uint n" "uint n \<le> 1000000000"
    using assms(2) True uint_le_of_unat[of n 1000000000] by (auto intro!: sint_u32_small)
  have "unat (b_pos b + n) = unat (b_pos b) + unat n"
    using buf_invD[OF assms(1)] True by (intro unat_add_no_overflow) simp
  moreover have "(uint (b_pos b) + uint n < 0) = False" "(2147483647 < uint (b_pos b) + uint n) = False"
    "(uint (b_pos b) + uint n < - 2147483648) = False"
    using pos_sint[OF assms(1)] n uint_ge_0[of "b_pos b"] by arith+
  ultimately show ?thesis
    using buf_invD(3)[OF assms(1)] length_unread[OF assms(1)] n(3)
    by (auto simp: buf_incrpos_def sint_BUF_MAX_INCR n(1) pos_sint[OF assms(1)] advance_def word_nat)
next
  case False
  have "sint n = uint n" using assms(2) by (rule sint_u32_small)
  moreover have "1000000000 < uint n"
    using False uint_nat[of n] by linarith
  moreover have "\<not> unat n \<le> length (unread b)" using False unread_le[OF assms(1)] by linarith
  ultimately show ?thesis by (simp add: buf_incrpos_def sint_BUF_MAX_INCR)
qed

lemma buf_incrpos_forward:
  assumes "buf_inv b" and "unat n \<le> length (unread b)"
  shows "buf_incrpos b n = Inr (advance b (unat n))"
  using assms unread_le[of b] by (simp add: buf_incrpos_small)

lemma buf_getptr_ok:
  assumes "buf_inv b" and "unat n \<le> length (unread b)"
  shows "buf_getptr b n = Inr (unat (b_pos b))"
proof -
  note inv = buf_invD[OF assms(1)]
  have "unat (b_pos b + n) = unat (b_pos b) + unat n"
    using assms inv unread_le[of b] by (intro unat_add_no_overflow) simp
  then show ?thesis using assms inv by (simp add: buf_getptr_def length_unread word_nat)
qed

lemma buf_getptr_fail:
  assumes "buf_inv b" and "length (unread b) < unat n" and "unat n \<le> 3000000000"
  shows "buf_getptr b n = Inl (Exit ''Bad buf_getptr'')"
proof -
  note inv = buf_invD[OF assms(1)]
  have "unat (b_pos b + n) = unat (b_pos b) + unat n"
    using assms inv by (intro unat_add_no_overflow) simp
  then show ?thesis using assms by (simp add: buf_getptr_def length_unread word_nat)
qed

lemma take_unread:
  "buf_inv b \<Longrightarrow> n \<le> length (unread b) \<Longrightarrow>
     mem_read (b_data b) (unat (b_pos b)) n = Inr (take n (unread b))"
  using buf_invD[of b] length_unread[of b] by (auto simp: unread_def drop_take)

lemma buf_getbyte_ok:
  assumes "buf_inv b" and "unread b = v # rest"
  shows "buf_getbyte b = Inr (v, advance b 1)"
  using assms take_unread[of b 1] length_unread[of b]
  by (simp add: buf_getbyte_def word_nat advance_def)

lemma buf_getbyte_fail:
  assumes "buf_inv b" and "unread b = []"
  shows "buf_getbyte b = Inl (Exit ''Bad buf_getbyte'')"
  using assms length_unread[of b] by (simp add: buf_getbyte_def word_nat)

lemma buf_getint_ok:
  assumes "buf_inv b" and "4 \<le> length (unread b)"
  shows "buf_getint b = rbind (load32h (take 4 (unread b))) (\<lambda>v. Inr (v, advance b 4))"
  using assms
  by (simp add: buf_getint_def buf_getptr_ok take_unread buf_incrpos_forward del: load32h.simps)

lemma buf_getint_fail:
  assumes "buf_inv b" and "length (unread b) < 4"
  shows "buf_getint b = Inl (Exit ''Bad buf_getptr'')"
  using assms by (simp add: buf_getint_def buf_getptr_fail)

lemma load32h_total: "4 \<le> length bs \<Longrightarrow> \<exists>v. load32h bs = Inr v"
  by (cases bs rule: load32h.cases) auto

lemma buf_getint_result:
  assumes "buf_inv b" and "buf_getint b = Inr (n, b')"
  shows "4 \<le> length (unread b)" and "b' = advance b 4" and "load32h (take 4 (unread b)) = Inr n"
proof -
  show *: "4 \<le> length (unread b)"
    using assms buf_getint_fail[OF assms(1)] by (cases "4 \<le> length (unread b)") auto
  show "b' = advance b 4" "load32h (take 4 (unread b)) = Inr n"
    using assms(2) by (auto simp: buf_getint_ok[OF assms(1) *] result_simps)
qed

subsection \<open>Writing\<close>

lemma room_le: "buf_inv b \<Longrightarrow> room b \<le> 1000000000"
  using buf_invD[of b] by (simp add: room_def)

lemma overwrite_fields:
  assumes "buf_inv b" and "length bs \<le> room b"
  shows "unat (b_pos (overwrite b bs)) = unat (b_pos b) + length bs"
    and "unat (b_len (overwrite b bs)) = max (unat (b_pos b) + length bs) (unat (b_len b))"
    and "b_size (overwrite b bs) = b_size b"
    and "length (b_data (overwrite b bs)) = length (b_data b)"
proof -
  have "unat (b_pos b) + length bs \<le> unat (b_size b)"
    using assms buf_invD[OF assms(1)] by (simp add: room_def)
  then show "unat (b_pos (overwrite b bs)) = unat (b_pos b) + length bs"
    "unat (b_len (overwrite b bs)) = max (unat (b_pos b) + length bs) (unat (b_len b))"
    "b_size (overwrite b bs) = b_size b"
    "length (b_data (overwrite b bs)) = length (b_data b)"
    using buf_invD[OF assms(1)]
    by (simp_all add: overwrite_def Let_def word_nat)
qed

lemma overwrite_inv:
  assumes "buf_inv b" and "length bs \<le> room b"
  shows "buf_inv (overwrite b bs)"
  using buf_invD[OF assms(1)] assms(2) overwrite_fields[OF assms]
  by (simp add: buf_inv_def[of "overwrite b bs"] room_def)

lemma written_overwrite:
  assumes "buf_inv b" and "length bs \<le> room b"
  shows "written (overwrite b bs) = written b @ bs"
proof -
  have "unat (b_pos b) \<le> length (b_data b)" using buf_invD[OF assms(1)] by simp
  moreover have "b_data (overwrite b bs) =
      take (unat (b_pos b)) (b_data b) @ bs @ drop (unat (b_pos b) + length bs) (b_data b)"
    by (simp add: overwrite_def Let_def)
  ultimately show ?thesis
    by (simp add: written_def overwrite_fields[OF assms])
qed

lemma room_overwrite:
  "buf_inv b \<Longrightarrow> length bs \<le> room b \<Longrightarrow> room (overwrite b bs) = room b - length bs"
  by (simp add: room_def overwrite_fields)

lemma overwrite_overwrite:
  assumes "buf_inv b" and "length xs + length ys \<le> room b"
  shows "overwrite (overwrite b xs) ys = overwrite b (xs @ ys)"
proof -
  have x: "length xs \<le> room b" using assms(2) by simp
  note f = overwrite_fields[OF assms(1) x]
  have "unat (b_pos b) \<le> length (b_data b)" using buf_invD[OF assms(1)] by simp
  then have d: "b_data (overwrite (overwrite b xs) ys) = b_data (overwrite b (xs @ ys))"
    by (simp add: overwrite_def[of "overwrite b xs"] Let_def f)
       (simp add: overwrite_def Let_def ac_simps)
  have p: "b_pos (overwrite (overwrite b xs) ys) = b_pos (overwrite b (xs @ ys))"
    by (simp add: overwrite_def[of "overwrite b xs"] Let_def f)
       (simp add: overwrite_def Let_def ac_simps)
  have l: "b_len (overwrite (overwrite b xs) ys) = b_len (overwrite b (xs @ ys))"
    by (simp add: overwrite_def[of "overwrite b xs"] Let_def f)
       (simp add: overwrite_def Let_def ac_simps)
  have z: "b_size (overwrite (overwrite b xs) ys) = b_size (overwrite b (xs @ ys))"
    by (simp add: overwrite_def Let_def)
  from d p l z show ?thesis by (intro buffer.equality) simp_all
qed

lemma overwrite_Nil: "buf_inv b \<Longrightarrow> overwrite b [] = b"
  using buf_invD[of b] by (simp add: overwrite_def Let_def max_def)

lemma pos_add_size:
  assumes "buf_inv b" and "unat n \<le> 3000000000"
  shows "b_pos b + n > b_size b \<longleftrightarrow> room b < unat n"
proof -
  have "unat (b_pos b + n) = unat (b_pos b) + unat n"
    using buf_invD[OF assms(1)] assms(2) by (intro unat_add_no_overflow) simp
  then show ?thesis using buf_invD[OF assms(1)] by (auto simp: word_nat room_def)
qed

lemma buf_getwriteptr_eq:
  assumes "buf_inv b" and "unat n \<le> 3000000000"
  shows "buf_getwriteptr b n =
    (if unat n \<le> room b then Inr (unat (b_pos b)) else Inl (Exit ''Bad buf_getwriteptr''))"
  using pos_add_size[OF assms] by (simp add: buf_getwriteptr_def)

lemma write_incrwritepos:
  assumes "buf_inv b" and "length bs \<le> room b" and "unat n = length bs"
  shows "rbind (mem_write (b_data b) (unat (b_pos b)) bs)
           (\<lambda>d. buf_incrwritepos (b\<lparr>b_data := d\<rparr>) n) = Inr (overwrite b bs)"
proof -
  note inv = buf_invD[OF assms(1)]
  have "length bs \<le> 1000000000" using assms room_le[of b] by linarith
  then have n: "\<not> n > BUF_MAX_INCR" "unat n \<le> 3000000000"
    using assms(3) by (simp_all add: BUF_MAX_INCR_def word_nat)
  have p: "unat (b_pos b + n) = unat (b_pos b) + length bs"
    using inv assms n by (subst unat_add_no_overflow) (simp_all add: room_def)
  have pw: "b_pos b + n = of_nat (unat (b_pos b) + length bs)"
    using assms(3)[symmetric] by simp
  have fits: "unat (b_pos b) + length bs \<le> length (b_data b)"
    using inv assms by (simp add: room_def)
  have "\<not> b_pos b + n > b_size b"
    using pos_add_size[OF assms(1) n(2)] assms by simp
  then show ?thesis
    using fits n(1) p
    by (auto simp: buf_incrwritepos_def Let_def overwrite_def word_nat max_def pw not_less)
qed

lemma buf_putbytes_eq:
  assumes "buf_inv b" and "unat n \<le> length bs" and "unat n \<le> 3000000000"
  shows "buf_putbytes b bs n =
    (if unat n \<le> room b then Inr (overwrite b (take (unat n) bs))
     else Inl (Exit ''Bad buf_getwriteptr''))"
  using assms write_incrwritepos[of b "take (unat n) bs" n]
  by (simp add: buf_putbytes_def buf_getwriteptr_eq)

lemma buf_putint_eq:
  assumes "buf_inv b"
  shows "buf_putint b v =
    (if 4 \<le> room b then Inr (overwrite b (store32h v)) else Inl (Exit ''Bad buf_getwriteptr''))"
  using assms write_incrwritepos[of b "store32h v" 4]
  by (simp add: buf_putint_def buf_getwriteptr_eq)

lemma buf_putstring_eq:
  assumes "buf_inv b" and "unat n \<le> length bs" and "unat n \<le> 3000000000"
  shows "buf_putstring b bs n =
    (if 4 + unat n \<le> room b then Inr (overwrite b (store32h n @ take (unat n) bs))
     else Inl (Exit ''Bad buf_getwriteptr''))"
proof (cases "4 \<le> room b")
  case True
  have "buf_inv (overwrite b (store32h n))" using assms True by (simp add: overwrite_inv)
  then show ?thesis
    using assms True
    by (auto simp: buf_putstring_def buf_putint_eq buf_putbytes_eq room_overwrite overwrite_overwrite)
next
  case False
  then show ?thesis using assms by (simp add: buf_putstring_def buf_putint_eq)
qed

lemma buf_incrlen_eq:
  assumes "buf_inv b"
  shows "buf_incrlen b n =
    (if unat n \<le> unat (b_size b) - unat (b_len b) then Inr (b\<lparr>b_len := b_len b + n\<rparr>)
     else Inl (Exit ''Bad buf_incrlen''))"
proof (cases "unat n \<le> 1000000000")
  case True
  have "unat (b_len b + n) = unat (b_len b) + unat n"
    using buf_invD[OF assms] True by (intro unat_add_no_overflow) simp
  then show ?thesis using buf_invD[OF assms] True
    by (auto simp: buf_incrlen_def BUF_MAX_INCR_def word_nat)
next
  case False
  then show ?thesis using buf_invD[OF assms]
    by (auto simp: buf_incrlen_def BUF_MAX_INCR_def word_nat)
qed

lemma buf_putbyte_eq:
  assumes "buf_inv b"
  shows "buf_putbyte b v =
    (if 1 \<le> room b then Inr (overwrite b [v]) else Inl (Exit ''Bad buf_incrlen''))"
proof -
  note inv = buf_invD[OF assms]
  have p1: "unat (b_pos b) + 1 = unat (b_pos b + 1)"
    using inv by (subst unat_add_no_overflow) simp_all
  have pw: "b_pos b + 1 = of_nat (Suc (unat (b_pos b)))" by simp
  show ?thesis
  proof (cases "b_pos b \<ge> b_len b")
    case True
    then have "unat (b_len b) = unat (b_pos b)" using inv by (simp add: word_nat)
    then have "b_len b = b_pos b" by (simp add: word_unat_eq_iff)
    then show ?thesis using inv True assms
      by (auto simp: buf_putbyte_def buf_incrlen_eq room_def overwrite_def Let_def max_def)
  next
    case False
    then have "unat (b_pos b) < unat (b_len b)" by (simp add: word_nat not_le)
    then show ?thesis using inv False
      by (auto simp: buf_putbyte_def room_def overwrite_def Let_def max_def)
  qed
qed

subsection \<open>Strings\<close>

lemma buf_getstring_eq:
  assumes "buf_inv b" and "4 \<le> length (unread b)" and "load32h (take 4 (unread b)) = Inr n"
  shows "buf_getstring b =
    (if n > MAX_STRING_LEN then Inl (Exit ''String too long'')
     else if unat n \<le> length (unread b) - 4
       then Inr (take (unat n) (drop 4 (unread b)) @ [0], n, advance b (4 + unat n))
     else Inl (Exit ''Bad buf_getptr''))"
proof (cases "n > MAX_STRING_LEN")
  case True
  then show ?thesis using assms by (simp add: buf_getstring_def buf_getint_ok)
next
  case False
  then have n: "unat n \<le> 1400" by (simp add: MAX_STRING_LEN_def word_nat)
  then have n1: "unat (n + 1) = Suc (unat n)"
    by (subst unat_add_no_overflow) simp_all
  have b1: "buf_inv (advance b 4)" "unread (advance b 4) = drop 4 (unread b)"
    using assms by (simp_all add: advance_inv unread_advance)
  show ?thesis
  proof (cases "unat n \<le> length (unread b) - 4")
    case True
    then have "mem_read (b_data b) (unat (b_pos (advance b 4))) (unat n) =
        Inr (take (unat n) (drop 4 (unread b)))"
      using take_unread[OF b1(1), of "unat n"] b1(2) by simp
    then show ?thesis
      using assms False n1 b1 True
      by (simp add: buf_getstring_def buf_getint_ok m_malloc_def buf_getptr_ok
          buf_incrpos_forward advance_advance)
  next
    case f: False
    then show ?thesis
      using assms False n n1 b1
      by (simp add: buf_getstring_def buf_getint_ok m_malloc_def buf_getptr_fail)
  qed
qed

lemma buf_getstring_result:
  assumes "buf_inv b" and "buf_getstring b = Inr (str, n, b')"
  shows "unat n \<le> 1400" and "4 + unat n \<le> length (unread b)"
    and "str = take (unat n) (drop 4 (unread b)) @ [0]" and "b' = advance b (4 + unat n)"
    and "load32h (take 4 (unread b)) = Inr n"
proof -
  have 4: "4 \<le> length (unread b)"
    using assms buf_getint_fail[OF assms(1)]
    by (cases "4 \<le> length (unread b)") (auto simp: buf_getstring_def)
  then obtain m where m: "load32h (take 4 (unread b)) = Inr m"
    using load32h_total[of "take 4 (unread b)"] by auto
  show "unat n \<le> 1400" "4 + unat n \<le> length (unread b)"
    "str = take (unat n) (drop 4 (unread b)) @ [0]" "b' = advance b (4 + unat n)"
    "load32h (take 4 (unread b)) = Inr n"
    using assms(2) 4 m
    by (auto simp: buf_getstring_eq[OF assms(1) 4 m] MAX_STRING_LEN_def word_nat split: if_splits)
qed

lemma buf_getstring_safe:
  assumes "buf_inv b" shows "is_safe (buf_getstring b)"
proof (cases "4 \<le> length (unread b)")
  case True
  then obtain m where "load32h (take 4 (unread b)) = Inr m"
    using load32h_total[of "take 4 (unread b)"] by auto
  then show ?thesis using assms True by (simp add: buf_getstring_eq)
next
  case False
  then show ?thesis using assms by (simp add: buf_getstring_def buf_getint_fail)
qed

lemma buf_getint_safe: "buf_inv b \<Longrightarrow> is_safe (buf_getint b)"
  using load32h_total[of "take 4 (unread b)"]
  by (cases "4 \<le> length (unread b)") (auto simp: buf_getint_ok buf_getint_fail)

lemma buf_getbyte_safe: "buf_inv b \<Longrightarrow> is_safe (buf_getbyte b)"
  by (cases "unread b") (auto simp: buf_getbyte_ok buf_getbyte_fail)

lemma buf_getbyte_result:
  assumes "buf_inv b" and "buf_getbyte b = Inr (v, b')"
  shows "\<exists>rest. unread b = v # rest" and "b' = advance b 1"
  using assms by (cases "unread b"; auto simp: buf_getbyte_ok buf_getbyte_fail)+

lemma buf_incrpos_safe:
  assumes "buf_inv b" shows "is_safe (buf_incrpos b n)"
proof -
  have "- 2147483648 \<le> sint n" using sint_greater_eq[of n] by simp
  then have "(uint (b_pos b) + sint n < - 2147483648) = False"
    using uint_ge_0[of "b_pos b"] by arith
  then show ?thesis
    using pos_sint[OF assms] by (auto simp: buf_incrpos_def sint_BUF_MAX_INCR)
qed

lemma buf_incrpos_inv:
  assumes "buf_inv b" and "buf_incrpos b n = Inr b'"
  shows "buf_inv b'"
  using assms by (auto simp: buf_incrpos_def buf_inv_def word_nat split: if_splits)

subsection \<open>Every sequence of calls keeps the invariant and stays in bounds\<close>

text \<open>
  The calls a client of \<open>buffer.c\<close> can make on one buffer. What a call asks of its caller:
  \<open>buf_setlen\<close> must not cut the buffer before its position (the code never checks it, and
  says of \<open>pos > len\<close> that it should never happen), and a copy's source must hold the bytes
  to be copied, at most 3000000000 of them (past that the sum \<open>pos + len\<close> of
  \<open>buf_getwriteptr\<close> can wrap).
\<close>

datatype buf_call =
    Setlen u32 | Incrlen u32 | Setpos u32 | Incrwritepos u32 | Incrpos u32
  | Getbyte | Getbool | Getint | Getstring | Eatstring
  | Putbyte u8 | Putint u32 | Putbytes bytes u32 | Putstring bytes u32
  | Resize "nat \<Rightarrow> u8" u32 | Burn

fun buf_call_step :: "buf_call \<Rightarrow> buffer \<Rightarrow> buffer result" where
  "buf_call_step (Setlen n) b = buf_setlen b n"
| "buf_call_step (Incrlen n) b = buf_incrlen b n"
| "buf_call_step (Setpos n) b = buf_setpos b n"
| "buf_call_step (Incrwritepos n) b = buf_incrwritepos b n"
| "buf_call_step (Incrpos n) b = buf_incrpos b n"
| "buf_call_step Getbyte b = rbind (buf_getbyte b) (\<lambda>(_, b'). Inr b')"
| "buf_call_step Getbool b = rbind (buf_getbool b) (\<lambda>(_, b'). Inr b')"
| "buf_call_step Getint b = rbind (buf_getint b) (\<lambda>(_, b'). Inr b')"
| "buf_call_step Getstring b = rbind (buf_getstring b) (\<lambda>(_, _, b'). Inr b')"
| "buf_call_step Eatstring b = buf_eatstring b"
| "buf_call_step (Putbyte v) b = buf_putbyte b v"
| "buf_call_step (Putint v) b = buf_putint b v"
| "buf_call_step (Putbytes bs n) b = buf_putbytes b bs n"
| "buf_call_step (Putstring bs n) b = buf_putstring b bs n"
| "buf_call_step (Resize junk n) b = buf_resize junk b n"
| "buf_call_step Burn b = buf_burn b"

fun buf_call_pre :: "buf_call \<Rightarrow> buffer \<Rightarrow> bool" where
  "buf_call_pre (Setlen n) b = (b_pos b \<le> n)"
| "buf_call_pre (Putbytes bs n) b = (unat n \<le> length bs \<and> unat n \<le> 3000000000)"
| "buf_call_pre (Putstring bs n) b = (unat n \<le> length bs \<and> unat n \<le> 3000000000)"
| "buf_call_pre _ b = True"

lemma buf_incrwritepos_inv:
  assumes "buf_inv b" and "buf_incrwritepos b n = Inr b'"
  shows "buf_inv b'"
proof -
  have "unat n \<le> 1000000000" "\<not> b_pos b + n > b_size b"
    using assms(2) by (auto simp: buf_incrwritepos_def BUF_MAX_INCR_def word_nat split: if_splits)
  moreover from this have "unat (b_pos b + n) = unat (b_pos b) + unat n"
    using buf_invD[OF assms(1)] by (intro unat_add_no_overflow) simp
  ultimately show ?thesis
    using assms by (auto simp: buf_incrwritepos_def Let_def buf_inv_def word_nat split: if_splits)
qed

lemma buf_resize_inv:
  assumes "buf_inv b" and "buf_resize junk b n = Inr b'"
  shows "buf_inv b'"
  using assms
  by (auto simp: buf_resize_def m_realloc_def buf_inv_def BUF_MAX_SIZE_def word_nat min_def
      split: if_splits)

lemma buf_setlen_inv: "buf_inv b \<Longrightarrow> b_pos b \<le> n \<Longrightarrow> buf_setlen b n = Inr b' \<Longrightarrow> buf_inv b'"
  by (auto simp: buf_setlen_def buf_inv_def word_nat split: if_splits)

lemma buf_setpos_inv: "buf_inv b \<Longrightarrow> buf_setpos b n = Inr b' \<Longrightarrow> buf_inv b'"
  by (auto simp: buf_setpos_def buf_inv_def word_nat split: if_splits)

lemma buf_incrlen_inv:
  assumes "buf_inv b" and "buf_incrlen b n = Inr b'"
  shows "buf_inv b'"
proof -
  have n: "unat n \<le> unat (b_size b) - unat (b_len b)" "b' = b\<lparr>b_len := b_len b + n\<rparr>"
    using assms by (auto simp: buf_incrlen_eq split: if_splits)
  have "unat (b_len b + n) = unat (b_len b) + unat n"
    using buf_invD[OF assms(1)] n(1) by (intro unat_add_no_overflow) simp
  then show ?thesis using buf_invD[OF assms(1)] n by (simp add: buf_inv_def)
qed

lemma buf_getint_inv: "buf_inv b \<Longrightarrow> buf_getint b = Inr (n, b') \<Longrightarrow> buf_inv b'"
  using buf_getint_result[of b n b'] by (simp add: advance_inv)

lemma buf_getbyte_inv: "buf_inv b \<Longrightarrow> buf_getbyte b = Inr (v, b') \<Longrightarrow> buf_inv b'"
  using buf_getbyte_result[of b v b'] by (auto simp: advance_inv)

lemma buf_getstring_inv: "buf_inv b \<Longrightarrow> buf_getstring b = Inr (str, n, b') \<Longrightarrow> buf_inv b'"
  using buf_getstring_result[of b str n b'] by (simp add: advance_inv)

lemma buf_eatstring_inv: "buf_inv b \<Longrightarrow> buf_eatstring b = Inr b' \<Longrightarrow> buf_inv b'"
  by (auto simp: buf_eatstring_def result_simps dest: buf_getint_inv buf_incrpos_inv)

lemma buf_getbool_eq: "buf_getbool b = rbind (buf_getbyte b) (\<lambda>(v, b'). Inr (if v = 0 then 0 else 1, b'))"
  by (auto simp: buf_getbool_def intro!: rbind_cong split: prod.splits)

lemma buf_eatstring_safe: "buf_inv b \<Longrightarrow> is_safe (buf_eatstring b)"
  unfolding buf_eatstring_def
  by (rule is_safe_rbind) (auto simp: buf_getint_safe dest: buf_getint_inv intro: buf_incrpos_safe)

lemma buf_burn_inv: "buf_inv b \<Longrightarrow> \<exists>d. buf_burn b = Inr (b\<lparr>b_data := d\<rparr>) \<and> length d = length (b_data b)"
  using buf_invD[of b] by (auto simp: buf_burn_def m_burn_def)

lemma buf_call_keeps_inv:
  assumes "buf_inv b" and "buf_call_pre c b" and "buf_call_step c b = Inr b'"
  shows "buf_inv b'"
proof (cases c)
  case Burn
  then show ?thesis using assms buf_burn_inv[OF assms(1)] by (auto simp: buf_inv_def)
next
  case Getbyte
  then show ?thesis using assms by (auto simp: result_simps dest: buf_getbyte_inv)
next
  case Getbool
  then show ?thesis using assms by (auto simp: buf_getbool_eq result_simps dest: buf_getbyte_inv)
next
  case Getint
  then show ?thesis using assms by (auto simp: result_simps dest: buf_getint_inv)
next
  case Getstring
  then show ?thesis using assms by (auto simp: result_simps dest: buf_getstring_inv)
next
  case (Putbytes bs n)
  then show ?thesis using assms by (auto simp: buf_putbytes_eq overwrite_inv split: if_splits)
next
  case (Putstring bs n)
  then show ?thesis using assms by (auto simp: buf_putstring_eq overwrite_inv split: if_splits)
next
  case (Putint v)
  then show ?thesis using assms by (auto simp: buf_putint_eq overwrite_inv split: if_splits)
next
  case (Putbyte v)
  then show ?thesis using assms by (auto simp: buf_putbyte_eq overwrite_inv split: if_splits)
next
  case (Setlen n)
  then show ?thesis using assms buf_setlen_inv[of b n b'] by simp
next
  case (Incrlen n)
  then show ?thesis using assms buf_incrlen_inv[of b n b'] by simp
next
  case (Setpos n)
  then show ?thesis using assms buf_setpos_inv[of b n b'] by simp
next
  case (Incrwritepos n)
  then show ?thesis using assms buf_incrwritepos_inv[of b n b'] by simp
next
  case (Incrpos n)
  then show ?thesis using assms buf_incrpos_inv[of b n b'] by simp
next
  case (Resize junk n)
  then show ?thesis using assms buf_resize_inv[of b junk n b'] by simp
next
  case Eatstring
  then show ?thesis using assms buf_eatstring_inv[of b b'] by simp
qed

lemma buf_call_is_safe:
  assumes "buf_inv b" and "buf_call_pre c b"
  shows "is_safe (buf_call_step c b)"
proof (cases c)
  case Burn
  then show ?thesis using buf_burn_inv[OF assms(1)] by auto
next
  case (Resize junk n)
  then show ?thesis by (simp add: buf_resize_def m_realloc_def)
qed (use assms in \<open>auto simp: buf_setlen_def buf_incrlen_def buf_setpos_def buf_incrwritepos_def
      Let_def buf_getbool_eq buf_putbyte_eq buf_putint_eq buf_putbytes_eq buf_putstring_eq
      intro!: is_safe_rbind buf_getint_safe buf_getbyte_safe buf_getstring_safe buf_eatstring_safe
        buf_incrpos_safe\<close>)

interpretation buf_machine: checked_machine buf_call_step buf_call_pre buf_inv
  by unfold_locales (rule buf_call_keeps_inv, assumption+, rule buf_call_is_safe)

lemma buf_new_inv:
  assumes "buf_new n = Inr b"
  shows "buf_inv b" and "b_len b = 0" and "b_pos b = 0" and "b_size b = n"
    and "b_data b = replicate (unat n) 0"
  using assms
  by (auto simp: buf_new_def m_malloc_def buf_inv_def BUF_MAX_SIZE_def word_nat split: if_splits)

lemma buf_new_eq:
  "unat n \<le> 1000000000 \<Longrightarrow>
     buf_new n = Inr \<lparr>b_data = replicate (unat n) 0, b_len = 0, b_pos = 0, b_size = n\<rparr>"
  by (auto simp: buf_new_def m_malloc_def BUF_MAX_SIZE_def word_nat unat_eq_0)

subsection \<open>The wire codec interface\<close>

locale wire_codec =
  fixes put :: "'a \<Rightarrow> buffer \<Rightarrow> buffer result"
    and get :: "buffer \<Rightarrow> ('a \<times> buffer) result"
    and enc :: "'a \<Rightarrow> bytes"
    and valid :: "'a \<Rightarrow> bool"
  assumes put_enc: "buf_inv b \<Longrightarrow> valid x \<Longrightarrow> length (enc x) \<le> room b \<Longrightarrow> put x b = Inr (overwrite b (enc x))"
    and put_full: "buf_inv b \<Longrightarrow> valid x \<Longrightarrow> room b < length (enc x) \<Longrightarrow> \<exists>m. put x b = Inl (Exit m)"
    and get_enc: "buf_inv b \<Longrightarrow> valid x \<Longrightarrow> unread b = enc x @ rest \<Longrightarrow>
                    get b = Inr (x, advance b (length (enc x)))"
begin

text \<open>Writing past the room exits; a value that fits is read back from where it was written.\<close>

lemma put_ok_iff: "buf_inv b \<Longrightarrow> valid x \<Longrightarrow> is_ok (put x b) \<longleftrightarrow> length (enc x) \<le> room b"
  using put_enc[of b x] put_full[of b x] by (cases "length (enc x) \<le> room b") auto

lemma put_then_get:
  assumes "buf_inv b" and "valid x" and "length (enc x) \<le> room b"
  shows "rbind (put x b) (\<lambda>b'. rbind (buf_setpos b' (b_pos b)) get) = Inr (x, overwrite b (enc x))"
proof -
  let ?w = "overwrite b (enc x)"
  note f = overwrite_fields[OF assms(1,3)]
  have sp: "buf_setpos ?w (b_pos b) = Inr (?w\<lparr>b_pos := b_pos b\<rparr>)"
    using f by (simp add: buf_setpos_def word_nat)
  have inv: "buf_inv (?w\<lparr>b_pos := b_pos b\<rparr>)"
    by (rule buf_setpos_inv[OF overwrite_inv[OF assms(1,3)] sp])
  have "unread (?w\<lparr>b_pos := b_pos b\<rparr>) = enc x @ drop (unat (b_pos b) + length (enc x)) (contents ?w)"
    (is "_ = ?r")
  proof -
    have "take (unat (b_pos b) + length (enc x)) (contents ?w) = written b @ enc x"
      using written_overwrite[OF assms(1,3)] f by (simp add: written_def contents_def)
    then have "contents ?w = (written b @ enc x) @ drop (unat (b_pos b) + length (enc x)) (contents ?w)"
      by (metis append_take_drop_id)
    then have "drop (unat (b_pos b)) (contents ?w) =
        drop (unat (b_pos b)) ((written b @ enc x) @ drop (unat (b_pos b) + length (enc x)) (contents ?w))"
      by (rule arg_cong)
    also have "\<dots> = ?r" using length_written[OF assms(1)] by simp
    finally show ?thesis by (simp add: unread_def contents_def)
  qed
  then have "get (?w\<lparr>b_pos := b_pos b\<rparr>) = Inr (x, advance (?w\<lparr>b_pos := b_pos b\<rparr>) (length (enc x)))"
    by (rule get_enc[OF inv assms(2)])
  moreover have "advance (?w\<lparr>b_pos := b_pos b\<rparr>) (length (enc x)) = ?w"
    by (simp add: advance_def overwrite_def Let_def)
  ultimately show ?thesis using assms sp by (simp add: put_enc)
qed

end

definition buf_put_str :: "bytes \<Rightarrow> buffer \<Rightarrow> buffer result" where
  "buf_put_str bs b = buf_putstring b bs (of_nat (length bs))"

definition buf_get_str :: "buffer \<Rightarrow> (bytes \<times> buffer) result" where
  "buf_get_str b = rbind (buf_getstring b) (\<lambda>(str, n, b'). Inr (take (unat n) str, b'))"

interpretation byte_codec: wire_codec "\<lambda>v b. buf_putbyte b v" buf_getbyte "\<lambda>v. [v]" "\<lambda>_. True"
  by unfold_locales (simp_all add: buf_putbyte_eq buf_getbyte_ok)

interpretation bool_codec: wire_codec "\<lambda>v b. buf_putbyte b (if v then 1 else 0)"
  "\<lambda>b. rbind (buf_getbool b) (\<lambda>(v, b'). Inr (v = 1, b'))" "\<lambda>v. [if v then 1 else 0]" "\<lambda>_. True"
  by unfold_locales (auto simp: buf_putbyte_eq buf_getbool_eq buf_getbyte_ok)

interpretation int_codec: wire_codec "\<lambda>v b. buf_putint b v" buf_getint store32h "\<lambda>_. True"
  by unfold_locales (simp_all add: buf_putint_eq buf_getint_ok)

interpretation str_codec: wire_codec buf_put_str buf_get_str
  "\<lambda>bs. store32h (of_nat (length bs)) @ bs" "\<lambda>bs. length bs \<le> 1400"
proof unfold_locales
  fix b and x :: bytes assume "buf_inv b" "length x \<le> 1400"
  then show "length (store32h (of_nat (length x)) @ x) \<le> room b \<Longrightarrow>
      buf_put_str x b = Inr (overwrite b (store32h (of_nat (length x)) @ x))"
    and "room b < length (store32h (of_nat (length x)) @ x) \<Longrightarrow> \<exists>m. buf_put_str x b = Inl (Exit m)"
    by (simp_all add: buf_put_str_def buf_putstring_eq unat_of_nat_u32)
next
  fix b and x rest :: bytes
  assume a: "buf_inv b" "length x \<le> 1400" "unread b = (store32h (of_nat (length x)) @ x) @ rest"
  have "load32h (take 4 (unread b)) = Inr (of_nat (length x))"
    using a(3) by simp
  moreover have "\<not> (of_nat (length x) :: u32) > MAX_STRING_LEN"
    using a(2) by (simp add: MAX_STRING_LEN_def word_nat)
  ultimately show "buf_get_str b = Inr (x, advance b (length (store32h (of_nat (length x)) @ x)))"
    using a by (simp add: buf_get_str_def buf_getstring_eq unat_of_nat_u32)
qed

subsection \<open>Buffers in explicit form\<close>

text \<open>
  A buffer given by its block and the numbers in its fields, with what each operation does to
  them: the form in which the layers above compute with buffers.
\<close>

definition patch :: "bytes \<Rightarrow> nat \<Rightarrow> bytes \<Rightarrow> bytes" where
  "patch d p bs = take p d @ bs @ drop (p + length bs) d"

definition mkbuf :: "bytes \<Rightarrow> nat \<Rightarrow> nat \<Rightarrow> nat \<Rightarrow> buffer" where
  "mkbuf d l p z = \<lparr>b_data = d, b_len = of_nat l, b_pos = of_nat p, b_size = of_nat z\<rparr>"

definition mk_ok :: "bytes \<Rightarrow> nat \<Rightarrow> nat \<Rightarrow> nat \<Rightarrow> bool" where
  "mk_ok d l p z \<longleftrightarrow> p \<le> l \<and> l \<le> z \<and> z \<le> length d \<and> z \<le> 1000000000"

lemma mk_okD:
  assumes "mk_ok d l p z"
  shows "unat (of_nat p :: u32) = p" "unat (of_nat l :: u32) = l" "unat (of_nat z :: u32) = z"
    "p \<le> l" "l \<le> z" "z \<le> length d" "z \<le> 1000000000"
  using assms by (simp_all add: mk_ok_def unat_of_nat_u32)

lemma mkbuf_fields [simp]:
  "b_data (mkbuf d l p z) = d" "b_len (mkbuf d l p z) = of_nat l" "b_pos (mkbuf d l p z) = of_nat p"
  "b_size (mkbuf d l p z) = of_nat z" "(mkbuf d l p z)\<lparr>b_data := d'\<rparr> = mkbuf d' l p z"
  by (simp_all add: mkbuf_def)

lemma mk_inv: "mk_ok d l p z \<Longrightarrow> buf_inv (mkbuf d l p z)"
  using mk_okD[of d l p z] by (simp add: buf_inv_def)

lemma buf_inv_mkbuf: "buf_inv b \<Longrightarrow> b = mkbuf (b_data b) (unat (b_len b)) (unat (b_pos b)) (unat (b_size b)) \<and>
    mk_ok (b_data b) (unat (b_len b)) (unat (b_pos b)) (unat (b_size b))"
  by (simp add: mkbuf_def mk_ok_def buf_inv_def)

lemma length_patch [simp]: "p + length bs \<le> length d \<Longrightarrow> length (patch d p bs) = length d"
  by (simp add: patch_def)

lemma mem_write_patch: "p + length bs \<le> length d \<Longrightarrow> mem_write d p bs = Inr (patch d p bs)"
  by (simp add: patch_def)

lemma take_patch: "p + length bs \<le> length d \<Longrightarrow> take (p + length bs) (patch d p bs) = take p d @ bs"
  by (simp add: patch_def)

lemma room_mk: "mk_ok d l p z \<Longrightarrow> room (mkbuf d l p z) = z - p"
  using mk_okD[of d l p z] by (simp add: room_def)

lemma unread_mk: "mk_ok d l p z \<Longrightarrow> unread (mkbuf d l p z) = drop p (take l d)"
  using mk_okD[of d l p z] by (simp add: unread_def)

lemma contents_mk: "mk_ok d l p z \<Longrightarrow> contents (mkbuf d l p z) = take l d"
  using mk_okD[of d l p z] by (simp add: contents_def)

lemma overwrite_mk:
  "mk_ok d l p z \<Longrightarrow> overwrite (mkbuf d l p z) bs = mkbuf (patch d p bs) (max (p + length bs) l) (p + length bs) z"
  using mk_okD[of d l p z] by (simp add: overwrite_def Let_def mkbuf_def patch_def)

lemma advance_mk: "advance (mkbuf d l p z) n = mkbuf d l (p + n) z"
  by (simp add: advance_def mkbuf_def)

lemma mk_setpos: "mk_ok d l p z \<Longrightarrow> unat w \<le> l \<Longrightarrow> buf_setpos (mkbuf d l p z) w = Inr (mkbuf d l (unat w) z)"
  using mk_okD[of d l p z] by (simp add: buf_setpos_def word_nat mkbuf_def)

lemma mk_setlen: "mk_ok d l p z \<Longrightarrow> unat w \<le> z \<Longrightarrow> buf_setlen (mkbuf d l p z) w = Inr (mkbuf d (unat w) p z)"
  using mk_okD[of d l p z] by (simp add: buf_setlen_def word_nat mkbuf_def)

lemma mk_incrlen:
  assumes "mk_ok d l p z" and "l + unat w \<le> z"
  shows "buf_incrlen (mkbuf d l p z) w = Inr (mkbuf d (l + unat w) p z)"
  using mk_okD[OF assms(1)] assms(2) by (subst buf_incrlen_eq[OF mk_inv[OF assms(1)]]) (simp add: mkbuf_def)

lemma mk_getptr: "mk_ok d l p z \<Longrightarrow> p + unat w \<le> l \<Longrightarrow> buf_getptr (mkbuf d l p z) w = Inr p"
  using mk_okD[of d l p z] buf_getptr_ok[OF mk_inv, of d l p z w] by (simp add: unread_mk)

lemma mk_getwriteptr: "mk_ok d l p z \<Longrightarrow> p + unat w \<le> z \<Longrightarrow> buf_getwriteptr (mkbuf d l p z) w = Inr p"
  using mk_okD[of d l p z] by (simp add: buf_getwriteptr_eq[OF mk_inv] room_mk)

lemma mk_incrpos: "mk_ok d l p z \<Longrightarrow> p + unat w \<le> l \<Longrightarrow> buf_incrpos (mkbuf d l p z) w = Inr (mkbuf d l (p + unat w) z)"
  using mk_okD[of d l p z] buf_incrpos_forward[OF mk_inv, of d l p z w] by (simp add: unread_mk advance_mk)

lemma mk_incrwritepos:
  assumes "mk_ok d l p z" and "p + unat w \<le> z"
  shows "buf_incrwritepos (mkbuf d l p z) w = Inr (mkbuf d (max l (p + unat w)) (p + unat w) z)"
proof -
  note m = mk_okD[OF assms(1)]
  have u: "unat (of_nat p + w) = p + unat w" using m assms(2) by (subst unat_add_no_overflow) simp_all
  have w: "(of_nat p + w :: u32) = of_nat (p + unat w)" by simp
  show ?thesis using m assms(2) u
    by (auto simp: buf_incrwritepos_def Let_def word_nat BUF_MAX_INCR_def mkbuf_def max_def w simp del: of_nat_add)
qed

lemma mk_putint:
  "mk_ok d l p z \<Longrightarrow> p + 4 \<le> z \<Longrightarrow>
     buf_putint (mkbuf d l p z) v = Inr (mkbuf (patch d p (store32h v)) (max (p + 4) l) (p + 4) z)"
  by (simp add: buf_putint_eq[OF mk_inv] room_mk overwrite_mk)

lemma mk_putbyte:
  "mk_ok d l p z \<Longrightarrow> p + 1 \<le> z \<Longrightarrow>
     buf_putbyte (mkbuf d l p z) v = Inr (mkbuf (patch d p [v]) (max (p + 1) l) (p + 1) z)"
  by (simp add: buf_putbyte_eq[OF mk_inv] room_mk overwrite_mk)

lemma mk_putbytes:
  assumes "mk_ok d l p z" and "p + unat n \<le> z" and "unat n \<le> length bs"
  shows "buf_putbytes (mkbuf d l p z) bs n =
    Inr (mkbuf (patch d p (take (unat n) bs)) (max (p + unat n) l) (p + unat n) z)"
  using assms mk_okD[OF assms(1)] by (simp add: buf_putbytes_eq[OF mk_inv] room_mk overwrite_mk)

lemma mk_new: "unat n \<le> 1000000000 \<Longrightarrow> buf_new n = Inr (mkbuf (replicate (unat n) 0) 0 0 (unat n))"
  by (simp add: buf_new_eq mkbuf_def)

lemma mk_getbyte:
  assumes "mk_ok d l p z" and "p < l"
  shows "buf_getbyte (mkbuf d l p z) = Inr (d ! p, mkbuf d l (p + 1) z)"
proof -
  have "unread (mkbuf d l p z) = d ! p # drop (Suc p) (take l d)"
    using assms mk_okD[OF assms(1)] by (simp add: unread_mk Cons_nth_drop_Suc[symmetric])
  then show ?thesis using buf_getbyte_ok[OF mk_inv[OF assms(1)]] by (simp add: advance_mk)
qed

subsection \<open>Properties\<close>

text \<open>The operations as rewrite rules, to evaluate them on a concrete buffer.\<close>

lemmas buf_eval = buf_new_def buf_burn_def buf_resize_def buf_newcopy_def buf_setlen_def
  buf_incrlen_def buf_setpos_def buf_incrwritepos_def buf_incrpos_def buf_getbyte_def
  buf_getbool_def buf_putbyte_def buf_getptr_def buf_getwriteptr_def buf_getint_def buf_putint_def
  buf_getstring_def buf_getstringbuf_def buf_eatstring_def buf_putbytes_def buf_putstring_def
  m_malloc_def m_realloc_def m_burn_def mem_read_def mem_write_def store32h_def
  BUF_MAX_INCR_def BUF_MAX_SIZE_def MAX_STRING_LEN_def



text \<open>
  A string of at most 1400 bytes that \<open>buf_putstring\<close> writes where there is room for it
  is what \<open>buf_getstring\<close> returns from the same position, and both leave the buffer at the
  same place.
\<close>
theorem string_roundtrip:
  assumes "buf_inv b" and "length str \<le> 1400" and "4 + length str \<le> room b"
  shows "rbind (buf_putstring b str (of_nat (length str))) (\<lambda>b1.
         rbind (buf_setpos b1 (b_pos b)) (\<lambda>b2.
         rbind (buf_getstring b2) (\<lambda>(ret, retlen, b3). Inr (take (unat retlen) ret, b3)))) =
         Inr (str, overwrite b (store32h (of_nat (length str)) @ str))"
  using str_codec.put_then_get[of b str] assms
  by (simp add: buf_put_str_def buf_get_str_def[abs_def])

theorem string_roundtrip_witness:
  "rbind (buf_putstring \<lparr>b_data = replicate 16 0, b_len = 0, b_pos = 0, b_size = 16\<rparr> [104, 105] 2)
     (\<lambda>b1. rbind (buf_setpos b1 0) (\<lambda>b2.
      rbind (buf_getstring b2) (\<lambda>(ret, retlen, b3). Inr (take (unat retlen) ret, b3)))) =
   Inr ([104, 105], \<lparr>b_data = [0, 0, 0, 2, 104, 105] @ replicate 10 0,
                     b_len = 6, b_pos = 6, b_size = 16\<rparr>)"
proof -
  let ?b = "\<lparr>b_data = replicate 16 0, b_len = 0, b_pos = 0, b_size = 16\<rparr>"
  have inv: "buf_inv ?b" "4 + length [104, 105 :: u8] \<le> room ?b"
    by (simp_all add: buf_inv_def room_def)
  have "overwrite ?b (store32h (of_nat (length [104, 105 :: u8])) @ [104, 105]) =
      \<lparr>b_data = [0, 0, 0, 2, 104, 105] @ replicate 10 0, b_len = 6, b_pos = 6, b_size = 16\<rparr>"
    by (simp add: overwrite_def store32h_def)
  then show ?thesis using string_roundtrip[OF inv(1) _ inv(2)] by simp
qed

text \<open>
  On a string that \<open>buf_getstring\<close> accepts, \<open>buf_eatstring\<close> moves the buffer to the
  same position without copying it.
\<close>
theorem eatstring_agrees_with_getstring:
  assumes "buf_inv b" and "buf_getstring b = Inr (str, n, b')"
  shows "buf_eatstring b = Inr b'"
proof -
  note r = buf_getstring_result[OF assms]
  have "buf_inv (advance b 4)" "unat n \<le> length (unread (advance b 4))"
    using assms(1) r(2) by (simp_all add: advance_inv unread_advance)
  then show ?thesis
    using assms(1) r by (simp add: buf_eatstring_def buf_getint_ok buf_incrpos_forward advance_advance)
qed

theorem eatstring_agrees_with_getstring_witness:
  "buf_eatstring \<lparr>b_data = [0, 0, 0, 1, 65, 9], b_len = 6, b_pos = 0, b_size = 6\<rparr> =
   Inr \<lparr>b_data = [0, 0, 0, 1, 65, 9], b_len = 6, b_pos = 5, b_size = 6\<rparr>"
  by (rule eatstring_agrees_with_getstring[where str = "[65, 0]" and n = 1])
     (simp_all add: buf_eval buf_inv_def)

text \<open>
  \<open>buf_eatstring\<close> is not "the same as if we'd used \<open>buf_getstring\<close>" on every input: the
  length field is converted to a signed int, so a length with its top bit set moves the
  position backwards, to a place before the length field itself, where \<open>buf_getstring\<close> exits.
\<close>
theorem eatstring_can_move_backwards:
  "\<exists>b b'. buf_inv b \<and> buf_eatstring b = Inr b' \<and> b_pos b' < b_pos b \<and>
     buf_getstring b = Inl (Exit ''String too long'')"
proof -
  let ?b = "\<lparr>b_data = [0, 0, 0, 0, 255, 255, 255, 248], b_len = 8, b_pos = 4, b_size = 8\<rparr>"
  have "buf_inv ?b" "buf_eatstring ?b = Inr (?b\<lparr>b_pos := 0\<rparr>)"
    "buf_getstring ?b = Inl (Exit ''String too long'')" "b_pos (?b\<lparr>b_pos := 0\<rparr>) < b_pos ?b"
    by (simp_all add: buf_eval buf_inv_def)
  then show ?thesis by blast
qed

text \<open>
  \<open>buf_newcopy\<close> of a buffer within its invariant always succeeds, with a copy that has the
  same used bytes, is rewound to position 0 and is sized to the used length.
\<close>
theorem newcopy_contents:
  assumes "buf_inv b"
  shows "\<exists>c. buf_newcopy b = Inr c \<and> contents c = contents b \<and> b_pos c = 0 \<and>
           b_len c = b_len b \<and> b_size c = b_len b \<and> buf_inv c"
proof -
  note inv = buf_invD[OF assms]
  have "unat (b_len b) \<le> 1000000000" using inv by simp
  then show ?thesis
    using inv by (auto simp: buf_newcopy_def buf_new_eq contents_def buf_inv_def)
qed

theorem newcopy_contents_witness:
  "\<exists>c. buf_newcopy \<lparr>b_data = [1, 2, 3, 4], b_len = 2, b_pos = 1, b_size = 4\<rparr> = Inr c \<and>
       contents c = [1, 2]"
  using newcopy_contents[of "\<lparr>b_data = [1, 2, 3, 4], b_len = 2, b_pos = 1, b_size = 4\<rparr>"]
  by (auto simp: buf_inv_def contents_def)

end
