(* ===== verification/CircBuffer.thy ===== *)
theory CircBuffer
  imports Buffer
begin

text \<open>
  The circular buffer of \<^verbatim>\<open>src/reconos/dropbear/circbuffer.c\<close>, which holds the data a channel
  has received for its local program. \<open>struct circbuf\<close> is the record \<open>circbuffer\<close>. The
  modulo operations of the assertions and of the position updates divide by \<open>size\<close>, which is 0
  for a channel whose buffer is not set up yet: the model returns \<open>DivByZero\<close> there. The theory
  states the first-in first-out contract as the locale \<open>byte_fifo\<close> and interprets it with the
  list of stored bytes as the abstraction.
\<close>

record circbuffer =
  cb_size :: u32
  cb_readpos :: u32
  cb_writepos :: u32
  cb_used :: u32
  cb_data :: bytes

definition MAX_CBUF_SIZE :: u32 where "MAX_CBUF_SIZE = 100000000"

definition cbuf_new :: "u32 \<Rightarrow> circbuffer result" where
  "cbuf_new n =
     (if n > MAX_CBUF_SIZE then Inl (Exit ''Bad cbuf size'')
      else rbind (if n > 0 then m_malloc (unat n) else Inr [])
        (\<lambda>d. Inr \<lparr>cb_size = n, cb_readpos = 0, cb_writepos = 0, cb_used = 0, cb_data = d\<rparr>))"

text \<open>\<open>cbuf_free\<close> clears the data before it releases the block; the cleared block is the result.\<close>

definition cbuf_free :: "circbuffer \<Rightarrow> bytes result" where
  "cbuf_free cb = m_burn (cb_data cb) (unat (cb_size cb))"

definition cbuf_getused :: "circbuffer \<Rightarrow> u32" where
  "cbuf_getused cb = cb_used cb"

definition cbuf_getavail :: "circbuffer \<Rightarrow> u32" where
  "cbuf_getavail cb = cb_size cb - cb_used cb"

definition u32_mod :: "u32 \<Rightarrow> u32 \<Rightarrow> u32 result" where
  "u32_mod a b = (if b = 0 then Inl DivByZero else Inr (a mod b))"

text \<open>The two position assertions that \<open>cbuf_readlen\<close> and \<open>cbuf_writelen\<close> share.\<close>

definition cbuf_assert_positions :: "circbuffer \<Rightarrow> unit result" where
  "cbuf_assert_positions cb =
     rbind (u32_mod (2 * cb_size cb + cb_writepos cb - cb_readpos cb) (cb_size cb)) (\<lambda>a.
     rbind (u32_mod (cb_used cb) (cb_size cb)) (\<lambda>b.
     rbind (require (a = b) (Assert ''writepos-readpos'')) (\<lambda>_.
     rbind (u32_mod (2 * cb_size cb + cb_readpos cb - cb_writepos cb) (cb_size cb)) (\<lambda>c.
     rbind (u32_mod (cb_size cb - cb_used cb) (cb_size cb)) (\<lambda>d.
     require (c = d) (Assert ''readpos-writepos''))))))"

definition cbuf_readlen :: "circbuffer \<Rightarrow> u32 result" where
  "cbuf_readlen cb =
     rbind (cbuf_assert_positions cb) (\<lambda>_.
     Inr (if cb_used cb = 0 then 0
          else if cb_readpos cb < cb_writepos cb then cb_writepos cb - cb_readpos cb
          else cb_size cb - cb_readpos cb))"

definition cbuf_writelen :: "circbuffer \<Rightarrow> u32 result" where
  "cbuf_writelen cb =
     rbind (require (cb_used cb \<le> cb_size cb) (Assert ''used <= size'')) (\<lambda>_.
     rbind (cbuf_assert_positions cb) (\<lambda>_.
     Inr (if cb_used cb = cb_size cb then 0
          else if cb_writepos cb < cb_readpos cb then cb_readpos cb - cb_writepos cb
          else cb_size cb - cb_writepos cb)))"

definition cbuf_readptr :: "circbuffer \<Rightarrow> u32 \<Rightarrow> nat result" where
  "cbuf_readptr cb n =
     rbind (cbuf_readlen cb) (\<lambda>m.
     if n > m then Inl (Exit ''Bad cbuf read'') else Inr (unat (cb_readpos cb)))"

definition cbuf_writeptr :: "circbuffer \<Rightarrow> u32 \<Rightarrow> nat result" where
  "cbuf_writeptr cb n =
     rbind (cbuf_writelen cb) (\<lambda>m.
     if n > m then Inl (Exit ''Bad cbuf write'') else Inr (unat (cb_writepos cb)))"

definition cbuf_incrwrite :: "circbuffer \<Rightarrow> u32 \<Rightarrow> circbuffer result" where
  "cbuf_incrwrite cb n =
     rbind (cbuf_writelen cb) (\<lambda>m.
     if n > m then Inl (Exit ''Bad cbuf write'')
     else rbind (require (cb_used cb + n \<le> cb_size cb) (Assert ''used <= size'')) (\<lambda>_.
          rbind (u32_mod (cb_writepos cb + n) (cb_size cb)) (\<lambda>w.
          Inr (cb\<lparr>cb_used := cb_used cb + n, cb_writepos := w\<rparr>))))"

definition cbuf_incrread :: "circbuffer \<Rightarrow> u32 \<Rightarrow> circbuffer result" where
  "cbuf_incrread cb n =
     rbind (cbuf_readlen cb) (\<lambda>m.
     if n > m then Inl (Exit ''Bad cbuf read'')
     else rbind (require (cb_used cb \<ge> n) (Assert ''used >= len'')) (\<lambda>_.
          rbind (u32_mod (cb_readpos cb + n) (cb_size cb)) (\<lambda>r.
          Inr (cb\<lparr>cb_used := cb_used cb - n, cb_readpos := r\<rparr>))))"

text \<open>
  The two idioms of the clients: \<open>memcpy\<close> to \<open>cbuf_writeptr\<close> followed by \<open>cbuf_incrwrite\<close>
  (\<open>common_recv_msg_channel_data\<close>), and a use of the bytes at \<open>cbuf_readptr\<close> followed by
  \<open>cbuf_incrread\<close> (\<open>writechannel\<close>).
\<close>

definition cbuf_push :: "bytes \<Rightarrow> circbuffer \<Rightarrow> circbuffer result" where
  "cbuf_push bs cb =
     rbind (cbuf_writeptr cb (of_nat (length bs))) (\<lambda>p.
     rbind (mem_write (cb_data cb) p bs) (\<lambda>d.
     cbuf_incrwrite (cb\<lparr>cb_data := d\<rparr>) (of_nat (length bs))))"

definition cbuf_peek :: "u32 \<Rightarrow> circbuffer \<Rightarrow> bytes result" where
  "cbuf_peek n cb = rbind (cbuf_readptr cb n) (\<lambda>p. mem_read (cb_data cb) p (unat n))"

subsection \<open>Invariant and abstraction\<close>

definition cbuf_inv :: "circbuffer \<Rightarrow> bool" where
  "cbuf_inv cb \<longleftrightarrow>
     0 < unat (cb_size cb) \<and> unat (cb_size cb) \<le> 100000000 \<and>
     unat (cb_used cb) \<le> unat (cb_size cb) \<and> length (cb_data cb) = unat (cb_size cb) \<and>
     unat (cb_readpos cb) < unat (cb_size cb) \<and>
     unat (cb_writepos cb) = (unat (cb_readpos cb) + unat (cb_used cb)) mod unat (cb_size cb)"

definition cbuf_list :: "circbuffer \<Rightarrow> bytes" where
  "cbuf_list cb =
     map (\<lambda>i. cb_data cb ! ((unat (cb_readpos cb) + i) mod unat (cb_size cb)))
       [0..<unat (cb_used cb)]"

lemma cbuf_invD:
  assumes "cbuf_inv cb"
  shows "0 < unat (cb_size cb)" "unat (cb_size cb) \<le> 100000000"
    "unat (cb_used cb) \<le> unat (cb_size cb)" "length (cb_data cb) = unat (cb_size cb)"
    "unat (cb_readpos cb) < unat (cb_size cb)"
    "unat (cb_writepos cb) = (unat (cb_readpos cb) + unat (cb_used cb)) mod unat (cb_size cb)"
    "unat (cb_writepos cb) < unat (cb_size cb)"
  using assms by (auto simp: cbuf_inv_def)

lemma length_cbuf_list [simp]: "length (cbuf_list cb) = unat (cb_used cb)"
  by (simp add: cbuf_list_def)

lemma u32_of_nat_eqI: "unat (w :: u32) = n \<Longrightarrow> w = of_nat n"
  by auto

lemma wrap_cases:
  fixes r u s :: nat
  assumes "r < s" and "u \<le> s"
  shows "(r + u) mod s = (if r + u < s then r + u else r + u - s)"
  using assms by (auto simp: mod_if)

lemma cbuf_assert_positions_ok:
  assumes "cbuf_inv cb"
  shows "cbuf_assert_positions cb = Inr ()"
proof -
  note inv = cbuf_invD[OF assms]
  let ?s = "unat (cb_size cb)" and ?r = "unat (cb_readpos cb)" and ?w = "unat (cb_writepos cb)"
    and ?u = "unat (cb_used cb)"
  have w: "?w = (if ?r + ?u < ?s then ?r + ?u else ?r + ?u - ?s)"
    using inv by (simp add: wrap_cases)
  have s2: "unat (2 * cb_size cb) = 2 * ?s"
    using inv by (simp add: unat_word_ariths)
  have a: "unat (2 * cb_size cb + cb_writepos cb - cb_readpos cb) = 2 * ?s + ?w - ?r"
    using inv(1-5,7) s2 by (simp add: word_nat)
  have b: "unat (2 * cb_size cb + cb_readpos cb - cb_writepos cb) = 2 * ?s + ?r - ?w"
    using inv(1-5,7) s2 by (simp add: word_nat)
  have c: "unat (cb_size cb - cb_used cb) = ?s - ?u"
    using inv by (simp add: word_nat)
  have m1: "(2 * ?s + ?w - ?r) mod ?s = ?u mod ?s"
  proof (cases "?r + ?u < ?s")
    case True
    then have "2 * ?s + ?w - ?r = ?u + 2 * ?s" using w by simp
    then show ?thesis by simp
  next
    case False
    then have "2 * ?s + ?w - ?r = ?u + ?s" using w inv by simp
    then show ?thesis by simp
  qed
  have m2: "(2 * ?s + ?r - ?w) mod ?s = (?s - ?u) mod ?s"
  proof (cases "?r + ?u < ?s")
    case True
    then have "2 * ?s + ?r - ?w = (?s - ?u) + ?s" using w inv by simp
    then show ?thesis by simp
  next
    case False
    then have "2 * ?s + ?r - ?w = (?s - ?u) + 2 * ?s" using w inv by simp
    then show ?thesis by simp
  qed
  have "cb_size cb \<noteq> 0" using inv(1) by auto
  then show ?thesis
    using m1 m2 by (simp add: cbuf_assert_positions_def u32_mod_def word_unat_eq_iff unat_mod a b c)
qed

lemma cbuf_readlen_eq:
  assumes "cbuf_inv cb"
  shows "cbuf_readlen cb =
    Inr (of_nat (min (unat (cb_used cb)) (unat (cb_size cb) - unat (cb_readpos cb))))"
proof -
  note inv = cbuf_invD[OF assms]
  have "unat (if cb_used cb = 0 then 0
        else if cb_readpos cb < cb_writepos cb then cb_writepos cb - cb_readpos cb
        else cb_size cb - cb_readpos cb) =
      min (unat (cb_used cb)) (unat (cb_size cb) - unat (cb_readpos cb))"
    using inv(1-5) inv(6)[unfolded wrap_cases[OF inv(5,3)]]
    by (auto simp: word_nat min_def unat_eq_0 split: if_splits)
  from u32_of_nat_eqI[OF this] show ?thesis
    by (simp only: cbuf_readlen_def cbuf_assert_positions_ok[OF assms] rbind_simps)
qed

lemma cbuf_writelen_eq:
  assumes "cbuf_inv cb"
  shows "cbuf_writelen cb =
    Inr (of_nat (min (unat (cb_size cb) - unat (cb_used cb))
                     (unat (cb_size cb) - unat (cb_writepos cb))))"
proof -
  note inv = cbuf_invD[OF assms]
  have "unat (if cb_used cb = cb_size cb then 0
        else if cb_writepos cb < cb_readpos cb then cb_readpos cb - cb_writepos cb
        else cb_size cb - cb_writepos cb) =
      min (unat (cb_size cb) - unat (cb_used cb)) (unat (cb_size cb) - unat (cb_writepos cb))"
    using inv(1-5) inv(6)[unfolded wrap_cases[OF inv(5,3)]]
    by (auto simp: word_nat min_def word_unat_eq_iff split: if_splits)
  moreover have "require (cb_used cb \<le> cb_size cb) (Assert ''used <= size'') = Inr ()"
    using inv(3) by (simp add: word_nat)
  ultimately show ?thesis
    using u32_of_nat_eqI
    by (simp only: cbuf_writelen_def cbuf_assert_positions_ok[OF assms] rbind_simps)
qed

lemma cbuf_readlen_total:
  assumes "cbuf_inv cb"
  shows "\<exists>n. cbuf_readlen cb = Inr n \<and>
           unat n = min (unat (cb_used cb)) (unat (cb_size cb) - unat (cb_readpos cb))"
proof -
  have "min (unat (cb_used cb)) (unat (cb_size cb) - unat (cb_readpos cb)) < 2 ^ 32"
    using cbuf_invD(2)[OF assms] by simp
  then show ?thesis using cbuf_readlen_eq[OF assms] unat_of_nat_u32 by blast
qed

lemma cbuf_writelen_total:
  assumes "cbuf_inv cb"
  shows "\<exists>n. cbuf_writelen cb = Inr n \<and>
           unat n = min (unat (cb_size cb) - unat (cb_used cb)) (unat (cb_size cb) - unat (cb_writepos cb))"
proof -
  have "min (unat (cb_size cb) - unat (cb_used cb)) (unat (cb_size cb) - unat (cb_writepos cb)) < 2 ^ 32"
    using cbuf_invD(2)[OF assms] by simp
  then show ?thesis using cbuf_writelen_eq[OF assms] unat_of_nat_u32 by blast
qed

lemma cbuf_writelen_data [simp]: "cbuf_writelen (cb\<lparr>cb_data := d\<rparr>) = cbuf_writelen cb"
  unfolding cbuf_writelen_def cbuf_assert_positions_def by simp

lemma cbuf_write_region:
  fixes r u s w n i :: nat
  assumes "r < s" and "u \<le> s" and "w = (r + u) mod s" and "n \<le> min (s - u) (s - w)"
  shows "i < u \<Longrightarrow> (r + i) mod s < w \<or> w + n \<le> (r + i) mod s"
    and "j < n \<Longrightarrow> (r + (u + j)) mod s = w + j"
    and "(w + n) mod s = (r + (u + n)) mod s"
proof -
  note w = assms(3)[unfolded wrap_cases[OF assms(1,2)]]
  show "i < u \<Longrightarrow> (r + i) mod s < w \<or> w + n \<le> (r + i) mod s"
    using assms(1,2,4) w wrap_cases[of r s i] by (auto split: if_splits)
  show "j < n \<Longrightarrow> (r + (u + j)) mod s = w + j"
    using assms(1,2,4) w wrap_cases[of r s "u + j"] by (auto split: if_splits)
  show "(w + n) mod s = (r + (u + n)) mod s"
    by (simp add: assms(3) mod_add_left_eq add.assoc)
qed

lemma cbuf_push_ok:
  assumes "cbuf_inv cb" and "cbuf_writelen cb = Inr m" and "length bs \<le> unat m"
  shows "\<exists>cb'. cbuf_push bs cb = Inr cb' \<and> cbuf_inv cb' \<and> cbuf_list cb' = cbuf_list cb @ bs \<and>
           cb_size cb' = cb_size cb"
proof -
  note inv = cbuf_invD[OF assms(1)]
  let ?s = "unat (cb_size cb)" and ?r = "unat (cb_readpos cb)" and ?w = "unat (cb_writepos cb)"
    and ?u = "unat (cb_used cb)" and ?n = "length bs"
  have m: "unat m = min (?s - ?u) (?s - ?w)"
    using assms(2) cbuf_writelen_total[OF assms(1)] by auto
  then have n: "?n \<le> min (?s - ?u) (?s - ?w)" using assms(3) by simp
  then have n1: "?n \<le> ?s - ?u" and n2: "?n \<le> ?s - ?w" by simp_all
  have un: "unat (of_nat ?n :: u32) = ?n" using n1 inv(2) by (intro unat_of_nat_u32) simp
  let ?d = "take ?w (cb_data cb) @ bs @ drop (?w + ?n) (cb_data cb)"
  let ?c = "cb\<lparr>cb_data := ?d, cb_used := cb_used cb + of_nat ?n,
              cb_writepos := (cb_writepos cb + of_nat ?n) mod cb_size cb\<rparr>"
  have used: "unat (cb_used cb + of_nat ?n) = ?u + ?n"
    using n1 inv(2,3) un by (subst unat_add_no_overflow) simp_all
  have wp: "unat (cb_writepos cb + of_nat ?n) = ?w + ?n"
    using n2 inv(2,7) un by (subst unat_add_no_overflow) simp_all
  have ld: "length ?d = ?s" using n2 inv(4,7) by simp
  note region = cbuf_write_region[OF inv(5,3,6) n]
  have "\<not> (of_nat ?n :: u32) > m" using un assms(3) by (simp add: word_nat)
  moreover have "cb_size cb \<noteq> 0" using inv(1) by auto
  moreover have "cb_used cb + of_nat ?n \<le> cb_size cb" using used n1 inv(3) by (simp add: word_nat_order)
  moreover have "mem_write (cb_data cb) ?w bs = Inr ?d" using n2 inv(4,7) by (intro mem_write_ok) simp
  ultimately have "cbuf_push bs cb = Inr ?c"
    using assms(2) by (simp add: cbuf_push_def cbuf_writeptr_def cbuf_incrwrite_def u32_mod_def)
  moreover have "cbuf_inv ?c"
    using inv(1-5) n1 ld by (simp add: cbuf_inv_def used wp unat_mod region(3))
  moreover have "cbuf_list ?c = cbuf_list cb @ bs"
  proof (rule nth_equalityI)
    show "length (cbuf_list ?c) = length (cbuf_list cb @ bs)" by (simp add: used)
    fix i assume "i < length (cbuf_list ?c)"
    then have i: "i < ?u + ?n" by (simp add: used)
    have e: "cbuf_list ?c ! i = ?d ! ((?r + i) mod ?s)"
      using i by (simp add: cbuf_list_def used)
    show "cbuf_list ?c ! i = (cbuf_list cb @ bs) ! i"
    proof (cases "i < ?u")
      case True
      moreover have "(?r + i) mod ?s < ?s" using inv(1) by simp
      ultimately show ?thesis
        using region(1)[OF True] e inv(4,7) n2
        by (auto simp: nth_append cbuf_list_def)
    next
      case False
      then obtain j where j: "i = ?u + j" "j < ?n"
        using i by (metis le_Suc_ex not_less nat_add_left_cancel_less)
      then have "cbuf_list ?c ! i = ?d ! (?w + j)" using e region(2) by simp
      then show ?thesis using j inv(4,7) by (simp add: nth_append)
    qed
  qed
  ultimately show ?thesis by simp
qed

lemma cbuf_push_full:
  assumes "cbuf_inv cb" and "cbuf_writelen cb = Inr m" and "unat m < length bs" and "length bs < 2 ^ 32"
  shows "cbuf_push bs cb = Inl (Exit ''Bad cbuf write'')"
  using assms by (simp add: cbuf_push_def cbuf_writeptr_def word_nat)

lemma cbuf_peek_ok:
  assumes "cbuf_inv cb" and "cbuf_readlen cb = Inr m" and "n \<le> m"
  shows "cbuf_peek n cb = Inr (take (unat n) (cbuf_list cb))"
proof -
  note inv = cbuf_invD[OF assms(1)]
  let ?s = "unat (cb_size cb)" and ?r = "unat (cb_readpos cb)" and ?u = "unat (cb_used cb)"
  have m: "unat m = min ?u (?s - ?r)"
    using assms(2) cbuf_readlen_total[OF assms(1)] by auto
  then have n1: "unat n \<le> ?u" and n2: "unat n \<le> ?s - ?r"
    using assms(3) by (simp_all add: word_nat_order)
  have "take (unat n) (cbuf_list cb) = take (unat n) (drop ?r (cb_data cb))"
    using n1 n2 inv(4,5) by (intro nth_equalityI) (auto simp: cbuf_list_def)
  moreover have "?r + unat n \<le> length (cb_data cb)" using n2 inv(4,5) by simp
  ultimately show ?thesis
    using assms(2,3) by (simp add: cbuf_peek_def cbuf_readptr_def)
qed

lemma cbuf_incrread_ok:
  assumes "cbuf_inv cb" and "cbuf_readlen cb = Inr m" and "n \<le> m"
  shows "\<exists>cb'. cbuf_incrread cb n = Inr cb' \<and> cbuf_inv cb' \<and>
           cbuf_list cb' = drop (unat n) (cbuf_list cb) \<and> cb_size cb' = cb_size cb"
proof -
  note inv = cbuf_invD[OF assms(1)]
  let ?s = "unat (cb_size cb)" and ?r = "unat (cb_readpos cb)" and ?u = "unat (cb_used cb)"
  let ?c = "cb\<lparr>cb_used := cb_used cb - n, cb_readpos := (cb_readpos cb + n) mod cb_size cb\<rparr>"
  have m: "unat m = min ?u (?s - ?r)"
    using assms(2) cbuf_readlen_total[OF assms(1)] by auto
  then have n1: "unat n \<le> ?u" and n2: "unat n \<le> ?s - ?r"
    using assms(3) by (simp_all add: word_nat_order)
  have used: "unat (cb_used cb - n) = ?u - unat n" using n1 by (rule unat_sub_no_underflow)
  have rp: "unat (cb_readpos cb + n) = ?r + unat n"
    using n2 inv(2,5) by (intro unat_add_no_overflow) simp
  have "cb_size cb \<noteq> 0" using inv(1) by auto
  moreover have "n \<le> cb_used cb" using n1 by (simp add: word_nat_order)
  ultimately have "cbuf_incrread cb n = Inr ?c"
    using assms(2,3) by (simp add: cbuf_incrread_def u32_mod_def)
  moreover have "cbuf_inv ?c"
  proof -
    have "((?r + unat n) mod ?s + (?u - unat n)) mod ?s = (?r + ?u) mod ?s"
      using n1 by (subst mod_add_left_eq) simp
    moreover have "?u - unat n \<le> ?s" using inv(3) by simp
    ultimately show ?thesis
      using inv(1-2,4-6) by (simp add: cbuf_inv_def used rp unat_mod)
  qed
  moreover have "cbuf_list ?c = drop (unat n) (cbuf_list cb)"
  proof (rule nth_equalityI)
    fix i assume "i < length (cbuf_list ?c)"
    then have "unat n + i < ?u" "i < ?u - unat n" by (simp_all add: used)
    then show "cbuf_list ?c ! i = drop (unat n) (cbuf_list cb) ! i"
      by (simp add: cbuf_list_def used rp unat_mod mod_add_left_eq add.assoc)
  qed (simp add: used)
  ultimately show ?thesis by simp
qed

subsection \<open>The first-in first-out contract\<close>

text \<open>
  \<open>fifo_fill\<close> is the shape of the loop that stores received data: as much as fits in one piece,
  then the rest. A loop that makes no progress never ends, which the model returns as \<open>None\<close>.
\<close>

partial_function (option) fifo_fill ::
  "('q \<Rightarrow> u32 result) \<Rightarrow> (bytes \<Rightarrow> 'q \<Rightarrow> 'q result) \<Rightarrow> bytes \<Rightarrow> 'q \<Rightarrow> 'q result option" where
  "fifo_fill wlen push bs q =
     (if bs = [] then Some (Inr q)
      else case wlen q of
        Inl e \<Rightarrow> Some (Inl e)
      | Inr n \<Rightarrow> (case push (take (unat n) bs) q of
          Inl e \<Rightarrow> Some (Inl e)
        | Inr q' \<Rightarrow> fifo_fill wlen push (drop (unat n) bs) q'))"

datatype fifo_op = Push bytes | Pop u32

fun fifo_run ::
  "(bytes \<Rightarrow> 'q \<Rightarrow> 'q result) \<Rightarrow> (u32 \<Rightarrow> 'q \<Rightarrow> bytes result) \<Rightarrow> ('q \<Rightarrow> u32 \<Rightarrow> 'q result) \<Rightarrow>
   fifo_op list \<Rightarrow> 'q \<Rightarrow> (bytes \<times> 'q) result" where
  "fifo_run push peek skip [] q = Inr ([], q)"
| "fifo_run push peek skip (Push bs # ops) q =
     rbind (push bs q) (fifo_run push peek skip ops)"
| "fifo_run push peek skip (Pop n # ops) q =
     rbind (peek n q) (\<lambda>out. rbind (skip q n) (\<lambda>q'.
     rbind (fifo_run push peek skip ops q') (\<lambda>(out', q''). Inr (out @ out', q''))))"

fun fifo_input :: "fifo_op list \<Rightarrow> bytes" where
  "fifo_input [] = []"
| "fifo_input (Push bs # ops) = bs @ fifo_input ops"
| "fifo_input (Pop n # ops) = fifo_input ops"

locale byte_fifo =
  fixes push :: "bytes \<Rightarrow> 'q \<Rightarrow> 'q result"
    and peek :: "u32 \<Rightarrow> 'q \<Rightarrow> bytes result"
    and skip :: "'q \<Rightarrow> u32 \<Rightarrow> 'q result"
    and wlen rlen :: "'q \<Rightarrow> u32 result"
    and list :: "'q \<Rightarrow> bytes"
    and cap :: "'q \<Rightarrow> nat"
    and inv :: "'q \<Rightarrow> bool"
  assumes wlen_total: "inv q \<Longrightarrow> \<exists>n. wlen q = Inr n \<and> unat n \<le> cap q - length (list q) \<and>
                         (length (list q) < cap q \<longrightarrow> 0 < unat n)"
    and rlen_total: "inv q \<Longrightarrow> \<exists>n. rlen q = Inr n \<and> unat n \<le> length (list q) \<and>
                         (list q \<noteq> [] \<longrightarrow> 0 < unat n)"
    and push_ok: "inv q \<Longrightarrow> wlen q = Inr n \<Longrightarrow> length bs \<le> unat n \<Longrightarrow>
                    \<exists>q'. push bs q = Inr q' \<and> inv q' \<and> list q' = list q @ bs \<and> cap q' = cap q"
    and push_full: "inv q \<Longrightarrow> wlen q = Inr n \<Longrightarrow> unat n < length bs \<Longrightarrow> length bs < 2 ^ 32 \<Longrightarrow>
                      \<exists>m. push bs q = Inl (Exit m)"
    and peek_ok: "inv q \<Longrightarrow> rlen q = Inr n \<Longrightarrow> m \<le> n \<Longrightarrow> peek m q = Inr (take (unat m) (list q))"
    and peek_short: "inv q \<Longrightarrow> rlen q = Inr n \<Longrightarrow> n < m \<Longrightarrow> \<exists>msg. peek m q = Inl (Exit msg)"
    and skip_ok: "inv q \<Longrightarrow> rlen q = Inr n \<Longrightarrow> m \<le> n \<Longrightarrow>
                    \<exists>q'. skip q m = Inr q' \<and> inv q' \<and> list q' = drop (unat m) (list q) \<and> cap q' = cap q"
begin

lemma push_result:
  assumes "inv q" and "push bs q = Inr q'" and "length bs < 2 ^ 32"
  shows "inv q'" and "list q' = list q @ bs" and "cap q' = cap q"
proof -
  obtain n where n: "wlen q = Inr n" using wlen_total[OF assms(1)] by blast
  have "length bs \<le> unat n"
    using push_full[OF assms(1) n _ assms(3)] assms(2) by (metis Inl_Inr_False not_le_imp_less)
  from push_ok[OF assms(1) n this] assms(2)
  show "inv q'" "list q' = list q @ bs" "cap q' = cap q" by auto
qed

lemma peek_result:
  assumes "inv q" and "peek m q = Inr out"
  shows "out = take (unat m) (list q)" and "unat m \<le> length (list q)"
    and "\<exists>q'. skip q m = Inr q' \<and> inv q' \<and> list q' = drop (unat m) (list q) \<and> cap q' = cap q"
proof -
  obtain n where n: "rlen q = Inr n" "unat n \<le> length (list q)" using rlen_total[OF assms(1)] by blast
  have m: "m \<le> n"
    using peek_short[OF assms(1) n(1), of m] assms(2) by (metis Inl_Inr_False leI)
  show "out = take (unat m) (list q)" using peek_ok[OF assms(1) n(1) m] assms(2) by simp
  show "unat m \<le> length (list q)" using m n(2) by (simp add: word_le_nat_alt)
  show "\<exists>q'. skip q m = Inr q' \<and> inv q' \<and> list q' = drop (unat m) (list q) \<and> cap q' = cap q"
    by (rule skip_ok[OF assms(1) n(1) m])
qed

text \<open>Nothing is lost, duplicated or reordered: output, then what is still stored.\<close>

lemma run_preserves_stream:
  assumes "inv q" and "\<forall>bs. Push bs \<in> set ops \<longrightarrow> length bs < 2 ^ 32"
    and "fifo_run push peek skip ops q = Inr (out, q')"
  shows "inv q' \<and> out @ list q' = list q @ fifo_input ops"
  using assms
proof (induction ops arbitrary: q out)
  case Nil
  then show ?case by simp
next
  case (Cons c ops)
  show ?case
  proof (cases c)
    case (Push bs)
    with Cons.prems obtain q1 where q1: "push bs q = Inr q1"
      "fifo_run push peek skip ops q1 = Inr (out, q')" by (auto simp: result_simps)
    note r = push_result[OF Cons.prems(1) q1(1)]
    have "length bs < 2 ^ 32" using Cons.prems(2) Push by auto
    then show ?thesis using Cons.IH[OF r(1) _ q1(2)] r Cons.prems(2) Push by simp
  next
    case (Pop n)
    with Cons.prems obtain o1 q1 o2 where o: "peek n q = Inr o1" "skip q n = Inr q1"
      "fifo_run push peek skip ops q1 = Inr (o2, q')" "out = o1 @ o2" by (auto simp: result_simps)
    note r = peek_result[OF Cons.prems(1) o(1)]
    then have q1: "inv q1" "list q1 = drop (unat n) (list q)" using o(2) by auto
    have "o2 @ list q' = list q1 @ fifo_input ops \<and> inv q'"
      using Cons.IH[OF q1(1) _ o(3)] Cons.prems(2) by simp
    then show ?thesis using r(1) q1(2) o(4) Pop by (simp add: append_assoc[symmetric])
  qed
qed

lemma fill_stores_all:
  assumes "inv q" and "length bs \<le> cap q - length (list q)" and "length (list q) \<le> cap q"
  shows "\<exists>q'. fifo_fill wlen push bs q = Some (Inr q') \<and> inv q' \<and> list q' = list q @ bs \<and>
           cap q' = cap q"
  using assms
proof (induction bs arbitrary: q rule: length_induct)
  case (1 bs)
  show ?case
  proof (cases "bs = []")
    case True
    then show ?thesis using "1.prems" by (simp add: fifo_fill.simps)
  next
    case False
    obtain n where n: "wlen q = Inr n" "unat n \<le> cap q - length (list q)"
      "length (list q) < cap q \<longrightarrow> 0 < unat n" using wlen_total[OF "1.prems"(1)] by blast
    have "0 < length bs" using False by simp
    then have pos: "0 < unat n" using n(3) "1.prems"(2) by linarith
    have "length (take (unat n) bs) \<le> unat n" by simp
    from push_ok[OF "1.prems"(1) n(1) this] obtain q1 where q1: "push (take (unat n) bs) q = Inr q1"
      "inv q1" "list q1 = list q @ take (unat n) bs" "cap q1 = cap q" by blast
    have "length (drop (unat n) bs) < length bs" using pos False by simp
    moreover have "length (drop (unat n) bs) \<le> cap q1 - length (list q1)" "length (list q1) \<le> cap q1"
      using "1.prems"(2,3) q1(3,4) by auto
    ultimately obtain q' where "fifo_fill wlen push (drop (unat n) bs) q1 = Some (Inr q')" "inv q'"
      "list q' = list q1 @ drop (unat n) bs" "cap q' = cap q1"
      using "1.IH" q1(2) by blast
    then show ?thesis using False n(1) q1 by (subst fifo_fill.simps) simp
  qed
qed

end

lemma cbuf_writelen_bounds:
  assumes "cbuf_inv cb"
  shows "\<exists>n. cbuf_writelen cb = Inr n \<and> unat n \<le> unat (cb_size cb) - length (cbuf_list cb) \<and>
           (length (cbuf_list cb) < unat (cb_size cb) \<longrightarrow> 0 < unat n)"
  using cbuf_writelen_total[OF assms] cbuf_invD(7)[OF assms] by auto

lemma cbuf_readlen_bounds:
  assumes "cbuf_inv cb"
  shows "\<exists>n. cbuf_readlen cb = Inr n \<and> unat n \<le> length (cbuf_list cb) \<and>
           (cbuf_list cb \<noteq> [] \<longrightarrow> 0 < unat n)"
proof -
  have "cbuf_list cb \<noteq> [] \<Longrightarrow> 0 < unat (cb_used cb)" by (simp add: cbuf_list_def)
  then show ?thesis using cbuf_readlen_total[OF assms] cbuf_invD(5)[OF assms] by auto
qed

interpretation cb: byte_fifo cbuf_push cbuf_peek cbuf_incrread cbuf_writelen cbuf_readlen cbuf_list
  "\<lambda>cb. unat (cb_size cb)" cbuf_inv
proof unfold_locales
  show "cbuf_inv q \<Longrightarrow> \<exists>n. cbuf_writelen q = Inr n \<and> unat n \<le> unat (cb_size q) - length (cbuf_list q) \<and>
      (length (cbuf_list q) < unat (cb_size q) \<longrightarrow> 0 < unat n)" for q
    by (rule cbuf_writelen_bounds)
  show "cbuf_inv q \<Longrightarrow> \<exists>n. cbuf_readlen q = Inr n \<and> unat n \<le> length (cbuf_list q) \<and>
      (cbuf_list q \<noteq> [] \<longrightarrow> 0 < unat n)" for q
    by (rule cbuf_readlen_bounds)
  show "cbuf_inv q \<Longrightarrow> cbuf_writelen q = Inr n \<Longrightarrow> length bs \<le> unat n \<Longrightarrow>
      \<exists>q'. cbuf_push bs q = Inr q' \<and> cbuf_inv q' \<and> cbuf_list q' = cbuf_list q @ bs \<and>
        unat (cb_size q') = unat (cb_size q)" for q n bs
    using cbuf_push_ok[of q n bs] by auto
  show "cbuf_inv q \<Longrightarrow> cbuf_readlen q = Inr n \<Longrightarrow> n < m \<Longrightarrow> \<exists>msg. cbuf_peek m q = Inl (Exit msg)" for q n m
    by (simp add: cbuf_peek_def cbuf_readptr_def)
  show "cbuf_inv q \<Longrightarrow> cbuf_readlen q = Inr n \<Longrightarrow> m \<le> n \<Longrightarrow>
      \<exists>q'. cbuf_incrread q m = Inr q' \<and> cbuf_inv q' \<and> cbuf_list q' = drop (unat m) (cbuf_list q) \<and>
        unat (cb_size q') = unat (cb_size q)" for q n m
    using cbuf_incrread_ok[of q n m] by auto
qed (auto simp: cbuf_push_full cbuf_peek_ok)

lemma cbuf_new_inv:
  assumes "cbuf_new n = Inr cb" and "0 < n"
  shows "cbuf_inv cb" and "cbuf_list cb = []" and "cb_size cb = n"
  using assms
  by (auto simp: cbuf_new_def m_malloc_def cbuf_inv_def cbuf_list_def MAX_CBUF_SIZE_def word_nat
      split: if_splits)

subsection \<open>Properties\<close>

text \<open>
  C29: the circular buffer is a first-in first-out byte stream. Whatever sequence of stores and
  fetches runs to its end on a new buffer, the bytes fetched followed by the bytes still stored
  are exactly the bytes stored, in their order.
\<close>
theorem circbuffer_is_fifo:
  assumes "cbuf_new n = Inr cb" and "0 < n"
    and "\<forall>bs. Push bs \<in> set ops \<longrightarrow> length bs < 2 ^ 32"
    and "fifo_run cbuf_push cbuf_peek cbuf_incrread ops cb = Inr (out, cb')"
  shows "out @ cbuf_list cb' = fifo_input ops \<and> cbuf_inv cb'"
  using cb.run_preserves_stream[OF cbuf_new_inv(1)[OF assms(1,2)] assms(3,4)]
    cbuf_new_inv(2)[OF assms(1,2)] by simp

lemmas cbuf_eval = cbuf_new_def cbuf_push_def cbuf_peek_def cbuf_incrread_def cbuf_incrwrite_def
  cbuf_readptr_def cbuf_writeptr_def cbuf_readlen_def cbuf_writelen_def cbuf_assert_positions_def
  u32_mod_def mem_read_def mem_write_def m_malloc_def MAX_CBUF_SIZE_def

theorem circbuffer_is_fifo_witness:
  "\<exists>cb cb'. cbuf_new 4 = Inr cb \<and>
     fifo_run cbuf_push cbuf_peek cbuf_incrread [Push [1, 2, 3], Pop 2, Push [4], Push [5], Pop 2] cb =
       Inr ([1, 2, 3, 4], cb') \<and>
     [1, 2, 3, 4] @ cbuf_list cb' = [1, 2, 3, 4, 5]"
proof -
  let ?cb = "\<lparr>cb_size = 4, cb_readpos = 0, cb_writepos = 0, cb_used = 0, cb_data = replicate 4 0\<rparr>"
  let ?cb' = "\<lparr>cb_size = 4, cb_readpos = 0, cb_writepos = 1, cb_used = 1, cb_data = [5, 2, 3, 4]\<rparr>"
  let ?ops = "[Push [1, 2, 3], Pop 2, Push [4], Push [5], Pop 2]"
  have n: "cbuf_new 4 = Inr ?cb" by (simp add: cbuf_eval)
  have r: "fifo_run cbuf_push cbuf_peek cbuf_incrread ?ops ?cb = Inr ([1, 2, 3, 4], ?cb')"
    by (simp add: cbuf_eval)
  have l: "\<forall>bs. Push bs \<in> set ?ops \<longrightarrow> length bs < 2 ^ 32" by simp
  have "[1, 2, 3, 4] @ cbuf_list ?cb' = fifo_input ?ops"
    using circbuffer_is_fifo[OF n _ l r] by simp
  then show ?thesis using n r by fastforce
qed

text \<open>
  On a buffer within its invariant the position assertions hold and no modulo divides by
  zero, and the two linear lengths are the closed forms: the readable run is the stored bytes
  up to the end of the block, the writable run the free bytes up to the end of the block.
\<close>
theorem circbuffer_linear_lengths:
  assumes "cbuf_inv cb"
  shows "cbuf_readlen cb = Inr (of_nat (min (unat (cb_used cb)) (unat (cb_size cb) - unat (cb_readpos cb)))) \<and>
    cbuf_writelen cb = Inr (of_nat (min (unat (cbuf_getavail cb)) (unat (cb_size cb) - unat (cb_writepos cb))))"
  using cbuf_readlen_eq[OF assms] cbuf_writelen_eq[OF assms] cbuf_invD[OF assms]
  by (simp add: cbuf_getavail_def unat_sub_no_underflow)

theorem circbuffer_linear_lengths_witness:
  "cbuf_readlen \<lparr>cb_size = 4, cb_readpos = 3, cb_writepos = 1, cb_used = 2, cb_data = [7, 0, 0, 6]\<rparr> = Inr 1 \<and>
   cbuf_writelen \<lparr>cb_size = 4, cb_readpos = 3, cb_writepos = 1, cb_used = 2, cb_data = [7, 0, 0, 6]\<rparr> = Inr 2"
  using circbuffer_linear_lengths[of "\<lparr>cb_size = 4, cb_readpos = 3, cb_writepos = 1, cb_used = 2,
      cb_data = [7, 0, 0, 6]\<rparr>"]
  by (simp add: cbuf_inv_def cbuf_getavail_def)

end
