(* ===== verification/Queue.thy ===== *)
theory Queue
  imports Dropbear_Prelude
begin

text \<open>
  The singly linked queue of \<^verbatim>\<open>src/reconos/dropbear/queue.c\<close> (packets waiting to be sent) and the
  doubly linked list of \<^verbatim>\<open>src/reconos/dropbear/list.c\<close>, both on an explicit heap of nodes:
  \<open>m_malloc\<close> adds a node, \<open>m_free\<close> removes it, and following a pointer to a removed node is
  \<open>UseAfterFree\<close>. Nodes are numbered in the order they are allocated; the code compares node
  pointers for equality and with \<open>NULL\<close> only. The contract of a queue is the locale \<open>fifo_queue\<close>,
  with a relation between the heap structure and the list of its items.
\<close>

type_synonym addr = nat

subsection \<open>queue.c\<close>

record 'a link =
  l_item :: 'a
  l_link :: "addr option"

record 'a queue =
  q_head :: "addr option"
  q_tail :: "addr option"
  q_count :: u32
  q_heap :: "addr \<rightharpoonup> 'a link"
  q_next :: addr

definition q_deref :: "'a queue \<Rightarrow> addr option \<Rightarrow> 'a link result" where
  "q_deref q p =
     (case p of None \<Rightarrow> Inl NullDeref
      | Some a \<Rightarrow> (case q_heap q a of None \<Rightarrow> Inl UseAfterFree | Some l \<Rightarrow> Inr l))"

text \<open>\<open>initqueue\<close> clears the three fields of the structure; the heap is left alone.\<close>

definition initqueue :: "'a queue \<Rightarrow> 'a queue" where
  "initqueue q = q\<lparr>q_head := None, q_tail := None, q_count := 0\<rparr>"

definition isempty :: "'a queue \<Rightarrow> bool" where
  "isempty q \<longleftrightarrow> q_head q = None"

definition dequeue :: "'a queue \<Rightarrow> ('a \<times> 'a queue) result" where
  "dequeue q =
     rbind (require (\<not> isempty q) (Assert ''!isempty(queue)'')) (\<lambda>_.
     rbind (q_deref q (q_head q)) (\<lambda>oldhead.
     let q1 = (case l_link oldhead of
                 Some n \<Rightarrow> q\<lparr>q_head := Some n\<rparr>
               | None \<Rightarrow> q\<lparr>q_head := None, q_tail := None\<rparr>)
     in Inr (l_item oldhead,
             q1\<lparr>q_heap := (q_heap q1)(the (q_head q) := None), q_count := q_count q1 - 1\<rparr>)))"

definition examine :: "'a queue \<Rightarrow> 'a result" where
  "examine q =
     rbind (require (\<not> isempty q) (Assert ''!isempty(queue)'')) (\<lambda>_.
     rbind (q_deref q (q_head q)) (\<lambda>l. Inr (l_item l)))"

definition enqueue :: "'a queue \<Rightarrow> 'a \<Rightarrow> 'a queue result" where
  "enqueue q item =
     (let newlink = q_next q;
          q1 = q\<lparr>q_heap := (q_heap q)(newlink \<mapsto> \<lparr>l_item = item, l_link = None\<rparr>),
                 q_next := Suc newlink\<rparr>
      in rbind (case q_tail q1 of
           None \<Rightarrow> Inr q1
         | Some t \<Rightarrow> rbind (q_deref q1 (Some t))
             (\<lambda>l. Inr (q1\<lparr>q_heap := (q_heap q1)(t \<mapsto> l\<lparr>l_link := Some newlink\<rparr>)\<rparr>))) (\<lambda>q2.
         let q3 = q2\<lparr>q_tail := Some newlink\<rparr>;
             q4 = (if q_head q3 = None then q3\<lparr>q_head := Some newlink\<rparr> else q3)
         in Inr (q4\<lparr>q_count := q_count q4 + 1\<rparr>)))"

subsection \<open>Representation\<close>

text \<open>\<open>q_path h p as\<close>: following the links from \<open>p\<close> visits the nodes \<open>as\<close> and ends at \<open>NULL\<close>.\<close>

fun q_path :: "(addr \<rightharpoonup> 'a link) \<Rightarrow> addr option \<Rightarrow> addr list \<Rightarrow> bool" where
  "q_path h p [] \<longleftrightarrow> p = None"
| "q_path h p (a # as) \<longleftrightarrow> p = Some a \<and> (\<exists>l. h a = Some l \<and> q_path h (l_link l) as)"

definition q_rep :: "'a queue \<Rightarrow> 'a list \<Rightarrow> bool" where
  "q_rep q xs \<longleftrightarrow> (\<exists>as. q_path (q_heap q) (q_head q) as \<and> distinct as \<and>
     q_tail q = (if as = [] then None else Some (last as)) \<and>
     map (\<lambda>a. map_option l_item (q_heap q a)) as = map Some xs \<and>
     q_count q = of_nat (length xs) \<and> dom (q_heap q) = set as \<and> (\<forall>a \<in> set as. a < q_next q))"

lemma q_path_update: "a \<notin> set as \<Longrightarrow> q_path (h(a := v)) p as = q_path h p as"
  by (induction as arbitrary: p) auto

lemma q_path_extend:
  assumes "q_path h p as" and "as \<noteq> []" and "n \<notin> set as" and "distinct as"
    and "h (last as) = Some l" and "h n = Some ln" and "l_link ln = None"
  shows "q_path (h(last as \<mapsto> l\<lparr>l_link := Some n\<rparr>)) p (as @ [n])"
  using assms
proof (induction as arbitrary: p)
  case (Cons a as)
  show ?case
  proof (cases "as = []")
    case True
    then show ?thesis using Cons.prems by auto
  next
    case False
    then have "a \<noteq> last as" using Cons.prems(4) by auto
    then show ?thesis using Cons False by auto
  qed
qed simp

lemma q_rep_count: "q_rep q xs \<Longrightarrow> q_count q = of_nat (length xs)"
  by (auto simp: q_rep_def)

lemma q_rep_isempty: "q_rep q xs \<Longrightarrow> isempty q \<longleftrightarrow> xs = []"
  by (cases xs) (auto simp: q_rep_def isempty_def map_eq_Cons_conv)

lemma q_rep_init:
  "q_heap q = Map.empty \<Longrightarrow> q_rep (initqueue q) []"
  by (auto simp: q_rep_def initqueue_def)

lemma q_rep_examine: "q_rep q (x # xs) \<Longrightarrow> examine q = Inr x"
  by (auto simp: q_rep_def examine_def isempty_def q_deref_def map_eq_Cons_conv)

lemma q_rep_dequeue:
  assumes "q_rep q (x # xs)"
  shows "\<exists>q'. dequeue q = Inr (x, q') \<and> q_rep q' xs"
proof -
  obtain a as l where a: "q_head q = Some a" "q_heap q a = Some l" "l_item l = x"
    "q_path (q_heap q) (l_link l) as" "a \<notin> set as" "distinct as"
    "q_tail q = Some (last (a # as))" "map (\<lambda>a. map_option l_item (q_heap q a)) as = map Some xs"
    "q_count q = of_nat (Suc (length xs))" "dom (q_heap q) = set (a # as)"
    "\<forall>a \<in> set as. a < q_next q"
    using assms by (auto simp: q_rep_def map_eq_Cons_conv)
  have m: "map (\<lambda>b. map_option l_item (((q_heap q)(a := None)) b)) as = map Some xs"
    using a(5,8) by (metis (mono_tags, lifting) fun_upd_other map_cong)
  have d: "dom ((q_heap q)(a := None)) = set as" using a(5,10) by auto
  have p: "q_path ((q_heap q)(a := None)) (l_link l) as" using a(4,5) by (simp add: q_path_update)
  show ?thesis
  proof (cases as)
    case Nil
    then have "(q_heap q)(a := None) = Map.empty" "l_link l = None" "xs = []"
      using d a(4,8) by (simp_all only: dom_eq_empty_conv set_simps) auto
    then show ?thesis using a by (auto simp: dequeue_def isempty_def q_deref_def q_rep_def)
  next
    case (Cons b bs)
    then have "l_link l = Some b" using a(4) by simp
    moreover from this p have "q_path ((q_heap q)(a := None)) (Some b) as" by simp
    ultimately show ?thesis using a m d Cons
      by (auto simp: dequeue_def isempty_def q_deref_def q_rep_def intro!: exI[of _ as])
  qed
qed

lemma q_rep_enqueue:
  assumes "q_rep q xs"
  shows "\<exists>q'. enqueue q x = Inr q' \<and> q_rep q' (xs @ [x])"
proof -
  obtain as where as: "q_path (q_heap q) (q_head q) as" "distinct as"
    "q_tail q = (if as = [] then None else Some (last as))"
    "map (\<lambda>a. map_option l_item (q_heap q a)) as = map Some xs"
    "q_count q = of_nat (length xs)" "dom (q_heap q) = set as" "\<forall>a \<in> set as. a < q_next q"
    using assms by (auto simp: q_rep_def)
  let ?n = "q_next q" and ?l = "\<lparr>l_item = x, l_link = None\<rparr>"
  let ?h = "(q_heap q)(?n \<mapsto> ?l)"
  have fresh: "?n \<notin> set as" using as(7) by blast
  have path: "q_path ?h (q_head q) as" using as(1) fresh by (simp add: q_path_update)
  show ?thesis
  proof (cases "as = []")
    case True
    then show ?thesis using as
      by (auto simp: enqueue_def Let_def q_rep_def less_Suc_eq intro!: exI[of _ "[?n]"])
  next
    case False
    then obtain l where l: "q_heap q (last as) = Some l"
      using as(6) last_in_set[of as] by blast
    have ne: "last as \<noteq> ?n" using fresh False by (metis last_in_set)
    let ?h2 = "?h(last as \<mapsto> l\<lparr>l_link := Some ?n\<rparr>)"
    have "q_path ?h2 (q_head q) (as @ [?n])"
      using path False fresh as(2) l ne by (intro q_path_extend) auto
    moreover have "map (\<lambda>a. map_option l_item (?h2 a)) (as @ [?n]) = map Some (xs @ [x])"
    proof -
      have "map (\<lambda>a. map_option l_item (?h2 a)) as = map (\<lambda>a. map_option l_item (q_heap q a)) as"
        using fresh l by (intro map_cong) auto
      then show ?thesis using as(4) ne by simp
    qed
    moreover have "q_head q \<noteq> None" using as(1) False by (cases as) auto
    ultimately show ?thesis using as False l ne fresh
      by (auto simp: enqueue_def Let_def q_deref_def q_rep_def less_Suc_eq intro!: exI[of _ "as @ [?n]"])
  qed
qed

subsection \<open>The contract of a queue\<close>

fun enq_all :: "('q \<Rightarrow> 'a \<Rightarrow> 'q result) \<Rightarrow> 'a list \<Rightarrow> 'q \<Rightarrow> 'q result" where
  "enq_all enq [] q = Inr q"
| "enq_all enq (x # xs) q = rbind (enq q x) (enq_all enq xs)"

fun deq_n :: "('q \<Rightarrow> ('a \<times> 'q) result) \<Rightarrow> nat \<Rightarrow> 'q \<Rightarrow> ('a list \<times> 'q) result" where
  "deq_n deq 0 q = Inr ([], q)"
| "deq_n deq (Suc n) q =
     rbind (deq q) (\<lambda>(x, q1). rbind (deq_n deq n q1) (\<lambda>(xs, q2). Inr (x # xs, q2)))"

locale fifo_queue =
  fixes isemp :: "'q \<Rightarrow> bool"
    and enq :: "'q \<Rightarrow> 'a \<Rightarrow> 'q result"
    and deq :: "'q \<Rightarrow> ('a \<times> 'q) result"
    and exam :: "'q \<Rightarrow> 'a result"
    and rep :: "'q \<Rightarrow> 'a list \<Rightarrow> bool"
  assumes rep_isemp: "rep q xs \<Longrightarrow> isemp q \<longleftrightarrow> xs = []"
    and rep_enq: "rep q xs \<Longrightarrow> \<exists>q'. enq q x = Inr q' \<and> rep q' (xs @ [x])"
    and rep_deq: "rep q (x # xs) \<Longrightarrow> \<exists>q'. deq q = Inr (x, q') \<and> rep q' xs"
    and rep_exam: "rep q (x # xs) \<Longrightarrow> exam q = Inr x"
    and deq_empty: "rep q [] \<Longrightarrow> \<exists>m. deq q = Inl (Assert m)"
    and exam_empty: "rep q [] \<Longrightarrow> \<exists>m. exam q = Inl (Assert m)"
begin

lemma enq_all_rep: "rep q xs \<Longrightarrow> \<exists>q'. enq_all enq ys q = Inr q' \<and> rep q' (xs @ ys)"
proof (induction ys arbitrary: q xs)
  case (Cons y ys)
  obtain q1 where "enq q y = Inr q1" "rep q1 (xs @ [y])" using rep_enq[OF Cons.prems] by blast
  then show ?case using Cons.IH[of q1 "xs @ [y]"] by simp
qed simp

lemma deq_n_rep: "rep q (xs @ ys) \<Longrightarrow> \<exists>q'. deq_n deq (length xs) q = Inr (xs, q') \<and> rep q' ys"
proof (induction xs arbitrary: q)
  case (Cons x xs)
  then obtain q1 where "deq q = Inr (x, q1)" "rep q1 (xs @ ys)" using rep_deq by (metis append_Cons)
  then show ?case using Cons.IH[of q1] by auto
qed simp

lemma deq_safe: "rep q xs \<Longrightarrow> is_safe (deq q)"
  using deq_empty[of q] rep_deq[of q "hd xs" "tl xs"] by (cases xs) auto

lemma in_order:
  assumes "rep q []"
  shows "\<exists>q'. rbind (enq_all enq xs q) (deq_n deq (length xs)) = Inr (xs, q') \<and> rep q' []"
proof -
  obtain q1 where "enq_all enq xs q = Inr q1" "rep q1 xs" using enq_all_rep[OF assms] by auto
  then show ?thesis using deq_n_rep[of q1 xs "[]"] by auto
qed

end

interpretation lq: fifo_queue isempty enqueue dequeue examine q_rep
proof unfold_locales
  show "q_rep q xs \<Longrightarrow> isempty q \<longleftrightarrow> xs = []" for q :: "'a queue" and xs
    by (rule q_rep_isempty)
  show "q_rep q xs \<Longrightarrow> \<exists>q'. enqueue q x = Inr q' \<and> q_rep q' (xs @ [x])" for q :: "'a queue" and xs x
    by (rule q_rep_enqueue)
  show "q_rep q (x # xs) \<Longrightarrow> \<exists>q'. dequeue q = Inr (x, q') \<and> q_rep q' xs" for q :: "'a queue" and xs x
    by (rule q_rep_dequeue)
  show "q_rep q (x # xs) \<Longrightarrow> examine q = Inr x" for q :: "'a queue" and xs x
    by (rule q_rep_examine)
  show "q_rep q [] \<Longrightarrow> \<exists>m. dequeue q = Inl (Assert m)" for q :: "'a queue"
    using q_rep_isempty[of q "[]"] by (simp add: dequeue_def)
  show "q_rep q [] \<Longrightarrow> \<exists>m. examine q = Inl (Assert m)" for q :: "'a queue"
    using q_rep_isempty[of q "[]"] by (simp add: examine_def)
qed

subsection \<open>Properties\<close>



end
