(* ===== verification/Algo.thy ===== *)
theory Algo
  imports Buffer
begin

text \<open>
  Algorithm tables and their negotiation, \<^verbatim>\<open>src/reconos/dropbear/common-algo.c\<close> and
  \<^verbatim>\<open>algo.h\<close>, in the configuration of \<^verbatim>\<open>options.h\<close>. An \<open>algo_type[]\<close> array is the list of
  its elements with the terminator (the element whose name is \<open>NULL\<close>) in it: a loop that runs
  past the end of the list is \<open>OutOfBounds\<close>. Names are the bytes of C strings before their NUL.
  A pointer into the received name list is an offset; \<open>buf_match_algo\<close> cuts that list into
  strings in place and compares them with \<open>strcmp\<close>.
\<close>

subsection \<open>Strings of C\<close>

definition ascii :: "string \<Rightarrow> bytes" where
  "ascii s = map of_char s"

text \<open>The string that starts at an offset: the bytes up to the NUL, which has to exist.\<close>

definition cstr_at :: "bytes \<Rightarrow> nat \<Rightarrow> bytes result" where
  "cstr_at mem off =
     (if 0 \<in> set (drop off mem) then Inr (takeWhile (\<lambda>c. c \<noteq> 0) (drop off mem)) else Inl OutOfBounds)"

definition char_at :: "bytes \<Rightarrow> nat \<Rightarrow> u8 result" where
  "char_at mem i = (if i < length mem then Inr (mem ! i) else Inl OutOfBounds)"

fun map_result :: "('a \<Rightarrow> 'b result) \<Rightarrow> 'a list \<Rightarrow> 'b list result" where
  "map_result f [] = Inr []"
| "map_result f (x # xs) = rbind (f x) (\<lambda>y. rbind (map_result f xs) (\<lambda>ys. Inr (y # ys)))"

subsection \<open>The tables\<close>

datatype cipher_desc = aes_desc | twofish_desc | des3_desc
datatype hash_desc = sha1_desc | md5_desc
datatype cipher_mode = mode_cbc | mode_none | mode_ctr

record dropbear_cipher =
  dc_cipherdesc :: "cipher_desc option"
  dc_keysize :: u32
  dc_blocksize :: u8

record dropbear_hash =
  dh_hashdesc :: "hash_desc option"
  dh_keysize :: u32
  dh_hashsize :: u8

datatype algo_data = NoData | CipherData dropbear_cipher | HashData dropbear_hash

record algo_type =
  a_name :: "bytes option"
  a_val :: int
  a_data :: algo_data
  a_usable :: int
  a_mode :: "cipher_mode option"

definition dropbear_aes256 :: dropbear_cipher where
  "dropbear_aes256 = \<lparr>dc_cipherdesc = Some aes_desc, dc_keysize = 32, dc_blocksize = 16\<rparr>"
definition dropbear_aes128 :: dropbear_cipher where
  "dropbear_aes128 = \<lparr>dc_cipherdesc = Some aes_desc, dc_keysize = 16, dc_blocksize = 16\<rparr>"
definition dropbear_twofish256 :: dropbear_cipher where
  "dropbear_twofish256 = \<lparr>dc_cipherdesc = Some twofish_desc, dc_keysize = 32, dc_blocksize = 16\<rparr>"
definition dropbear_twofish128 :: dropbear_cipher where
  "dropbear_twofish128 = \<lparr>dc_cipherdesc = Some twofish_desc, dc_keysize = 16, dc_blocksize = 16\<rparr>"
definition dropbear_3des :: dropbear_cipher where
  "dropbear_3des = \<lparr>dc_cipherdesc = Some des3_desc, dc_keysize = 24, dc_blocksize = 8\<rparr>"
definition dropbear_nocipher :: dropbear_cipher where
  "dropbear_nocipher = \<lparr>dc_cipherdesc = None, dc_keysize = 16, dc_blocksize = 8\<rparr>"

definition dropbear_sha1 :: dropbear_hash where
  "dropbear_sha1 = \<lparr>dh_hashdesc = Some sha1_desc, dh_keysize = 20, dh_hashsize = 20\<rparr>"
definition dropbear_sha1_96 :: dropbear_hash where
  "dropbear_sha1_96 = \<lparr>dh_hashdesc = Some sha1_desc, dh_keysize = 20, dh_hashsize = 12\<rparr>"
definition dropbear_md5 :: dropbear_hash where
  "dropbear_md5 = \<lparr>dh_hashdesc = Some md5_desc, dh_keysize = 16, dh_hashsize = 16\<rparr>"
definition dropbear_nohash :: dropbear_hash where
  "dropbear_nohash = \<lparr>dh_hashdesc = None, dh_keysize = 16, dh_hashsize = 0\<rparr>"

definition algo_end :: algo_type where
  "algo_end = \<lparr>a_name = None, a_val = 0, a_data = NoData, a_usable = 0, a_mode = None\<rparr>"

definition algo_cipher :: "string \<Rightarrow> dropbear_cipher \<Rightarrow> cipher_mode \<Rightarrow> algo_type" where
  "algo_cipher n c m =
     \<lparr>a_name = Some (ascii n), a_val = 0, a_data = CipherData c, a_usable = 1, a_mode = Some m\<rparr>"

definition algo_hash :: "string \<Rightarrow> dropbear_hash \<Rightarrow> algo_type" where
  "algo_hash n h =
     \<lparr>a_name = Some (ascii n), a_val = 0, a_data = HashData h, a_usable = 1, a_mode = None\<rparr>"

definition algo_plain :: "string \<Rightarrow> int \<Rightarrow> algo_type" where
  "algo_plain n v = \<lparr>a_name = Some (ascii n), a_val = v, a_data = NoData, a_usable = 1, a_mode = None\<rparr>"

definition sshciphers :: "algo_type list" where
  "sshciphers =
     [algo_cipher ''aes128-ctr'' dropbear_aes128 mode_ctr,
      algo_cipher ''3des-ctr'' dropbear_3des mode_ctr,
      algo_cipher ''aes256-ctr'' dropbear_aes256 mode_ctr,
      algo_cipher ''aes128-cbc'' dropbear_aes128 mode_cbc,
      algo_cipher ''3des-cbc'' dropbear_3des mode_cbc,
      algo_cipher ''aes256-cbc'' dropbear_aes256 mode_cbc,
      algo_cipher ''twofish256-cbc'' dropbear_twofish256 mode_cbc,
      algo_cipher ''twofish-cbc'' dropbear_twofish256 mode_cbc,
      algo_cipher ''twofish128-cbc'' dropbear_twofish128 mode_cbc,
      algo_end]"

definition sshhashes :: "algo_type list" where
  "sshhashes =
     [algo_hash ''hmac-sha1-96'' dropbear_sha1_96,
      algo_hash ''hmac-sha1'' dropbear_sha1,
      algo_hash ''hmac-md5'' dropbear_md5,
      algo_end]"

definition DROPBEAR_COMP_NONE :: int where "DROPBEAR_COMP_NONE = 0"

definition ssh_nocompress :: "algo_type list" where
  "ssh_nocompress = [algo_plain ''none'' DROPBEAR_COMP_NONE, algo_end]"

definition DROPBEAR_SIGNKEY_RSA :: int where "DROPBEAR_SIGNKEY_RSA = 1"
definition DROPBEAR_SIGNKEY_DSS :: int where "DROPBEAR_SIGNKEY_DSS = 2"
definition DROPBEAR_KEX_DH_GROUP1 :: int where "DROPBEAR_KEX_DH_GROUP1 = 1"
definition DROPBEAR_KEX_DH_GROUP14 :: int where "DROPBEAR_KEX_DH_GROUP14 = 2"
definition KEXGUESS2_ALGO_ID :: int where "KEXGUESS2_ALGO_ID = 99"
definition KEXGUESS2_ALGO_NAME :: string where "KEXGUESS2_ALGO_NAME = ''kexguess2@matt.ucc.asn.au''"

definition sshhostkey :: "algo_type list" where
  "sshhostkey =
     [algo_plain ''ssh-rsa'' DROPBEAR_SIGNKEY_RSA, algo_plain ''ssh-dss'' DROPBEAR_SIGNKEY_DSS, algo_end]"

definition sshkex :: "algo_type list" where
  "sshkex =
     [algo_plain ''diffie-hellman-group1-sha1'' DROPBEAR_KEX_DH_GROUP1,
      algo_plain ''diffie-hellman-group14-sha1'' DROPBEAR_KEX_DH_GROUP14,
      algo_plain KEXGUESS2_ALGO_NAME KEXGUESS2_ALGO_ID,
      algo_end]"

subsection \<open>Operations\<close>

definition MAX_PROPOSED_ALGO :: nat where "MAX_PROPOSED_ALGO = 20"
definition MAX_NAME_LEN :: nat where "MAX_NAME_LEN = 64"

text \<open>\<open>strncmp (name, algo, n) == 0\<close> where \<open>name\<close> has exactly \<open>n\<close> bytes before its NUL.\<close>

fun strncmp_eq :: "bytes \<Rightarrow> bytes \<Rightarrow> bool result" where
  "strncmp_eq [] mem = Inr True"
| "strncmp_eq (c # cs) [] = Inl OutOfBounds"
| "strncmp_eq (c # cs) (m # ms) = (if c = m then strncmp_eq cs ms else Inr False)"

fun have_algo :: "bytes \<Rightarrow> nat \<Rightarrow> algo_type list \<Rightarrow> bool result" where
  "have_algo algo algolen [] = Inl OutOfBounds"
| "have_algo algo algolen (a # as) =
     (case a_name a of
        None \<Rightarrow> Inr False
      | Some n \<Rightarrow>
          if length n = algolen
          then rbind (strncmp_eq n algo) (\<lambda>eq. if eq then Inr True else have_algo algo algolen as)
          else have_algo algo algolen as)"

fun put_names :: "buffer \<Rightarrow> bool \<Rightarrow> algo_type list \<Rightarrow> buffer result" where
  "put_names algolist donefirst [] = Inl OutOfBounds"
| "put_names algolist donefirst (a # as) =
     (case a_name a of
        None \<Rightarrow> Inr algolist
      | Some n \<Rightarrow>
          if a_usable a \<noteq> 0
          then rbind (if donefirst then buf_putbyte algolist (of_char CHR '','') else Inr algolist) (\<lambda>b1.
               rbind (buf_putbytes b1 n (of_nat (length n))) (\<lambda>b2. put_names b2 True as))
          else put_names algolist donefirst as)"

definition buf_put_algolist :: "buffer \<Rightarrow> algo_type list \<Rightarrow> buffer result" where
  "buf_put_algolist buf localalgos =
     rbind (buf_new 160) (\<lambda>algolist.
     rbind (put_names algolist False localalgos) (\<lambda>algolist.
     buf_putstring buf (b_data algolist) (b_len algolist)))"

datatype kexguess2_used = KEXGUESS2_LOOK | KEXGUESS2_NO | KEXGUESS2_YES

text \<open>
  The loop over the received list, from index \<open>i\<close>: each comma becomes a NUL and the position
  after it is the next name. \<open>None\<close> is the jump to \<open>out\<close> on a NUL in the list.
\<close>

function split_names :: "nat \<Rightarrow> nat \<Rightarrow> bytes \<Rightarrow> nat list \<Rightarrow> (bytes \<times> nat list) option result" where
  "split_names len i algolist remotenames =
     (if i < len then
        rbind (char_at algolist i) (\<lambda>c.
        if c = 0 then Inr None
        else rbind (if c = of_char CHR '',''
                    then rbind (require (length remotenames < MAX_PROPOSED_ALGO) OutOfBounds)
                      (\<lambda>_. Inr (algolist[i := 0], remotenames @ [Suc i]))
                    else Inr (algolist, remotenames)) (\<lambda>(algolist, remotenames).
             if length remotenames \<ge> MAX_PROPOSED_ALGO then Inr (Some (algolist, remotenames))
             else split_names len (Suc i) algolist remotenames))
      else Inr (Some (algolist, remotenames)))"
  by pat_completeness auto
termination by (relation "measure (\<lambda>(len, i, _). len - i)") auto

declare split_names.simps [simp del]

fun local_names :: "algo_type list \<Rightarrow> nat \<Rightarrow> bytes option list result" where
  "local_names [] i = Inl OutOfBounds"
| "local_names (a # as) i =
     (case a_name a of
        None \<Rightarrow> Inr []
      | Some n \<Rightarrow>
          rbind (require (i < MAX_PROPOSED_ALGO) OutOfBounds) (\<lambda>_.
          rbind (local_names as (Suc i)) (\<lambda>ns.
          Inr ((if a_usable a \<noteq> 0 then Some n else None) # ns))))"

fun match_serv :: "bytes option \<Rightarrow> bytes option list \<Rightarrow> nat \<Rightarrow> nat option" where
  "match_serv c [] j = None"
| "match_serv c (s # ss) j =
     (if s \<noteq> None \<and> c \<noteq> None \<and> s = c then Some j else match_serv c ss (Suc j))"

fun match_cli :: "bytes option list \<Rightarrow> bytes option list \<Rightarrow> nat \<Rightarrow> (nat \<times> nat) option" where
  "match_cli [] servnames i = None"
| "match_cli (c # cs) servnames i =
     (case match_serv c servnames 0 of Some j \<Rightarrow> Some (i, j) | None \<Rightarrow> match_cli cs servnames (Suc i))"

definition look_kexguess2 :: "bytes list \<Rightarrow> kexguess2_used option \<Rightarrow> kexguess2_used option" where
  "look_kexguess2 names kexguess2 =
     (if kexguess2 = Some KEXGUESS2_LOOK
      then Some (if ascii KEXGUESS2_ALGO_NAME \<in> set names then KEXGUESS2_YES else KEXGUESS2_NO)
      else kexguess2)"

definition good_guess :: "kexguess2_used option \<Rightarrow> nat \<Rightarrow> nat \<Rightarrow> bool" where
  "good_guess kexguess2 i j =
     (case kexguess2 of
        None \<Rightarrow> False
      | Some KEXGUESS2_YES \<Rightarrow> i = 0
      | Some _ \<Rightarrow> i = 0 \<and> j = 0)"

text \<open>
  \<open>server\<close> is \<open>IS_DROPBEAR_SERVER\<close>; the result has the index of the chosen element of
  \<open>localalgos\<close> (\<open>None\<close> for the null pointer) and the final values of \<open>*kexguess2\<close> and
  \<open>*goodguess\<close>. A caller that passes no \<open>goodguess\<close> ignores its value.
\<close>

definition buf_match_algo ::
  "bool \<Rightarrow> buffer \<Rightarrow> algo_type list \<Rightarrow> kexguess2_used option \<Rightarrow>
     (nat option \<times> kexguess2_used option \<times> bool \<times> buffer) result" where
  "buf_match_algo server buf localalgos kexguess2 =
     rbind (buf_getstring buf) (\<lambda>(algolist, len, buf).
     if unat len > MAX_PROPOSED_ALGO * (MAX_NAME_LEN + 1) then Inr (None, kexguess2, False, buf)
     else rbind (split_names (unat len) 0 algolist [0]) (\<lambda>r. case r of
       None \<Rightarrow> Inr (None, kexguess2, False, buf)
     | Some (algolist, offs) \<Rightarrow>
         rbind (map_result (cstr_at algolist) offs) (\<lambda>remote.
         rbind (local_names localalgos 0) (\<lambda>localnames.
         let kexguess2 = look_kexguess2 remote kexguess2;
             remotenames = map Some remote;
             clinames = (if server then remotenames else localnames);
             servnames = (if server then localnames else remotenames)
         in case match_cli clinames servnames 0 of
              None \<Rightarrow> Inr (None, kexguess2, False, buf)
            | Some (i, j) \<Rightarrow>
                Inr (Some (if server then j else i), kexguess2, good_guess kexguess2 i j, buf)))))"

definition algolist_string :: "algo_type list \<Rightarrow> bytes result" where
  "algolist_string algos =
     rbind (buf_new 200) (\<lambda>b.
     rbind (buf_put_algolist b algos) (\<lambda>b.
     rbind (buf_setpos b (b_len b)) (\<lambda>b.
     rbind (buf_putbyte b 0) (\<lambda>b.
     rbind (buf_setpos b 4) (\<lambda>b.
     rbind (buf_getptr b (b_len b - b_pos b)) (\<lambda>p.
     cstr_at (b_data b) p))))))"

fun check_algo :: "bytes \<Rightarrow> algo_type list \<Rightarrow> algo_type option result" where
  "check_algo nm [] = Inl OutOfBounds"
| "check_algo nm (a # as) =
     (case a_name a of
        None \<Rightarrow> Inr None
      | Some n \<Rightarrow> if n = nm then Inr (Some a) else check_algo nm as)"

text \<open>\<open>new_algos\<close> is the part of the array written so far, its length is \<open>*num_ret\<close>.\<close>

definition try_add_algo :: "bytes \<Rightarrow> algo_type list \<Rightarrow> algo_type list \<Rightarrow> algo_type list result" where
  "try_add_algo nm algos new_algos =
     rbind (check_algo nm algos) (\<lambda>match_algo.
     case match_algo of
       None \<Rightarrow> Inr new_algos
     | Some a \<Rightarrow> rbind (require (length new_algos < MAX_PROPOSED_ALGO) OutOfBounds)
         (\<lambda>_. Inr (new_algos @ [a])))"

text \<open>
  The loop of \<open>check_user_algos\<close>: on a comma the index moves by one in the body, to the
  start of the next name, and once more in the loop header.
\<close>

function user_algos_loop ::
  "algo_type list \<Rightarrow> nat \<Rightarrow> nat \<Rightarrow> bytes \<Rightarrow> algo_type list \<Rightarrow> (nat \<times> bytes \<times> algo_type list) result" where
  "user_algos_loop algos c last_name work_list new_algos =
     (if c < length work_list then
        (if work_list ! c = 0 then Inr (last_name, work_list, new_algos)
         else if work_list ! c = of_char CHR '','' then
           (let work_list = work_list[c := 0]
            in rbind (cstr_at work_list last_name) (\<lambda>nm.
               rbind (try_add_algo nm algos new_algos) (\<lambda>new_algos.
               user_algos_loop algos (c + 2) (c + 1) work_list new_algos)))
         else user_algos_loop algos (c + 1) last_name work_list new_algos)
      else Inl OutOfBounds)"
  by pat_completeness auto
termination by (relation "measure (\<lambda>(_, c, _, w, _). length w - c)") (auto simp: Let_def)

declare user_algos_loop.simps [simp del]

text \<open>\<open>junk\<close> is the uninitialised element of \<open>new_algos\<close> that becomes the terminator.\<close>

definition check_user_algos ::
  "algo_type \<Rightarrow> bytes \<Rightarrow> algo_type list \<Rightarrow> (nat \<times> algo_type list) result" where
  "check_user_algos junk user_algo_list algos =
     rbind (user_algos_loop algos 0 0 user_algo_list []) (\<lambda>(last_name, work_list, new_algos).
     rbind (cstr_at work_list last_name) (\<lambda>nm.
     rbind (try_add_algo nm algos new_algos) (\<lambda>new_algos.
     rbind (require (length new_algos < MAX_PROPOSED_ALGO) OutOfBounds) (\<lambda>_.
     rbind (require (length new_algos + 1 \<le> length algos) OutOfBounds) (\<lambda>_.
     Inr (length new_algos,
          new_algos @ [junk\<lparr>a_name := None\<rparr>] @ drop (length new_algos + 1) algos))))))"

text \<open>
  \<open>parse_ciphers_macs\<close> of \<^verbatim>\<open>common-runopts.c\<close>: the options are C strings with their NUL; the
  result has the two tables the session then uses.
\<close>

definition parse_list ::
  "algo_type \<Rightarrow> bytes option \<Rightarrow> algo_type list \<Rightarrow> bool \<Rightarrow> string \<Rightarrow> algo_type list result" where
  "parse_list junk opt algos none_alias msg =
     (case opt of
        None \<Rightarrow> Inr algos
      | Some l \<Rightarrow>
          rbind (cstr_at l 0) (\<lambda>str.
          if str = ascii ''help'' then rbind (algolist_string algos) (\<lambda>_. Inl (Exit ''.''))
          else rbind (check_user_algos junk
                 (if none_alias \<and> str = ascii ''none'' then ascii ''none,aes128-ctr'' @ [0] else l) algos)
               (\<lambda>(n, algos'). if n = 0 then Inl (Exit msg) else Inr algos')))"

definition parse_ciphers_macs ::
  "algo_type \<Rightarrow> bytes option \<Rightarrow> bytes option \<Rightarrow> algo_type list \<Rightarrow> algo_type list \<Rightarrow>
     (algo_type list \<times> algo_type list) result" where
  "parse_ciphers_macs junk cipher_list mac_list ciphers hashes =
     rbind (parse_list junk cipher_list ciphers True ''No valid ciphers specified for -c'') (\<lambda>ciphers'.
     rbind (parse_list junk mac_list hashes False ''No valid MACs specified for -m'') (\<lambda>hashes'.
     Inr (ciphers', hashes')))"

subsection \<open>Name lists\<close>

text \<open>The list on the wire, and the reference splitting into at most \<open>m + 1\<close> names.\<close>

fun join :: "bytes list \<Rightarrow> bytes" where
  "join [] = []"
| "join [n] = n"
| "join (n # m # ns) = n @ [44] @ join (m # ns)"

fun comma_split :: "nat \<Rightarrow> bytes \<Rightarrow> bytes \<Rightarrow> bytes list" where
  "comma_split m q [] = [q]"
| "comma_split m q (c # s) =
     (if c = 44 \<and> m > 0 then q # comma_split (m - 1) [] s else comma_split m (q @ [c]) s)"

fun cut :: "nat \<Rightarrow> bytes \<Rightarrow> bytes" where
  "cut m [] = []"
| "cut m (c # s) = (if c = 44 \<and> m > 0 then 0 # cut (m - 1) s else c # cut m s)"

fun cut_offs :: "nat \<Rightarrow> nat \<Rightarrow> bytes \<Rightarrow> nat list" where
  "cut_offs m i [] = []"
| "cut_offs m i (c # s) =
     (if c = 44 \<and> m > 0 then Suc i # cut_offs (m - 1) (Suc i) s else cut_offs m (Suc i) s)"

definition name_ok :: "bytes \<Rightarrow> bool" where
  "name_ok n \<longleftrightarrow> n \<noteq> [] \<and> 0 \<notin> set n \<and> 44 \<notin> set n"

definition entries :: "algo_type list \<Rightarrow> algo_type list" where
  "entries algos = takeWhile (\<lambda>a. a_name a \<noteq> None) algos"

definition terminated :: "algo_type list \<Rightarrow> bool" where
  "terminated algos \<longleftrightarrow> (\<exists>a \<in> set algos. a_name a = None)"

definition usable_names :: "algo_type list \<Rightarrow> bytes list" where
  "usable_names algos = map (\<lambda>a. the (a_name a)) (filter (\<lambda>a. a_usable a \<noteq> 0) (entries algos))"

text \<open>
  A table that may be negotiated: terminated, of at most \<open>MAX_PROPOSED_ALGO\<close> names that are
  neither empty nor have a comma or a NUL, which fit the 160 bytes of \<open>buf_put_algolist\<close>.
\<close>

definition table_ok :: "algo_type list \<Rightarrow> bool" where
  "table_ok algos \<longleftrightarrow> terminated algos \<and> length (entries algos) \<le> MAX_PROPOSED_ALGO \<and>
     (\<forall>a \<in> set (entries algos). name_ok (the (a_name a))) \<and> length (join (usable_names algos)) \<le> 160"

lemma comma_char [simp]: "of_char CHR '','' = (44 :: u8)"
  by simp

lemma terminated_Cons: "terminated (a # as) \<longleftrightarrow> a_name a = None \<or> terminated as"
  by (auto simp: terminated_def)

lemma entries_Cons: "entries (a # as) = (if a_name a = None then [] else a # entries as)"
  by (simp add: entries_def)

lemma usable_names_Cons:
  "usable_names (a # as) = (case a_name a of None \<Rightarrow> []
     | Some n \<Rightarrow> (if a_usable a \<noteq> 0 then n # usable_names as else usable_names as))"
  by (auto simp: usable_names_def entries_Cons split: option.splits)

lemmas table_Cons = terminated_Cons entries_Cons usable_names_Cons

lemma join_Cons: "join (n # ns) = n @ (if ns = [] then [] else 44 # join ns)"
  by (cases ns) simp_all

lemma names_ok_usable: "table_ok algos \<Longrightarrow> n \<in> set (usable_names algos) \<Longrightarrow> name_ok n"
  by (auto simp: table_ok_def usable_names_def)

lemma length_usable: "table_ok algos \<Longrightarrow> length (usable_names algos) \<le> 20"
  by (simp add: table_ok_def usable_names_def MAX_PROPOSED_ALGO_def)
     (metis (no_types, lifting) length_filter_le order_trans)

subsection \<open>Sending the list\<close>

definition more_names :: "bool \<Rightarrow> bytes list \<Rightarrow> bytes" where
  "more_names donefirst ns = (if donefirst \<and> ns \<noteq> [] then 44 # join ns else join ns)"

lemma more_names_Cons:
  "more_names d (n # ns) = (if d then [44] else []) @ n @ more_names True ns"
  by (simp add: more_names_def join_Cons)

lemma put_names_eq:
  assumes "buf_inv b" and "terminated algos" and "length (more_names d (usable_names algos)) \<le> room b"
  shows "put_names b d algos = Inr (overwrite b (more_names d (usable_names algos)))"
  using assms
proof (induction algos arbitrary: b d)
  case (Cons a as)
  show ?case
  proof (cases "a_name a")
    case None
    then show ?thesis using Cons.prems(1)
      by (simp add: usable_names_Cons more_names_def overwrite_Nil)
  next
    case (Some n)
    show ?thesis
    proof (cases "a_usable a \<noteq> 0")
      case False
      then show ?thesis using Some Cons by (simp add: table_Cons)
    next
      case True
      let ?p = "if d then [44] else [] :: bytes" and ?m = "more_names True (usable_names as)"
      have len: "length ?p + length n + length ?m \<le> room b"
        using Cons.prems(3) Some True by (simp add: table_Cons more_names_Cons)
      have p: "(if d then buf_putbyte b 44 else Inr b) = Inr (overwrite b ?p)"
        using Cons.prems(1) len by (cases d) (simp_all add: buf_putbyte_eq overwrite_Nil)
      have i1: "buf_inv (overwrite b ?p)" "room (overwrite b ?p) = room b - length ?p"
        using Cons.prems(1) len by (simp_all add: overwrite_inv room_overwrite)
      have n: "unat (of_nat (length n) :: u32) = length n"
        using len room_le[OF Cons.prems(1)] by (intro unat_of_nat_u32) simp
      have q: "buf_putbytes (overwrite b ?p) n (of_nat (length n)) = Inr (overwrite b (?p @ n))"
        using i1 n len room_le[OF Cons.prems(1)] Cons.prems(1)
        by (simp add: buf_putbytes_eq overwrite_overwrite)
      have i2: "buf_inv (overwrite b (?p @ n))" "room (overwrite b (?p @ n)) = room b - (length ?p + length n)"
        using Cons.prems(1) len by (simp_all add: overwrite_inv room_overwrite)
      have "put_names (overwrite b (?p @ n)) True as = Inr (overwrite (overwrite b (?p @ n)) ?m)"
        using i2 len Cons.prems(2) Some by (intro Cons.IH) (simp_all add: table_Cons)
      moreover have "overwrite (overwrite b (?p @ n)) ?m = overwrite b (?p @ n @ ?m)"
        using Cons.prems(1) len by (subst overwrite_overwrite) auto
      ultimately show ?thesis using Some True p q
        by (cases d) (simp_all add: table_Cons more_names_Cons overwrite_Nil Cons.prems(1))
    qed
  qed
qed (simp add: terminated_def)

lemma buf_put_algolist_eq:
  assumes "table_ok algos"
  shows "buf_put_algolist buf algos = buf_put_str (join (usable_names algos)) buf"
proof -
  let ?j = "join (usable_names algos)"
  let ?b = "\<lparr>b_data = replicate 160 0, b_len = 0, b_pos = 0, b_size = 160\<rparr>"
  have n: "buf_new 160 = Inr ?b" by (simp add: buf_new_eq)
  have i: "buf_inv ?b" "length ?j \<le> room ?b"
    using assms by (simp_all add: buf_inv_def room_def table_ok_def)
  then have "put_names ?b False algos = Inr (overwrite ?b ?j)"
    using put_names_eq[of ?b algos False] assms by (simp add: more_names_def table_ok_def)
  moreover have "b_len (overwrite ?b ?j) = of_nat (length ?j)"
    "b_data (overwrite ?b ?j) = ?j @ replicate (160 - length ?j) 0"
    by (simp_all add: overwrite_def Let_def)
  moreover have "buf_putstring buf (?j @ replicate (160 - length ?j) 0) (of_nat (length ?j)) =
      buf_putstring buf ?j (of_nat (length ?j))"
  proof -
    have "unat (of_nat (length ?j) :: u32) = length ?j"
      using assms by (intro unat_of_nat_u32) (simp add: table_ok_def)
    then show ?thesis by (simp add: buf_putstring_def buf_putbytes_def mem_read_def)
  qed
  ultimately show ?thesis by (simp add: buf_put_algolist_def n buf_put_str_def)
qed

subsection \<open>Receiving the list\<close>

lemma cut_0 [simp]: "cut 0 s = s" "cut_offs 0 i s = []"
  by (induction s arbitrary: i) simp_all

lemma split_names_step:
  assumes "length algolist = Suc len" and "i < len" and "length names < MAX_PROPOSED_ALGO"
  shows "split_names len i algolist names =
    (if algolist ! i = 0 then Inr None
     else if algolist ! i = 44 then
       (if Suc (length names) \<ge> MAX_PROPOSED_ALGO then Inr (Some (algolist[i := 0], names @ [Suc i]))
        else split_names len (Suc i) (algolist[i := 0]) (names @ [Suc i]))
     else split_names len (Suc i) algolist names)"
  using assms by (subst split_names.simps) (simp add: char_at_def)

lemma split_names_end: "split_names len len algolist names = Inr (Some (algolist, names))"
  by (subst split_names.simps) simp

lemma split_names_eq:
  assumes "0 \<notin> set s" and "length names < MAX_PROPOSED_ALGO"
  shows "split_names (length pre + length s) (length pre) (pre @ s @ [0]) names =
    Inr (Some (pre @ cut (MAX_PROPOSED_ALGO - length names) s @ [0],
               names @ cut_offs (MAX_PROPOSED_ALGO - length names) (length pre) s))"
  using assms
proof (induction s arbitrary: pre names)
  case (Cons c s)
  let ?k = "MAX_PROPOSED_ALGO - length names"
  have IH: "length names' < MAX_PROPOSED_ALGO \<Longrightarrow> length pre' = Suc (length pre) \<Longrightarrow>
     split_names (Suc (length pre + length s)) (Suc (length pre)) (pre' @ s @ [0]) names' =
     Inr (Some (pre' @ cut (MAX_PROPOSED_ALGO - length names') s @ [0],
                names' @ cut_offs (MAX_PROPOSED_ALGO - length names') (Suc (length pre)) s))" for pre' names'
    using Cons.IH[of names' pre'] Cons.prems(1) by simp
  have st: "split_names (length pre + length (c # s)) (length pre) (pre @ (c # s) @ [0]) names =
    (if c = 44 then
       (if Suc (length names) \<ge> MAX_PROPOSED_ALGO
        then Inr (Some (pre @ 0 # s @ [0], names @ [Suc (length pre)]))
        else split_names (Suc (length pre + length s)) (Suc (length pre)) ((pre @ [0]) @ s @ [0])
               (names @ [Suc (length pre)]))
     else split_names (Suc (length pre + length s)) (Suc (length pre)) ((pre @ [c]) @ s @ [0]) names)"
    using Cons.prems by (subst split_names_step) (auto simp: nth_append)
  show ?case
  proof (cases "c = 44 \<and> Suc (length names) \<ge> MAX_PROPOSED_ALGO")
    case True
    then have "?k = 1" using Cons.prems(2) by linarith
    then show ?thesis unfolding st using True by simp
  next
    case False
    then show ?thesis unfolding st using Cons.prems(2) IH[of "names @ [Suc (length pre)]" "pre @ [0]"]
        IH[of names "pre @ [c]"] by auto
  qed
qed (simp add: split_names_end)

lemma cstr_at_prefix: "0 \<notin> set q \<Longrightarrow> cstr_at (p @ q @ 0 # r) (length p) = Inr q"
  by (simp add: cstr_at_def takeWhile_eq_filter) (induction q; simp)

lemma comma_split_names:
  assumes "0 \<notin> set q" and "0 \<notin> set s"
  shows "map_result (cstr_at (p @ q @ cut m s @ [0])) (length p # cut_offs m (length p + length q) s) =
     Inr (comma_split m q s)"
  using assms
proof (induction s arbitrary: p q m)
  case (Cons c s)
  show ?case
  proof (cases "c = 44 \<and> m > 0")
    case True
    then show ?thesis
      using Cons.IH[of "[]" "p @ q @ [0]" "m - 1"] Cons.prems cstr_at_prefix[of q p "cut (m - 1) s @ [0]"] by simp
  next
    case False
    then show ?thesis using Cons.IH[of "q @ [c]" p m] Cons.prems by auto
  qed
qed (simp add: cstr_at_prefix)

lemma comma_split_skip: "44 \<notin> set n \<Longrightarrow> comma_split m q (n @ s) = comma_split m (q @ n) s"
  by (induction n arbitrary: q) auto

lemma comma_split_join:
  assumes "\<forall>n \<in> set ns. name_ok n" and "length ns \<le> Suc m"
  shows "comma_split m [] (join ns) = (if ns = [] then [[]] else ns)"
  using assms
proof (induction ns arbitrary: m)
  case (Cons n ns)
  then have n: "44 \<notin> set n" by (simp add: name_ok_def)
  then show ?case using Cons comma_split_skip[OF n, of m "[]" "[]"]
    by (auto simp: join_Cons comma_split_skip)
qed simp

lemma zero_notin_join: "\<forall>n \<in> set ns. name_ok n \<Longrightarrow> 0 \<notin> set (join ns)"
  by (induction ns) (auto simp: join_Cons name_ok_def)

lemma split_names_join:
  assumes "\<forall>n \<in> set ns. name_ok n" and "length ns \<le> 20"
  shows "\<exists>al offs. split_names (length (join ns)) 0 (join ns @ [0]) [0] = Inr (Some (al, offs)) \<and>
     map_result (cstr_at al) offs = Inr (if ns = [] then [[]] else ns)"
proof -
  have z: "0 \<notin> set (join ns)" by (rule zero_notin_join[OF assms(1)])
  have "split_names (length (join ns)) 0 (join ns @ [0]) [0] =
      Inr (Some (cut 19 (join ns) @ [0], 0 # cut_offs 19 0 (join ns)))"
    using split_names_eq[of "join ns" "[0]" "[]"] z by (simp add: MAX_PROPOSED_ALGO_def)
  moreover have "map_result (cstr_at (cut 19 (join ns) @ [0])) (0 # cut_offs 19 0 (join ns)) =
      Inr (comma_split 19 [] (join ns))"
    using comma_split_names[of "[]" "join ns" "[]" 19] z by simp
  ultimately show ?thesis using comma_split_join[OF assms(1), of 19] assms(2) by auto
qed

subsection \<open>Choosing\<close>

definition somes :: "'a option list \<Rightarrow> 'a list" where
  "somes xs = map the (filter (\<lambda>x. x \<noteq> None) xs)"

lemma somes_simps [simp]:
  "somes [] = []" "somes (None # xs) = somes xs" "somes (Some x # xs) = x # somes xs"
  "somes (map Some ys) = ys"
  by (simp_all add: somes_def filter_map o_def)

lemma set_somes: "n \<in> set (somes xs) \<longleftrightarrow> Some n \<in> set xs"
  by (induction xs) (auto simp: somes_def)

lemma match_serv_None: "match_serv c ss j = None \<longleftrightarrow> c = None \<or> c \<notin> set ss"
  by (induction ss arbitrary: j) auto

lemma match_serv_Some:
  "match_serv c ss j = Some k \<Longrightarrow> c \<noteq> None \<and> j \<le> k \<and> k - j < length ss \<and> ss ! (k - j) = c"
proof (induction ss arbitrary: j)
  case (Cons s ss)
  show ?case
  proof (cases "s \<noteq> None \<and> c \<noteq> None \<and> s = c")
    case False
    then have "match_serv c ss (Suc j) = Some k" using Cons.prems by (simp split: if_splits)
    from Cons.IH[OF this] show ?thesis by (auto simp: nth_Cons')
  qed (use Cons.prems in auto)
qed simp

lemma match_cli_None:
  "match_cli cs ss i = None \<longleftrightarrow> find (\<lambda>n. n \<in> set (somes ss)) (somes cs) = None"
proof (induction cs arbitrary: i)
  case (Cons c cs)
  show ?case
  proof (cases "match_serv c ss 0")
    case None
    then have "c = None \<or> c \<notin> set ss" using match_serv_None[of c ss 0] by simp
    then show ?thesis using Cons None by (cases c) (auto simp: set_somes)
  next
    case (Some j)
    then have "\<not> (c = None \<or> c \<notin> set ss)" using match_serv_None[of c ss 0] by simp
    then show ?thesis using Some by (cases c) (auto simp: set_somes)
  qed
qed simp

lemma match_cli_Some:
  assumes "match_cli cs ss i = Some (k, j)"
  shows "\<exists>n. find (\<lambda>n. n \<in> set (somes ss)) (somes cs) = Some n \<and> i \<le> k \<and> k - i < length cs \<and>
     j < length ss \<and> cs ! (k - i) = Some n \<and> ss ! j = Some n"
  using assms
proof (induction cs arbitrary: i)
  case (Cons c cs)
  show ?case
  proof (cases "match_serv c ss 0")
    case None
    then have "match_cli cs ss (Suc i) = Some (k, j)" using Cons.prems by simp
    moreover have "find (\<lambda>n. n \<in> set (somes ss)) (somes (c # cs)) = find (\<lambda>n. n \<in> set (somes ss)) (somes cs)"
      using None by (cases c) (auto simp: match_serv_None set_somes)
    ultimately show ?thesis using Cons.IH[of "Suc i"] by (auto simp: nth_Cons')
  next
    case (Some j')
    then have "j' = j" "k = i" using Cons.prems by simp_all
    moreover obtain n where "c = Some n" "j < length ss" "ss ! j = Some n"
      using match_serv_Some[OF Some] \<open>j' = j\<close> by auto
    moreover from this have "Some n \<in> set ss" by (metis nth_mem)
    ultimately show ?thesis by (auto simp: set_somes)
  qed
qed simp

lemma local_names_eq:
  assumes "terminated algos" and "i + length (entries algos) \<le> MAX_PROPOSED_ALGO"
  shows "local_names algos i =
    Inr (map (\<lambda>a. if a_usable a \<noteq> 0 then a_name a else None) (entries algos))"
  using assms
proof (induction algos arbitrary: i)
  case (Cons a as)
  then show ?case using Cons.IH[of "Suc i"] by (auto simp: table_Cons)
qed (simp add: terminated_def)

lemma somes_local:
  "somes (map (\<lambda>a. if a_usable a \<noteq> 0 then a_name a else None) (entries algos)) = usable_names algos"
  by (induction algos) (auto simp: table_Cons usable_names_def entries_def)

lemma entries_nth: "k < length (entries algos) \<Longrightarrow> entries algos ! k = algos ! k"
  by (simp add: entries_def takeWhile_nth)

definition chosen_name :: "algo_type list \<Rightarrow> nat option \<Rightarrow> bytes option" where
  "chosen_name algos r = (case r of None \<Rightarrow> None | Some k \<Rightarrow> a_name (algos ! k))"

lemma chosen_local:
  assumes "k < length (entries algos)"
    and "map (\<lambda>a. if a_usable a \<noteq> 0 then a_name a else None) (entries algos) ! k = Some n"
  shows "a_name (algos ! k) = Some n"
  using assms by (simp add: entries_nth split: if_splits)

text \<open>The choice both sides make: the first name of the client that the server also has.\<close>

definition negotiated :: "bytes list \<Rightarrow> bytes list \<Rightarrow> bytes option" where
  "negotiated clinames servnames = find (\<lambda>n. n \<in> set servnames) clinames"

lemma buf_getstring_enc:
  assumes "buf_inv b" and "unread b = store32h (of_nat (length s)) @ s @ rest" and "length s \<le> 1400"
  shows "buf_getstring b = Inr (s @ [0], of_nat (length s), advance b (4 + length s))"
proof -
  have "load32h (take 4 (unread b)) = Inr (of_nat (length s))" using assms(2) by simp
  moreover have "\<not> (of_nat (length s) :: u32) > MAX_STRING_LEN"
    using assms(3) by (simp add: MAX_STRING_LEN_def word_nat)
  ultimately show ?thesis using assms by (simp add: buf_getstring_eq unat_of_nat_u32)
qed

lemma negotiated_empty:
  assumes "\<forall>n \<in> set ms. name_ok n"
  shows "negotiated (if ns = [] then [[]] else ns) ms = negotiated ns ms"
    and "negotiated ms (if ns = [] then [[]] else ns) = negotiated ms ns"
proof -
  have e: "[] \<notin> set ms" using assms by (auto simp: name_ok_def)
  then show "negotiated (if ns = [] then [[]] else ns) ms = negotiated ns ms"
    by (simp add: negotiated_def)
  have "find (\<lambda>n. n = []) ms = None" using e by (auto simp: find_None_iff)
  moreover have "find (\<lambda>n. False) ms = None" by (simp add: find_None_iff)
  ultimately show "negotiated ms (if ns = [] then [[]] else ns) = negotiated ms ns"
    by (simp add: negotiated_def)
qed

text \<open>The choice as a function of the two name lists: \<open>ns\<close> are the names received.\<close>

definition pick ::
  "bool \<Rightarrow> algo_type list \<Rightarrow> bytes list \<Rightarrow> kexguess2_used option \<Rightarrow> nat option \<times> kexguess2_used option \<times> bool" where
  "pick server algos ns kg =
     (let ns = (if ns = [] then [[]] else ns);
          loc = map (\<lambda>a. if a_usable a \<noteq> 0 then a_name a else None) (entries algos);
          kg = look_kexguess2 ns kg
      in case match_cli (if server then map Some ns else loc) (if server then loc else map Some ns) 0 of
           None \<Rightarrow> (None, kg, False)
         | Some (i, j) \<Rightarrow> (Some (if server then j else i), kg, good_guess kg i j))"

lemma pick_chosen:
  assumes "table_ok algos" and "pick server algos ns kg = (r, kg', guess)"
  shows "chosen_name algos r = (if server then negotiated ns (usable_names algos) else negotiated (usable_names algos) ns)"
    and "kg' = look_kexguess2 (if ns = [] then [[]] else ns) kg"
    and "r = Some k \<Longrightarrow> k < length (entries algos)"
proof -
  let ?ns = "if ns = [] then [[]] else ns"
  let ?loc = "map (\<lambda>a. if a_usable a \<noteq> 0 then a_name a else None) (entries algos)"
  let ?cli = "if server then map Some ?ns else ?loc" and ?serv = "if server then ?loc else map Some ?ns"
  have usable: "\<forall>n \<in> set (usable_names algos). name_ok n" using assms(1) names_ok_usable by blast
  have spec: "find (\<lambda>n. n \<in> set (somes ?serv)) (somes ?cli) =
      (if server then negotiated ns (usable_names algos) else negotiated (usable_names algos) ns)"
    using negotiated_empty[OF usable, of ns] by (cases server) (simp_all only: negotiated_def somes_local
        somes_simps if_True if_False)
  have run: "(case match_cli ?cli ?serv 0 of None \<Rightarrow> (None, look_kexguess2 ?ns kg, False)
     | Some (i, j) \<Rightarrow> (Some (if server then j else i), look_kexguess2 ?ns kg, good_guess (look_kexguess2 ?ns kg) i j)) =
    (r, kg', guess)"
    using assms(2) unfolding pick_def Let_def .
  then show "kg' = look_kexguess2 (if ns = [] then [[]] else ns) kg" by (auto split: option.splits)
  show "chosen_name algos r = (if server then negotiated ns (usable_names algos) else negotiated (usable_names algos) ns)"
    and "r = Some k \<Longrightarrow> k < length (entries algos)"
  proof (atomize(full), cases "match_cli ?cli ?serv 0")
    case None
    then have "r = None" using run by simp
    then show "chosen_name algos r = (if server then negotiated ns (usable_names algos) else negotiated (usable_names algos) ns)
        \<and> (r = Some k \<longrightarrow> k < length (entries algos))"
      using None spec match_cli_None[of ?cli ?serv 0] by (simp add: chosen_name_def)
  next
    case (Some ij)
    then obtain i j where ij: "match_cli ?cli ?serv 0 = Some (i, j)" by (cases ij) auto
    then have r: "r = Some (if server then j else i)" using run by simp
    obtain n where n: "find (\<lambda>n. n \<in> set (somes ?serv)) (somes ?cli) = Some n" "i < length ?cli"
      "j < length ?serv" "?cli ! i = Some n" "?serv ! j = Some n"
      using match_cli_Some[OF ij] by auto
    have "a_name (algos ! (if server then j else i)) = Some n"
      using n(2-5) chosen_local[of "if server then j else i" algos n] by (cases server) simp_all
    then show "chosen_name algos r = (if server then negotiated ns (usable_names algos) else negotiated (usable_names algos) ns)
        \<and> (r = Some k \<longrightarrow> k < length (entries algos))"
      using spec n(1-3) r by (cases server) (simp_all add: chosen_name_def)
  qed
qed

lemma buf_match_algo_pick:
  assumes "buf_inv b" and "table_ok algos" and "\<forall>n \<in> set ns. name_ok n" and "length ns \<le> 20"
    and "length (join ns) \<le> 1300"
    and "unread b = store32h (of_nat (length (join ns))) @ join ns @ rest"
    and "pick server algos ns kg = (r, kg', guess)"
  shows "buf_match_algo server b algos kg = Inr (r, kg', guess, advance b (4 + length (join ns)))"
proof -
  let ?j = "join ns" and ?ns = "if ns = [] then [[]] else ns"
  let ?loc = "map (\<lambda>a. if a_usable a \<noteq> 0 then a_name a else None) (entries algos)"
  obtain al offs where sp: "split_names (length ?j) 0 (?j @ [0]) [0] = Inr (Some (al, offs))"
    "map_result (cstr_at al) offs = Inr ?ns"
    using split_names_join[OF assms(3,4)] by blast
  have g: "buf_getstring b = Inr (?j @ [0], of_nat (length ?j), advance b (4 + length ?j))"
    using assms by (intro buf_getstring_enc) simp_all
  have u: "unat (of_nat (length ?j) :: u32) = length ?j"
    using assms(5) by (intro unat_of_nat_u32) simp
  have loc: "local_names algos 0 = Inr ?loc"
    using assms(2) by (intro local_names_eq) (simp_all add: table_ok_def)
  let ?cli = "if server then map Some ?ns else ?loc" and ?serv = "if server then ?loc else map Some ?ns"
  have run: "buf_match_algo server b algos kg =
    (case match_cli ?cli ?serv 0 of
       None \<Rightarrow> Inr (None, look_kexguess2 ?ns kg, False, advance b (4 + length ?j))
     | Some (i, j) \<Rightarrow> Inr (Some (if server then j else i), look_kexguess2 ?ns kg,
                           good_guess (look_kexguess2 ?ns kg) i j, advance b (4 + length ?j)))"
    using assms(5) unfolding buf_match_algo_def g
    by (simp only: rbind_simps prod.case u sp option.case loc Let_def)
       (simp add: MAX_PROPOSED_ALGO_def MAX_NAME_LEN_def)
  have "(case match_cli ?cli ?serv 0 of None \<Rightarrow> (None, look_kexguess2 ?ns kg, False)
     | Some (i, j) \<Rightarrow> (Some (if server then j else i), look_kexguess2 ?ns kg, good_guess (look_kexguess2 ?ns kg) i j)) =
    (r, kg', guess)"
    using assms(7) unfolding pick_def Let_def .
  then show ?thesis unfolding run by (cases "match_cli ?cli ?serv 0") auto
qed

lemma buf_match_algo_eq:
  assumes "buf_inv b" and "table_ok algos" and "\<forall>n \<in> set ns. name_ok n" and "length ns \<le> 20"
    and "length (join ns) \<le> 1300"
    and "unread b = store32h (of_nat (length (join ns))) @ join ns @ rest"
  shows "\<exists>r guess. buf_match_algo server b algos kg =
      Inr (r, look_kexguess2 (if ns = [] then [[]] else ns) kg, guess, advance b (4 + length (join ns))) \<and>
      chosen_name algos r = (if server then negotiated ns (usable_names algos)
                             else negotiated (usable_names algos) ns)"
proof -
  obtain r kg' guess where p: "pick server algos ns kg = (r, kg', guess)" by (metis prod_cases3)
  show ?thesis using buf_match_algo_pick[OF assms p] pick_chosen[OF assms(2) p] by auto
qed

subsection \<open>Arbitrary input\<close>

lemma split_names_bounds:
  assumes "length algolist = Suc len" and "algolist ! len = 0" and "i \<le> len"
    and "length names < MAX_PROPOSED_ALGO" and "\<forall>p \<in> set names. p \<le> len"
  shows "\<exists>r. split_names len i algolist names = Inr r \<and>
    (\<forall>al offs. r = Some (al, offs) \<longrightarrow>
       length al = Suc len \<and> al ! len = 0 \<and> (\<forall>p \<in> set offs. p \<le> len))"
  using assms
proof (induction "len - i" arbitrary: i algolist names)
  case 0
  then show ?case by (simp add: split_names_end)
next
  case (Suc d)
  then have i: "i < len" by simp
  have cut: "\<exists>r. split_names len (Suc i) (algolist[i := 0]) (names @ [Suc i]) = Inr r \<and>
    (\<forall>al offs. r = Some (al, offs) \<longrightarrow>
       length al = Suc len \<and> al ! len = 0 \<and> (\<forall>p \<in> set offs. p \<le> len))"
    if "Suc (length names) < MAX_PROPOSED_ALGO"
    using Suc.hyps(2) Suc.prems i that by (intro Suc.hyps(1)) auto
  have go: "\<exists>r. split_names len (Suc i) algolist names = Inr r \<and>
    (\<forall>al offs. r = Some (al, offs) \<longrightarrow>
       length al = Suc len \<and> al ! len = 0 \<and> (\<forall>p \<in> set offs. p \<le> len))"
    using Suc.hyps(2) Suc.prems i by (intro Suc.hyps(1)) auto
  show ?case
    unfolding split_names_step[OF Suc.prems(1) i Suc.prems(4)]
    using Suc.prems i cut go by auto
qed

lemma map_result_safe: "\<forall>x \<in> set xs. is_ok (f x) \<Longrightarrow> \<exists>ys. map_result f xs = Inr ys"
  by (induction xs) (auto simp: is_ok_iff)

lemma cstr_at_ok:
  assumes "length al = Suc len" and "al ! len = 0" and "p \<le> len"
  shows "is_ok (cstr_at al p)"
proof -
  have "drop p al ! (len - p) = 0" "len - p < length (drop p al)" using assms by auto
  then have "0 \<in> set (drop p al)" by (metis nth_mem)
  then show ?thesis by (simp add: cstr_at_def)
qed

lemma buf_match_algo_result:
  assumes "buf_inv b" and "terminated algos" and "length (entries algos) \<le> MAX_PROPOSED_ALGO"
    and "buf_getstring b = Inr (str, n, b')"
  shows "\<exists>r kg' guess. buf_match_algo server b algos kg = Inr (r, kg', guess, b')"
proof -
  note g = buf_getstring_result[OF assms(1,4)]
  have len: "length str = Suc (unat n)" "str ! unat n = 0"
    using g by (auto simp: nth_append)
  obtain r where r: "split_names (unat n) 0 str [0] = Inr r"
    "\<And>al offs. r = Some (al, offs) \<Longrightarrow>
       length al = Suc (unat n) \<and> al ! unat n = 0 \<and> (\<forall>p \<in> set offs. p \<le> unat n)"
    using split_names_bounds[OF len, of 0 "[0]"] by (auto simp: MAX_PROPOSED_ALGO_def)
  have loc: "local_names algos 0 =
      Inr (map (\<lambda>a. if a_usable a \<noteq> 0 then a_name a else None) (entries algos))"
    using assms by (intro local_names_eq) simp_all
  show ?thesis
  proof (cases r)
    case None
    then show ?thesis using assms(4) r(1) by (auto simp: buf_match_algo_def)
  next
    case (Some ao)
    then obtain al offs where ao: "r = Some (al, offs)" by (cases ao) simp
    have "\<forall>p \<in> set offs. is_ok (cstr_at al p)" using r(2)[OF ao] cstr_at_ok by blast
    then obtain remote where "map_result (cstr_at al) offs = Inr remote"
      using map_result_safe by blast
    then show ?thesis using assms(4) r(1) ao loc
      by (auto simp: buf_match_algo_def Let_def split: option.split)
  qed
qed

lemma buf_match_algo_inv:
  assumes "buf_inv b" and "buf_match_algo server b algos kg = Inr (r, kg', guess, b')"
  shows "buf_inv b'"
proof -
  obtain str n b1 where "buf_getstring b = Inr (str, n, b1)"
    using assms(2) by (auto simp: buf_match_algo_def result_simps)
  moreover from this have "b' = b1" using assms(2)
    by (auto simp: buf_match_algo_def Let_def elim!: rbind_InrE split: if_splits option.splits)
  ultimately show ?thesis using buf_getstring_inv[OF assms(1)] by simp
qed

subsection \<open>The user's list\<close>

lemma check_algo_eq:
  "terminated algos \<Longrightarrow> check_algo nm algos = Inr (find (\<lambda>a. a_name a = Some nm) (entries algos))"
  by (induction algos) (auto simp: table_Cons terminated_def split: option.splits)

definition supported :: "algo_type list \<Rightarrow> bytes list \<Rightarrow> algo_type list" where
  "supported algos nms = somes (map (\<lambda>n. find (\<lambda>a. a_name a = Some n) (entries algos)) nms)"

lemma supported_simps:
  "supported algos [] = []"
  "supported algos (n # ns) = (case find (\<lambda>a. a_name a = Some n) (entries algos) of
     None \<Rightarrow> supported algos ns | Some a \<Rightarrow> a # supported algos ns)"
  by (auto simp: supported_def split: option.splits)

lemma try_add_algo_eq:
  assumes "terminated algos" and "length new + length (supported algos [nm]) \<le> MAX_PROPOSED_ALGO"
  shows "try_add_algo nm algos new = Inr (new @ supported algos [nm])"
  using assms
  by (auto simp: try_add_algo_def check_algo_eq supported_simps split: option.splits)

lemma user_loop_skip:
  assumes "0 \<notin> set q" and "44 \<notin> set q"
  shows "user_algos_loop algos (length p) l (p @ q @ r) new =
         user_algos_loop algos (length p + length q) l (p @ q @ r) new"
  using assms
proof (induction q arbitrary: p)
  case (Cons c q)
  have "user_algos_loop algos (length p) l (p @ (c # q) @ r) new =
      user_algos_loop algos (length p + 1) l (p @ (c # q) @ r) new"
    using Cons.prems by (subst user_algos_loop.simps) simp
  also have "\<dots> = user_algos_loop algos (length p + 1 + length q) l (p @ (c # q) @ r) new"
    using Cons.IH[of "p @ [c]"] Cons.prems by simp
  finally show ?case by simp
qed simp

lemma user_loop_comma:
  assumes "0 \<notin> set q" and "44 \<notin> set q" and "c \<noteq> 0" and "c \<noteq> 44"
  shows "user_algos_loop algos (length p) l (p @ q @ [44, c] @ r) new =
    rbind (cstr_at (p @ q @ [0, c] @ r) l) (\<lambda>nm. rbind (try_add_algo nm algos new)
      (user_algos_loop algos (length p + length q + 2) (length p + length q + 1) (p @ q @ [0, c] @ r)))"
proof -
  have "user_algos_loop algos (length p) l (p @ q @ [44, c] @ r) new =
      user_algos_loop algos (length p + length q) l (p @ q @ [44, c] @ r) new"
    by (rule user_loop_skip[OF assms(1,2)])
  also have "\<dots> = rbind (cstr_at (p @ q @ [0, c] @ r) l) (\<lambda>nm. rbind (try_add_algo nm algos new)
      (user_algos_loop algos (length p + length q + 2) (length p + length q + 1) (p @ q @ [0, c] @ r)))"
    by (subst user_algos_loop.simps) (simp add: nth_append Let_def list_update_append)
  finally show ?thesis .
qed

lemma user_loop_last:
  assumes "0 \<notin> set q" and "44 \<notin> set q"
  shows "user_algos_loop algos (length p) l (p @ q @ [0]) new = Inr (l, p @ q @ [0], new)"
  unfolding user_loop_skip[OF assms] by (subst user_algos_loop.simps) (simp add: nth_append)

lemma user_loop_names:
  assumes "terminated algos" and "name_ok (n1 @ n2)" and "\<forall>n \<in> set ns. name_ok n"
    and "length new + length (supported algos ((n1 @ n2) # ns)) \<le> MAX_PROPOSED_ALGO"
  shows "\<exists>l w new1. user_algos_loop algos (length p + length n1) (length p)
             (p @ n1 @ n2 @ more_names True ns @ [0]) new = Inr (l, w, new1) \<and>
           rbind (cstr_at w l) (\<lambda>nm. try_add_algo nm algos new1) =
             Inr (new @ supported algos ((n1 @ n2) # ns))"
  using assms
proof (induction ns arbitrary: p n1 n2 new)
  case Nil
  then show ?case
    using user_loop_last[of n2 algos "p @ n1" "length p" new] cstr_at_prefix[of "n1 @ n2" p "[]"]
      try_add_algo_eq[of algos new "n1 @ n2"]
    by (auto simp: name_ok_def more_names_def)
next
  case (Cons m ns)
  obtain c m' where m: "m = [c] @ m'" using Cons.prems(3) by (cases m) (auto simp: name_ok_def)
  then have mok: "c \<noteq> 0" "c \<noteq> 44" "name_ok ([c] @ m')" using Cons.prems(3) by (auto simp: name_ok_def)
  let ?n = "n1 @ n2" and ?p = "p @ n1 @ n2 @ [0]" and ?r = "m' @ more_names True ns @ [0]"
  have sup: "supported algos (?n # m # ns) = supported algos [?n] @ supported algos (m # ns)"
    by (simp add: supported_simps split: option.splits)
  have "user_algos_loop algos (length p + length n1) (length p)
      (p @ n1 @ n2 @ more_names True (m # ns) @ [0]) new =
    rbind (cstr_at (p @ ?n @ 0 # c # ?r) (length p)) (\<lambda>nm. rbind (try_add_algo nm algos new)
      (user_algos_loop algos (length ?p + length [c]) (length ?p) (?p @ [c] @ ?r)))"
    using user_loop_comma[of n2 c algos "p @ n1" "length p" ?r new] mok Cons.prems(2) m
    by (simp add: more_names_Cons name_ok_def add.assoc)
  also have "\<dots> = user_algos_loop algos (length ?p + length [c]) (length ?p) (?p @ [c] @ ?r)
      (new @ supported algos [?n])"
    using cstr_at_prefix[of ?n p "c # ?r"] try_add_algo_eq[of algos new ?n] Cons.prems sup
    by (simp add: name_ok_def)
  finally show ?case
    using Cons.IH[of "[c]" m' "new @ supported algos [?n]" ?p] Cons.prems mok(3) m sup by auto
qed

lemma check_user_algos_eq:
  assumes "terminated algos" and "ns \<noteq> []" and "\<forall>n \<in> set ns. name_ok n"
    and "length (supported algos ns) < MAX_PROPOSED_ALGO" and "length (supported algos ns) < length algos"
  shows "check_user_algos junk (join ns @ [0]) algos =
    Inr (length (supported algos ns), supported algos ns @ [junk\<lparr>a_name := None\<rparr>] @
           drop (length (supported algos ns) + 1) algos)"
proof -
  obtain n ns' where ns: "ns = n # ns'" using assms(2) by (cases ns) auto
  have j: "join ns = n @ more_names True ns'" by (simp add: ns join_Cons more_names_def)
  obtain l w new1 where "user_algos_loop algos 0 0 (join ns @ [0]) [] = Inr (l, w, new1)"
    "rbind (cstr_at w l) (\<lambda>nm. try_add_algo nm algos new1) = Inr (supported algos ns)"
    using user_loop_names[of algos "[]" n ns' "[]" "[]"] assms unfolding j by (auto simp: ns)
  then show ?thesis using assms(4,5) by (auto simp: check_user_algos_def result_simps)
qed

lemma supported_entries:
  "a \<in> set (supported algos ns) \<Longrightarrow> a \<in> set (entries algos)"
  by (induction ns) (auto simp: supported_simps find_Some_iff split: option.splits)

lemma supported_names:
  "map a_name (supported algos ns) = map Some (filter (\<lambda>n. Some n \<in> a_name ` set (entries algos)) ns)"
proof (induction ns)
  case (Cons n ns)
  show ?case
  proof (cases "find (\<lambda>a. a_name a = Some n) (entries algos)")
    case None
    moreover from this have "Some n \<notin> a_name ` set (entries algos)"
      by (auto simp: find_None_iff image_iff)
    ultimately show ?thesis using Cons by (simp add: supported_simps)
  next
    case (Some a)
    moreover from this have "a_name a = Some n" "a \<in> set (entries algos)"
      by (auto simp: find_Some_iff)
    moreover from this have "Some n \<in> a_name ` set (entries algos)" by (metis image_eqI)
    ultimately show ?thesis using Cons by (simp add: supported_simps)
  qed
qed (simp add: supported_simps)

subsection \<open>Properties\<close>

lemmas algo_tables = sshciphers_def sshhashes_def ssh_nocompress_def sshhostkey_def sshkex_def
  algo_cipher_def algo_hash_def algo_plain_def algo_end_def ascii_def KEXGUESS2_ALGO_NAME_def

lemma tables_ok [simp]:
  "table_ok sshciphers" "table_ok sshhashes" "table_ok ssh_nocompress" "table_ok sshhostkey" "table_ok sshkex"
  by (simp_all add: table_ok_def algo_tables terminated_def entries_def usable_names_def name_ok_def
      MAX_PROPOSED_ALGO_def)

text \<open>
  C27: client and server agree. When each side sends its table with \<open>buf_put_algolist\<close> and
  reads the other's list with \<open>buf_match_algo\<close>, both runs succeed and choose entries of the
  same name: the first usable name of the client that the server has too, and none exactly
  when they have no usable name in common.
\<close>
theorem negotiation_agrees:
  assumes "table_ok cli" and "table_ok serv"
    and "buf_inv bc" and "buf_put_algolist bc cli = Inr bc'"
    and "buf_inv bs" and "buf_put_algolist bs serv = Inr bs'"
    and "buf_inv rs" and "unread rs = drop (length (written bc)) (written bc') @ rests"
    and "buf_inv rc" and "unread rc = drop (length (written bs)) (written bs') @ restc"
  shows "\<exists>ks kgs gs rs' kc kgc gc rc'.
     buf_match_algo True rs serv kg1 = Inr (ks, kgs, gs, rs') \<and>
     buf_match_algo False rc cli kg2 = Inr (kc, kgc, gc, rc') \<and>
     chosen_name serv ks = negotiated (usable_names cli) (usable_names serv) \<and>
     chosen_name cli kc = negotiated (usable_names cli) (usable_names serv)"
proof -
  have sent: "drop (length (written b)) (written b') =
      store32h (of_nat (length (join (usable_names algos)))) @ join (usable_names algos)"
    if "table_ok algos" "buf_inv b" "buf_put_algolist b algos = Inr b'" for algos b b'
  proof -
    let ?e = "store32h (of_nat (length (join (usable_names algos)))) @ join (usable_names algos)"
    have l: "length (join (usable_names algos)) \<le> 1400" using that(1) by (simp add: table_ok_def)
    have fits: "length ?e \<le> room b"
      using str_codec.put_ok_iff[OF that(2) l] that(3) by (simp add: buf_put_algolist_eq[OF that(1)])
    then have "b' = overwrite b ?e"
      using str_codec.put_enc[OF that(2) l] that(3) by (simp add: buf_put_algolist_eq[OF that(1)])
    then show ?thesis using written_overwrite[OF that(2) fits] by simp
  qed
  have n: "\<forall>n \<in> set (usable_names algos). name_ok n" "length (usable_names algos) \<le> 20"
    "length (join (usable_names algos)) \<le> 1300" if "table_ok algos" for algos
    using that names_ok_usable length_usable by (auto simp: table_ok_def)
  show ?thesis
    using buf_match_algo_eq[OF assms(7,2) n[OF assms(1)], of rests True kg1]
      buf_match_algo_eq[OF assms(9,1) n[OF assms(2)], of restc False kg2]
      sent[OF assms(1,3,4)] sent[OF assms(2,5,6)] assms(8,10) by auto
qed

theorem negotiation_agrees_witness:
  "\<exists>ks kgs gs rs'. buf_match_algo True
     \<lparr>b_data = [0, 0, 0, 4] @ ascii ''none'', b_len = 8, b_pos = 0, b_size = 8\<rparr>
     [algo_plain ''zlib'' 1, algo_plain ''none'' 0, algo_end] None = Inr (ks, kgs, gs, rs') \<and>
     chosen_name [algo_plain ''zlib'' 1, algo_plain ''none'' 0, algo_end] ks = Some (ascii ''none'')"
proof -
  let ?serv = "[algo_plain ''zlib'' 1, algo_plain ''none'' 0, algo_end]"
  let ?b = "\<lparr>b_data = replicate 16 0, b_len = 0, b_pos = 0, b_size = 16\<rparr>"
  let ?rs = "\<lparr>b_data = [0, 0, 0, 4] @ ascii ''none'', b_len = 8, b_pos = 0, b_size = 8\<rparr>"
  let ?rc = "\<lparr>b_data = [0, 0, 0, 9] @ ascii ''zlib,none'', b_len = 13, b_pos = 0, b_size = 13\<rparr>"
  have ok: "table_ok ?serv"
    by (simp add: table_ok_def algo_tables terminated_def entries_def usable_names_def name_ok_def
        MAX_PROPOSED_ALGO_def)
  have names: "usable_names ?serv = [ascii ''zlib'', ascii ''none'']"
    "usable_names ssh_nocompress = [ascii ''none'']"
    by (simp_all add: usable_names_def entries_def algo_tables)
  have inv: "buf_inv ?b" "buf_inv ?rs" "buf_inv ?rc"
    by (simp_all add: buf_inv_def ascii_def)
  have pc: "buf_put_algolist ?b ssh_nocompress = Inr (overwrite ?b ([0, 0, 0, 4] @ ascii ''none''))"
    unfolding buf_put_algolist_eq[OF tables_ok(3)] names
    by (simp add: buf_put_str_def buf_putstring_eq[OF inv(1)] room_def store32h_def ascii_def)
  have ps: "buf_put_algolist ?b ?serv = Inr (overwrite ?b ([0, 0, 0, 9] @ ascii ''zlib,none''))"
    unfolding buf_put_algolist_eq[OF ok] names
    by (simp add: buf_put_str_def buf_putstring_eq[OF inv(1)] room_def store32h_def ascii_def)
  have u: "unread ?rs = drop (length (written ?b)) (written (overwrite ?b ([0, 0, 0, 4] @ ascii ''none''))) @ []"
    "unread ?rc = drop (length (written ?b)) (written (overwrite ?b ([0, 0, 0, 9] @ ascii ''zlib,none''))) @ []"
    by (simp_all add: unread_def written_def overwrite_def Let_def ascii_def)
  have "negotiated (usable_names ssh_nocompress) (usable_names ?serv) = Some (ascii ''none'')"
    unfolding names by (simp add: negotiated_def)
  then show ?thesis
    using negotiation_agrees[OF tables_ok(3) ok inv(1) pc inv(1) ps inv(2) u(1) inv(3) u(2), of None None]
    by auto
qed

text \<open>
  C30: whatever bytes the peer sends, \<open>buf_match_algo\<close> stays inside the received string and its
  two arrays of \<open>MAX_PROPOSED_ALGO\<close> names: it stops only where \<open>buf_getstring\<close> does, and
  otherwise returns with the buffer moved past the string.
\<close>
theorem match_algo_safe:
  assumes "buf_inv b" and "terminated algos" and "length (entries algos) \<le> MAX_PROPOSED_ALGO"
  shows "is_safe (buf_match_algo server b algos kg) \<and>
    (is_ok (buf_match_algo server b algos kg) \<longleftrightarrow> is_ok (buf_getstring b)) \<and>
    (\<forall>r kg' guess b'. buf_match_algo server b algos kg = Inr (r, kg', guess, b') \<longrightarrow> buf_inv b')"
proof (cases "buf_getstring b")
  case (Inl e)
  moreover have "is_safe (buf_getstring b)" by (rule buf_getstring_safe[OF assms(1)])
  ultimately show ?thesis by (simp add: buf_match_algo_def)
next
  case (Inr x)
  then obtain str n b1 where "buf_getstring b = Inr (str, n, b1)" by (cases x) auto
  then obtain r kg' guess where "buf_match_algo server b algos kg = Inr (r, kg', guess, b1)"
    using buf_match_algo_result[OF assms] by blast
  then show ?thesis using Inr buf_match_algo_inv[OF assms(1)] by auto
qed

theorem match_algo_safe_witness:
  "is_ok (buf_match_algo True \<lparr>b_data = [0, 0, 0, 3, 44, 0, 44], b_len = 7, b_pos = 0, b_size = 7\<rparr> sshkex None)"
  using match_algo_safe[of "\<lparr>b_data = [0, 0, 0, 3, 44, 0, 44], b_len = 7, b_pos = 0, b_size = 7\<rparr>" sshkex True None]
    tables_ok(5) by (simp add: table_ok_def buf_inv_def buf_eval)

text \<open>
  A list of well-formed names given with \<open>-c\<close> or \<open>-m\<close> becomes the table: the entries kept
  are those of the names that exist, in the order the user gave them, and their number is
  returned, as long as they fit the table and the local array.
\<close>
theorem user_algos_select:
  assumes "terminated algos" and "ns \<noteq> []" and "\<forall>n \<in> set ns. name_ok n"
    and "length (filter (\<lambda>n. Some n \<in> a_name ` set (entries algos)) ns) < min MAX_PROPOSED_ALGO (length algos)"
  shows "\<exists>k algos'. check_user_algos junk (join ns @ [0]) algos = Inr (k, algos') \<and>
     map a_name (entries algos') = map Some (filter (\<lambda>n. Some n \<in> a_name ` set (entries algos)) ns) \<and>
     set (entries algos') \<subseteq> set (entries algos) \<and> k = length (entries algos') \<and>
     terminated algos' \<and> length algos' = length algos"
proof -
  let ?s = "supported algos ns"
  let ?t = "?s @ [junk\<lparr>a_name := None\<rparr>] @ drop (length ?s + 1) algos"
  have l: "length ?s = length (filter (\<lambda>n. Some n \<in> a_name ` set (entries algos)) ns)"
    by (metis supported_names length_map)
  have e: "entries ?t = ?s"
  proof -
    have "\<forall>a \<in> set ?s. a_name a \<noteq> None"
      using supported_entries by (metis entries_def set_takeWhileD)
    then show ?thesis by (simp add: entries_def takeWhile_append2)
  qed
  have "check_user_algos junk (join ns @ [0]) algos = Inr (length ?s, ?t)"
    using assms l by (intro check_user_algos_eq) simp_all
  moreover have "terminated ?t" "length ?t = length algos"
    using assms(4) l by (simp add: terminated_def, simp, linarith)
  moreover have "map a_name (entries ?t) = map Some (filter (\<lambda>n. Some n \<in> a_name ` set (entries algos)) ns)"
    "set (entries ?t) \<subseteq> set (entries algos)" "length ?s = length (entries ?t)"
    unfolding e using supported_names supported_entries by blast+
  ultimately show ?thesis by blast
qed

theorem user_algos_select_witness:
  "\<exists>k algos'. check_user_algos algo_end (join [ascii ''hmac-md5'', ascii ''x'', ascii ''hmac-sha1''] @ [0]) sshhashes =
       Inr (k, algos') \<and> map a_name (entries algos') = [Some (ascii ''hmac-md5''), Some (ascii ''hmac-sha1'')]"
proof -
  let ?ns = "[ascii ''hmac-md5'', ascii ''x'', ascii ''hmac-sha1'']"
  have t: "terminated sshhashes" using tables_ok(2) by (simp add: table_ok_def)
  have f: "filter (\<lambda>n. Some n \<in> a_name ` set (entries sshhashes)) ?ns = [ascii ''hmac-md5'', ascii ''hmac-sha1'']"
    by (simp add: algo_tables entries_def)
  have n: "\<forall>n \<in> set ?ns. name_ok n" by (simp add: name_ok_def ascii_def)
  show ?thesis
    using user_algos_select[OF t _ n, of algo_end] unfolding f
    by (auto simp: MAX_PROPOSED_ALGO_def sshhashes_def)
qed


end
