(* ===== verification/Cipher.thy ===== *)
theory Cipher
  imports Algo
begin

text \<open>
  The cipher modes and the MAC the packet layer calls through \<open>crypt_mode\<close> and \<open>hmac_*\<close>:
  \<open>dropbear_mode_none\<close> of \<^verbatim>\<open>src/reconos/dropbear/common-algo.c\<close>, CBC and CTR of
  \<^verbatim>\<open>libtomcrypt/src/modes\<close> and HMAC of \<^verbatim>\<open>libtomcrypt/src/mac/hmac\<close>, in their byte-by-byte
  form (\<open>LTC_FAST\<close> is not defined on ARM, and no registered cipher has an accelerator). The
  block ciphers and the hash functions below them are the fields of the record \<open>crypto\<close>; what
  the modes rely on is \<open>crypto_ok\<close>. A key schedule is represented by the key it was computed
  from. \<open>None\<close> is a return value other than \<open>CRYPT_OK\<close>. The contract of a mode towards the
  packet layer is the locale \<open>cipher_mode_pair\<close>.
\<close>

subsection \<open>Primitives\<close>

record crypto =
  cr_setup_ok :: "cipher_desc \<Rightarrow> nat \<Rightarrow> bool"
  cr_ecb_encrypt :: "cipher_desc \<Rightarrow> bytes \<Rightarrow> bytes \<Rightarrow> bytes"
  cr_ecb_decrypt :: "cipher_desc \<Rightarrow> bytes \<Rightarrow> bytes \<Rightarrow> bytes"
  cr_hash :: "hash_desc \<Rightarrow> bytes \<Rightarrow> bytes"

fun block_length :: "cipher_desc \<Rightarrow> nat" where
  "block_length aes_desc = 16"
| "block_length twofish_desc = 16"
| "block_length des3_desc = 8"

fun digest_size :: "hash_desc \<Rightarrow> nat" where
  "digest_size sha1_desc = 20"
| "digest_size md5_desc = 16"

fun hash_blocksize :: "hash_desc \<Rightarrow> nat" where
  "hash_blocksize sha1_desc = 64"
| "hash_blocksize md5_desc = 64"

text \<open>
  A block cipher maps blocks to blocks, its decryption inverts its encryption, and a hash
  function returns as many bytes as its descriptor says.
\<close>

definition crypto_ok :: "crypto \<Rightarrow> bool" where
  "crypto_ok cr \<longleftrightarrow>
     (\<forall>d k b. length b = block_length d \<longrightarrow>
        length (cr_ecb_encrypt cr d k b) = block_length d \<and>
        length (cr_ecb_decrypt cr d k b) = block_length d \<and>
        cr_ecb_decrypt cr d k (cr_ecb_encrypt cr d k b) = b) \<and>
     (\<forall>h m. length (cr_hash cr h m) = digest_size h)"

definition xor_bytes :: "bytes \<Rightarrow> bytes \<Rightarrow> bytes" where
  "xor_bytes xs ys = map2 (\<lambda>x y. x XOR y) xs ys"

definition MAXBLOCKSIZE :: nat where "MAXBLOCKSIZE = 128"

subsection \<open>CBC\<close>

record symmetric_CBC =
  cbc_cipher :: cipher_desc
  cbc_blocklen :: nat
  cbc_IV :: bytes
  cbc_key :: bytes

definition cbc_start ::
  "crypto \<Rightarrow> cipher_desc \<Rightarrow> bytes \<Rightarrow> bytes \<Rightarrow> nat \<Rightarrow> symmetric_CBC option" where
  "cbc_start cr cipher IV key keylen =
     (if \<not> cr_setup_ok cr cipher keylen then None
      else Some \<lparr>cbc_cipher = cipher, cbc_blocklen = block_length cipher,
                 cbc_IV = take (block_length cipher) IV, cbc_key = take keylen key\<rparr>)"

text \<open>The loops; a block is read before it is overwritten, so input and output may coincide.\<close>

function cbc_enc_loop :: "(bytes \<Rightarrow> bytes) \<Rightarrow> nat \<Rightarrow> bytes \<Rightarrow> bytes \<Rightarrow> bytes \<times> bytes" where
  "cbc_enc_loop E n pt IV =
     (if pt = [] \<or> n = 0 then ([], IV)
      else let ct = E (xor_bytes IV (take n pt));
               (cts, IV') = cbc_enc_loop E n (drop n pt) ct
           in (ct @ cts, IV'))"
  by pat_completeness auto
termination by (relation "measure (\<lambda>(_, _, pt, _). length pt)") auto

function cbc_dec_loop :: "(bytes \<Rightarrow> bytes) \<Rightarrow> nat \<Rightarrow> bytes \<Rightarrow> bytes \<Rightarrow> bytes \<times> bytes" where
  "cbc_dec_loop D n ct IV =
     (if ct = [] \<or> n = 0 then ([], IV)
      else let tmp = D (take n ct);
               (pts, IV') = cbc_dec_loop D n (drop n ct) (take n ct)
           in (xor_bytes tmp IV @ pts, IV'))"
  by pat_completeness auto
termination by (relation "measure (\<lambda>(_, _, ct, _). length ct)") auto

declare cbc_enc_loop.simps [simp del] cbc_dec_loop.simps [simp del]

definition cbc_encrypt :: "crypto \<Rightarrow> bytes \<Rightarrow> symmetric_CBC \<Rightarrow> (bytes \<times> symmetric_CBC) option" where
  "cbc_encrypt cr pt cbc =
     (if cbc_blocklen cbc < 1 \<or> cbc_blocklen cbc > MAXBLOCKSIZE then None
      else if length pt mod cbc_blocklen cbc \<noteq> 0 then None
      else let (ct, IV) = cbc_enc_loop (cr_ecb_encrypt cr (cbc_cipher cbc) (cbc_key cbc))
                            (cbc_blocklen cbc) pt (cbc_IV cbc)
           in Some (ct, cbc\<lparr>cbc_IV := IV\<rparr>))"

definition cbc_decrypt :: "crypto \<Rightarrow> bytes \<Rightarrow> symmetric_CBC \<Rightarrow> (bytes \<times> symmetric_CBC) option" where
  "cbc_decrypt cr ct cbc =
     (if cbc_blocklen cbc < 1 \<or> cbc_blocklen cbc > MAXBLOCKSIZE then None
      else if length ct mod cbc_blocklen cbc \<noteq> 0 then None
      else let (pt, IV) = cbc_dec_loop (cr_ecb_decrypt cr (cbc_cipher cbc) (cbc_key cbc))
                            (cbc_blocklen cbc) ct (cbc_IV cbc)
           in Some (pt, cbc\<lparr>cbc_IV := IV\<rparr>))"

subsection \<open>CTR\<close>

record symmetric_CTR =
  ctr_cipher :: cipher_desc
  ctr_blocklen :: nat
  ctr_padlen :: nat
  ctr_ctr :: bytes
  ctr_pad :: bytes
  ctr_key :: bytes

text \<open>The big-endian counter: from the last byte, add one and stop at the first nonzero result.\<close>

fun incr_le :: "bytes \<Rightarrow> bytes" where
  "incr_le [] = []"
| "incr_le (c # cs) = (let d = (c + 1) AND 255 in if d \<noteq> 0 then d # cs else d # incr_le cs)"

definition ctr_increment :: "bytes \<Rightarrow> bytes" where
  "ctr_increment c = rev (incr_le (rev c))"

text \<open>\<open>dropbear_big_endian_ctr_start\<close>: \<open>ctr_start\<close> with \<open>CTR_COUNTER_BIG_ENDIAN\<close>.\<close>

definition ctr_start ::
  "crypto \<Rightarrow> cipher_desc \<Rightarrow> bytes \<Rightarrow> bytes \<Rightarrow> nat \<Rightarrow> symmetric_CTR option" where
  "ctr_start cr cipher IV key keylen =
     (if \<not> cr_setup_ok cr cipher keylen then None
      else let n = block_length cipher; c = take n IV; k = take keylen key
           in Some \<lparr>ctr_cipher = cipher, ctr_blocklen = n, ctr_padlen = 0, ctr_ctr = c,
                    ctr_pad = cr_ecb_encrypt cr cipher k c, ctr_key = k\<rparr>)"

definition ctr_refill :: "crypto \<Rightarrow> symmetric_CTR \<Rightarrow> symmetric_CTR" where
  "ctr_refill cr ctr =
     (if ctr_padlen ctr = ctr_blocklen ctr
      then let c = ctr_increment (take (ctr_blocklen ctr) (ctr_ctr ctr))
           in ctr\<lparr>ctr_ctr := c, ctr_pad := cr_ecb_encrypt cr (ctr_cipher ctr) (ctr_key ctr) c,
                  ctr_padlen := 0\<rparr>
      else ctr)"

fun ctr_loop :: "crypto \<Rightarrow> bytes \<Rightarrow> symmetric_CTR \<Rightarrow> (bytes \<times> symmetric_CTR) option" where
  "ctr_loop cr [] ctr = Some ([], ctr)"
| "ctr_loop cr (p # pt) ctr =
     (let ctr1 = ctr_refill cr ctr
      in if ctr_padlen ctr1 < length (ctr_pad ctr1)
         then (case ctr_loop cr pt (ctr1\<lparr>ctr_padlen := ctr_padlen ctr1 + 1\<rparr>) of
                 None \<Rightarrow> None
               | Some (ct, ctr2) \<Rightarrow> Some ((p XOR ctr_pad ctr1 ! ctr_padlen ctr1) # ct, ctr2))
         else None)"

definition ctr_encrypt :: "crypto \<Rightarrow> bytes \<Rightarrow> symmetric_CTR \<Rightarrow> (bytes \<times> symmetric_CTR) option" where
  "ctr_encrypt cr pt ctr =
     (if ctr_blocklen ctr < 1 \<or> ctr_blocklen ctr > MAXBLOCKSIZE \<or> ctr_padlen ctr > MAXBLOCKSIZE
      then None else ctr_loop cr pt ctr)"

definition ctr_decrypt :: "crypto \<Rightarrow> bytes \<Rightarrow> symmetric_CTR \<Rightarrow> (bytes \<times> symmetric_CTR) option" where
  "ctr_decrypt cr ct ctr = ctr_encrypt cr ct ctr"

subsection \<open>The mode table\<close>

text \<open>
  The union \<open>cipher_state\<close>: all zero as allocated, or started in one of its members. A zero
  state has block length 0, which the CBC and CTR functions refuse.
\<close>

datatype cipher_state = StateZero | StateCBC symmetric_CBC | StateCTR symmetric_CTR

definition void_cipher :: "bytes \<Rightarrow> cipher_state \<Rightarrow> (bytes \<times> cipher_state) option" where
  "void_cipher buf st = Some (buf, st)"

fun mode_start ::
  "crypto \<Rightarrow> cipher_mode \<Rightarrow> cipher_desc \<Rightarrow> bytes \<Rightarrow> bytes \<Rightarrow> nat \<Rightarrow> cipher_state \<Rightarrow> cipher_state option" where
  "mode_start cr mode_none d IV key keylen st = Some st"
| "mode_start cr mode_cbc d IV key keylen st = map_option StateCBC (cbc_start cr d IV key keylen)"
| "mode_start cr mode_ctr d IV key keylen st = map_option StateCTR (ctr_start cr d IV key keylen)"

fun mode_encrypt :: "crypto \<Rightarrow> cipher_mode \<Rightarrow> bytes \<Rightarrow> cipher_state \<Rightarrow> (bytes \<times> cipher_state) option" where
  "mode_encrypt cr mode_none pt st = void_cipher pt st"
| "mode_encrypt cr mode_cbc pt (StateCBC s) = map_option (map_prod id StateCBC) (cbc_encrypt cr pt s)"
| "mode_encrypt cr mode_ctr pt (StateCTR s) = map_option (map_prod id StateCTR) (ctr_encrypt cr pt s)"
| "mode_encrypt cr _ pt _ = None"

fun mode_decrypt :: "crypto \<Rightarrow> cipher_mode \<Rightarrow> bytes \<Rightarrow> cipher_state \<Rightarrow> (bytes \<times> cipher_state) option" where
  "mode_decrypt cr mode_none ct st = void_cipher ct st"
| "mode_decrypt cr mode_cbc ct (StateCBC s) = map_option (map_prod id StateCBC) (cbc_decrypt cr ct s)"
| "mode_decrypt cr mode_ctr ct (StateCTR s) = map_option (map_prod id StateCTR) (ctr_decrypt cr ct s)"
| "mode_decrypt cr _ ct _ = None"

subsection \<open>HMAC\<close>

text \<open>\<open>hm_data\<close> is what the running hash has been given so far.\<close>

record hmac_state =
  hm_hash :: hash_desc
  hm_key :: bytes
  hm_data :: bytes

definition hmac_init :: "crypto \<Rightarrow> hash_desc \<Rightarrow> bytes \<Rightarrow> nat \<Rightarrow> hmac_state option" where
  "hmac_init cr h key keylen =
     (if keylen = 0 then None
      else let bs = hash_blocksize h;
               k = (if keylen > bs
                    then cr_hash cr h (take keylen key) @ replicate (bs - digest_size h) 0
                    else take keylen key @ replicate (bs - keylen) 0)
           in Some \<lparr>hm_hash = h, hm_key = k, hm_data = map (\<lambda>c. c XOR 0x36) k\<rparr>)"

definition hmac_process :: "hmac_state \<Rightarrow> bytes \<Rightarrow> hmac_state" where
  "hmac_process hm inp = hm\<lparr>hm_data := hm_data hm @ inp\<rparr>"

definition hmac_done :: "crypto \<Rightarrow> hmac_state \<Rightarrow> nat \<Rightarrow> bytes" where
  "hmac_done cr hm outlen =
     take outlen (cr_hash cr (hm_hash hm)
       (map (\<lambda>c. c XOR 0x5C) (hm_key hm) @ cr_hash cr (hm_hash hm) (hm_data hm)))"

subsection \<open>The contract of a mode\<close>

text \<open>
  \<open>sync s r\<close>: the sender in state \<open>s\<close> and the receiver in state \<open>r\<close> stand at the same point of
  the same stream. The receiver may decrypt in several calls, as \<open>read_packet_init\<close> and
  \<open>decrypt_packet\<close> do.
\<close>

fun crypt_all :: "(bytes \<Rightarrow> 's \<Rightarrow> (bytes \<times> 's) option) \<Rightarrow> bytes list \<Rightarrow> 's \<Rightarrow> bytes list option" where
  "crypt_all f [] s = Some []"
| "crypt_all f (m # ms) s =
     (case f m s of None \<Rightarrow> None | Some (c, s') \<Rightarrow> map_option (\<lambda>cs. c # cs) (crypt_all f ms s'))"

locale cipher_mode_pair =
  fixes enc :: "bytes \<Rightarrow> 's \<Rightarrow> (bytes \<times> 's) option"
    and dec :: "bytes \<Rightarrow> 's \<Rightarrow> (bytes \<times> 's) option"
    and sync :: "'s \<Rightarrow> 's \<Rightarrow> bool"
    and block :: nat
  assumes enc_dec: "sync s r \<Longrightarrow> block dvd length m \<Longrightarrow>
      \<exists>c s' r'. enc m s = Some (c, s') \<and> length c = length m \<and> dec c r = Some (m, r') \<and> sync s' r'"
    and dec_append: "sync s r \<Longrightarrow> block dvd length c1 \<Longrightarrow> block dvd length c2 \<Longrightarrow>
      dec (c1 @ c2) r = (case dec c1 r of None \<Rightarrow> None
        | Some (m1, r1) \<Rightarrow> (case dec c2 r1 of None \<Rightarrow> None | Some (m2, r2) \<Rightarrow> Some (m1 @ m2, r2)))"
    and dec_length: "sync s r \<Longrightarrow> dec c r = Some (m, r') \<Longrightarrow> length m = length c"
begin

lemma dec_in_two:
  assumes "sync s r" and "block dvd length m" and "block dvd n" and "n \<le> length m"
  shows "\<exists>c s' r1 r'. enc m s = Some (c, s') \<and> length c = length m \<and>
           dec (take n c) r = Some (take n m, r1) \<and> dec (drop n c) r1 = Some (drop n m, r') \<and> sync s' r'"
proof -
  obtain c s' r' where c: "enc m s = Some (c, s')" "length c = length m" "dec c r = Some (m, r')" "sync s' r'"
    using enc_dec[OF assms(1,2)] by blast
  have d: "block dvd length (take n c)" "block dvd length (drop n c)"
    using assms c(2) by (simp_all add: min_def dvd_diff_nat)
  have "dec (take n c @ drop n c) r = Some (m, r')" using c(3) by simp
  then obtain m1 r1 m2 where m: "dec (take n c) r = Some (m1, r1)" "dec (drop n c) r1 = Some (m2, r')"
    "m = m1 @ m2"
    unfolding dec_append[OF assms(1) d] by (auto split: option.splits)
  have "length m1 = n" using dec_length[OF assms(1) m(1)] c(2) assms(4) by simp
  then show ?thesis using c m by auto
qed

lemma stream:
  assumes "sync s r" and "\<forall>m \<in> set ms. block dvd length m"
  shows "\<exists>cs. crypt_all enc ms s = Some cs \<and> map length cs = map length ms \<and> crypt_all dec cs r = Some ms"
  using assms
proof (induction ms arbitrary: s r)
  case (Cons m ms)
  obtain c s' r' where c: "enc m s = Some (c, s')" "length c = length m" "dec c r = Some (m, r')" "sync s' r'"
    using enc_dec[of s r m] Cons.prems by auto
  then show ?case using Cons.IH[OF c(4)] Cons.prems(2) by auto
qed simp

end

subsection \<open>The modes meet the contract\<close>

lemma length_xor_bytes [simp]: "length (xor_bytes xs ys) = min (length xs) (length ys)"
  by (simp add: xor_bytes_def)

lemma xor_bytes_cancel: "length xs = length ys \<Longrightarrow> xor_bytes (xor_bytes xs ys) xs = ys"
  by (induction xs ys rule: list_induct2) (simp_all add: xor_bytes_def xor.commute[of "_ :: u8"] xor.assoc[symmetric])

lemma block_length_bounds: "8 \<le> block_length d" "block_length d \<le> 16"
  by (cases d; simp)+

lemma dvd_ne_ge: "n dvd length (xs :: 'a list) \<Longrightarrow> xs \<noteq> [] \<Longrightarrow> n \<le> length xs"
  by (simp add: dvd_imp_le)

lemma crypto_okD:
  assumes "crypto_ok cr" and "length b = block_length d"
  shows "length (cr_ecb_encrypt cr d k b) = block_length d" "length (cr_ecb_decrypt cr d k b) = block_length d"
    "cr_ecb_decrypt cr d k (cr_ecb_encrypt cr d k b) = b"
  using assms by (simp_all add: crypto_ok_def)

lemma length_cr_hash: "crypto_ok cr \<Longrightarrow> length (cr_hash cr h m) = digest_size h"
  by (simp add: crypto_ok_def)

lemma cbc_loops:
  assumes "0 < n" and "n dvd length pt" and "length IV = n"
    and "\<And>b. length b = n \<Longrightarrow> length (E b) = n" and "\<And>b. length b = n \<Longrightarrow> D (E b) = b"
  shows "\<exists>ct IV'. cbc_enc_loop E n pt IV = (ct, IV') \<and> length ct = length pt \<and> length IV' = n \<and>
           cbc_dec_loop D n ct IV = (pt, IV')"
  using assms
proof (induction E n pt IV rule: cbc_enc_loop.induct)
  case (1 E n pt IV)
  show ?case
  proof (cases "pt = []")
    case True
    then show ?thesis using 1 by (simp add: cbc_enc_loop.simps cbc_dec_loop.simps)
  next
    case False
    then have n: "n \<le> length pt" using 1 dvd_ne_ge by blast
    let ?x = "xor_bytes IV (take n pt)"
    have x: "length ?x = n" "length (E ?x) = n" using n 1 by simp_all
    obtain cts IV' where r: "cbc_enc_loop E n (drop n pt) (E ?x) = (cts, IV')"
      "length cts = length (drop n pt)" "length IV' = n" "cbc_dec_loop D n cts (E ?x) = (drop n pt, IV')"
      using "1.IH"[of "E ?x"] False 1 x by (auto simp: dvd_diff_nat)
    have e: "cbc_enc_loop E n pt IV = (E ?x @ cts, IV')"
      using False 1 r(1) by (subst cbc_enc_loop.simps) (simp add: Let_def)
    have c: "xor_bytes ?x IV = take n pt" using n 1 by (intro xor_bytes_cancel) simp
    have ne: "\<not> (E ?x @ cts = [] \<or> n = 0)"
      using "1.prems"(1) x(2) by (metis append_is_Nil_conv length_0_conv less_numeral_extra(3))
    have dx: "D (E ?x) = ?x" using "1.prems"(5) x(1) by blast
    have "cbc_dec_loop D n (E ?x @ cts) IV = (xor_bytes ?x IV @ drop n pt, IV')"
      using ne x r(4) dx by (subst cbc_dec_loop.simps) (simp only: Let_def if_False, simp)
    then show ?thesis using e r(2,3) x n c by simp
  qed
qed

lemma cbc_dec_loop_append:
  assumes "0 < n" and "n dvd length c1"
  shows "cbc_dec_loop D n (c1 @ c2) IV =
    (let (m1, IV1) = cbc_dec_loop D n c1 IV; (m2, IV2) = cbc_dec_loop D n c2 IV1 in (m1 @ m2, IV2))"
  using assms
proof (induction D n c1 IV rule: cbc_dec_loop.induct)
  case (1 D n c1 IV)
  show ?case
  proof (cases "c1 = []")
    case True
    then show ?thesis by (simp add: cbc_dec_loop.simps[of D n "[]"] case_prod_unfold)
  next
    case False
    then have n: "n \<le> length c1" using 1 dvd_ne_ge by blast
    have IH: "cbc_dec_loop D n (drop n c1 @ c2) (take n c1) =
      (let (m1, IV1) = cbc_dec_loop D n (drop n c1) (take n c1); (m2, IV2) = cbc_dec_loop D n c2 IV1 in (m1 @ m2, IV2))"
      using "1.IH"[of "D (take n c1)"] False 1 by (auto simp: dvd_diff_nat)
    then show ?thesis using False n 1
      by (simp add: cbc_dec_loop.simps[of D n "c1 @ c2"] cbc_dec_loop.simps[of D n c1] Let_def case_prod_unfold)
  qed
qed

lemma cbc_dec_loop_length:
  assumes "0 < n" and "n dvd length ct" and "length IV = n" and "\<And>b. length b = n \<Longrightarrow> length (D b) = n"
  shows "length (fst (cbc_dec_loop D n ct IV)) = length ct"
  using assms
proof (induction D n ct IV rule: cbc_dec_loop.induct)
  case (1 D n ct IV)
  show ?case
  proof (cases "ct = []")
    case True
    then show ?thesis by (simp add: cbc_dec_loop.simps)
  next
    case False
    then have n: "n \<le> length ct" using 1 dvd_ne_ge by blast
    then have "length (fst (cbc_dec_loop D n (drop n ct) (take n ct))) = length (drop n ct)"
      using "1.IH"[of "D (take n ct)"] False 1 by (auto simp: dvd_diff_nat)
    then show ?thesis using False n 1
      by (simp add: cbc_dec_loop.simps[of D n ct] Let_def case_prod_unfold)
  qed
qed

definition cbc_sync :: "crypto \<Rightarrow> nat \<Rightarrow> symmetric_CBC \<Rightarrow> symmetric_CBC \<Rightarrow> bool" where
  "cbc_sync cr n s r \<longleftrightarrow> crypto_ok cr \<and> s = r \<and> n = cbc_blocklen s \<and>
     cbc_blocklen s = block_length (cbc_cipher s) \<and> length (cbc_IV s) = cbc_blocklen s"

lemma cbc_enc_dec:
  assumes "cbc_sync cr n s r" and "n dvd length m"
  shows "\<exists>c s' r'. cbc_encrypt cr m s = Some (c, s') \<and> length c = length m \<and>
     cbc_decrypt cr c r = Some (m, r') \<and> cbc_sync cr n s' r'"
proof -
  let ?E = "cr_ecb_encrypt cr (cbc_cipher s) (cbc_key s)" and ?D = "cr_ecb_decrypt cr (cbc_cipher s) (cbc_key s)"
  have n: "0 < n" "\<not> n < 1" "\<not> n > MAXBLOCKSIZE" "block_length (cbc_cipher s) = n" "cbc_blocklen s = n"
    "length (cbc_IV s) = n" "r = s" "crypto_ok cr"
    using assms(1) block_length_bounds[of "cbc_cipher s"] by (auto simp: cbc_sync_def MAXBLOCKSIZE_def)
  obtain ct IV' where l: "cbc_enc_loop ?E n m (cbc_IV s) = (ct, IV')" "length ct = length m" "length IV' = n"
    "cbc_dec_loop ?D n ct (cbc_IV s) = (m, IV')"
    using cbc_loops[OF n(1) assms(2) n(6), of ?E ?D] crypto_okD[OF n(8)] n(4) by metis
  have "cbc_encrypt cr m s = Some (ct, s\<lparr>cbc_IV := IV'\<rparr>)" "cbc_decrypt cr ct r = Some (m, s\<lparr>cbc_IV := IV'\<rparr>)"
    using n(2,3,5,7) assms(2) l by (simp_all add: cbc_encrypt_def cbc_decrypt_def mod_eq_0_iff_dvd)
  moreover have "cbc_sync cr n (s\<lparr>cbc_IV := IV'\<rparr>) (s\<lparr>cbc_IV := IV'\<rparr>)"
    using n(4,5,8) l(3) by (simp add: cbc_sync_def)
  ultimately show ?thesis using l(2) by blast
qed

lemma cbc_dec_append:
  assumes "cbc_sync cr n s r" and "n dvd length c1" and "n dvd length c2"
  shows "cbc_decrypt cr (c1 @ c2) r = (case cbc_decrypt cr c1 r of None \<Rightarrow> None
    | Some (m1, r1) \<Rightarrow> (case cbc_decrypt cr c2 r1 of None \<Rightarrow> None | Some (m2, r2) \<Rightarrow> Some (m1 @ m2, r2)))"
proof -
  have n: "0 < n" "\<not> n < 1" "\<not> n > MAXBLOCKSIZE" "n = cbc_blocklen r"
    using assms(1) block_length_bounds[of "cbc_cipher s"] by (auto simp: cbc_sync_def MAXBLOCKSIZE_def)
  then show ?thesis using assms(2,3)
    by (simp add: cbc_decrypt_def cbc_dec_loop_append mod_eq_0_iff_dvd Let_def case_prod_unfold)
qed

lemma cbc_dec_length:
  assumes "cbc_sync cr n s r" and "cbc_decrypt cr c r = Some (m, r')"
  shows "length m = length c"
proof -
  have n: "0 < n" "n = cbc_blocklen r" "n = block_length (cbc_cipher r)" "length (cbc_IV r) = n" "crypto_ok cr"
    using assms(1) block_length_bounds[of "cbc_cipher s"] by (auto simp: cbc_sync_def)
  have "n dvd length c" using assms(2) n by (auto simp: cbc_decrypt_def mod_eq_0_iff_dvd split: if_splits)
  from cbc_dec_loop_length[OF n(1) this n(4), of "cr_ecb_decrypt cr (cbc_cipher r) (cbc_key r)"] show ?thesis
    using assms(2) n crypto_okD(2)[OF n(5)] by (auto simp: cbc_decrypt_def case_prod_unfold Let_def split: if_splits)
qed

definition ctr_valid :: "crypto \<Rightarrow> symmetric_CTR \<Rightarrow> bool" where
  "ctr_valid cr s \<longleftrightarrow> crypto_ok cr \<and> ctr_blocklen s = block_length (ctr_cipher s) \<and>
     length (ctr_ctr s) = ctr_blocklen s \<and> length (ctr_pad s) = ctr_blocklen s \<and>
     ctr_padlen s \<le> ctr_blocklen s"

lemma length_incr_le [simp]: "length (incr_le c) = length c"
  by (induction c) (simp_all add: Let_def)

lemma length_ctr_increment [simp]: "length (ctr_increment c) = length c"
  by (simp add: ctr_increment_def)

lemma ctr_refill_valid:
  assumes "ctr_valid cr s"
  shows "ctr_valid cr (ctr_refill cr s)" "ctr_padlen (ctr_refill cr s) < length (ctr_pad (ctr_refill cr s))"
  using assms block_length_bounds(1)[of "ctr_cipher s"]
  by (auto simp: ctr_valid_def ctr_refill_def Let_def crypto_okD)

lemma ctr_loop_ok:
  assumes "ctr_valid cr s"
  shows "\<exists>ct s'. ctr_loop cr pt s = Some (ct, s') \<and> length ct = length pt \<and> ctr_valid cr s' \<and>
     ctr_loop cr ct s = Some (pt, s')"
  using assms
proof (induction pt arbitrary: s)
  case (Cons p pt)
  let ?s = "ctr_refill cr s"
  note v = ctr_refill_valid[OF Cons.prems]
  have "ctr_valid cr (?s\<lparr>ctr_padlen := ctr_padlen ?s + 1\<rparr>)"
    using v by (simp add: ctr_valid_def)
  then obtain ct s' where "ctr_loop cr pt (?s\<lparr>ctr_padlen := ctr_padlen ?s + 1\<rparr>) = Some (ct, s')"
    "length ct = length pt" "ctr_valid cr s'"
    "ctr_loop cr ct (?s\<lparr>ctr_padlen := ctr_padlen ?s + 1\<rparr>) = Some (pt, s')"
    using Cons.IH by blast
  then show ?case using v(2) by (simp add: Let_def xor.assoc)
qed simp

lemma ctr_loop_append:
  "ctr_loop cr (c1 @ c2) s = (case ctr_loop cr c1 s of None \<Rightarrow> None
    | Some (m1, s1) \<Rightarrow> (case ctr_loop cr c2 s1 of None \<Rightarrow> None | Some (m2, s2) \<Rightarrow> Some (m1 @ m2, s2)))"
  by (induction c1 arbitrary: s) (auto simp: Let_def split: option.splits)

lemma ctr_valid_checks:
  assumes "ctr_valid cr s"
  shows "ctr_encrypt cr m s = ctr_loop cr m s"
proof -
  have "\<not> ctr_blocklen s < 1" "\<not> ctr_blocklen s > MAXBLOCKSIZE" "\<not> ctr_padlen s > MAXBLOCKSIZE"
    using assms block_length_bounds[of "ctr_cipher s"] by (simp_all add: ctr_valid_def MAXBLOCKSIZE_def)
  then show ?thesis by (simp add: ctr_encrypt_def)
qed

lemma ctr_loop_valid:
  assumes "ctr_valid cr s" and "ctr_loop cr m s = Some (c, s')"
  shows "length c = length m" "ctr_valid cr s'"
  using ctr_loop_ok[OF assms(1), of m] assms(2) by auto

subsection \<open>Synchronised states of the three modes\<close>

fun mode_sync :: "crypto \<Rightarrow> cipher_mode \<Rightarrow> nat \<Rightarrow> cipher_state \<Rightarrow> cipher_state \<Rightarrow> bool" where
  "mode_sync cr mode_none n s r \<longleftrightarrow> crypto_ok cr"
| "mode_sync cr mode_cbc n (StateCBC s) (StateCBC r) \<longleftrightarrow> cbc_sync cr n s r"
| "mode_sync cr mode_ctr n (StateCTR s) (StateCTR r) \<longleftrightarrow> s = r \<and> ctr_valid cr s"
| "mode_sync cr _ n _ _ \<longleftrightarrow> False"

lemma mode_sync_cases:
  assumes "mode_sync cr mode n s r"
  obtains (none) "mode = mode_none" "crypto_ok cr"
    | (cbc) s' r' where "mode = mode_cbc" "s = StateCBC s'" "r = StateCBC r'" "cbc_sync cr n s' r'"
    | (ctr) s' where "mode = mode_ctr" "s = StateCTR s'" "r = StateCTR s'" "ctr_valid cr s'"
  using assms by (cases "(cr, mode, n, s, r)" rule: mode_sync.cases) auto

interpretation mp: cipher_mode_pair "mode_encrypt cr mode" "mode_decrypt cr mode" "mode_sync cr mode n" n
  for cr mode n
proof unfold_locales
  fix s r and m :: bytes
  assume s: "mode_sync cr mode n s r" and d: "n dvd length m"
  from s show "\<exists>c s' r'. mode_encrypt cr mode m s = Some (c, s') \<and> length c = length m \<and>
      mode_decrypt cr mode c r = Some (m, r') \<and> mode_sync cr mode n s' r'"
  proof (cases rule: mode_sync_cases)
    case none
    then show ?thesis by (simp add: void_cipher_def)
  next
    case (cbc s' r')
    then show ?thesis using cbc_enc_dec[OF cbc(4) d] by auto
  next
    case (ctr s')
    then show ?thesis using ctr_loop_ok[OF ctr(4), of m] by (auto simp: ctr_decrypt_def ctr_valid_checks)
  qed
next
  fix s r and c1 c2 :: bytes
  assume s: "mode_sync cr mode n s r" and d: "n dvd length c1" "n dvd length c2"
  from s show "mode_decrypt cr mode (c1 @ c2) r = (case mode_decrypt cr mode c1 r of None \<Rightarrow> None
      | Some (m1, r1) \<Rightarrow> (case mode_decrypt cr mode c2 r1 of None \<Rightarrow> None | Some (m2, r2) \<Rightarrow> Some (m1 @ m2, r2)))"
  proof (cases rule: mode_sync_cases)
    case none
    then show ?thesis by (simp add: void_cipher_def)
  next
    case (cbc s' r')
    then show ?thesis using cbc_dec_append[OF cbc(4) d] by (auto split: option.splits)
  next
    case (ctr s')
    obtain m1 s1 where 1: "ctr_loop cr c1 s' = Some (m1, s1)" "ctr_valid cr s1"
      using ctr_loop_ok[OF ctr(4)] by blast
    obtain m2 s2 where 2: "ctr_loop cr c2 s1 = Some (m2, s2)" using ctr_loop_ok[OF 1(2)] by blast
    show ?thesis using ctr 1 2 by (simp add: ctr_decrypt_def ctr_valid_checks ctr_loop_append)
  qed
next
  fix s r r' and c m :: bytes
  assume s: "mode_sync cr mode n s r" and d: "mode_decrypt cr mode c r = Some (m, r')"
  from s show "length m = length c"
  proof (cases rule: mode_sync_cases)
    case none
    then show ?thesis using d by (simp add: void_cipher_def)
  next
    case (cbc s1 r1)
    then show ?thesis using cbc_dec_length[OF cbc(4)] d by auto
  next
    case (ctr s1)
    then show ?thesis using d by (auto simp: ctr_decrypt_def ctr_valid_checks ctr_loop_valid)
  qed
qed

text \<open>Both sides are synchronised when they start a mode with the same key and initial vector.\<close>

lemma mode_start_sync:
  assumes "crypto_ok cr" and "block_length d \<le> length IV" and "n = block_length d"
    and "mode_start cr mode d IV key keylen st = Some s"
  shows "mode_sync cr mode n s s"
  using assms
  by (cases mode) (auto simp: cbc_start_def ctr_start_def cbc_sync_def ctr_valid_def Let_def crypto_okD
      split: if_splits)

subsection \<open>Counter and MAC\<close>

fun le_val :: "bytes \<Rightarrow> nat" where
  "le_val [] = 0"
| "le_val (c # cs) = unat c + 256 * le_val cs"

definition be_val :: "bytes \<Rightarrow> nat" where
  "be_val c = le_val (rev c)"

lemma le_val_less: "le_val c < 256 ^ length c"
proof (induction c)
  case (Cons a c)
  have a: "unat a < 256" by simp
  define P :: nat where "P = 256 ^ length c"
  have "le_val c < P" using Cons by (simp add: P_def)
  then have "unat a + 256 * le_val c < 256 * P" using a by linarith
  then show ?case by (simp add: P_def)
qed simp

lemma u8_succ: "(c :: u8) + 1 = 0 \<longleftrightarrow> unat c = 255" "(c :: u8) + 1 \<noteq> 0 \<Longrightarrow> unat (c + 1) = Suc (unat c)"
proof -
  have "c + 1 = 0 \<longleftrightarrow> c = - 1" by (metis add_eq_0_iff2)
  also have "\<dots> \<longleftrightarrow> unat c = 255" by (simp add: word_unat_eq_iff unsigned_minus_1_eq_mask mask_eq_exp_minus_1)
  finally show "c + 1 = 0 \<longleftrightarrow> unat c = 255" .
  show "c + 1 \<noteq> 0 \<Longrightarrow> unat (c + 1) = Suc (unat c)" by (metis Suc_eq_plus1 add.commute unatSuc)
qed

lemma le_val_incr: "le_val (incr_le c) = (le_val c + 1) mod 256 ^ length c"
proof (induction c)
  case (Cons a c)
  show ?case
  proof (cases "a + 1 = 0")
    case True
    then have "unat a = 255" using u8_succ(1) by blast
    then have "le_val (a # c) + 1 = 256 * (le_val c + 1)" by simp
    then have "(le_val (a # c) + 1) mod 256 ^ length (a # c) = 256 * ((le_val c + 1) mod 256 ^ length c)"
      by (simp only: length_Cons power_Suc mod_mult_mult1)
    then show ?thesis using Cons True by (simp add: Let_def)
  next
    case False
    then have u: "unat (a + 1) = Suc (unat a)" by (rule u8_succ(2))
    have "unat (a + 1) < 256" by simp
    then have "Suc (unat a + 256 * le_val c) < 256 ^ length (a # c)"
      using le_val_less[of c] u by simp
    then show ?thesis using False u by (simp add: Let_def)
  qed
qed simp

lemma length_hmac_done: "crypto_ok cr \<Longrightarrow> length (hmac_done cr hm n) = min (digest_size (hm_hash hm)) n"
  by (simp add: hmac_done_def length_cr_hash)

subsection \<open>Properties\<close>

text \<open>
  C26: with block ciphers that invert and the same key and initial vector on both sides, a
  sequence of messages of whole blocks that the sender encrypts call by call, in any of the
  three modes, is recovered by the receiver call by call, at the same lengths.
\<close>
theorem cipher_stream_roundtrip:
  assumes "crypto_ok cr" and "block_length d \<le> length IV"
    and "mode_start cr mode d IV key keylen StateZero = Some s"
    and "\<forall>m \<in> set ms. block_length d dvd length m"
  shows "\<exists>cs. crypt_all (mode_encrypt cr mode) ms s = Some cs \<and> map length cs = map length ms \<and>
     crypt_all (mode_decrypt cr mode) cs s = Some ms"
  by (rule mp.stream[OF mode_start_sync[OF assms(1,2) refl assms(3)] assms(4)])

text \<open>A block cipher and hash to evaluate with: xor with a constant, and a constant digest.\<close>

definition toy_crypto :: crypto where
  "toy_crypto = \<lparr>cr_setup_ok = (\<lambda>d n. n = 16 \<or> n = 24 \<or> n = 32),
     cr_ecb_encrypt = (\<lambda>d k b. map (\<lambda>c. c XOR 0x5A) b), cr_ecb_decrypt = (\<lambda>d k b. map (\<lambda>c. c XOR 0x5A) b),
     cr_hash = (\<lambda>h m. replicate (digest_size h) (sum_list m))\<rparr>"

lemma toy_crypto_ok: "crypto_ok toy_crypto"
  by (simp add: crypto_ok_def toy_crypto_def o_def xor.assoc)

theorem cipher_stream_roundtrip_witness:
  "\<exists>s cs. mode_start toy_crypto mode_cbc des3_desc [1, 2, 3, 4, 5, 6, 7, 8] (replicate 24 7) 24 StateZero = Some s \<and>
     crypt_all (mode_encrypt toy_crypto mode_cbc) [replicate 8 1, replicate 16 2] s = Some cs \<and>
     crypt_all (mode_decrypt toy_crypto mode_cbc) cs s = Some [replicate 8 1, replicate 16 2]"
proof -
  obtain s where s: "mode_start toy_crypto mode_cbc des3_desc [1, 2, 3, 4, 5, 6, 7, 8] (replicate 24 7) 24 StateZero = Some s"
    by (simp add: cbc_start_def toy_crypto_def)
  have "\<forall>m \<in> set [replicate 8 1, replicate 16 2]. block_length des3_desc dvd length (m :: bytes)" by simp
  from cipher_stream_roundtrip[OF toy_crypto_ok _ s this] s show ?thesis by auto
qed

text \<open>
  The counter of CTR mode counts: read as a big-endian number it goes up by one with every
  block, modulo the size of a block, so no counter value comes back within \<open>256 ^ n\<close> blocks.
\<close>
theorem ctr_counts:
  "be_val (ctr_increment c) = (be_val c + 1) mod 256 ^ length c"
  by (simp only: be_val_def ctr_increment_def rev_rev_ident le_val_incr length_rev)

end
