(* ===== verification/Session.thy ===== *)
theory Session
  imports Queue Cipher
begin

text \<open>
  The state of a connection, \<open>struct sshsession\<close> of \<^verbatim>\<open>src/reconos/dropbear/session.h\<close> with
  \<open>key_context\<close> and \<open>KEXState\<close> (\<^verbatim>\<open>kex.h\<close>). The C code keeps it in the global \<open>ses\<close>; here every
  function takes and returns it. The record is extensible: the channel layer adds its fields to
  it, and the packet and key-exchange layers are polymorphic in them. Flags are booleans, the
  one-byte fields keep their width, times are integers. The pointers \<open>reply_queue_head\<close> and
  \<open>reply_queue_tail\<close> are the list of the payloads between them.
\<close>

record key_context_directional =
  k_algo_crypt :: dropbear_cipher
  k_crypt_mode :: cipher_mode
  k_algo_mac :: dropbear_hash
  k_hash_index :: hash_desc
  k_algo_comp :: int
  k_cipher_state :: cipher_state
  k_mackey :: bytes
  k_valid :: bool

record key_context =
  kc_recv :: key_context_directional
  kc_trans :: key_context_directional
  kc_algo_kex :: int
  kc_algo_hostkey :: int
  kc_allow_compress :: bool

text \<open>
  \<open>ses.newkeys\<close> is a \<open>key_context\<close> too. Its two halves are all zero, so without algorithms
  (\<open>None\<close>), from the allocation to the negotiation and again once they have been moved to
  \<open>ses.keys\<close>. Its \<open>allow_compress\<close> is never read.
\<close>

record new_key_context =
  nk_recv :: "key_context_directional option"
  nk_trans :: "key_context_directional option"
  nk_algo_kex :: int
  nk_algo_hostkey :: int

record KEXState =
  ks_sentkexinit :: bool
  ks_recvkexinit :: bool
  ks_them_firstfollows :: bool
  ks_sentnewkeys :: bool
  ks_recvnewkeys :: bool
  ks_donefirstkex :: bool
  ks_our_first_follows_matches :: bool
  ks_lastkextime :: int
  ks_datatrans :: u32
  ks_datarecv :: u32

record sshsession =
  s_isserver :: bool
  s_remoteident :: "bytes option"
  s_writepayload :: buffer
  s_writequeue :: "buffer queue"
  s_readbuf :: "buffer option"
  s_payload :: "buffer option"
  s_transseq :: u32
  s_recvseq :: u32
  s_dataallowed :: bool
  s_requirenext :: "u8 \<times> u8"
  s_ignorenext :: bool
  s_lastpacket :: u8
  s_last_trx_packet_time :: int
  s_last_packet_time :: int
  s_kexstate :: KEXState
  s_keys :: key_context
  s_newkeys :: "new_key_context option"
  s_session_id :: "bytes option"
  s_dh_K :: "int option"
  s_hash :: bytes
  s_kexhashbuf :: "buffer option"
  s_transkexinit :: "buffer option"
  s_compress_algos :: "algo_type list"
  s_reply_queue :: "buffer list"
  s_authdone :: bool

subsection \<open>Message numbers (ssh.h) and limits (sysoptions.h)\<close>

definition SSH_MSG_DISCONNECT :: u8 where "SSH_MSG_DISCONNECT = 1"
definition SSH_MSG_IGNORE :: u8 where "SSH_MSG_IGNORE = 2"
definition SSH_MSG_UNIMPLEMENTED :: u8 where "SSH_MSG_UNIMPLEMENTED = 3"
definition SSH_MSG_DEBUG :: u8 where "SSH_MSG_DEBUG = 4"
definition SSH_MSG_SERVICE_REQUEST :: u8 where "SSH_MSG_SERVICE_REQUEST = 5"
definition SSH_MSG_SERVICE_ACCEPT :: u8 where "SSH_MSG_SERVICE_ACCEPT = 6"
definition SSH_MSG_KEXINIT :: u8 where "SSH_MSG_KEXINIT = 20"
definition SSH_MSG_NEWKEYS :: u8 where "SSH_MSG_NEWKEYS = 21"
definition SSH_MSG_KEXDH_INIT :: u8 where "SSH_MSG_KEXDH_INIT = 30"
definition SSH_MSG_USERAUTH_REQUEST :: u8 where "SSH_MSG_USERAUTH_REQUEST = 50"
definition SSH_MSG_USERAUTH_PK_OK :: u8 where "SSH_MSG_USERAUTH_PK_OK = 60"

lemmas ssh_msg_defs = SSH_MSG_DISCONNECT_def SSH_MSG_IGNORE_def SSH_MSG_UNIMPLEMENTED_def
  SSH_MSG_DEBUG_def SSH_MSG_SERVICE_REQUEST_def SSH_MSG_SERVICE_ACCEPT_def SSH_MSG_KEXINIT_def
  SSH_MSG_NEWKEYS_def SSH_MSG_KEXDH_INIT_def SSH_MSG_USERAUTH_REQUEST_def SSH_MSG_USERAUTH_PK_OK_def

definition MIN_PACKET_LEN :: u32 where "MIN_PACKET_LEN = 16"
definition RECV_MAX_PACKET_LEN :: u32 where "RECV_MAX_PACKET_LEN = 35000"
definition RECV_MAX_PAYLOAD_LEN :: u32 where "RECV_MAX_PAYLOAD_LEN = 32768"
definition TRANS_MAX_PAYLOAD_LEN :: u32 where "TRANS_MAX_PAYLOAD_LEN = 16384"
definition INIT_READBUF :: u32 where "INIT_READBUF = 128"
definition PACKET_PADDING_OFF :: u32 where "PACKET_PADDING_OFF = 4"
definition PACKET_PAYLOAD_OFF :: u32 where "PACKET_PAYLOAD_OFF = 5"
definition MAX_MAC_LEN :: nat where "MAX_MAC_LEN = 20"
definition SHA1_HASH_SIZE :: nat where "SHA1_HASH_SIZE = 20"

lemmas packet_limits = MIN_PACKET_LEN_def RECV_MAX_PACKET_LEN_def RECV_MAX_PAYLOAD_LEN_def
  TRANS_MAX_PAYLOAD_LEN_def INIT_READBUF_def PACKET_PADDING_OFF_def PACKET_PAYLOAD_OFF_def
  MAX_MAC_LEN_def SHA1_HASH_SIZE_def

subsection \<open>Shared steps\<close>

text \<open>Following a pointer that may be null.\<close>

definition deref :: "'a option \<Rightarrow> 'a result" where
  "deref p = (case p of None \<Rightarrow> Inl NullDeref | Some x \<Rightarrow> Inr x)"

lemma deref_simps [simp]: "deref (Some x) = Inr x" "deref None = Inl NullDeref"
  by (simp_all add: deref_def)

lemma deref_eq_Inr [simp]: "deref p = Inr x \<longleftrightarrow> p = Some x"
  by (cases p) auto

text \<open>An operation on the payload that is being written.\<close>

definition on_writepayload ::
  "(buffer \<Rightarrow> buffer result) \<Rightarrow> 'a sshsession_scheme \<Rightarrow> 'a sshsession_scheme result" where
  "on_writepayload f s = rbind (f (s_writepayload s)) (\<lambda>b. Inr (s\<lparr>s_writepayload := b\<rparr>))"

subsection \<open>A session to evaluate with\<close>

definition sample_key :: key_context_directional where
  "sample_key = \<lparr>k_algo_crypt = dropbear_3des, k_crypt_mode = mode_cbc, k_algo_mac = dropbear_sha1,
     k_hash_index = sha1_desc, k_algo_comp = DROPBEAR_COMP_NONE,
     k_cipher_state = StateCBC \<lparr>cbc_cipher = des3_desc, cbc_blocklen = 8, cbc_IV = replicate 8 1, cbc_key = replicate 24 7\<rparr>,
     k_mackey = replicate 20 3, k_valid = True\<rparr>"

definition sample_queue :: "buffer queue" where
  "sample_queue = \<lparr>q_head = None, q_tail = None, q_count = 0, q_heap = Map.empty, q_next = 0\<rparr>"

definition sample_kexstate :: KEXState where
  "sample_kexstate = \<lparr>ks_sentkexinit = False, ks_recvkexinit = False, ks_them_firstfollows = False,
     ks_sentnewkeys = False, ks_recvnewkeys = False, ks_donefirstkex = True,
     ks_our_first_follows_matches = False, ks_lastkextime = 0, ks_datatrans = 0, ks_datarecv = 0\<rparr>"

definition sample_session :: "buffer \<Rightarrow> sshsession" where
  "sample_session wp = \<lparr>s_isserver = True, s_remoteident = None, s_writepayload = wp, s_writequeue = sample_queue,
     s_readbuf = None, s_payload = None, s_transseq = 0xFFFFFFFF, s_recvseq = 0xFFFFFFFF, s_dataallowed = True,
     s_requirenext = (0, 0), s_ignorenext = False, s_lastpacket = 0, s_last_trx_packet_time = 0,
     s_last_packet_time = 0, s_kexstate = sample_kexstate,
     s_keys = \<lparr>kc_recv = sample_key, kc_trans = sample_key, kc_algo_kex = 0, kc_algo_hostkey = 0, kc_allow_compress = False\<rparr>,
     s_newkeys = None, s_session_id = None, s_dh_K = None, s_hash = [], s_kexhashbuf = None,
     s_transkexinit = None, s_compress_algos = ssh_nocompress, s_reply_queue = [], s_authdone = True\<rparr>"

end
