(* ===== verification/Packet.thy ===== *)
theory Packet
  imports Session
begin

text \<open>
  The binary packet protocol, \<^verbatim>\<open>src/reconos/dropbear/packet.c\<close>, as it is built without zlib and
  with \<open>writev\<close>. What the operating system does is an argument: a \<open>sock_read\<close> is what \<open>read\<close>
  finds on the socket (the bytes available, none at end of file, or an error), a
  \<open>sock_write\<close> is the answer of \<open>writev\<close>, \<open>rnd\<close> is the output of \<open>genrandom\<close>, \<open>junk\<close> what a
  reallocation leaves in new memory, \<open>mac0\<close> the uninitialised array \<open>mac_bytes\<close>, \<open>now\<close> the clock.
\<close>

subsection \<open>The environment\<close>

datatype errno = EINTR | EAGAIN | EOTHER
datatype sock_read = SockData bytes | SockErr errno
datatype sock_write = WroteN nat | WriteErr errno

text \<open>\<open>read (fd, p, maxlen)\<close> returns at most \<open>maxlen\<close> of the bytes that are there.\<close>

definition os_read :: "sock_read \<Rightarrow> u32 \<Rightarrow> errno + bytes" where
  "os_read r maxlen =
     (case r of SockData bs \<Rightarrow> Inr (take (unat maxlen) bs) | SockErr e \<Rightarrow> Inl e)"

text \<open>\<open>ses.remoteclosed\<close> is \<open>svr_remoteclosed\<close> or \<open>cli_remoteclosed\<close>; both end the process.\<close>

definition remoteclosed :: "'a sshsession_scheme \<Rightarrow> 'b result" where
  "remoteclosed s =
     Inl (if s_isserver s then Closed ''Exited normally'' else Exit ''Remote closed the connection'')"

subsection \<open>Integrity\<close>

definition constant_time_memcmp :: "bytes \<Rightarrow> bytes \<Rightarrow> nat \<Rightarrow> u8 result" where
  "constant_time_memcmp a b n =
     rbind (mem_read a 0 n) (\<lambda>xa.
     rbind (mem_read b 0 n) (\<lambda>xb.
     Inr (foldl (\<lambda>c (x, y). c OR (x XOR y)) 0 (zip xa xb))))"

definition make_mac ::
  "crypto \<Rightarrow> u32 \<Rightarrow> key_context_directional \<Rightarrow> buffer \<Rightarrow> u32 \<Rightarrow> bytes \<Rightarrow> (bytes \<times> buffer) result" where
  "make_mac cr seqno key_state clear_buf clear_len output_mac =
     (if unat (dh_hashsize (k_algo_mac key_state)) > 0 then
        (case hmac_init cr (k_hash_index key_state) (k_mackey key_state)
                (unat (dh_keysize (k_algo_mac key_state))) of
           None \<Rightarrow> Inl (Exit ''HMAC error'')
         | Some hmac \<Rightarrow>
             rbind (buf_setpos clear_buf 0) (\<lambda>clear_buf.
             rbind (buf_getptr clear_buf clear_len) (\<lambda>p.
             rbind (mem_read (b_data clear_buf) p (unat clear_len)) (\<lambda>bs.
             rbind (mem_write output_mac 0
                 (hmac_done cr (hmac_process (hmac_process hmac (store32h seqno)) bs) MAX_MAC_LEN))
               (\<lambda>mac. Inr (mac, clear_buf))))))
      else Inr (output_mac, clear_buf))"

definition checkmac ::
  "crypto \<Rightarrow> bytes \<Rightarrow> 'a sshsession_scheme \<Rightarrow> (bool \<times> 'a sshsession_scheme) result" where
  "checkmac cr mac0 s =
     (let mac_size = ucast (dh_hashsize (k_algo_mac (kc_recv (s_keys s)))) :: u32
      in rbind (deref (s_readbuf s)) (\<lambda>readbuf.
         let contents_len = b_len readbuf - mac_size
         in rbind (buf_setpos readbuf 0) (\<lambda>readbuf.
            rbind (make_mac cr (s_recvseq s) (kc_recv (s_keys s)) readbuf contents_len mac0)
              (\<lambda>(mac_bytes, readbuf).
            rbind (buf_setpos readbuf contents_len) (\<lambda>readbuf.
            rbind (buf_getptr readbuf mac_size) (\<lambda>p.
            rbind (constant_time_memcmp mac_bytes (drop p (b_data readbuf)) (unat mac_size)) (\<lambda>c.
            Inr (c = 0, s\<lparr>s_readbuf := Some readbuf\<rparr>))))))))"

subsection \<open>Receiving\<close>

text \<open>
  Decryption in place of \<open>len\<close> bytes at the position of the buffer, as both callers do it:
  \<open>decrypt (buf_getptr (b, len), buf_getwriteptr (b, len), len, &cipher_state)\<close>.
\<close>

definition decrypt_at ::
  "crypto \<Rightarrow> key_context_directional \<Rightarrow> buffer \<Rightarrow> u32 \<Rightarrow> (buffer \<times> key_context_directional) result" where
  "decrypt_at cr k b len =
     rbind (buf_getptr b len) (\<lambda>p.
     rbind (buf_getwriteptr b len) (\<lambda>q.
     rbind (mem_read (b_data b) p (unat len)) (\<lambda>ct.
     case mode_decrypt cr (k_crypt_mode k) ct (k_cipher_state k) of
       None \<Rightarrow> Inl (Exit ''Error decrypting'')
     | Some (pt, st) \<Rightarrow>
         rbind (mem_write (b_data b) q pt) (\<lambda>d. Inr (b\<lparr>b_data := d\<rparr>, k\<lparr>k_cipher_state := st\<rparr>)))))"

definition set_recv :: "key_context_directional \<Rightarrow> 'a sshsession_scheme \<Rightarrow> 'a sshsession_scheme" where
  "set_recv k s = s\<lparr>s_keys := (s_keys s)\<lparr>kc_recv := k\<rparr>\<rparr>"

definition set_trans :: "key_context_directional \<Rightarrow> 'a sshsession_scheme \<Rightarrow> 'a sshsession_scheme" where
  "set_trans k s = s\<lparr>s_keys := (s_keys s)\<lparr>kc_trans := k\<rparr>\<rparr>"

text \<open>The length check of \<open>read_packet_init\<close>, on the value of \<open>len\<close> with the MAC counted in.\<close>

definition bad_packet_len :: "u32 \<Rightarrow> u32 \<Rightarrow> u32 \<Rightarrow> bool" where
  "bad_packet_len len macsize blocksize \<longleftrightarrow>
     len > RECV_MAX_PACKET_LEN \<or> len < MIN_PACKET_LEN + macsize \<or> (len - macsize) mod blocksize \<noteq> 0"

definition read_packet_init ::
  "crypto \<Rightarrow> (nat \<Rightarrow> u8) \<Rightarrow> sock_read \<Rightarrow> 'a sshsession_scheme \<Rightarrow> (bool \<times> 'a sshsession_scheme) result" where
  "read_packet_init cr junk inp s =
     (let blocksize = ucast (dc_blocksize (k_algo_crypt (kc_recv (s_keys s)))) :: u32;
          macsize = ucast (dh_hashsize (k_algo_mac (kc_recv (s_keys s)))) :: u32
      in rbind (case s_readbuf s of None \<Rightarrow> buf_new INIT_READBUF | Some b \<Rightarrow> Inr b) (\<lambda>readbuf.
         let maxlen = blocksize - b_pos readbuf
         in rbind (buf_getwriteptr readbuf maxlen) (\<lambda>p.
            case os_read inp maxlen of
              Inl e \<Rightarrow> (if e = EINTR then Inr (False, s\<lparr>s_readbuf := Some readbuf\<rparr>)
                       else Inl (Exit ''Error reading''))
            | Inr bs \<Rightarrow>
                if bs = [] then remoteclosed s
                else
                  rbind (mem_write (b_data readbuf) p bs) (\<lambda>d.
                  rbind (buf_incrwritepos (readbuf\<lparr>b_data := d\<rparr>) (of_nat (length bs))) (\<lambda>readbuf.
                  if of_nat (length bs) \<noteq> maxlen then Inr (False, s\<lparr>s_readbuf := Some readbuf\<rparr>)
                  else
                    rbind (buf_setpos readbuf 0) (\<lambda>readbuf.
                    rbind (decrypt_at cr (kc_recv (s_keys s)) readbuf blocksize) (\<lambda>(readbuf, k).
                    rbind (buf_getint readbuf) (\<lambda>(v, readbuf).
                    let len = v + 4 + macsize
                    in if blocksize = 0 then Inl DivByZero
                       else if bad_packet_len len macsize blocksize
                       then Inl (Exit ''Integrity error (bad packet size)'')
                       else
                         rbind (if len > b_size readbuf then buf_resize junk readbuf len else Inr readbuf)
                           (\<lambda>readbuf.
                         rbind (buf_setlen readbuf len) (\<lambda>readbuf.
                         rbind (buf_setpos readbuf blocksize) (\<lambda>readbuf.
                         Inr (True, set_recv k (s\<lparr>s_readbuf := Some readbuf\<rparr>)))))))))))))"

text \<open>The copy of the \<open>len\<close> bytes of payload into a buffer of their own.\<close>

definition copy_payload :: "buffer \<Rightarrow> u32 \<Rightarrow> buffer result" where
  "copy_payload readbuf len =
     rbind (buf_setpos readbuf PACKET_PAYLOAD_OFF) (\<lambda>readbuf.
     rbind (buf_new len) (\<lambda>payload.
     rbind (buf_getptr readbuf len) (\<lambda>p.
     rbind (mem_read (b_data readbuf) p (unat len)) (\<lambda>bs.
     rbind (mem_write (b_data payload) 0 bs) (\<lambda>d.
     rbind (buf_incrlen (payload\<lparr>b_data := d\<rparr>) len) (\<lambda>payload.
     buf_setpos payload 0))))))"

definition decrypt_packet ::
  "crypto \<Rightarrow> bytes \<Rightarrow> 'a sshsession_scheme \<Rightarrow> 'a sshsession_scheme result" where
  "decrypt_packet cr mac0 s =
     (let blocksize = ucast (dc_blocksize (k_algo_crypt (kc_recv (s_keys s)))) :: u32;
          macsize = ucast (dh_hashsize (k_algo_mac (kc_recv (s_keys s)))) :: u32
      in rbind (deref (s_readbuf s)) (\<lambda>readbuf.
         let s = s\<lparr>s_kexstate := (s_kexstate s)\<lparr>ks_datarecv := ks_datarecv (s_kexstate s) + b_len readbuf\<rparr>\<rparr>
         in rbind (buf_setpos readbuf blocksize) (\<lambda>readbuf.
            let len = b_len readbuf - macsize - b_pos readbuf
            in rbind (decrypt_at cr (kc_recv (s_keys s)) readbuf len) (\<lambda>(readbuf, k).
               rbind (buf_incrpos readbuf len) (\<lambda>readbuf.
               rbind (checkmac cr mac0 (set_recv k (s\<lparr>s_readbuf := Some readbuf\<rparr>))) (\<lambda>(ok, s).
               if \<not> ok then Inl (Exit ''Integrity error'')
               else
                 rbind (deref (s_readbuf s)) (\<lambda>readbuf.
                 rbind (buf_setpos readbuf PACKET_PADDING_OFF) (\<lambda>readbuf.
                 rbind (buf_getbyte readbuf) (\<lambda>(padlen, readbuf).
                 let len = b_len readbuf - ucast padlen - 4 - 1 - macsize
                 in if len > RECV_MAX_PAYLOAD_LEN \<or> len < 1 then Inl (Exit ''Bad packet size'')
                    else
                      rbind (copy_payload readbuf len) (\<lambda>payload.
                      Inr (s\<lparr>s_payload := Some payload, s_readbuf := None, s_recvseq := s_recvseq s + 1\<rparr>)
                      ))))))))))"

definition read_packet_rest ::
  "crypto \<Rightarrow> bytes \<Rightarrow> sock_read \<Rightarrow> 'a sshsession_scheme \<Rightarrow> 'a sshsession_scheme result" where
  "read_packet_rest cr mac0 inp s =
     rbind (deref (s_readbuf s)) (\<lambda>readbuf.
     let maxlen = b_len readbuf - b_pos readbuf
     in if maxlen = 0 then decrypt_packet cr mac0 s
        else
          rbind (buf_getptr readbuf maxlen) (\<lambda>p.
          case os_read inp maxlen of
            Inl e \<Rightarrow> (if e = EINTR \<or> e = EAGAIN then Inr s else Inl (Exit ''Error reading''))
          | Inr bs \<Rightarrow>
              if bs = [] then remoteclosed s
              else
                rbind (mem_write (b_data readbuf) p bs) (\<lambda>d.
                rbind (buf_incrpos (readbuf\<lparr>b_data := d\<rparr>) (of_nat (length bs))) (\<lambda>readbuf.
                if of_nat (length bs) = maxlen
                then decrypt_packet cr mac0 (s\<lparr>s_readbuf := Some readbuf\<rparr>)
                else Inr (s\<lparr>s_readbuf := Some readbuf\<rparr>)))))"

definition read_packet ::
  "crypto \<Rightarrow> (nat \<Rightarrow> u8) \<Rightarrow> bytes \<Rightarrow> sock_read \<Rightarrow> sock_read \<Rightarrow> 'a sshsession_scheme \<Rightarrow>
     'a sshsession_scheme result" where
  "read_packet cr junk mac0 inp1 inp2 s =
     (let blocksize = ucast (dc_blocksize (k_algo_crypt (kc_recv (s_keys s)))) :: u32
      in if (case s_readbuf s of None \<Rightarrow> True | Some b \<Rightarrow> b_len b < blocksize)
         then rbind (read_packet_init cr junk inp1 s) (\<lambda>(ok, s).
              if \<not> ok then Inr s else read_packet_rest cr mac0 inp2 s)
         else read_packet_rest cr mac0 inp2 s)"

subsection \<open>Sending\<close>

definition packet_is_okay_kex :: "u8 \<Rightarrow> bool" where
  "packet_is_okay_kex type =
     (if type \<ge> SSH_MSG_USERAUTH_REQUEST then False
      else if type = SSH_MSG_SERVICE_REQUEST \<or> type = SSH_MSG_SERVICE_ACCEPT then False
      else if type = SSH_MSG_KEXINIT then False
      else True)"

definition clear_writepayload :: "'a sshsession_scheme \<Rightarrow> 'a sshsession_scheme result" where
  "clear_writepayload s =
     rbind (buf_setpos (s_writepayload s) 0) (\<lambda>b.
     rbind (buf_setlen b 0) (\<lambda>b. Inr (s\<lparr>s_writepayload := b\<rparr>)))"

definition enqueue_reply_packet :: "'a sshsession_scheme \<Rightarrow> 'a sshsession_scheme result" where
  "enqueue_reply_packet s =
     rbind (buf_newcopy (s_writepayload s)) (\<lambda>payload.
     rbind (clear_writepayload s) (\<lambda>s.
     Inr (s\<lparr>s_reply_queue := s_reply_queue s @ [payload]\<rparr>)))"

text \<open>\<open>padlen\<close> is an \<open>unsigned char\<close>: the remainder is computed as \<open>unsigned int\<close> and cut to it.\<close>

definition packet_padlen :: "u32 \<Rightarrow> u8 \<Rightarrow> u8" where
  "packet_padlen len blocksize =
     (let padlen = ucast (ucast blocksize - len mod ucast blocksize :: u32) :: u8;
          padlen = (if padlen < 4 then padlen + blocksize else padlen)
      in if len + ucast padlen < MIN_PACKET_LEN then padlen + blocksize else padlen)"

text \<open>
  The stages of \<open>encrypt_packet\<close>: the packet buffer is allocated and the payload copied into
  it, the length, the padding length and the padding are filled in, and the packet is
  authenticated, encrypted in place and completed with the MAC and the cleartext type byte.
\<close>

definition packet_copy :: "buffer \<Rightarrow> u8 \<Rightarrow> u32 \<Rightarrow> buffer result" where
  "packet_copy wp blocksize mac_size =
     (let encrypt_buf_size = (b_len wp + 4 + 1) + max MIN_PACKET_LEN (ucast blocksize) + 3 + mac_size + 1
      in rbind (buf_new encrypt_buf_size) (\<lambda>writebuf.
         rbind (buf_setlen writebuf PACKET_PAYLOAD_OFF) (\<lambda>writebuf.
         rbind (buf_setpos writebuf PACKET_PAYLOAD_OFF) (\<lambda>writebuf.
         rbind (buf_getwriteptr writebuf (b_len wp)) (\<lambda>q.
         rbind (buf_getptr wp (b_len wp)) (\<lambda>p.
         rbind (mem_read (b_data wp) p (unat (b_len wp))) (\<lambda>bs.
         rbind (mem_write (b_data writebuf) q bs) (\<lambda>d.
         buf_incrwritepos (writebuf\<lparr>b_data := d\<rparr>) (b_len wp)))))))))"

definition packet_pad :: "(nat \<Rightarrow> u8) \<Rightarrow> u8 \<Rightarrow> buffer \<Rightarrow> buffer result" where
  "packet_pad rnd blocksize writebuf =
     rbind (require (blocksize \<noteq> 0) DivByZero) (\<lambda>_.
     let padlen = packet_padlen (b_len writebuf) blocksize
     in rbind (buf_setpos writebuf 0) (\<lambda>writebuf.
        rbind (buf_putint writebuf (b_len writebuf + ucast padlen - 4)) (\<lambda>writebuf.
        rbind (buf_putbyte writebuf padlen) (\<lambda>writebuf.
        rbind (buf_setpos writebuf (b_len writebuf)) (\<lambda>writebuf.
        rbind (buf_incrlen writebuf (ucast padlen)) (\<lambda>writebuf.
        rbind (buf_getptr writebuf (ucast padlen)) (\<lambda>p.
        rbind (mem_write (b_data writebuf) p (map rnd [0..<unat padlen])) (\<lambda>d.
        Inr (writebuf\<lparr>b_data := d\<rparr>)))))))))"

definition packet_seal ::
  "crypto \<Rightarrow> u32 \<Rightarrow> key_context_directional \<Rightarrow> bytes \<Rightarrow> u8 \<Rightarrow> buffer \<Rightarrow> (buffer \<times> cipher_state) result" where
  "packet_seal cr seqno k mac0 packet_type writebuf =
     rbind (make_mac cr seqno k writebuf (b_len writebuf) mac0) (\<lambda>(mac_bytes, writebuf).
     rbind (buf_setpos writebuf 0) (\<lambda>writebuf.
     let len = b_len writebuf
     in rbind (buf_getptr writebuf len) (\<lambda>p.
        rbind (buf_getwriteptr writebuf len) (\<lambda>q.
        rbind (mem_read (b_data writebuf) p (unat len)) (\<lambda>pt.
        case mode_encrypt cr (k_crypt_mode k) pt (k_cipher_state k) of
          None \<Rightarrow> Inl (Exit ''Error encrypting'')
        | Some (ct, st) \<Rightarrow>
            rbind (mem_write (b_data writebuf) q ct) (\<lambda>d.
            rbind (buf_incrpos (writebuf\<lparr>b_data := d\<rparr>) len) (\<lambda>writebuf.
            rbind (buf_putbytes writebuf mac_bytes (ucast (dh_hashsize (k_algo_mac k)))) (\<lambda>writebuf.
            rbind (buf_putbyte writebuf packet_type) (\<lambda>writebuf.
            rbind (buf_setpos writebuf 0) (\<lambda>writebuf. Inr (writebuf, st)))))))))))"

definition encrypt_packet ::
  "crypto \<Rightarrow> (nat \<Rightarrow> u8) \<Rightarrow> bytes \<Rightarrow> 'a sshsession_scheme \<Rightarrow> 'a sshsession_scheme result" where
  "encrypt_packet cr rnd mac0 s =
     rbind (buf_setpos (s_writepayload s) 0) (\<lambda>wp.
     rbind (buf_getbyte wp) (\<lambda>(packet_type, wp).
     rbind (buf_setpos wp 0) (\<lambda>wp.
     let s = s\<lparr>s_writepayload := wp\<rparr>
     in if \<not> s_dataallowed s \<and> \<not> packet_is_okay_kex packet_type then enqueue_reply_packet s
     else
       let k = kc_trans (s_keys s); blocksize = dc_blocksize (k_algo_crypt k)
       in rbind (packet_copy wp blocksize (ucast (dh_hashsize (k_algo_mac k)))) (\<lambda>writebuf.
          rbind (clear_writepayload s) (\<lambda>s.
          rbind (packet_pad rnd blocksize writebuf) (\<lambda>writebuf.
          rbind (packet_seal cr (s_transseq s) k mac0 packet_type writebuf) (\<lambda>(writebuf, st).
          rbind (enqueue (s_writequeue s) writebuf) (\<lambda>wq.
          Inr (set_trans (k\<lparr>k_cipher_state := st\<rparr>) (s\<lparr>s_writequeue := wq,
                 s_kexstate := (s_kexstate s)\<lparr>ks_datatrans :=
                   ks_datatrans (s_kexstate s) + b_len writebuf\<rparr>,
                 s_transseq := s_transseq s + 1\<rparr>))))))))))"

fun flush_replies ::
  "crypto \<Rightarrow> (nat \<Rightarrow> u8) \<Rightarrow> bytes \<Rightarrow> buffer list \<Rightarrow> 'a sshsession_scheme \<Rightarrow> 'a sshsession_scheme result" where
  "flush_replies cr rnd mac0 [] s = Inr s"
| "flush_replies cr rnd mac0 (item # items) s =
     rbind (buf_putbytes (s_writepayload s) (b_data item) (b_len item)) (\<lambda>wp.
     rbind (encrypt_packet cr rnd mac0 (s\<lparr>s_writepayload := wp\<rparr>)) (\<lambda>s.
     flush_replies cr rnd mac0 items s))"

definition maybe_flush_reply_queue ::
  "crypto \<Rightarrow> (nat \<Rightarrow> u8) \<Rightarrow> bytes \<Rightarrow> 'a sshsession_scheme \<Rightarrow> 'a sshsession_scheme result" where
  "maybe_flush_reply_queue cr rnd mac0 s =
     (if \<not> s_dataallowed s then Inr s
      else rbind (flush_replies cr rnd mac0 (s_reply_queue s) s) (\<lambda>s. Inr (s\<lparr>s_reply_queue := []\<rparr>)))"

subsection \<open>Writing to the socket\<close>

text \<open>
  The walk over the queue that fills \<open>iov\<close>, an array of \<open>count\<close> elements: one element more in
  the queue than that is a write past its end. The result has the pieces to write.
\<close>

fun gather_iov :: "buffer queue \<Rightarrow> nat \<Rightarrow> addr option \<Rightarrow> (bytes list \<times> bool) result" where
  "gather_iov q 0 l = (if l = None then Inr ([], True) else Inl OutOfBounds)"
| "gather_iov q (Suc n) l =
     (case l of
        None \<Rightarrow> Inr ([], True)
      | Some a \<Rightarrow>
          rbind (q_deref q l) (\<lambda>node.
          let writebuf = l_item node; len = b_len writebuf - 1 - b_pos writebuf
          in rbind (mem_read (b_data writebuf) (unat (b_len writebuf - 1)) 1) (\<lambda>t.
             rbind (require (sint len > 0) (Assert ''len > 0'')) (\<lambda>_.
             rbind (buf_getptr writebuf len) (\<lambda>p.
             rbind (mem_read (b_data writebuf) p (unat len)) (\<lambda>piece.
             rbind (gather_iov q n (l_link node)) (\<lambda>(pieces, all_ignore).
             Inr (piece # pieces, hd t = SSH_MSG_IGNORE \<and> all_ignore))))))))"

definition q_set_head :: "'a queue \<Rightarrow> 'a \<Rightarrow> 'a queue" where
  "q_set_head q x =
     (case q_head q of None \<Rightarrow> q
      | Some a \<Rightarrow> q\<lparr>q_heap := (q_heap q)(a := map_option (\<lambda>l. l\<lparr>l_item := x\<rparr>) (q_heap q a))\<rparr>)"

text \<open>
  The loop that accounts for the bytes written; each round removes a packet or is the last. It
  runs at most once more than there are packets: then the queue is empty and \<open>examine\<close> stops it.
\<close>

fun consume_written :: "nat \<Rightarrow> int \<Rightarrow> buffer queue \<Rightarrow> buffer queue result" where
  "consume_written 0 n q = (if n \<le> 0 then Inr q else Inl (Assert ''!isempty(queue)''))"
| "consume_written (Suc fuel) n q =
     (if n \<le> 0 then Inr q
      else rbind (examine q) (\<lambda>writebuf.
        let len = b_len writebuf - 1 - b_pos writebuf
        in if sint len > n
           then rbind (buf_incrpos writebuf (of_int n)) (\<lambda>b. Inr (q_set_head q b))
           else rbind (dequeue q) (\<lambda>(_, q). consume_written fuel (n - sint len) q)))"

definition write_packet ::
  "sock_write \<Rightarrow> int \<Rightarrow> 'a sshsession_scheme \<Rightarrow> 'a sshsession_scheme result" where
  "write_packet res now s =
     rbind (require (\<not> isempty (s_writequeue s)) (Assert ''!isempty(&ses.writequeue)'')) (\<lambda>_.
     rbind (gather_iov (s_writequeue s) (unat (q_count (s_writequeue s))) (q_head (s_writequeue s)))
       (\<lambda>(iov, all_ignore).
     case res of
       WriteErr e \<Rightarrow> (if e = EINTR then Inr s else Inl (Exit ''Error writing''))
     | WroteN n \<Rightarrow>
         if n = 0 then remoteclosed s
         else
           rbind (consume_written (unat (q_count (s_writequeue s))) (int n) (s_writequeue s)) (\<lambda>wq.
           let s = s\<lparr>s_writequeue := wq, s_last_trx_packet_time := now\<rparr>
           in Inr (if \<not> all_ignore then s\<lparr>s_last_packet_time := now\<rparr> else s))))"

subsection \<open>Well-formed keys and the format of a packet\<close>

definition mac_ok :: "key_context_directional \<Rightarrow> bool" where
  "mac_ok k \<longleftrightarrow> dh_hashsize (k_algo_mac k) = 0 \<or>
     (unat (dh_hashsize (k_algo_mac k)) \<le> digest_size (k_hash_index k) \<and> dh_keysize (k_algo_mac k) \<noteq> 0)"

definition dir_ok :: "key_context_directional \<Rightarrow> bool" where
  "dir_ok k \<longleftrightarrow> (dc_blocksize (k_algo_crypt k) = 8 \<or> dc_blocksize (k_algo_crypt k) = 16) \<and> mac_ok k"

definition mac_of :: "crypto \<Rightarrow> key_context_directional \<Rightarrow> u32 \<Rightarrow> bytes \<Rightarrow> bytes" where
  "mac_of cr k seqno m =
     take (unat (dh_hashsize (k_algo_mac k)))
       (case hmac_init cr (k_hash_index k) (k_mackey k) (unat (dh_keysize (k_algo_mac k))) of
          None \<Rightarrow> []
        | Some hm \<Rightarrow> hmac_done cr (hmac_process (hmac_process hm (store32h seqno)) m) MAX_MAC_LEN)"

definition plain_packet :: "bytes \<Rightarrow> bytes \<Rightarrow> bytes" where
  "plain_packet payload padding =
     store32h (of_nat (length payload + length padding + 1)) @ [of_nat (length padding)] @ payload @ padding"

lemma length_plain_packet: "length (plain_packet p q) = 5 + length p + length q"
  by (simp add: plain_packet_def)

lemma digest_size_le: "digest_size h \<le> 20"
  by (cases h) simp_all

lemma mac_ok_size: "mac_ok k \<Longrightarrow> unat (dh_hashsize (k_algo_mac k)) \<le> 20"
  using digest_size_le[of "k_hash_index k"] by (auto simp: mac_ok_def)

lemma ucast_u8_u32 [simp]: "unat (ucast (w :: u8) :: u32) = unat w"
proof -
  have "unat w < 2 ^ 32" using unat_u8_lt[of w] by (rule less_le_trans) simp
  then show ?thesis by (simp add: unsigned_ucast_eq take_bit_nat_eq_self_iff)
qed

lemma length_mac_of:
  assumes "crypto_ok cr" and "mac_ok k"
  shows "length (mac_of cr k seqno m) = unat (dh_hashsize (k_algo_mac k))"
  using assms
  by (auto simp: mac_of_def mac_ok_def hmac_init_def Let_def length_hmac_done MAX_MAC_LEN_def hmac_process_def
      unat_eq_0 min_def digest_size_le order_trans[OF _ digest_size_le])

lemma make_mac_eq:
  assumes "crypto_ok cr" and "mac_ok k" and "length mac0 = MAX_MAC_LEN" and "mk_ok d l p z" and "unat n \<le> l"
  shows "\<exists>mac q. make_mac cr seqno k (mkbuf d l p z) n mac0 = Inr (mac, mkbuf d l q z) \<and> q \<le> l \<and>
     length mac = MAX_MAC_LEN \<and>
     take (unat (dh_hashsize (k_algo_mac k))) mac = mac_of cr k seqno (take (unat n) d)"
proof (cases "dh_hashsize (k_algo_mac k) = 0")
  case True
  then show ?thesis using mk_okD[OF assms(4)] assms(3) by (auto simp: make_mac_def mac_of_def)
next
  case False
  then have pos: "unat (dh_hashsize (k_algo_mac k)) > 0" by (simp add: unat_gt_0)
  have sz: "unat (dh_hashsize (k_algo_mac k)) \<le> digest_size (k_hash_index k)" "dh_keysize (k_algo_mac k) \<noteq> 0"
    using assms(2) False by (auto simp: mac_ok_def)
  then obtain hm where hm: "hmac_init cr (k_hash_index k) (k_mackey k) (unat (dh_keysize (k_algo_mac k))) = Some hm"
    "hm_hash hm = k_hash_index k"
    by (simp add: hmac_init_def Let_def unat_eq_0)
  let ?m = "hmac_done cr (hmac_process (hmac_process hm (store32h seqno)) (take (unat n) d)) MAX_MAC_LEN"
  have lm: "length ?m = digest_size (k_hash_index k)"
    using assms(1) hm(2) digest_size_le[of "k_hash_index k"]
    by (simp add: length_hmac_done hmac_process_def MAX_MAC_LEN_def)
  have b: "buf_setpos (mkbuf d l p z) 0 = Inr (mkbuf d l 0 z)" using assms(4) by (simp add: mk_setpos)
  have ok0: "mk_ok d l 0 z" using assms(4) by (simp add: mk_ok_def)
  have g: "buf_getptr (mkbuf d l 0 z) n = Inr 0" using ok0 assms(5) by (simp add: mk_getptr)
  have r: "mem_read d 0 (unat n) = Inr (take (unat n) d)" using mk_okD[OF assms(4)] assms(5) by simp
  have w: "mem_write mac0 0 ?m = Inr (patch mac0 0 ?m)"
    using lm assms(3) digest_size_le[of "k_hash_index k"] by (intro mem_write_patch) (simp add: MAX_MAC_LEN_def)
  have "make_mac cr seqno k (mkbuf d l p z) n mac0 = Inr (patch mac0 0 ?m, mkbuf d l 0 z)"
    using pos by (simp add: make_mac_def hm(1) b g r w del: mem_read_ok mem_write_ok)
  moreover have "take (unat (dh_hashsize (k_algo_mac k))) (patch mac0 0 ?m) = mac_of cr k seqno (take (unat n) d)"
    using sz(1) lm by (simp add: patch_def mac_of_def hm(1))
  moreover have "length (patch mac0 0 ?m) = MAX_MAC_LEN"
    using lm assms(3) digest_size_le[of "k_hash_index k"] by (simp add: MAX_MAC_LEN_def)
  ultimately show ?thesis by blast
qed

subsection \<open>Building a packet\<close>

lemma packet_padlen_spec:
  assumes "bs = 8 \<or> bs = 16" and "6 \<le> L" and "L \<le> 1000000000"
  shows "4 \<le> unat (packet_padlen (of_nat L) bs)" "unat (packet_padlen (of_nat L) bs) \<le> unat bs + 3"
    "unat bs dvd L + unat (packet_padlen (of_nat L) bs)" "16 \<le> L + unat (packet_padlen (of_nat L) bs)"
proof -
  let ?n = "unat bs" and ?r = "L mod unat bs"
  let ?P = "if ?n - ?r < 4 then ?n - ?r + ?n else ?n - ?r"
  have n: "?n = 8 \<or> ?n = 16" "0 < ?n" using assms(1) by auto
  have L: "unat (of_nat L :: u32) = L" using assms(3) by (simp add: unat_of_nat_u32)
  have m: "unat (of_nat L mod ucast bs :: u32) = ?r" using L by (simp add: unat_mod)
  have r: "?r < ?n" using n by simp
  have p1: "unat (ucast (ucast bs - of_nat L mod ucast bs :: u32) :: u8) = ?n - ?r"
  proof -
    have "unat (ucast bs - of_nat L mod ucast bs :: u32) = ?n - ?r"
      using m r by (subst unat_sub_no_underflow) simp_all
    moreover have "?n - ?r < 256" using n by auto
    ultimately show ?thesis by (simp add: unsigned_ucast_eq take_bit_nat_eq_self)
  qed
  let ?w = "ucast (ucast bs - of_nat L mod ucast bs :: u32) :: u8"
  let ?v = "if ?w < 4 then ?w + bs else ?w"
  have p2: "unat ?v = ?P"
  proof (cases "?w < 4")
    case True
    then have "?n - ?r < 4" using p1 by (simp add: word_less_nat_alt)
    moreover have "unat (?w + bs) = unat ?w + unat bs"
      using p1 n by (intro unat_add_no_overflow) auto
    ultimately show ?thesis using True p1 by simp
  next
    case False
    then have "\<not> ?n - ?r < 4" using p1 by (simp add: word_less_nat_alt)
    then show ?thesis using False p1 by simp
  qed
  have d: "?n dvd L + ?P"
  proof -
    have "L = L div ?n * ?n + ?r" by simp
    then have "L + (?n - ?r) = L div ?n * ?n + ?n" using r by linarith
    then have "?n dvd L + (?n - ?r)" by simp
    then show ?thesis by (auto simp: add.assoc[symmetric])
  qed
  have P4: "4 \<le> ?P" "?P \<le> ?n + 3" using n r by auto
  have big: "16 \<le> L + ?P"
  proof -
    have "10 \<le> L + ?P" using assms(2) P4(1) by linarith
    then show ?thesis using d n by (auto elim!: dvdE)
  qed
  have "unat (of_nat L + ucast ?v :: u32) = L + ?P"
    using L p2 assms(3) n P4(2) by (subst unat_add_no_overflow) auto
  then have "\<not> of_nat L + ucast ?v < MIN_PACKET_LEN"
    using big by (simp add: MIN_PACKET_LEN_def word_less_nat_alt del: ucast_u8_u32)
  then have "packet_padlen (of_nat L) bs = ?v" by (simp add: packet_padlen_def Let_def)
  then show "4 \<le> unat (packet_padlen (of_nat L) bs)" "unat (packet_padlen (of_nat L) bs) \<le> unat bs + 3"
    "unat bs dvd L + unat (packet_padlen (of_nat L) bs)" "16 \<le> L + unat (packet_padlen (of_nat L) bs)"
    using p2 P4 d big by simp_all
qed

lemma packet_copy_eq:
  assumes "mk_ok d n 0 z" and "n \<le> 100000000" and "bs = 8 \<or> bs = 16" and "unat mac_size \<le> 20"
  shows "packet_copy (mkbuf d n 0 z) bs mac_size =
    Inr (mkbuf (replicate 5 0 @ take n d @ replicate (20 + unat mac_size) 0) (5 + n) (5 + n)
           (25 + n + unat mac_size))"
proof -
  let ?M = "unat mac_size" and ?E = "25 + n + unat mac_size"
  note m = mk_okD[OF assms(1)]
  have mx: "max MIN_PACKET_LEN (ucast bs) = 16"
    using assms(3) by (auto simp: MIN_PACKET_LEN_def max_def)
  have e: "of_nat n + 4 + 1 + 16 + 3 + mac_size + 1 = (of_nat ?E :: u32)" by (simp add: algebra_simps)
  have ue: "unat (of_nat ?E :: u32) = ?E" using assms(2,4) by (intro unat_of_nat_u32) simp
  have 1: "buf_new (of_nat ?E) = Inr (mkbuf (replicate ?E 0) 0 0 ?E)"
    using mk_new[of "of_nat ?E"] ue assms(2,4) by simp
  have k1: "mk_ok (replicate ?E 0) 0 0 ?E" using assms(2,4) by (simp add: mk_ok_def)
  have 2: "buf_setlen (mkbuf (replicate ?E 0) 0 0 ?E) PACKET_PAYLOAD_OFF = Inr (mkbuf (replicate ?E 0) 5 0 ?E)"
    using mk_setlen[OF k1, of PACKET_PAYLOAD_OFF] by (simp add: PACKET_PAYLOAD_OFF_def)
  have k2: "mk_ok (replicate ?E 0) 5 0 ?E" "mk_ok (replicate ?E 0) 5 5 ?E" using assms(2,4) by (simp_all add: mk_ok_def)
  have 3: "buf_setpos (mkbuf (replicate ?E 0) 5 0 ?E) PACKET_PAYLOAD_OFF = Inr (mkbuf (replicate ?E 0) 5 5 ?E)"
    using mk_setpos[OF k2(1), of PACKET_PAYLOAD_OFF] by (simp add: PACKET_PAYLOAD_OFF_def)
  have 4: "buf_getwriteptr (mkbuf (replicate ?E 0) 5 5 ?E) (of_nat n) = Inr 5"
    by (rule mk_getwriteptr[OF k2(2)]) (simp add: m)
  have 5: "buf_getptr (mkbuf d n 0 z) (of_nat n) = Inr 0" by (rule mk_getptr[OF assms(1)]) (simp add: m)
  have 6: "mem_read d 0 n = Inr (take n d)" using m by simp
  have 7: "mem_write (replicate ?E 0) 5 (take n d) = Inr (patch (replicate ?E 0) 5 (take n d))"
    using m by (intro mem_write_patch) simp
  have k3: "mk_ok (patch (replicate ?E 0) 5 (take n d)) 5 5 ?E"
    using assms(2,4) m by (simp add: mk_ok_def)
  have 8: "buf_incrwritepos (mkbuf (patch (replicate ?E 0) 5 (take n d)) 5 5 ?E) (of_nat n) =
      Inr (mkbuf (patch (replicate ?E 0) 5 (take n d)) (5 + n) (5 + n) ?E)"
    using mk_incrwritepos[OF k3, of "of_nat n"] m by simp
  have 9: "patch (replicate ?E 0) 5 (take n d) = replicate 5 0 @ take n d @ replicate (20 + ?M) 0"
    using m by (simp add: patch_def)
  show ?thesis
    unfolding packet_copy_def Let_def mkbuf_fields mx e m(2)
    by (simp only: 1 2 3 4 5 6 7 8 rbind_simps mkbuf_fields) (simp only: 9)
qed

lemma packet_pad_eq:
  assumes "bs = 8 \<or> bs = 16" and "1 \<le> length p" and "length p \<le> 100000000" and "20 \<le> r" and "r \<le> 100"
  defines "P \<equiv> unat (packet_padlen (of_nat (5 + length p)) bs)"
  shows "packet_pad rnd bs (mkbuf (replicate 5 0 @ p @ replicate r 0) (5 + length p) (5 + length p) (5 + length p + r)) =
    Inr (mkbuf (plain_packet p (map rnd [0..<P]) @ replicate (r - P) 0) (5 + length p + P) (5 + length p) (5 + length p + r))"
proof -
  let ?L = "5 + length p" and ?Z = "5 + length p + r" and ?w = "packet_padlen (of_nat (5 + length p)) bs"
  let ?d = "replicate 5 0 @ p @ replicate r 0"
  note P = packet_padlen_spec[OF assms(1), of ?L]
  have P1: "P \<le> 19" "4 \<le> P" using P(1,2) assms(1,2,3) by (auto simp: P_def)
  have uw: "unat (ucast ?w :: u32) = P" "ucast ?w = (of_nat P :: u32)" "?w = of_nat P"
    by (simp_all add: P_def)
  have k: "mk_ok ?d ?L q ?Z" if "q \<le> ?L" for q using assms(3,5) that by (simp add: mk_ok_def)
  have 1: "buf_setpos (mkbuf ?d ?L ?L ?Z) 0 = Inr (mkbuf ?d ?L 0 ?Z)"
    using mk_setpos[OF k[of ?L], of 0] by simp
  let ?v = "of_nat ?L + ucast ?w - 4 :: u32"
  let ?d1 = "patch ?d 0 (store32h ?v)" let ?d2 = "patch ?d1 4 [?w]"
  have 2: "buf_putint (mkbuf ?d ?L 0 ?Z) ?v = Inr (mkbuf ?d1 ?L 4 ?Z)"
    using mk_putint[OF k[of 0], of ?v] by simp
  have k1: "mk_ok ?d1 ?L 4 ?Z" using assms(3,5) by (simp add: mk_ok_def)
  have 3: "buf_putbyte (mkbuf ?d1 ?L 4 ?Z) ?w = Inr (mkbuf ?d2 ?L 5 ?Z)"
    using mk_putbyte[OF k1, of ?w] by simp
  have k2: "mk_ok ?d2 ?L q ?Z" if "q \<le> ?L" for q using assms(3,5) that by (simp add: mk_ok_def)
  have 4: "buf_setpos (mkbuf ?d2 ?L 5 ?Z) (of_nat ?L) = Inr (mkbuf ?d2 ?L ?L ?Z)"
    using mk_setpos[OF k2[of 5], of "of_nat ?L"] mk_okD(2)[OF k2[of 5]] by simp
  have 5: "buf_incrlen (mkbuf ?d2 ?L ?L ?Z) (ucast ?w) = Inr (mkbuf ?d2 (?L + P) ?L ?Z)"
    using mk_incrlen[OF k2[of ?L], of "ucast ?w"] uw(1) P1 assms(4) by simp
  have k3: "mk_ok ?d2 (?L + P) ?L ?Z" using assms(3,4,5) P1 by (simp add: mk_ok_def)
  have 6: "buf_getptr (mkbuf ?d2 (?L + P) ?L ?Z) (ucast ?w) = Inr ?L"
    by (rule mk_getptr[OF k3]) (simp only: uw(1) le_refl)
  have 7: "mem_write ?d2 ?L (map rnd [0..<unat ?w]) = Inr (patch ?d2 ?L (map rnd [0..<P]))"
    using P1 assms(4) unfolding P_def[symmetric] by (intro mem_write_patch) simp
  have v: "?v = of_nat (length p + P + 1)"
    using uw(2) by (simp add: algebra_simps)
  have 8: "patch ?d2 ?L (map rnd [0..<P]) = plain_packet p (map rnd [0..<P]) @ replicate (r - P) 0"
    unfolding v unfolding uw(3) plain_packet_def by (simp add: patch_def eval_nat_numeral)
  have nz: "bs \<noteq> 0" using assms(1) by auto
  show ?thesis unfolding packet_pad_def Let_def
    using nz by (simp only: require_simps mkbuf_fields 1 2 3 4 5 6 7 rbind_simps not_False_eq_True)
      (simp only: 8)
qed

lemma packet_seal_eq:
  assumes "crypto_ok cr" and "mac_ok k" and "length mac0 = MAX_MAC_LEN"
    and "mode_encrypt cr (k_crypt_mode k) pt (k_cipher_state k) = Some (ct, st)" and "length ct = length pt"
    and "length pt \<le> 200000000" and "q \<le> length pt" and "unat (dh_hashsize (k_algo_mac k)) < r" and "r \<le> 1000"
  defines "M \<equiv> unat (dh_hashsize (k_algo_mac k))"
  shows "packet_seal cr seqno k mac0 type (mkbuf (pt @ replicate r 0) (length pt) q (length pt + r)) =
    Inr (mkbuf (ct @ mac_of cr k seqno pt @ [type] @ replicate (r - M - 1) 0) (length pt + M + 1) 0 (length pt + r), st)"
proof -
  let ?n = "length pt" and ?Z = "length pt + r" and ?d = "pt @ replicate r 0"
  have k0: "mk_ok d ?n q' ?Z" if "length d = ?Z" "q' \<le> ?n" for d :: bytes and q'
    using assms(6,9) that by (simp add: mk_ok_def)
  have un: "unat (of_nat ?n :: u32) = ?n" using assms(6) by (intro unat_of_nat_u32) simp
  obtain mac q1 where mac: "make_mac cr seqno k (mkbuf ?d ?n q ?Z) (of_nat ?n) mac0 = Inr (mac, mkbuf ?d ?n q1 ?Z)"
    "q1 \<le> ?n" "length mac = MAX_MAC_LEN" "take M mac = mac_of cr k seqno pt"
    using make_mac_eq[OF assms(1-3) k0[of ?d q], of "of_nat ?n" seqno] assms(7) un by (auto simp: M_def)
  have M: "M \<le> 20" using mac_ok_size[OF assms(2)] by (simp add: M_def)
  have 1: "buf_setpos (mkbuf ?d ?n q1 ?Z) 0 = Inr (mkbuf ?d ?n 0 ?Z)"
    using mk_setpos[OF k0[of ?d q1], of 0] mac(2) by simp
  have kd: "mk_ok ?d ?n 0 ?Z" by (rule k0) simp_all
  have 2: "buf_getptr (mkbuf ?d ?n 0 ?Z) (of_nat ?n) = Inr 0" by (rule mk_getptr[OF kd]) (simp add: un)
  have 3: "buf_getwriteptr (mkbuf ?d ?n 0 ?Z) (of_nat ?n) = Inr 0" by (rule mk_getwriteptr[OF kd]) (simp add: un)
  have 4: "mem_read ?d 0 ?n = Inr pt" by simp
  have 5: "mem_write ?d 0 ct = Inr (ct @ replicate r 0)" using assms(5) by simp
  let ?c = "ct @ replicate r 0"
  have kc: "mk_ok ?c ?n q' ?Z" if "q' \<le> ?n" for q' by (rule k0) (simp_all add: assms(5) that)
  have 6: "buf_incrpos (mkbuf ?c ?n 0 ?Z) (of_nat ?n) = Inr (mkbuf ?c ?n ?n ?Z)"
    using mk_incrpos[OF kc[of 0], of "of_nat ?n"] un by simp
  let ?e = "patch ?c ?n (mac_of cr k seqno pt)"
  have lm: "length (mac_of cr k seqno pt) = M" unfolding M_def by (rule length_mac_of[OF assms(1,2)])
  have 7: "buf_putbytes (mkbuf ?c ?n ?n ?Z) mac (ucast (dh_hashsize (k_algo_mac k))) = Inr (mkbuf ?e (?n + M) (?n + M) ?Z)"
    using mk_putbytes[OF kc[of ?n], of "ucast (dh_hashsize (k_algo_mac k))" mac] mac(3,4) M assms(8)
    by (simp add: M_def MAX_MAC_LEN_def)
  have ke: "mk_ok ?e (?n + M) (?n + M) ?Z"
    using assms(5,6,8,9) lm by (simp add: mk_ok_def M_def)
  let ?f = "patch ?e (?n + M) [type]"
  have 8: "buf_putbyte (mkbuf ?e (?n + M) (?n + M) ?Z) type = Inr (mkbuf ?f (?n + M + 1) (?n + M + 1) ?Z)"
    using mk_putbyte[OF ke, of type] assms(8) by (simp add: M_def)
  have kf: "mk_ok ?f (?n + M + 1) (?n + M + 1) ?Z"
    using assms(5,6,8,9) lm by (simp add: mk_ok_def M_def)
  have 9: "buf_setpos (mkbuf ?f (?n + M + 1) (?n + M + 1) ?Z) 0 = Inr (mkbuf ?f (?n + M + 1) 0 ?Z)"
    using mk_setpos[OF kf, of 0] by simp
  have f: "?f = ct @ mac_of cr k seqno pt @ [type] @ replicate (r - M - 1) 0"
    using assms(5,8) lm by (simp add: patch_def M_def)
  show ?thesis unfolding packet_seal_def Let_def
    by (simp only: mac(1) 1 2 3 4 5 6 7 8 9 mkbuf_fields rbind_simps prod.case assms(4) option.case un) (simp only: f)
qed

subsection \<open>Sending a packet\<close>

definition payload_ok :: "buffer \<Rightarrow> bool" where
  "payload_ok b \<longleftrightarrow> buf_inv b \<and> 1 \<le> unat (b_len b) \<and> unat (b_len b) \<le> 100000000"

definition emptied :: "buffer \<Rightarrow> buffer" where
  "emptied b = b\<lparr>b_pos := 0, b_len := 0\<rparr>"

definition pad_for :: "key_context_directional \<Rightarrow> bytes \<Rightarrow> nat" where
  "pad_for k p = unat (packet_padlen (of_nat (5 + length p)) (dc_blocksize (k_algo_crypt k)))"

text \<open>The state after a packet of \<open>n\<close> bytes in all has been put on the queue \<open>wq\<close>.\<close>

definition after_send ::
  "cipher_state \<Rightarrow> buffer queue \<Rightarrow> nat \<Rightarrow> 'a sshsession_scheme \<Rightarrow> 'a sshsession_scheme" where
  "after_send st wq n s =
     set_trans ((kc_trans (s_keys s))\<lparr>k_cipher_state := st\<rparr>)
       (s\<lparr>s_writepayload := emptied (s_writepayload s), s_writequeue := wq,
          s_kexstate := (s_kexstate s)\<lparr>ks_datatrans := ks_datatrans (s_kexstate s) + of_nat n\<rparr>,
          s_transseq := s_transseq s + 1\<rparr>)"

lemma emptied_inv: "buf_inv b \<Longrightarrow> buf_inv (emptied b)"
  by (simp add: buf_inv_def emptied_def)

lemma pad_for_spec:
  assumes "dir_ok k" and "1 \<le> length p" and "length p \<le> 100000000"
  shows "4 \<le> pad_for k p" "pad_for k p \<le> 19"
    "unat (dc_blocksize (k_algo_crypt k)) dvd 5 + length p + pad_for k p" "16 \<le> 5 + length p + pad_for k p"
  using packet_padlen_spec[of "dc_blocksize (k_algo_crypt k)" "5 + length p"] assms
  by (auto simp: pad_for_def dir_ok_def)

lemma payload_mk:
  assumes "payload_ok b"
  obtains d n z where "mk_ok d n 0 z" "1 \<le> n" "n \<le> 100000000" "contents b = take n d"
    "buf_setpos b 0 = Inr (mkbuf d n 0 z)" "buf_getbyte (mkbuf d n 0 z) = Inr (hd (contents b), mkbuf d n 1 z)"
    "buf_setpos (mkbuf d n 1 z) 0 = Inr (mkbuf d n 0 z)" "n = length (contents b)"
    "b\<lparr>b_pos := 0\<rparr> = mkbuf d n 0 z" "emptied b = mkbuf d 0 0 z"
proof -
  let ?d = "b_data b" and ?n = "unat (b_len b)" and ?z = "unat (b_size b)" and ?p = "unat (b_pos b)"
  have i: "buf_inv b" using assms by (simp add: payload_ok_def)
  note b = conjunct1[OF buf_inv_mkbuf[OF i]] conjunct2[OF buf_inv_mkbuf[OF i]]
  have n: "1 \<le> ?n" "?n \<le> 100000000" using assms by (simp_all add: payload_ok_def)
  have m: "mk_ok ?d ?n 0 ?z" "mk_ok ?d ?n 1 ?z" using b(2) n(1) by (simp_all add: mk_ok_def)
  have "?d \<noteq> []" "?n \<le> length ?d" using n(1) mk_okD[OF m(1)] by auto
  then have h: "hd (contents b) = ?d ! 0" "?n = length (contents b)"
    using n(1) by (simp_all add: contents_def hd_conv_nth)
  have s: "buf_setpos b 0 = Inr (mkbuf ?d ?n 0 ?z)" using mk_setpos[OF b(2), of 0] unfolding b(1)[symmetric] by simp
  have g: "buf_getbyte (mkbuf ?d ?n 0 ?z) = Inr (hd (contents b), mkbuf ?d ?n 1 ?z)"
    using mk_getbyte[OF m(1)] n(1) h(1) by simp
  have t: "buf_setpos (mkbuf ?d ?n 1 ?z) 0 = Inr (mkbuf ?d ?n 0 ?z)" using mk_setpos[OF m(2), of 0] by simp
  have e: "b\<lparr>b_pos := 0\<rparr> = mkbuf ?d ?n 0 ?z" "emptied b = mkbuf ?d 0 0 ?z"
    by (simp_all add: mkbuf_def emptied_def)
  show thesis by (rule that[OF m(1) n contents_def s g t h(2) e])
qed

lemma clear_writepayload_eq:
  assumes "mk_ok d n 0 z"
  shows "clear_writepayload (s\<lparr>s_writepayload := mkbuf d n 0 z\<rparr>) = Inr (s\<lparr>s_writepayload := mkbuf d 0 0 z\<rparr>)"
  using mk_setpos[OF assms, of 0] mk_setlen[OF assms, of 0] mk_okD[OF assms]
  by (simp add: clear_writepayload_def)

lemma encrypt_packet_sends:
  assumes "crypto_ok cr" and "length mac0 = MAX_MAC_LEN" and "dir_ok (kc_trans (s_keys s))"
    and "payload_ok (s_writepayload s)" and "q_rep (s_writequeue s) qs"
    and "s_dataallowed s \<or> packet_is_okay_kex (hd (contents (s_writepayload s)))"
    and "mode_encrypt cr (k_crypt_mode (kc_trans (s_keys s)))
           (plain_packet (contents (s_writepayload s)) (map rnd [0..<pad_for (kc_trans (s_keys s)) (contents (s_writepayload s))]))
           (k_cipher_state (kc_trans (s_keys s))) = Some (ct, st)"
    and "length ct = 5 + length (contents (s_writepayload s)) + pad_for (kc_trans (s_keys s)) (contents (s_writepayload s))"
  shows "\<exists>wb wq. encrypt_packet cr rnd mac0 s = Inr (after_send st wq (length (contents wb)) s) \<and>
    q_rep wq (qs @ [wb]) \<and> buf_inv wb \<and> b_pos wb = 0 \<and>
    contents wb = ct @ mac_of cr (kc_trans (s_keys s)) (s_transseq s)
        (plain_packet (contents (s_writepayload s)) (map rnd [0..<pad_for (kc_trans (s_keys s)) (contents (s_writepayload s))]))
      @ [hd (contents (s_writepayload s))]"
proof -
  let ?k = "kc_trans (s_keys s)" and ?p = "contents (s_writepayload s)"
  let ?bs = "dc_blocksize (k_algo_crypt ?k)" and ?M = "unat (dh_hashsize (k_algo_mac ?k))"
  let ?P = "pad_for ?k ?p" let ?pt = "plain_packet ?p (map rnd [0..<?P])"
  obtain d n z where b: "mk_ok d n 0 z" "1 \<le> n"
    "n \<le> 100000000" "?p = take n d"
    "buf_setpos (s_writepayload s) 0 = Inr (mkbuf d n 0 z)" "buf_getbyte (mkbuf d n 0 z) = Inr (hd ?p, mkbuf d n 1 z)"
    "buf_setpos (mkbuf d n 1 z) 0 = Inr (mkbuf d n 0 z)" "n = length ?p"
    "(s_writepayload s)\<lparr>b_pos := 0\<rparr> = mkbuf d n 0 z" "emptied (s_writepayload s) = mkbuf d 0 0 z"
    by (rule payload_mk[OF assms(4)])
  have bs: "?bs = 8 \<or> ?bs = 16" "mac_ok ?k" using assms(3) by (simp_all add: dir_ok_def)
  have M: "?M \<le> 20" by (rule mac_ok_size[OF bs(2)])
  have P: "4 \<le> ?P" "?P \<le> 19" using pad_for_spec[OF assms(3), of ?p] b(2,3,8) by simp_all
  let ?r = "20 + ?M"
  define W1 where "W1 = mkbuf (replicate 5 0 @ ?p @ replicate ?r 0) (5 + length ?p) (5 + length ?p) (5 + length ?p + ?r)"
  define W2 where "W2 = mkbuf (?pt @ replicate (?r - ?P) 0) (length ?pt) (5 + length ?p) (length ?pt + (?r - ?P))"
  have 1: "packet_copy (mkbuf d n 0 z) ?bs (ucast (dh_hashsize (k_algo_mac ?k))) = Inr W1"
  proof -
    have e: "25 + n + ?M = 5 + n + ?r" by simp
    show ?thesis
      using packet_copy_eq[OF b(1,3) bs(1), of "ucast (dh_hashsize (k_algo_mac ?k))"] M
      unfolding W1_def by (simp only: b(4)[symmetric] b(8)[symmetric] ucast_u8_u32 e)
  qed
  have 2: "packet_pad rnd ?bs W1 = Inr W2"
    using packet_pad_eq[OF bs(1), of ?p ?r rnd] b(2,3,8) M P unfolding pad_for_def[symmetric] W1_def W2_def
    by (simp add: length_plain_packet)
  have lc: "length ct = length ?pt" using assms(8) by (simp add: length_plain_packet)
  define W3 where "W3 = mkbuf (ct @ mac_of cr ?k (s_transseq s) ?pt @ [hd ?p] @ replicate (?r - ?P - ?M - 1) 0)
      (length ?pt + ?M + 1) 0 (length ?pt + (?r - ?P))"
  have 3: "packet_seal cr (s_transseq s) ?k mac0 (hd ?p) W2 = Inr (W3, st)"
    using b(3,8) P M unfolding W2_def W3_def
    by (intro packet_seal_eq[OF assms(1) bs(2) assms(2,7) lc]) (simp_all add: length_plain_packet)
  have lm: "length (mac_of cr ?k (s_transseq s) ?pt) = ?M" by (rule length_mac_of[OF assms(1) bs(2)])
  have wb: "mk_ok (b_data W3) (length ?pt + ?M + 1) 0 (length ?pt + (?r - ?P))"
    using lc lm M P b(3,8) by (simp add: mk_ok_def length_plain_packet W3_def)
  have cw: "contents W3 = ct @ mac_of cr ?k (s_transseq s) ?pt @ [hd ?p]" "b_pos W3 = 0" "buf_inv W3"
    "b_len W3 = of_nat (length ct + ?M + 1)"
    using contents_mk[OF wb] mk_inv[OF wb] lc lm by (simp_all add: W3_def)
  obtain wq where 4: "enqueue (s_writequeue s) W3 = Inr wq" "q_rep wq (qs @ [W3])"
    using lq.rep_enq[OF assms(5)] by blast
  have 5: "clear_writepayload (s\<lparr>s_writepayload := mkbuf d n 0 z\<rparr>) = Inr (s\<lparr>s_writepayload := mkbuf d 0 0 z\<rparr>)"
    by (rule clear_writepayload_eq[OF b(1)])
  have len: "b_len W3 = of_nat (length (contents W3))" unfolding cw(1,4) using lm by simp
  have "encrypt_packet cr rnd mac0 s = Inr (after_send st wq (length (contents W3)) s)"
    using assms(6) unfolding encrypt_packet_def b(5) after_send_def b(10)
    by (auto simp: b(6,7) 1 2 3 4(1) 5 Let_def len simp del: One_nat_def)
  then show ?thesis using 4(2) cw(1-3) by blast
qed

lemma encrypt_packet_queues:
  assumes "payload_ok (s_writepayload s)" and "\<not> s_dataallowed s"
    and "\<not> packet_is_okay_kex (hd (contents (s_writepayload s)))"
  shows "\<exists>c. encrypt_packet cr rnd mac0 s =
      Inr (s\<lparr>s_writepayload := emptied (s_writepayload s), s_reply_queue := s_reply_queue s @ [c]\<rparr>) \<and>
    contents c = contents (s_writepayload s) \<and> payload_ok c"
proof -
  let ?p = "contents (s_writepayload s)"
  obtain d n z where b: "mk_ok d n 0 z" "1 \<le> n" "n \<le> 100000000" "?p = take n d"
    "buf_setpos (s_writepayload s) 0 = Inr (mkbuf d n 0 z)" "buf_getbyte (mkbuf d n 0 z) = Inr (hd ?p, mkbuf d n 1 z)"
    "buf_setpos (mkbuf d n 1 z) 0 = Inr (mkbuf d n 0 z)" "n = length ?p"
    "(s_writepayload s)\<lparr>b_pos := 0\<rparr> = mkbuf d n 0 z" "emptied (s_writepayload s) = mkbuf d 0 0 z"
    by (rule payload_mk[OF assms(1)])
  note m = mk_okD[OF b(1)]
  have c: "buf_newcopy (mkbuf d n 0 z) = Inr (mkbuf (take n d) n 0 n)"
    using m b(3) by (simp add: buf_newcopy_def mk_new)
  have mc: "mk_ok (take n d) n 0 n" using m b(3) by (simp add: mk_ok_def)
  have cc: "contents (mkbuf (take n d) n 0 n) = ?p" "payload_ok (mkbuf (take n d) n 0 n)"
    using contents_mk[OF mc] mk_inv[OF mc] m(2) b(2-4) by (simp_all add: payload_ok_def)
  have "encrypt_packet cr rnd mac0 s =
      Inr (s\<lparr>s_writepayload := mkbuf d 0 0 z, s_reply_queue := s_reply_queue s @ [mkbuf (take n d) n 0 n]\<rparr>)"
    using assms(2,3) unfolding encrypt_packet_def b(5)
    by (simp add: b(6,7) enqueue_reply_packet_def c clear_writepayload_eq[OF b(1)] Let_def del: One_nat_def)
  then show ?thesis using cc unfolding b(10) by blast
qed

subsection \<open>Receiving a packet\<close>

lemma xor_eq_0: "(x :: u8) XOR y = 0 \<longleftrightarrow> x = y"
  by (metis xor.assoc xor.right_neutral xor_self_eq)

lemma or_eq_0: "(x :: u8) OR y = 0 \<longleftrightarrow> x = 0 \<and> y = 0"
  by (simp add: or_eq_0_iff)

lemma memcmp_fold: "length xs = length ys \<Longrightarrow>
    foldl (\<lambda>c (x, y). c OR (x XOR y)) a (zip xs ys) = (0 :: u8) \<longleftrightarrow> a = 0 \<and> xs = ys"
  by (induction xs ys arbitrary: a rule: list_induct2) (auto simp: or_eq_0 xor_eq_0)

lemma constant_time_memcmp_eq:
  assumes "n \<le> length a" and "n \<le> length b"
  shows "\<exists>c. constant_time_memcmp a b n = Inr c \<and> (c = 0 \<longleftrightarrow> take n a = take n b)"
  using assms by (simp add: constant_time_memcmp_def memcmp_fold)

lemma decrypt_at_eq:
  assumes "mk_ok d l p z" and "p + unat w \<le> l"
    and "mode_decrypt cr (k_crypt_mode k) (take (unat w) (drop p d)) (k_cipher_state k) = Some (pt, st)"
    and "length pt = unat w"
  shows "decrypt_at cr k (mkbuf d l p z) w = Inr (mkbuf (patch d p pt) l p z, k\<lparr>k_cipher_state := st\<rparr>)"
proof -
  note m = mk_okD[OF assms(1)]
  have "mem_write d p pt = Inr (patch d p pt)" using m assms(2,4) by (intro mem_write_patch) simp
  then show ?thesis using m assms(2,3)
    by (simp add: decrypt_at_def mk_getptr[OF assms(1,2)] mk_getwriteptr[OF assms(1)] del: mem_write_ok)
qed

lemma checkmac_eq:
  fixes s :: "'a sshsession_scheme"
  assumes "crypto_ok cr" and "mac_ok (kc_recv (s_keys s))" and "length mac0 = MAX_MAC_LEN"
    and "s_readbuf s = Some (mkbuf d l p z)" and "mk_ok d l p z" and "unat (dh_hashsize (k_algo_mac (kc_recv (s_keys s)))) \<le> l"
  defines "M \<equiv> unat (dh_hashsize (k_algo_mac (kc_recv (s_keys s))))"
  shows "checkmac cr mac0 s =
    Inr (take M (drop (l - M) d) = mac_of cr (kc_recv (s_keys s)) (s_recvseq s) (take (l - M) d),
         s\<lparr>s_readbuf := Some (mkbuf d l (l - M) z)\<rparr>)"
proof -
  let ?k = "kc_recv (s_keys s)" and ?w = "ucast (dh_hashsize (k_algo_mac (kc_recv (s_keys s)))) :: u32"
  note m = mk_okD[OF assms(5)]
  have cl: "unat (of_nat l - ?w) = l - M"
    using m assms(6) by (subst unat_sub_no_underflow) (simp_all add: M_def)
  have 1: "buf_setpos (mkbuf d l p z) 0 = Inr (mkbuf d l 0 z)" using mk_setpos[OF assms(5), of 0] by simp
  have k0: "mk_ok d l q z" if "q \<le> l" for q using assms(5) that by (simp add: mk_ok_def)
  obtain mac q where mac: "make_mac cr (s_recvseq s) ?k (mkbuf d l 0 z) (of_nat l - ?w) mac0 = Inr (mac, mkbuf d l q z)"
    "q \<le> l" "length mac = MAX_MAC_LEN" "take M mac = mac_of cr ?k (s_recvseq s) (take (l - M) d)"
    using make_mac_eq[OF assms(1-3) k0[of 0], of "of_nat l - ?w" "s_recvseq s"] cl by (auto simp: M_def)
  have 2: "buf_setpos (mkbuf d l q z) (of_nat l - ?w) = Inr (mkbuf d l (l - M) z)"
    using mk_setpos[OF k0[OF mac(2)], of "of_nat l - ?w"] cl by simp
  have 3: "buf_getptr (mkbuf d l (l - M) z) ?w = Inr (l - M)"
    using assms(6) by (intro mk_getptr[OF k0]) (simp_all add: M_def)
  have M: "M \<le> 20" using mac_ok_size[OF assms(2)] by (simp add: M_def)
  have Ml: "M \<le> length mac" "M \<le> length (drop (l - M) d)"
    using mac(3) M m(5,6) assms(6) unfolding M_def[symmetric] by (simp_all add: MAX_MAC_LEN_def)
  obtain c where c: "constant_time_memcmp mac (drop (l - M) d) M = Inr c"
    "c = 0 \<longleftrightarrow> take M mac = take M (drop (l - M) d)"
    using constant_time_memcmp_eq[OF Ml] by blast
  have eq: "(c = 0) = (take M (drop (l - M) d) = mac_of cr ?k (s_recvseq s) (take (l - M) d))"
    using c(2) mac(4) by auto
  have u: "unat ?w = M" by (simp add: M_def)
  show ?thesis unfolding checkmac_def Let_def assms(4) eq[symmetric]
    by (simp only: deref_simps rbind_simps mkbuf_fields 1 mac(1) prod.case 2 3 u c(1))
qed

lemma payload_len:
  fixes l m :: u32 and padlen :: u8
  assumes "unat l \<le> 35000" and "unat m \<le> 20"
  shows "(l - ucast padlen - 4 - 1 - m > RECV_MAX_PAYLOAD_LEN \<or> l - ucast padlen - 4 - 1 - m < 1) \<longleftrightarrow>
      unat l < unat padlen + 6 + unat m \<or> unat l - (unat padlen + 5 + unat m) > 32768"
    and "unat padlen + 5 + unat m \<le> unat l \<Longrightarrow>
      unat (l - ucast padlen - 4 - 1 - m) = unat l - (unat padlen + 5 + unat m)"
proof -
  let ?c = "ucast padlen + 5 + m :: u32"
  have lt: "unat padlen < 256" by simp
  have "unat (ucast padlen + 5 :: u32) = unat padlen + 5"
    using lt by (subst unat_add_no_overflow) (simp_all del: unat_u8_lt)
  then have c: "unat ?c = unat padlen + 5 + unat m"
    using lt assms(2) by (subst unat_add_no_overflow) (simp_all del: unat_u8_lt)
  have e: "l - ucast padlen - 4 - 1 - m = l - ?c" by (simp add: algebra_simps)
  have sub: "unat (l - ?c) = unat l - unat ?c" if "unat ?c \<le> unat l"
    using that by (rule unat_sub_no_underflow)
  show "unat padlen + 5 + unat m \<le> unat l \<Longrightarrow>
      unat (l - ucast padlen - 4 - 1 - m) = unat l - (unat padlen + 5 + unat m)"
    using sub c unfolding e by simp
  show "(l - ucast padlen - 4 - 1 - m > RECV_MAX_PAYLOAD_LEN \<or> l - ucast padlen - 4 - 1 - m < 1) \<longleftrightarrow>
      unat l < unat padlen + 6 + unat m \<or> unat l - (unat padlen + 5 + unat m) > 32768"
  proof (cases "unat ?c \<le> unat l")
    case True
    then show ?thesis using sub c unfolding e by (auto simp: RECV_MAX_PAYLOAD_LEN_def word_less_nat_alt)
  next
    case False
    have "unat (l - ?c) = unat l + 4294967296 - unat ?c" using False by (simp add: unat_sub_if')
    moreover have "unat ?c - unat l < 1000" using c assms(2) unat_u8_lt[of padlen] by linarith
    ultimately have "unat (l - ?c) > 32768" by linarith
    then show ?thesis using False c unfolding e by (auto simp: RECV_MAX_PAYLOAD_LEN_def word_less_nat_alt)
  qed
qed

text \<open>The state after a packet of \<open>l\<close> bytes with payload \<open>p\<close> has been accepted.\<close>

definition after_recv ::
  "cipher_state \<Rightarrow> nat \<Rightarrow> bytes \<Rightarrow> 'a sshsession_scheme \<Rightarrow> 'a sshsession_scheme" where
  "after_recv st l p s =
     set_recv ((kc_recv (s_keys s))\<lparr>k_cipher_state := st\<rparr>)
       (s\<lparr>s_kexstate := (s_kexstate s)\<lparr>ks_datarecv := ks_datarecv (s_kexstate s) + of_nat l\<rparr>,
          s_payload := Some (mkbuf p (length p) 0 (length p)), s_readbuf := None,
          s_recvseq := s_recvseq s + 1\<rparr>)"

lemma set_recv_simps [simp]:
  "kc_recv (s_keys (set_recv k s)) = k" "s_readbuf (set_recv k s) = s_readbuf s"
  "s_recvseq (set_recv k s) = s_recvseq s" "set_recv k (s\<lparr>s_readbuf := b\<rparr>) = (set_recv k s)\<lparr>s_readbuf := b\<rparr>"
  "s_keys (s\<lparr>s_readbuf := b\<rparr>) = s_keys s"
  by (simp_all add: set_recv_def)

lemma copy_payload_eq:
  assumes "mk_ok e l 5 z" and "5 + unat w \<le> l" and "unat w \<le> 35000"
  shows "copy_payload (mkbuf e l 5 z) w = Inr (mkbuf (take (unat w) (drop 5 e)) (unat w) 0 (unat w))"
proof -
  let ?n = "unat w" let ?p = "take ?n (drop 5 e)"
  note m = mk_okD[OF assms(1)]
  have 1: "buf_setpos (mkbuf e l 5 z) PACKET_PAYLOAD_OFF = Inr (mkbuf e l 5 z)"
    using mk_setpos[OF assms(1), of PACKET_PAYLOAD_OFF] assms(2) by (simp add: PACKET_PAYLOAD_OFF_def)
  have 2: "buf_new w = Inr (mkbuf (replicate ?n 0) 0 0 ?n)" using mk_new[of w] assms(3) by simp
  have 3: "buf_getptr (mkbuf e l 5 z) w = Inr 5" using assms by (intro mk_getptr) simp_all
  have lp: "length ?p = ?n" using assms m by simp
  have 4: "mem_read e 5 ?n = Inr ?p" "mem_write (replicate ?n 0) 0 ?p = Inr ?p" using assms m lp by simp_all
  have kp: "mk_ok ?p 0 0 ?n" "mk_ok ?p ?n 0 ?n" using lp assms by (simp_all add: mk_ok_def)
  have 5: "buf_incrlen (mkbuf ?p 0 0 ?n) w = Inr (mkbuf ?p ?n 0 ?n)" using mk_incrlen[OF kp(1), of w] by simp
  have 6: "buf_setpos (mkbuf ?p ?n 0 ?n) 0 = Inr (mkbuf ?p ?n 0 ?n)" using mk_setpos[OF kp(2), of 0] by simp
  show ?thesis by (simp only: copy_payload_def 1 2 3 4 5 6 rbind_simps mkbuf_fields)
qed

lemma decrypt_packet_eq:
  fixes s :: "'a sshsession_scheme"
  assumes "crypto_ok cr" and "length mac0 = MAX_MAC_LEN" and "dir_ok (kc_recv (s_keys s))"
    and "s_readbuf s = Some (mkbuf d l q z)" and "mk_ok d l q z"
    and "unat (dc_blocksize (k_algo_crypt (kc_recv (s_keys s)))) + unat (dh_hashsize (k_algo_mac (kc_recv (s_keys s)))) \<le> l"
    and "l \<le> 35000"
  defines "B \<equiv> unat (dc_blocksize (k_algo_crypt (kc_recv (s_keys s))))"
    and "M \<equiv> unat (dh_hashsize (k_algo_mac (kc_recv (s_keys s))))"
  assumes "mode_decrypt cr (k_crypt_mode (kc_recv (s_keys s))) (take (l - M - B) (drop B d))
      (k_cipher_state (kc_recv (s_keys s))) = Some (pt, st)" and "length pt = l - M - B"
  defines "e \<equiv> patch d B pt"
  shows "decrypt_packet cr mac0 s =
    (if take M (drop (l - M) e) \<noteq> mac_of cr (kc_recv (s_keys s)) (s_recvseq s) (take (l - M) e)
     then Inl (Exit ''Integrity error'')
     else if l < unat (e ! 4) + 6 + M \<or> l - (unat (e ! 4) + 5 + M) > 32768 then Inl (Exit ''Bad packet size'')
     else Inr (after_recv st l (take (l - (unat (e ! 4) + 5 + M)) (drop 5 e)) s))"
proof -
  let ?k = "kc_recv (s_keys s)" let ?k' = "?k\<lparr>k_cipher_state := st\<rparr>"
  let ?bw = "ucast (dc_blocksize (k_algo_crypt ?k)) :: u32" and ?mw = "ucast (dh_hashsize (k_algo_mac ?k)) :: u32"
  let ?s1 = "s\<lparr>s_kexstate := (s_kexstate s)\<lparr>ks_datarecv := ks_datarecv (s_kexstate s) + of_nat l\<rparr>\<rparr>"
  note m = mk_okD[OF assms(5)]
  have B: "B = 8 \<or> B = 16" "mac_ok ?k" using assms(3) by (auto simp: dir_ok_def B_def)
  have M: "M \<le> 20" using mac_ok_size[OF B(2)] by (simp add: M_def)
  have BM: "B + M \<le> l" using assms(6) by (simp add: B_def M_def)
  have u: "unat ?bw = B" "unat ?mw = M" by (simp_all add: B_def M_def)
  have kd: "mk_ok d l x z" if "x \<le> l" for x using assms(5) that by (simp add: mk_ok_def)
  have 1: "buf_setpos (mkbuf d l q z) ?bw = Inr (mkbuf d l B z)"
    using mk_setpos[OF assms(5), of ?bw] u BM by simp
  let ?lw = "of_nat l - ?mw - of_nat B :: u32"
  have ul: "unat ?lw = l - M - B"
  proof -
    have "unat (of_nat l - ?mw) = l - M" using m BM u by (subst unat_sub_no_underflow) simp_all
    then show ?thesis using BM B(1) by (subst unat_sub_no_underflow) (auto simp: unat_of_nat_u32)
  qed
  have ub: "(of_nat B :: u32) = ?bw" by (simp add: B_def)
  have 2: "decrypt_at cr ?k (mkbuf d l B z) ?lw = Inr (mkbuf e l B z, ?k')"
    unfolding e_def using decrypt_at_eq[OF kd[of B], of ?lw cr ?k pt st] BM ul assms(10,11) by simp
  have le: "length e = length d" unfolding e_def using assms(11) BM m by simp
  have ke: "mk_ok e l x z" if "x \<le> l" for x using kd[OF that] le by (simp add: mk_ok_def)
  have 3: "buf_incrpos (mkbuf e l B z) ?lw = Inr (mkbuf e l (l - M) z)"
    using mk_incrpos[OF ke[of B], of ?lw] ul BM by simp
  let ?s2 = "(set_recv ?k' ?s1)\<lparr>s_readbuf := Some (mkbuf e l (l - M) z)\<rparr>"
  let ?good = "take M (drop (l - M) e) = mac_of cr ?k (s_recvseq s) (take (l - M) e)"
  have mo: "mac_of cr ?k' n x = mac_of cr ?k n x" for n x by (simp add: mac_of_def)
  have 4: "checkmac cr mac0 ?s2 = Inr (?good, ?s2)"
    using checkmac_eq[OF assms(1) _ assms(2), of ?s2 e l "l - M" z] B(2) ke[of "l - M"] BM
    by (simp add: mac_ok_def mo M_def set_recv_def)
  have 5: "buf_setpos (mkbuf e l (l - M) z) PACKET_PADDING_OFF = Inr (mkbuf e l 4 z)"
    using mk_setpos[OF ke[of "l - M"], of PACKET_PADDING_OFF] BM B(1) by (auto simp: PACKET_PADDING_OFF_def)
  have 6: "buf_getbyte (mkbuf e l 4 z) = Inr (e ! 4, mkbuf e l 5 z)"
    using mk_getbyte[OF ke[of 4]] BM B(1) by auto
  let ?nw = "of_nat l - ucast (e ! 4) - 4 - 1 - ?mw :: u32" let ?n = "l - (unat (e ! 4) + 5 + M)"
  have bad: "(?nw > RECV_MAX_PAYLOAD_LEN \<or> ?nw < 1) \<longleftrightarrow> l < unat (e ! 4) + 6 + M \<or> ?n > 32768"
    using payload_len(1)[of "of_nat l" ?mw "e ! 4"] m(2) assms(7) M u(2) by simp
  have ok: "copy_payload (mkbuf e l 5 z) ?nw = Inr (mkbuf (take ?n (drop 5 e)) ?n 0 ?n)"
    if "\<not> (l < unat (e ! 4) + 6 + M \<or> ?n > 32768)"
  proof -
    have "unat ?nw = ?n" using payload_len(2)[of "of_nat l" ?mw "e ! 4"] m(2) assms(7) M u(2) that by simp
    then show ?thesis using copy_payload_eq[OF ke[of 5], of ?nw] that assms(7) by simp
  qed
  have lp: "length (take ?n (drop 5 e)) = ?n" if "\<not> (l < unat (e ! 4) + 6 + M \<or> ?n > 32768)"
    using that le m by auto
  have "decrypt_packet cr mac0 s =
    (if \<not> ?good then Inl (Exit ''Integrity error'')
     else if ?nw > RECV_MAX_PAYLOAD_LEN \<or> ?nw < 1 then Inl (Exit ''Bad packet size'')
     else rbind (copy_payload (mkbuf e l 5 z) ?nw) (\<lambda>payload.
        Inr (?s2\<lparr>s_payload := Some payload, s_readbuf := None, s_recvseq := s_recvseq ?s2 + 1\<rparr>)))"
    unfolding decrypt_packet_def Let_def assms(4)
    by (simp only: deref_simps rbind_simps mkbuf_fields 1) (simp add: 2 3 4 5 6 Let_def split del: if_split cong: if_cong)
  then show ?thesis unfolding bad
    using ok lp by (simp add: after_recv_def set_recv_def)
qed

subsection \<open>Reading from the socket\<close>

definition rblock :: "'a sshsession_scheme \<Rightarrow> nat" where
  "rblock s = unat (dc_blocksize (k_algo_crypt (kc_recv (s_keys s))))"

definition rmac :: "'a sshsession_scheme \<Rightarrow> nat" where
  "rmac s = unat (dh_hashsize (k_algo_mac (kc_recv (s_keys s))))"

definition init_buf :: "'a sshsession_scheme \<Rightarrow> buffer" where
  "init_buf s = (case s_readbuf s of None \<Rightarrow> mkbuf (replicate 128 0) 0 0 128 | Some b \<Rightarrow> b)"

text \<open>The buffer \<open>f\<close> of 128 bytes, enlarged for a packet of \<open>n\<close> bytes where that is more.\<close>

definition grown :: "(nat \<Rightarrow> u8) \<Rightarrow> bytes \<Rightarrow> nat \<Rightarrow> bytes" where
  "grown junk f n = (if n > 128 then f @ map junk [128..<n] else f)"

lemma length_grown: "length f = 128 \<Longrightarrow> length (grown junk f n) = max 128 n"
  by (simp add: grown_def)

lemma take_grown: "length f = 128 \<Longrightarrow> m \<le> 128 \<Longrightarrow> take m (grown junk f n) = take m f"
  by (simp add: grown_def)

lemma bad_packet_len_iff:
  assumes "unat m \<le> 20" and "b \<noteq> 0"
  shows "\<not> bad_packet_len l m b \<longleftrightarrow>
    unat l \<le> 35000 \<and> 16 + unat m \<le> unat l \<and> unat b dvd unat l - unat m"
proof -
  have "unat (MIN_PACKET_LEN + m) = 16 + unat m"
    using assms(1) unfolding MIN_PACKET_LEN_def by (subst unat_add_no_overflow) simp_all
  moreover have "(l - m) mod b = 0 \<longleftrightarrow> unat b dvd unat l - unat m" if "unat m \<le> unat l"
  proof -
    have "(l - m) mod b = 0 \<longleftrightarrow> unat ((l - m) mod b) = 0" by (simp only: unat_eq_0)
    then show ?thesis using unat_sub_no_underflow[OF that] by (simp only: unat_mod mod_eq_0_iff_dvd)
  qed
  moreover have "unat (35000 :: u32) = 35000" by simp
  ultimately show ?thesis
    unfolding bad_packet_len_def RECV_MAX_PACKET_LEN_def word_nat_order not_less de_Morgan_disj not_not
    by (metis (no_types) add_leD2)
qed

text \<open>The first block is being read: \<open>p\<close> bytes of it are there, and \<open>x\<close> of the \<open>bs\<close> come in.\<close>

definition reading_block :: "'a sshsession_scheme \<Rightarrow> bytes \<Rightarrow> nat \<Rightarrow> bytes \<Rightarrow> bytes \<Rightarrow> bool" where
  "reading_block s d p bs x \<longleftrightarrow> dir_ok (kc_recv (s_keys s)) \<and> init_buf s = mkbuf d p p 128 \<and>
     length d = 128 \<and> p < rblock s \<and> bs \<noteq> [] \<and> x = take (rblock s - p) bs"

lemma rblock_cases: "dir_ok (kc_recv (s_keys s)) \<Longrightarrow> rblock s = 8 \<or> rblock s = 16"
  by (auto simp: dir_ok_def rblock_def)

lemma reading_blockD:
  assumes "reading_block s d p bs x"
  shows "x \<noteq> []" "length x \<le> rblock s - p" "rblock s = 8 \<or> rblock s = 16" "p + (rblock s - p) = rblock s"
    "p + length x \<le> 16" "length d = 128" "p < rblock s" "x = take (rblock s - p) bs" "init_buf s = mkbuf d p p 128"
proof -
  show "x \<noteq> []" "length x \<le> rblock s - p" "length d = 128" "p < rblock s" "x = take (rblock s - p) bs"
    "init_buf s = mkbuf d p p 128" "p + (rblock s - p) = rblock s"
    using assms by (auto simp: reading_block_def)
  show c: "rblock s = 8 \<or> rblock s = 16" using assms rblock_cases[of s] by (simp add: reading_block_def)
  show "p + length x \<le> 16" using \<open>length x \<le> rblock s - p\<close> \<open>p < rblock s\<close> c by linarith
qed

lemma init_reads:
  assumes "init_buf s = mkbuf d p p 128"
  shows "(case s_readbuf s of None \<Rightarrow> buf_new INIT_READBUF | Some b \<Rightarrow> Inr b) = Inr (mkbuf d p p 128)"
  using assms mk_new[of INIT_READBUF] by (cases "s_readbuf s") (simp_all add: init_buf_def INIT_READBUF_def)

lemma init_maxlen:
  assumes "reading_block s d p bs x"
  shows "unat (ucast (dc_blocksize (k_algo_crypt (kc_recv (s_keys s)))) - of_nat p :: u32) = rblock s - p"
proof -
  note r = reading_blockD[OF assms]
  have "unat (of_nat p :: u32) = p" using r(5) by (intro unat_of_nat_u32) simp
  then show ?thesis using r(7) by (subst unat_sub_no_underflow) (simp_all add: rblock_def)
qed

lemma init_store:
  assumes "reading_block s d p bs x"
  shows "buf_getwriteptr (mkbuf d p p 128) (ucast (dc_blocksize (k_algo_crypt (kc_recv (s_keys s)))) - of_nat p) = Inr p"
    "os_read (SockData bs) (ucast (dc_blocksize (k_algo_crypt (kc_recv (s_keys s)))) - of_nat p) = Inr x"
    "mem_write d p x = Inr (patch d p x)"
    "buf_incrwritepos (mkbuf (patch d p x) p p 128) (of_nat (length x)) =
       Inr (mkbuf (patch d p x) (p + length x) (p + length x) 128)"
    "(of_nat (length x) \<noteq> (ucast (dc_blocksize (k_algo_crypt (kc_recv (s_keys s)))) - of_nat p :: u32)) =
       (length x \<noteq> rblock s - p)"
proof -
  note r = reading_blockD[OF assms]
  have u: "unat (of_nat (length x) :: u32) = length x" using r(5) by (intro unat_of_nat_u32) simp
  have ok: "mk_ok d p p 128" using r by (auto simp: mk_ok_def)
  show "buf_getwriteptr (mkbuf d p p 128) (ucast (dc_blocksize (k_algo_crypt (kc_recv (s_keys s)))) - of_nat p) = Inr p"
    using init_maxlen[OF assms] r(3,4) by (intro mk_getwriteptr[OF ok]) auto
  show "os_read (SockData bs) (ucast (dc_blocksize (k_algo_crypt (kc_recv (s_keys s)))) - of_nat p) = Inr x"
    by (simp add: os_read_def init_maxlen[OF assms] r(8))
  show "mem_write d p x = Inr (patch d p x)" using r(5,6) by (intro mem_write_patch) simp
  have "mk_ok (patch d p x) p p 128" using r(5,6) by (simp add: mk_ok_def)
  then show "buf_incrwritepos (mkbuf (patch d p x) p p 128) (of_nat (length x)) =
      Inr (mkbuf (patch d p x) (p + length x) (p + length x) 128)"
    using mk_incrwritepos[of "patch d p x" p p 128 "of_nat (length x)"] u r(5) by simp
  show "(of_nat (length x) \<noteq> (ucast (dc_blocksize (k_algo_crypt (kc_recv (s_keys s)))) - of_nat p :: u32)) =
     (length x \<noteq> rblock s - p)"
    by (simp add: word_unat_eq_iff u init_maxlen[OF assms])
qed

lemma init_short:
  assumes "reading_block s d p bs x" and "length x < rblock s - p"
  shows "read_packet_init cr junk (SockData bs) s =
    Inr (False, s\<lparr>s_readbuf := Some (mkbuf (patch d p x) (p + length x) (p + length x) 128)\<rparr>)"
  using assms(2) reading_blockD(1)[OF assms(1)]
  unfolding read_packet_init_def Let_def init_reads[OF reading_blockD(9)[OF assms(1)]]
  by (simp add: init_store[OF assms(1)])

lemma init_full:
  assumes "reading_block s d p bs x" and "length x = rblock s - p"
    and "mode_decrypt cr (k_crypt_mode (kc_recv (s_keys s))) (take (rblock s) (patch d p x))
           (k_cipher_state (kc_recv (s_keys s))) = Some (pt, st)" and "length pt = rblock s"
    and "load32h (take 4 pt) = Inr v" and "dir_ok (kc_recv (s_keys s))"
  defines "f \<equiv> pt @ drop (rblock s) (patch d p x)"
    and "L \<equiv> v + 4 + ucast (dh_hashsize (k_algo_mac (kc_recv (s_keys s))))"
  shows "read_packet_init cr junk (SockData bs) s =
    (if unat L \<le> 35000 \<and> 16 + rmac s \<le> unat L \<and> rblock s dvd unat L - rmac s
     then Inr (True, set_recv ((kc_recv (s_keys s))\<lparr>k_cipher_state := st\<rparr>)
            (s\<lparr>s_readbuf := Some (mkbuf (grown junk f (unat L)) (unat L) (rblock s) (max 128 (unat L)))\<rparr>))
     else Inl (Exit ''Integrity error (bad packet size)''))"
proof -
  let ?k = "kc_recv (s_keys s)" and ?B = "rblock s" and ?e = "patch d p x"
  let ?bw = "ucast (dc_blocksize (k_algo_crypt ?k)) :: u32" and ?mw = "ucast (dh_hashsize (k_algo_mac ?k)) :: u32"
  note r = reading_blockD[OF assms(1)]
  have u: "unat ?bw = ?B" "unat ?mw = rmac s" by (simp_all add: rblock_def rmac_def)
  have nz: "?bw \<noteq> 0" using u(1) r(3) by (metis unat_0 zero_neq_numeral)
  have M: "unat ?mw \<le> 20" using mac_ok_size[of ?k] assms(6) by (simp add: dir_ok_def)
  have le: "length ?e = 128" using r(5,6) by simp
  have pB: "p + length x = ?B" using assms(2) r(7) by simp
  have ke: "mk_ok ?e ?B q 128" if "q \<le> ?B" for q using le r(3) that by (auto simp: mk_ok_def)
  have 1: "buf_setpos (mkbuf ?e ?B ?B 128) 0 = Inr (mkbuf ?e ?B 0 128)" using mk_setpos[OF ke[of ?B], of 0] by simp
  have sf: "patch ?e 0 pt = f" by (simp add: patch_def f_def assms(4))
  have 2: "decrypt_at cr ?k (mkbuf ?e ?B 0 128) ?bw = Inr (mkbuf f ?B 0 128, ?k\<lparr>k_cipher_state := st\<rparr>)"
    unfolding sf[symmetric]
    by (rule decrypt_at_eq[OF ke]) (simp_all only: u(1) add_0 drop_0 assms(3,4) le_refl le0)
  have lf: "length f = 128" using le r(3) assms(4) by (auto simp: f_def)
  have kf: "mk_ok f ?B q 128" if "q \<le> ?B" for q using lf r(3) that by (auto simp: mk_ok_def)
  have 3: "buf_getint (mkbuf f ?B 0 128) = Inr (v, mkbuf f ?B 4 128)"
  proof -
    have "unread (mkbuf f ?B 0 128) = pt"
      unfolding unread_mk[OF kf[OF le0]] by (simp add: f_def assms(4))
    moreover from this have "4 \<le> length (unread (mkbuf f ?B 0 128))" using r(3) assms(4) by auto
    ultimately show ?thesis using buf_getint_ok[OF mk_inv[OF kf[of 0]]] assms(5) by (simp add: advance_mk)
  qed
  have k4: "mk_ok f ?B 4 128" using kf[of 4] r(3) by auto
  have 4: "(if L > of_nat 128 then buf_resize junk (mkbuf f ?B 4 128) L else Inr (mkbuf f ?B 4 128)) =
      Inr (mkbuf (grown junk f (unat L)) ?B 4 (max 128 (unat L)))" if "unat L \<le> 35000" "16 \<le> unat L"
  proof (cases "unat L > 128")
    case True
    have B16: "?B \<le> 16" using r(3) by auto
    then have mn: "min L (of_nat ?B) = of_nat ?B" "min L (of_nat 4) = of_nat 4"
      using True by (auto simp: min_def word_le_nat_alt unat_of_nat_u32)
    show ?thesis using True that lf mn
      by (simp add: word_less_nat_alt buf_resize_def BUF_MAX_SIZE_def m_realloc_def grown_def mkbuf_def max_def)
  next
    case False
    then show ?thesis by (simp add: word_less_nat_alt grown_def)
  qed
  have kg: "mk_ok (grown junk f (unat L)) ?B q (max 128 (unat L))" if "unat L \<le> 35000" "q \<le> ?B" for q
    using that r(3) length_grown[OF lf] by (auto simp: mk_ok_def)
  have 5: "buf_setlen (mkbuf (grown junk f (unat L)) ?B 4 (max 128 (unat L))) L =
      Inr (mkbuf (grown junk f (unat L)) (unat L) 4 (max 128 (unat L)))" if "unat L \<le> 35000"
    using that r(3) by (intro mk_setlen kg) auto
  have kh: "mk_ok (grown junk f (unat L)) (unat L) 4 (max 128 (unat L))" if "unat L \<le> 35000" "16 \<le> unat L"
    using that length_grown[OF lf] by (simp add: mk_ok_def)
  have 6: "buf_setpos (mkbuf (grown junk f (unat L)) (unat L) 4 (max 128 (unat L))) ?bw =
      Inr (mkbuf (grown junk f (unat L)) (unat L) ?B (max 128 (unat L)))" if "unat L \<le> 35000" "16 \<le> unat L"
    using mk_setpos[OF kh[OF that], of ?bw] that u(1) r(3) by auto
  have bad: "bad_packet_len L ?mw ?bw \<longleftrightarrow> \<not> (unat L \<le> 35000 \<and> 16 + rmac s \<le> unat L \<and> ?B dvd unat L - rmac s)"
    using bad_packet_len_iff[OF M nz, of L] unfolding u by blast
  have lx: "\<not> length x \<noteq> rblock s - p" using assms(2) by simp
  have "read_packet_init cr junk (SockData bs) s =
    (if bad_packet_len L ?mw ?bw then Inl (Exit ''Integrity error (bad packet size)'')
     else rbind (if L > of_nat 128 then buf_resize junk (mkbuf f ?B 4 128) L else Inr (mkbuf f ?B 4 128)) (\<lambda>readbuf.
          rbind (buf_setlen readbuf L) (\<lambda>readbuf.
          rbind (buf_setpos readbuf ?bw) (\<lambda>readbuf.
          Inr (True, set_recv (?k\<lparr>k_cipher_state := st\<rparr>) (s\<lparr>s_readbuf := Some readbuf\<rparr>))))))"
    unfolding read_packet_init_def Let_def init_reads[OF r(9)]
    by (simp only: rbind_simps mkbuf_fields init_store[OF assms(1)] sum.case r(1) if_False lx pB 1 2 3 prod.case nz
        L_def[symmetric])
  then show ?thesis unfolding bad using 4 5 6 by auto
qed

end
