(* ===== verification/Transport.thy ===== *)
theory Transport
  imports Packet
begin

text \<open>
  What the two ends of a connection rely on from \<^verbatim>\<open>packet.c\<close>: a packet that one side encrypts is
  the payload the other side reads, whatever comes from the socket is handled within the buffers,
  packets held back during a key exchange are sent in order afterwards, and the bytes handed to
  the socket are the queued packets without loss or repetition.
\<close>

subsection \<open>The rest of a packet\<close>

lemma rest_done:
  assumes "s_readbuf s = Some (mkbuf d l l z)"
  shows "read_packet_rest cr mac0 inp s = decrypt_packet cr mac0 s"
  using assms by (simp add: read_packet_rest_def Let_def)

lemma rest_data:
  assumes "s_readbuf s = Some (mkbuf d l p z)" and "mk_ok d l p z" and "p < l" and "bs \<noteq> []"
  shows "read_packet_rest cr mac0 (SockData bs) s =
    (if l - p \<le> length bs
     then decrypt_packet cr mac0 (s\<lparr>s_readbuf := Some (mkbuf (patch d p (take (l - p) bs)) l l z)\<rparr>)
     else Inr (s\<lparr>s_readbuf := Some (mkbuf (patch d p bs) l (p + length bs) z)\<rparr>))"
proof -
  note m = mk_okD[OF assms(2)]
  let ?w = "of_nat l - of_nat p :: u32" and ?x = "take (l - p) bs"
  have w: "unat ?w = l - p" using m by (subst unat_sub_no_underflow) simp_all
  then have nz: "?w \<noteq> 0" using assms(3) by (metis unat_0 zero_less_diff less_numeral_extra(3))
  have 1: "buf_getptr (mkbuf d l p z) ?w = Inr p" using m w by (intro mk_getptr[OF assms(2)]) simp
  have 2: "os_read (SockData bs) ?w = Inr ?x" by (simp add: os_read_def w)
  have x: "?x \<noteq> []" "length ?x \<le> l - p" using assms(3,4) by simp_all
  have ux: "unat (of_nat (length ?x) :: u32) = length ?x" using m x(2) by (intro unat_of_nat_u32) simp
  have 3: "mem_write d p ?x = Inr (patch d p ?x)" using m x(2) by (intro mem_write_patch) linarith
  have k: "mk_ok (patch d p ?x) l p z" using m x(2) by (simp add: mk_ok_def)
  have 4: "buf_incrpos (mkbuf (patch d p ?x) l p z) (of_nat (length ?x)) = Inr (mkbuf (patch d p ?x) l (p + length ?x) z)"
    using mk_incrpos[OF k, of "of_nat (length ?x)"] ux x(2) assms(3) by simp
  have 5: "(of_nat (length ?x) = ?w) = (l - p \<le> length bs)"
    using x(2) by (auto simp: word_unat_eq_iff ux w simp del: length_take) auto
  show ?thesis
    unfolding read_packet_rest_def Let_def assms(1)
    using x(1) assms(3)
    by (simp only: deref_simps rbind_simps mkbuf_fields nz if_False 1 2 sum.case 3 4 5) auto
qed

subsection \<open>Both ends in step\<close>

text \<open>
  The sender's outgoing and the receiver's incoming keys agree, their ciphers are synchronised,
  the receiver expects the sender's next sequence number and is between packets.
\<close>

definition same_keys :: "key_context_directional \<Rightarrow> key_context_directional \<Rightarrow> bool" where
  "same_keys kt kr \<longleftrightarrow> k_algo_crypt kr = k_algo_crypt kt \<and> k_crypt_mode kr = k_crypt_mode kt \<and>
     k_algo_mac kr = k_algo_mac kt \<and> k_hash_index kr = k_hash_index kt \<and> k_mackey kr = k_mackey kt"

definition in_step :: "crypto \<Rightarrow> 'a sshsession_scheme \<Rightarrow> 'b sshsession_scheme \<Rightarrow> bool" where
  "in_step cr s r \<longleftrightarrow>
     (let kt = kc_trans (s_keys s); kr = kc_recv (s_keys r)
      in crypto_ok cr \<and> dir_ok kt \<and> same_keys kt kr \<and>
         mode_sync cr (k_crypt_mode kt) (unat (dc_blocksize (k_algo_crypt kt))) (k_cipher_state kt) (k_cipher_state kr) \<and>
         s_recvseq r = s_transseq s \<and> s_readbuf r = None)"

lemma mac_of_same: "same_keys kt kr \<Longrightarrow> mac_of cr (kr\<lparr>k_cipher_state := x\<rparr>) n m = mac_of cr kt n m"
  by (simp add: same_keys_def mac_of_def)

lemma dir_ok_same: "same_keys kt kr \<Longrightarrow> dir_ok (kr\<lparr>k_cipher_state := x\<rparr>) = dir_ok kt"
  by (simp add: same_keys_def dir_ok_def mac_ok_def)

lemma take_take_drop_split: "b \<le> n \<Longrightarrow> take b (take n d) = xs \<Longrightarrow> drop b (take n d) = ys \<Longrightarrow> take n d = xs @ ys"
  by (metis append_take_drop_id)

text \<open>The receiver has the first block decrypted and the rest of the packet as it was sent.\<close>

lemma decrypt_received:
  fixes s :: "'a sshsession_scheme"
  assumes "crypto_ok cr" and "length mac0 = MAX_MAC_LEN" and "dir_ok (kc_recv (s_keys s))"
    and "s_readbuf s = Some (mkbuf d l q z)" and "mk_ok d l q z"
    and "take l d = take B pl @ drop B ct @ mac_of cr (kc_recv (s_keys s)) (s_recvseq s) pl"
    and "mode_decrypt cr (k_crypt_mode (kc_recv (s_keys s))) (drop B ct) (k_cipher_state (kc_recv (s_keys s))) =
           Some (drop B pl, st)"
    and "B = unat (dc_blocksize (k_algo_crypt (kc_recv (s_keys s))))" and "B \<le> length pl"
    and "length ct = length pl" and "l = length pl + unat (dh_hashsize (k_algo_mac (kc_recv (s_keys s))))"
    and "pl = plain_packet p pad" and "1 \<le> length p" and "length p \<le> 32768" and "length pad \<le> 255"
  shows "decrypt_packet cr mac0 s = Inr (after_recv st l p s)"
proof -
  let ?k = "kc_recv (s_keys s)" let ?M = "unat (dh_hashsize (k_algo_mac ?k))"
  let ?e = "patch d B (drop B pl)" let ?mac = "mac_of cr ?k (s_recvseq s) pl"
  have M: "?M \<le> 20" "mac_ok ?k" using mac_ok_size[of ?k] assms(3) by (simp_all add: dir_ok_def)
  have lm: "length ?mac = ?M" by (rule length_mac_of[OF assms(1) M(2)])
  note m = mk_okD[OF assms(5)]
  have lpl: "length pl = 5 + length p + length pad" by (simp add: assms(12) length_plain_packet)
  have l: "l \<le> 35000" using assms(11,14,15) lpl M(1) by simp
  have d1: "take B d = take B pl"
    using arg_cong[OF assms(6), of "take B"] assms(9,11) by (simp add: min_def)
  have lM: "l - ?M = length pl" using assms(11) by simp
  have mn: "min (length pl - B) (l - B) = length pl - B" using assms(11) by simp
  have "take (length pl - B) (drop B (take l d)) = drop B ct"
    unfolding assms(6) using assms(9,10) by simp
  then have d2: "take (l - ?M - B) (drop B d) = drop B ct" by (simp only: drop_take take_take mn lM)
  have d3: "take ?M (drop (l - ?M) d) = ?mac"
    using arg_cong[OF assms(6), of "drop (length pl)"] assms(9-11) lm by (simp add: drop_take)
  have e: "take (l - ?M) ?e = pl" "take ?M (drop (l - ?M) ?e) = ?mac"
    using d1 d3 assms(9,11) by (simp_all add: patch_def)
  have e2: "?e = pl @ drop (length pl) d" using d1 assms(9) by (simp add: patch_def)
  have e4: "?e ! 4 = of_nat (length pad)" "take (length p) (drop 5 ?e) = p"
    unfolding e2 unfolding assms(12) by (simp_all add: plain_packet_def nth_append)
  have u4: "unat (?e ! 4) = length pad" unfolding e4(1) using assms(15) by (simp add: unat_of_nat)
  have n: "l - (length pad + 5 + ?M) = length p" using assms(11) lpl by simp
  have md: "mode_decrypt cr (k_crypt_mode ?k) (take (l - ?M - B) (drop B d)) (k_cipher_state ?k) = Some (drop B pl, st)"
    unfolding d2 by (rule assms(7))
  have lb: "length (drop B pl) = l - ?M - B" "B + ?M \<le> l" using lM assms(9,11) by simp_all
  note dp = decrypt_packet_eq[OF assms(1-5) _ l, of "drop B pl" st, folded assms(8), OF lb(2) md lb(1)]
  show ?thesis unfolding dp using e e4 u4 n assms(11,13,14) lpl by auto
qed

lemma after_recv_again:
  "after_recv st l p (set_recv ((kc_recv (s_keys s))\<lparr>k_cipher_state := x\<rparr>) (s\<lparr>s_readbuf := b\<rparr>)) = after_recv st l p s"
  "after_recv st l p (s\<lparr>s_readbuf := b\<rparr>) = after_recv st l p s"
  by (simp_all add: after_recv_def set_recv_def)

lemma load32h_store32h_take: "load32h (take 4 (store32h v @ xs)) = Inr v"
  by simp

text \<open>A whole packet on the socket, read from the state between packets.\<close>

lemma read_packet_received:
  fixes r :: "'a sshsession_scheme"
  defines "k \<equiv> kc_recv (s_keys r)" and "B \<equiv> rblock r"
  assumes "crypto_ok cr" and "length mac0 = MAX_MAC_LEN" and "dir_ok k" and "s_readbuf r = None"
    and "mode_decrypt cr (k_crypt_mode k) (take B ct) (k_cipher_state k) = Some (take B pl, st1)"
    and "mode_decrypt cr (k_crypt_mode k) (drop B ct) st1 = Some (drop B pl, st)"
    and "length ct = length pl" and "pl = plain_packet p pad" and "1 \<le> length p" and "length p \<le> 32768"
    and "length pad \<le> 255" and "16 \<le> length pl" and "B dvd length pl"
    and "wire = ct @ mac_of cr k (s_recvseq r) pl"
  shows "read_packet cr junk mac0 (SockData (wire @ later)) (SockData (drop B wire @ later)) r =
     Inr (after_recv st (length wire) p r)"
proof -
  define M where "M = rmac r"
  define l where "l = length pl + M"
  have mk: "mac_ok k" using assms(5) by (simp add: dir_ok_def)
  have M: "M \<le> 20" "unat (dh_hashsize (k_algo_mac k)) = M" using mac_ok_size[OF mk] by (simp_all add: M_def rmac_def k_def)
  have lm: "length (mac_of cr k (s_recvseq r) pl) = M" using length_mac_of[OF assms(3) mk] M(2) by simp
  have B: "B = 8 \<or> B = 16" using rblock_cases[of r] assms(5) by (simp add: k_def B_def)
  have lpl: "length pl = 5 + length p + length pad" by (simp add: assms(10) length_plain_packet)
  have lw: "length wire = l" by (simp add: assms(9,16) lm l_def)
  have Bl: "B \<le> length pl" "B \<le> length ct" using B assms(9,14) by auto
  define x where "x = take B (wire @ later)"
  have x: "x = take B ct" "length x = B" using Bl by (simp_all add: x_def assms(16))
  have rd: "reading_block r (replicate 128 0) 0 (wire @ later) x"
    using assms(5,6) B Bl x(2) by (auto simp: reading_block_def init_buf_def k_def B_def[symmetric] x_def)
  define v :: u32 where "v = of_nat (length p + length pad + 1)"
  have L: "unat (v + 4 + ucast (dh_hashsize (k_algo_mac k))) = l"
  proof -
    have "v + 4 + ucast (dh_hashsize (k_algo_mac k)) = (of_nat l :: u32)"
      using M(2) by (simp add: v_def l_def lpl flip: M(2))
    moreover have "unat (of_nat l :: u32) = l" using assms(12,13) M(1) lpl by (intro unat_of_nat_u32) (simp add: l_def)
    ultimately show ?thesis by (simp only:)
  qed
  have t4: "load32h (take 4 (take B pl)) = Inr v"
  proof -
    have "take 4 (take B pl) = take 4 pl" using B by auto
    then show ?thesis by (simp only: assms(10) plain_packet_def load32h_store32h_take v_def)
  qed
  let ?g = "grown junk (take B pl @ drop B (patch (replicate 128 0) 0 x)) l"
  let ?r1 = "set_recv (k\<lparr>k_cipher_state := st1\<rparr>) (r\<lparr>s_readbuf := Some (mkbuf ?g l B (max 128 l))\<rparr>)"
  have 1: "read_packet_init cr junk (SockData (wire @ later)) r = Inr (True, ?r1)"
    using init_full[OF rd, of cr "take B pl" st1 v junk, folded k_def B_def M_def] assms(5,7,14,15) x Bl t4 L
    by (simp add: patch_def l_def assms(12,13) lpl M(1)) (use assms(12,13) lpl M(1) in simp)
  have g: "take B ?g = take B pl" "length ?g = max 128 l"
    using take_grown[of "take B pl @ drop B (patch (replicate 128 0) 0 x)" B junk l] length_grown Bl B x(2)
    by (auto simp: patch_def)
  have ok: "mk_ok ?g l B (max 128 l)" using g(2) Bl assms(12,13) lpl M(1) by (simp add: mk_ok_def l_def)
  have fin: "decrypt_packet cr mac0 (set_recv (k\<lparr>k_cipher_state := st1\<rparr>) (r\<lparr>s_readbuf := Some (mkbuf e l l (max 128 l))\<rparr>)) =
      Inr (after_recv st l p r)" if e: "take B e = take B pl" "drop B (take l e) = drop B wire" "length e = max 128 l" for e
  proof -
    let ?q = "set_recv (k\<lparr>k_cipher_state := st1\<rparr>) (r\<lparr>s_readbuf := Some (mkbuf e l l (max 128 l))\<rparr>)"
    have q: "kc_recv (s_keys ?q) = k\<lparr>k_cipher_state := st1\<rparr>" "s_recvseq ?q = s_recvseq r"
      "s_readbuf ?q = Some (mkbuf e l l (max 128 l))"
      by (simp_all add: set_recv_def)
    have mo: "mac_of cr (k\<lparr>k_cipher_state := st1\<rparr>) n m = mac_of cr k n m" for n m by (simp add: mac_of_def)
    have "decrypt_packet cr mac0 ?q = Inr (after_recv st l p ?q)"
    proof (rule decrypt_received[OF assms(3,4) _ q(3), of B pl ct st p pad, unfolded q(1,2) mo])
      show "dir_ok (k\<lparr>k_cipher_state := st1\<rparr>)" using assms(5) by (simp add: dir_ok_def mac_ok_def)
      show "mk_ok e l l (max 128 l)" using ok e(3) by (simp add: mk_ok_def)
      show "take l e = take B pl @ drop B ct @ mac_of cr k (s_recvseq r) pl"
        using take_take_drop_split[of B l e "take B pl" "drop B wire"] e Bl by (simp add: l_def assms(16))
    qed (use assms(8-13) Bl(1) M(2) in \<open>simp_all add: l_def B_def rblock_def k_def\<close>)
    then show ?thesis unfolding k_def after_recv_again(1) .
  qed
  have 2: "read_packet_rest cr mac0 (SockData (drop B wire @ later)) ?r1 = Inr (after_recv st l p r)"
  proof (cases "l = B")
    case True
    then have "drop B wire = []" using lw by simp
    then show ?thesis using fin[of ?g] g True by (subst rest_done) simp_all
  next
    case False
    then have lt: "B < l" using Bl by (simp add: l_def)
    have dw: "drop B wire @ later \<noteq> []" "l - B \<le> length (drop B wire @ later)" using lt lw by auto
    have tk: "take (l - B) (drop B wire @ later) = drop B wire" using lw by simp
    have rb: "s_readbuf ?r1 = Some (mkbuf ?g l B (max 128 l))" by simp
    have "read_packet_rest cr mac0 (SockData (drop B wire @ later)) ?r1 =
        decrypt_packet cr mac0 (?r1\<lparr>s_readbuf := Some (mkbuf (patch ?g B (drop B wire)) l l (max 128 l))\<rparr>)"
      unfolding rest_data[OF rb ok lt dw(1)] tk using dw(2) by (simp only: if_True)
    also have "?r1\<lparr>s_readbuf := Some (mkbuf (patch ?g B (drop B wire)) l l (max 128 l))\<rparr> =
        set_recv (k\<lparr>k_cipher_state := st1\<rparr>) (r\<lparr>s_readbuf := Some (mkbuf (patch ?g B (drop B wire)) l l (max 128 l))\<rparr>)"
      by simp
    also have "decrypt_packet cr mac0 \<dots> = Inr (after_recv st l p r)"
    proof (rule fin)
      show "take B (patch ?g B (drop B wire)) = take B pl" "length (patch ?g B (drop B wire)) = max 128 l"
      "drop B (take l (patch ?g B (drop B wire))) = drop B wire"
        using g lt lw Bl(1) by (simp_all add: patch_def)
    qed
    finally show ?thesis .
  qed
  show ?thesis
    unfolding read_packet_def Let_def assms(6) lw option.case if_True 1 rbind_simps prod.case not_True_eq_False if_False 2 ..
qed

lemma in_step_sent:
  assumes "in_step cr s r" and "payload_ok (s_writepayload s)" and "length (contents (s_writepayload s)) \<le> 32768"
    and "q_rep (s_writequeue s) qs" and "s_dataallowed s \<or> packet_is_okay_kex (hd (contents (s_writepayload s)))"
    and "length mac0 = MAX_MAC_LEN" and "length mac1 = MAX_MAC_LEN"
  obtains st wq wb st' where "encrypt_packet cr rnd mac0 s = Inr (after_send st wq (length (contents wb)) s)"
    and "q_rep wq (qs @ [wb])" and "buf_inv wb" and "b_pos wb = 0"
    and "\<And>junk later. read_packet cr junk mac1 (SockData (butlast (contents wb) @ later))
            (SockData (drop (rblock r) (butlast (contents wb)) @ later)) r =
          Inr (after_recv st' (length (butlast (contents wb))) (contents (s_writepayload s)) r)"
    and "mode_sync cr (k_crypt_mode (kc_trans (s_keys s))) (unat (dc_blocksize (k_algo_crypt (kc_trans (s_keys s))))) st st'"
proof -
  let ?k = "kc_trans (s_keys s)" and ?kr = "kc_recv (s_keys r)" and ?p = "contents (s_writepayload s)"
  let ?B = "unat (dc_blocksize (k_algo_crypt ?k))" let ?pad = "map rnd [0..<pad_for ?k ?p]"
  let ?pl = "plain_packet ?p ?pad" and ?mode = "k_crypt_mode ?k"
  have i: "crypto_ok cr" "dir_ok ?k" "same_keys ?k ?kr" "mode_sync cr ?mode ?B (k_cipher_state ?k) (k_cipher_state ?kr)"
    "s_recvseq r = s_transseq s" "s_readbuf r = None"
    using assms(1) by (simp_all add: in_step_def Let_def)
  have sk: "k_crypt_mode ?kr = ?mode" "k_algo_crypt ?kr = k_algo_crypt ?k" using i(3) by (simp_all add: same_keys_def)
  have B: "rblock r = ?B" by (simp add: rblock_def sk)
  have p1: "1 \<le> length ?p" using assms(2) by (simp add: payload_ok_def contents_def buf_inv_def)
  have P: "pad_for ?k ?p \<le> 19" "?B dvd 5 + length ?p + pad_for ?k ?p" "16 \<le> 5 + length ?p + pad_for ?k ?p"
    using pad_for_spec[OF i(2) p1] assms(3) by simp_all
  have lpl: "length ?pl = 5 + length ?p + pad_for ?k ?p" by (simp add: length_plain_packet)
  have B16: "?B \<le> length ?pl" using P(3) lpl i(2) by (auto simp: dir_ok_def)
  have dv: "?B dvd length ?pl" using P(2) lpl by simp
  obtain ct st st1 st' where c: "mode_encrypt cr ?mode ?pl (k_cipher_state ?k) = Some (ct, st)" "length ct = length ?pl"
    "mode_decrypt cr ?mode (take ?B ct) (k_cipher_state ?kr) = Some (take ?B ?pl, st1)"
    "mode_decrypt cr ?mode (drop ?B ct) st1 = Some (drop ?B ?pl, st')" "mode_sync cr ?mode ?B st st'"
    using mp.dec_in_two[OF i(4) dv dvd_refl B16] by blast
  obtain wb wq where w: "encrypt_packet cr rnd mac0 s = Inr (after_send st wq (length (contents wb)) s)"
    "q_rep wq (qs @ [wb])" "buf_inv wb" "b_pos wb = 0"
    "contents wb = ct @ mac_of cr ?k (s_transseq s) ?pl @ [hd ?p]"
    using encrypt_packet_sends[OF i(1) assms(6) i(2) assms(2,4,5) c(1)] c(2) lpl by auto
  have m: "mac_of cr ?kr (s_recvseq r) ?pl = mac_of cr ?k (s_transseq s) ?pl"
    using mac_of_same[OF i(3), of cr "k_cipher_state ?kr"] i(5) by simp
  have bl: "butlast (contents wb) = ct @ mac_of cr ?kr (s_recvseq r) ?pl" unfolding w(5) m by (simp add: butlast_append)
  have dk: "dir_ok ?kr" using dir_ok_same[OF i(3), of "k_cipher_state ?kr"] i(2) by simp
  have rd: "read_packet cr junk mac1 (SockData (butlast (contents wb) @ later))
          (SockData (drop (rblock r) (butlast (contents wb)) @ later)) r =
        Inr (after_recv st' (length (butlast (contents wb))) ?p r)" for junk later
    by (rule read_packet_received[OF i(1) assms(7) dk i(6) _ _ c(2) refl p1 assms(3) _ _ _ bl])
       (use c(3,4) P lpl dv in \<open>simp_all add: B sk\<close>)
  show thesis by (rule that[OF w(1-4) rd c(5)])
qed

lemma in_step_after:
  assumes "in_step cr s r"
    and "mode_sync cr (k_crypt_mode (kc_trans (s_keys s))) (unat (dc_blocksize (k_algo_crypt (kc_trans (s_keys s))))) st st'"
  shows "in_step cr (after_send st wq n s) (after_recv st' m p r)"
  using assms
  by (simp add: in_step_def after_send_def after_recv_def set_trans_def set_recv_def Let_def same_keys_def dir_ok_def mac_ok_def)

subsection \<open>A queue of payloads, sent and read in order\<close>

text \<open>What the reader gets from the packets \<open>ws\<close>, all of them waiting on its socket.\<close>

fun read_each ::
  "crypto \<Rightarrow> (nat \<Rightarrow> u8) \<Rightarrow> bytes \<Rightarrow> bytes list \<Rightarrow> 'a sshsession_scheme \<Rightarrow> (bytes list \<times> 'a sshsession_scheme) result" where
  "read_each cr junk mac1 [] r = Inr ([], r)"
| "read_each cr junk mac1 (w # ws) r =
     rbind (read_packet cr junk mac1 (SockData (w @ concat ws)) (SockData (drop (rblock r) w @ concat ws)) r) (\<lambda>r.
     rbind (deref (s_payload r)) (\<lambda>b.
     rbind (read_each cr junk mac1 ws r) (\<lambda>(ps, r). Inr (contents b # ps, r))))"

definition sendable :: "buffer \<Rightarrow> buffer \<Rightarrow> bool" where
  "sendable wp item \<longleftrightarrow> payload_ok item \<and> b_len item \<le> 32768 \<and> b_len item \<le> b_size wp"

definition fresh_payload :: "buffer \<Rightarrow> bool" where
  "fresh_payload b \<longleftrightarrow> buf_inv b \<and> b_len b = 0 \<and> b_pos b = 0"

lemma put_item:
  assumes "fresh_payload wp" and "sendable wp item"
  obtains wp' where "buf_putbytes wp (b_data item) (b_len item) = Inr wp'" and "payload_ok wp'"
    and "contents wp' = contents item" and "b_size wp' = b_size wp"
proof -
  let ?n = "unat (b_len item)"
  have i: "buf_inv wp" "buf_inv item" using assms by (simp_all add: fresh_payload_def sendable_def payload_ok_def)
  note b = conjunct1[OF buf_inv_mkbuf[OF i(1)]] conjunct2[OF buf_inv_mkbuf[OF i(1)]]
  have e: "unat (b_len wp) = 0" "unat (b_pos wp) = 0" using assms(1) by (simp_all add: fresh_payload_def)
  have n: "?n \<le> unat (b_size wp)" "?n \<le> length (b_data item)" "1 \<le> ?n" "?n \<le> 100000000"
    using assms(2) buf_invD[OF i(2)] by (simp_all add: sendable_def payload_ok_def word_le_nat_alt)
  let ?d = "patch (b_data wp) 0 (take ?n (b_data item))" and ?z = "unat (b_size wp)"
  have p: "buf_putbytes wp (b_data item) (b_len item) = Inr (mkbuf ?d ?n ?n ?z)"
    using mk_putbytes[OF b(2), of "b_len item" "b_data item", folded b(1)] n(1,2) by (simp add: e)
  have ok: "mk_ok ?d ?n ?n ?z" using mk_okD[OF b(2)] n(1,2) by (simp add: mk_ok_def)
  show thesis
  proof (rule that[OF p])
    show "payload_ok (mkbuf ?d ?n ?n ?z)" using mk_inv[OF ok] n(3,4) by (simp add: payload_ok_def)
    show "contents (mkbuf ?d ?n ?n ?z) = contents item" using contents_mk[OF ok] n(2) by (simp add: patch_def contents_def)
  qed simp
qed

lemma flush_delivers:
  assumes "in_step cr s r" and "fresh_payload (s_writepayload s)" and "\<forall>item \<in> set items. sendable (s_writepayload s) item"
    and "q_rep (s_writequeue s) qs" and "s_dataallowed s"
    and "length mac0 = MAX_MAC_LEN" and "length mac1 = MAX_MAC_LEN"
  shows "\<exists>s' wbs r'. flush_replies cr rnd mac0 items s = Inr s' \<and> q_rep (s_writequeue s') (qs @ wbs) \<and>
    read_each cr junk mac1 (map (butlast \<circ> contents) wbs) r = Inr (map contents items, r') \<and> in_step cr s' r'"
  using assms(1-5)
proof (induction items arbitrary: s r qs)
  case Nil
  then show ?case by (intro exI[of _ s] exI[of _ "[]"] exI[of _ r]) simp
next
  case (Cons item items)
  obtain wp where wp: "buf_putbytes (s_writepayload s) (b_data item) (b_len item) = Inr wp" "payload_ok wp"
    "contents wp = contents item" "b_size wp = b_size (s_writepayload s)"
    by (rule put_item[OF Cons.prems(2), of item]) (use Cons.prems(3) in simp)
  let ?s = "s\<lparr>s_writepayload := wp\<rparr>"
  have st: "in_step cr ?s r" using Cons.prems(1) by (simp add: in_step_def Let_def)
  have lc: "length (contents (s_writepayload ?s)) \<le> 32768"
    using Cons.prems(3) by (simp add: wp(3) sendable_def payload_ok_def length_contents word_le_nat_alt)
  obtain c wq wb c' where w: "encrypt_packet cr rnd mac0 ?s = Inr (after_send c wq (length (contents wb)) ?s)"
    "q_rep wq (qs @ [wb])"
    "\<And>junk later. read_packet cr junk mac1 (SockData (butlast (contents wb) @ later))
            (SockData (drop (rblock r) (butlast (contents wb)) @ later)) r =
          Inr (after_recv c' (length (butlast (contents wb))) (contents (s_writepayload ?s)) r)"
    "mode_sync cr (k_crypt_mode (kc_trans (s_keys ?s))) (unat (dc_blocksize (k_algo_crypt (kc_trans (s_keys ?s))))) c c'"
    by (rule in_step_sent[OF st _ lc _ _ assms(6,7)]) (use wp(2) Cons.prems(4,5) in auto)
  let ?s' = "after_send c wq (length (contents wb)) ?s"
  let ?r' = "after_recv c' (length (butlast (contents wb))) (contents (s_writepayload ?s)) r"
  have f: "fresh_payload (s_writepayload ?s')" "b_size (s_writepayload ?s') = b_size (s_writepayload s)"
    "s_dataallowed ?s'" "s_writequeue ?s' = wq"
    using emptied_inv[of wp] wp(2,4) Cons.prems(5)
    by (simp_all add: fresh_payload_def after_send_def set_trans_def payload_ok_def emptied_def)
  obtain s2 wbs r2 where i: "flush_replies cr rnd mac0 items ?s' = Inr s2" "q_rep (s_writequeue s2) ((qs @ [wb]) @ wbs)"
    "read_each cr junk mac1 (map (butlast \<circ> contents) wbs) ?r' = Inr (map contents items, r2)" "in_step cr s2 r2"
    using Cons.IH[OF in_step_after[OF st w(4)] f(1) _ _ f(3)] Cons.prems(3) w(2) f(2,4)
    by (metis list.set_intros(2) sendable_def)
  have p: "s_payload ?r' = Some (mkbuf (contents item) (length (contents item)) 0 (length (contents item)))"
    by (simp add: after_recv_def set_recv_def wp(3))
  have "contents (mkbuf (contents item) (length (contents item)) 0 (length (contents item))) = contents item"
    using lc by (subst contents_mk) (simp_all add: mk_ok_def wp(3))
  then have rd: "read_each cr junk mac1 (map (butlast \<circ> contents) (wb # wbs)) r = Inr (map contents (item # items), r2)"
    using i(3) p by (simp add: w(3))
  have fl: "flush_replies cr rnd mac0 (item # items) s = Inr s2" using i(1) w(1) wp(1) by simp
  have "q_rep (s_writequeue s2) (qs @ wb # wbs)" using i(2) by simp
  then show ?case using fl rd i(4) by blast
qed

subsection \<open>Reading whatever comes\<close>

lemma cbc_dec_loop_IV:
  assumes "n dvd length ct" and "length IV = n"
  shows "length (snd (cbc_dec_loop D n ct IV)) = n"
  using assms
proof (induction D n ct IV rule: cbc_dec_loop.induct)
  case (1 D n ct IV)
  show ?case
  proof (cases "ct = [] \<or> n = 0")
    case True
    then show ?thesis using 1 by (auto simp: cbc_dec_loop.simps)
  next
    case False
    then have n: "n \<le> length ct" using 1 dvd_ne_ge by blast
    then have "length (snd (cbc_dec_loop D n (drop n ct) (take n ct))) = n"
      using "1.IH"[of "D (take n ct)"] False 1 by (auto simp: dvd_diff_nat)
    then show ?thesis using False by (simp add: cbc_dec_loop.simps[of D n ct] Let_def case_prod_unfold)
  qed
qed

text \<open>A receiver that has been started decrypts any whole number of blocks.\<close>

lemma mode_dec_total:
  assumes "mode_sync cr mode n s r" and "n dvd length c"
  obtains m r' where "mode_decrypt cr mode c r = Some (m, r')" and "length m = length c" and "mode_sync cr mode n r' r'"
  using assms(1)
proof (cases rule: mode_sync_cases)
  case none
  then show thesis using that[of c r] by (simp add: void_cipher_def)
next
  case (cbc s' r')
  then have n: "0 < n" "\<not> n < 1" "\<not> n > MAXBLOCKSIZE" "n = cbc_blocklen r'" "s' = r'" "length (cbc_IV r') = n"
    using block_length_bounds[of "cbc_cipher s'"] by (auto simp: cbc_sync_def MAXBLOCKSIZE_def)
  obtain m IV where l: "cbc_dec_loop (cr_ecb_decrypt cr (cbc_cipher r') (cbc_key r')) n c (cbc_IV r') = (m, IV)" by fastforce
  then have "length IV = n" using cbc_dec_loop_IV[OF assms(2) n(6)] by (metis snd_conv)
  moreover have d: "cbc_decrypt cr c r' = Some (m, r'\<lparr>cbc_IV := IV\<rparr>)"
    using n(2,3) assms(2) l by (simp add: cbc_decrypt_def n(4)[symmetric] mod_eq_0_iff_dvd)
  ultimately show thesis
    using that[of m "StateCBC (r'\<lparr>cbc_IV := IV\<rparr>)"] cbc cbc_dec_length[OF cbc(4) d] n(4,5)
    by (simp add: cbc_sync_def)
next
  case (ctr s')
  then show thesis
    using that ctr_loop_ok[OF ctr(4), of c] by (auto simp: ctr_decrypt_def ctr_valid_checks)
qed

text \<open>
  The state of the reader between two calls of \<open>read_packet\<close>: no packet has begun, part of its
  first block is there, or its length is known and the buffer has room for all of it.
\<close>

definition in_header :: "'a sshsession_scheme \<Rightarrow> bool" where
  "in_header s \<longleftrightarrow> (\<exists>d p. init_buf s = mkbuf d p p 128 \<and> length d = 128 \<and> p < rblock s)"

definition in_body :: "'a sshsession_scheme \<Rightarrow> bool" where
  "in_body s \<longleftrightarrow> (\<exists>d l p z. s_readbuf s = Some (mkbuf d l p z) \<and> mk_ok d l p z \<and> rblock s \<le> p \<and>
     l \<le> 35000 \<and> 16 + rmac s \<le> l \<and> rblock s dvd l - rmac s)"

definition rx_keys :: "crypto \<Rightarrow> 'a sshsession_scheme \<Rightarrow> bool" where
  "rx_keys cr s \<longleftrightarrow> crypto_ok cr \<and> dir_ok (kc_recv (s_keys s)) \<and>
     mode_sync cr (k_crypt_mode (kc_recv (s_keys s))) (rblock s) (k_cipher_state (kc_recv (s_keys s)))
       (k_cipher_state (kc_recv (s_keys s)))"

definition payload_fine :: "buffer option \<Rightarrow> bool" where
  "payload_fine p \<longleftrightarrow> (case p of None \<Rightarrow> True
     | Some b \<Rightarrow> buf_inv b \<and> b_pos b = 0 \<and> 1 \<le> length (contents b) \<and> length (contents b) \<le> 32768)"

definition rx_inv :: "crypto \<Rightarrow> 'a sshsession_scheme \<Rightarrow> bool" where
  "rx_inv cr s \<longleftrightarrow> rx_keys cr s \<and> (in_header s \<or> in_body s) \<and> payload_fine (s_payload s)"

lemma rx_keysD:
  assumes "rx_keys cr s"
  shows "crypto_ok cr" "dir_ok (kc_recv (s_keys s))" "rblock s = 8 \<or> rblock s = 16" "rmac s \<le> 20"
  using assms mac_ok_size[of "kc_recv (s_keys s)"] rblock_cases[of s]
  by (simp_all add: rx_keys_def rmac_def dir_ok_def)

lemma in_header_None: "rx_keys cr s \<Longrightarrow> s_readbuf s = None \<Longrightarrow> in_header s"
  using rx_keysD(3)[of cr s] by (auto simp: in_header_def init_buf_def intro!: exI[of _ "replicate 128 0"] exI[of _ 0])

lemma mode_sync_self: "mode_sync cr mode n s r \<Longrightarrow> mode_sync cr mode n r r"
  by (cases "(cr, mode, n, s, r)" rule: mode_sync.cases) (auto simp: cbc_sync_def)

lemma in_step_rx: "in_step cr s r \<Longrightarrow> payload_fine (s_payload r) \<Longrightarrow> rx_inv cr r"
  using in_header_None[of cr r] dir_ok_same[of "kc_trans (s_keys s)" "kc_recv (s_keys r)" "k_cipher_state (kc_recv (s_keys r))"]
  by (auto simp: in_step_def rx_inv_def rx_keys_def Let_def rblock_def same_keys_def dest: mode_sync_self)

lemma payload_fine_mk:
  assumes "1 \<le> length p" and "length p \<le> 32768"
  shows "payload_fine (Some (mkbuf p (length p) 0 (length p)))"
proof -
  have "mk_ok p (length p) 0 (length p)" using assms(2) by (simp add: mk_ok_def)
  then show ?thesis using contents_mk[of p "length p" 0 "length p"] mk_inv[of p "length p" 0 "length p"] assms
    by (simp add: payload_fine_def)
qed

definition rx_good :: "crypto \<Rightarrow> 'a sshsession_scheme result \<Rightarrow> bool" where
  "rx_good cr res \<longleftrightarrow> is_safe res \<and> (\<forall>s. res = Inr s \<longrightarrow> rx_inv cr s)"

lemma rx_good_simps [simp]: "rx_good cr (Inr s) \<longleftrightarrow> rx_inv cr s" "rx_good cr (Inl e) \<longleftrightarrow> \<not> undefined_behaviour e"
  by (simp_all add: rx_good_def)

lemma remoteclosed_safe: "rx_good cr (remoteclosed s)"
  by (simp add: remoteclosed_def undefined_behaviour_def)

lemma rx_inv_readbuf:
  assumes "rx_keys cr s" and "payload_fine (s_payload s)" and "mk_ok d l p z" and "rblock s \<le> p"
    and "l \<le> 35000" and "16 + rmac s \<le> l" and "rblock s dvd l - rmac s"
  shows "rx_inv cr (s\<lparr>s_readbuf := Some (mkbuf d l p z)\<rparr>)"
  using assms by (auto simp: rx_inv_def in_body_def rx_keys_def rblock_def rmac_def)

text \<open>The buffer holds a whole packet, the first block of it decrypted.\<close>

definition whole_packet :: "'a sshsession_scheme \<Rightarrow> bytes \<Rightarrow> nat \<Rightarrow> bool" where
  "whole_packet s d l \<longleftrightarrow> (\<exists>q z. s_readbuf s = Some (mkbuf d l q z) \<and> mk_ok d l q z) \<and>
     l \<le> 35000 \<and> 16 + rmac s \<le> l \<and> rblock s dvd l - rmac s"

lemma decrypt_whole_packet:
  assumes "rx_keys cr s" and "length mac0 = MAX_MAC_LEN" and "whole_packet s d l"
  obtains pt st where "mode_decrypt cr (k_crypt_mode (kc_recv (s_keys s)))
      (take (l - rmac s - rblock s) (drop (rblock s) d)) (k_cipher_state (kc_recv (s_keys s))) = Some (pt, st)"
    and "length pt = l - rmac s - rblock s" and "length (patch d (rblock s) pt) = length d"
    and "mode_sync cr (k_crypt_mode (kc_recv (s_keys s))) (rblock s) st st"
    and "decrypt_packet cr mac0 s = (let e = patch d (rblock s) pt; n = l - (unat (e ! 4) + 5 + rmac s) in
      if take (rmac s) (drop (l - rmac s) e) \<noteq> mac_of cr (kc_recv (s_keys s)) (s_recvseq s) (take (l - rmac s) e)
      then Inl (Exit ''Integrity error'')
      else if l < unat (e ! 4) + 6 + rmac s \<or> n > 32768 then Inl (Exit ''Bad packet size'')
      else Inr (after_recv st l (take n (drop 5 e)) s))"
proof -
  let ?k = "kc_recv (s_keys s)" let ?B = "rblock s" and ?M = "rmac s"
  obtain q z where b: "s_readbuf s = Some (mkbuf d l q z)" "mk_ok d l q z" "l \<le> 35000" "16 + ?M \<le> l" "?B dvd l - ?M"
    using assms(3) by (auto simp: whole_packet_def)
  note k = rx_keysD[OF assms(1)]
  have sy: "mode_sync cr (k_crypt_mode ?k) ?B (k_cipher_state ?k) (k_cipher_state ?k)" using assms(1) by (simp add: rx_keys_def)
  have BM: "?B + ?M \<le> l" using k(3) b(4) by auto
  have lt: "length (take (l - ?M - ?B) (drop ?B d)) = l - ?M - ?B" using mk_okD[OF b(2)] by simp
  then have "?B dvd length (take (l - ?M - ?B) (drop ?B d))" unfolding lt by (intro dvd_diff_nat[OF b(5) dvd_refl])
  from mode_dec_total[OF sy this] obtain pt st where
    pt: "mode_decrypt cr (k_crypt_mode ?k) (take (l - ?M - ?B) (drop ?B d)) (k_cipher_state ?k) = Some (pt, st)"
    "length pt = l - ?M - ?B" "mode_sync cr (k_crypt_mode ?k) ?B st st" using lt by metis
  show thesis
  proof (rule that[OF pt(1,2) _ pt(3)])
    show "length (patch d ?B pt) = length d" using pt(2) BM mk_okD[OF b(2)] by simp
  qed (use decrypt_packet_eq[OF k(1) assms(2) k(2) b(1,2) _ b(3), of pt st, folded rblock_def rmac_def] BM pt(1,2)
        in \<open>simp add: Let_def\<close>)
qed

lemma whole_packet_buf:
  "whole_packet s d l \<Longrightarrow> l \<le> length d"
  using mk_okD by (fastforce simp: whole_packet_def)

lemma decrypt_packet_good:
  assumes "rx_keys cr s" and "length mac0 = MAX_MAC_LEN" and "whole_packet s d l"
  shows "rx_good cr (decrypt_packet cr mac0 s)"
proof -
  obtain pt st where pt: "length (patch d (rblock s) pt) = length d"
    "mode_sync cr (k_crypt_mode (kc_recv (s_keys s))) (rblock s) st st"
    and dp: "decrypt_packet cr mac0 s = (let e = patch d (rblock s) pt; n = l - (unat (e ! 4) + 5 + rmac s) in
      if take (rmac s) (drop (l - rmac s) e) \<noteq> mac_of cr (kc_recv (s_keys s)) (s_recvseq s) (take (l - rmac s) e)
      then Inl (Exit ''Integrity error'')
      else if l < unat (e ! 4) + 6 + rmac s \<or> n > 32768 then Inl (Exit ''Bad packet size'')
      else Inr (after_recv st l (take n (drop 5 e)) s))"
    by (rule decrypt_whole_packet[OF assms])
  define e where "e = patch d (rblock s) pt"
  define n where "n = l - (unat (e ! 4) + 5 + rmac s)"
  have "rx_inv cr (after_recv st l (take n (drop 5 e)) s)" if "\<not> (l < unat (e ! 4) + 6 + rmac s \<or> n > 32768)"
  proof -
    have "length (take n (drop 5 e)) = n" using that pt(1) whole_packet_buf[OF assms(3)] by (auto simp: e_def n_def)
    then have "1 \<le> length (take n (drop 5 e))" "length (take n (drop 5 e)) \<le> 32768" using that by (auto simp: n_def)
    from payload_fine_mk[OF this] have pf: "payload_fine (s_payload (after_recv st l (take n (drop 5 e)) s))"
      by (simp only: after_recv_def set_recv_def) simp
    have rk: "rx_keys cr (after_recv st l (take n (drop 5 e)) s)"
      using assms(1) pt(2) by (simp add: rx_keys_def after_recv_def set_recv_def dir_ok_def mac_ok_def rblock_def)
    then show ?thesis using pf in_header_None[OF rk] by (simp add: rx_inv_def after_recv_def set_recv_def)
  qed
  then show ?thesis unfolding dp Let_def e_def[symmetric] n_def[symmetric] by (simp add: undefined_behaviour_def)
qed

lemma rest_ptr:
  assumes "mk_ok d l p z" and "p < l"
  shows "buf_getptr (mkbuf d l p z) (of_nat l - of_nat p) = Inr p" "of_nat l \<noteq> (of_nat p :: u32)"
proof -
  have u: "unat (of_nat l - of_nat p :: u32) = l - p" using mk_okD[OF assms(1)] by (subst unat_sub_no_underflow) simp_all
  then show "buf_getptr (mkbuf d l p z) (of_nat l - of_nat p) = Inr p" using assms(2) by (intro mk_getptr[OF assms(1)]) simp
  show "of_nat l \<noteq> (of_nat p :: u32)" using mk_okD[OF assms(1)] assms(2) by (metis less_irrefl)
qed

lemma rest_good:
  assumes "rx_keys cr s" and "payload_fine (s_payload s)" and "in_body s" and "length mac0 = MAX_MAC_LEN"
  shows "rx_good cr (read_packet_rest cr mac0 inp s)"
proof -
  obtain d l p z where b: "s_readbuf s = Some (mkbuf d l p z)" "mk_ok d l p z" "rblock s \<le> p"
    "l \<le> 35000" "16 + rmac s \<le> l" "rblock s dvd l - rmac s"
    using assms(3) by (auto simp: in_body_def)
  have pl: "p \<le> l" using mk_okD[OF b(2)] by simp
  have inv: "rx_inv cr s" using assms(1-3) by (simp add: rx_inv_def)
  have again: "rx_keys cr (s\<lparr>s_readbuf := x\<rparr>)" "rmac (s\<lparr>s_readbuf := x\<rparr>) = rmac s" "rblock (s\<lparr>s_readbuf := x\<rparr>) = rblock s" for x
    using assms(1) by (simp_all add: rx_keys_def rblock_def rmac_def)
  show ?thesis
  proof (cases "p = l")
    case True
    then show ?thesis
      using decrypt_packet_good[OF assms(1,4), of d l] b rest_done[of s d l z] by (auto simp: whole_packet_def)
  next
    case False
    then have lt: "p < l" using pl by simp
    show ?thesis
    proof (cases inp)
      case (SockErr e)
      then show ?thesis
        using rest_ptr[OF b(2) lt] b(1) inv
        by (cases e) (simp_all add: read_packet_rest_def Let_def os_read_def undefined_behaviour_def)
    next
      case (SockData bs)
      show ?thesis
      proof (cases "bs = []")
        case True
        then show ?thesis
          using SockData rest_ptr[OF b(2) lt] b(1) remoteclosed_safe[of cr s]
          by (simp add: read_packet_rest_def Let_def os_read_def)
      next
        case False
        have ok: "mk_ok (patch d p x) l q z" if "length x \<le> l - p" "q \<le> l" for x q
          using mk_okD[OF b(2)] that lt by (simp add: mk_ok_def)
        have 1: "rx_good cr (decrypt_packet cr mac0 (s\<lparr>s_readbuf := Some (mkbuf (patch d p (take (l - p) bs)) l l z)\<rparr>))"
          by (rule decrypt_packet_good[OF again(1) assms(4)])
             (use ok[of "take (l - p) bs" l] b(4-6) in \<open>auto simp: whole_packet_def again(2,3)\<close>)
        have 2: "rx_inv cr (s\<lparr>s_readbuf := Some (mkbuf (patch d p bs) l (p + length bs) z)\<rparr>)" if "\<not> l - p \<le> length bs"
          using that b(3-6) ok[of bs "p + length bs"] by (intro rx_inv_readbuf[OF assms(1,2)]) simp_all
        show ?thesis unfolding SockData rest_data[OF b(1,2) lt False] using 1 2 by simp
      qed
    qed
  qed
qed

lemma header_bytes:
  assumes "rx_keys cr s" and "in_header s" and "bs \<noteq> []"
  obtains d p x where "reading_block s d p bs x"
  using assms rx_keysD(2)[OF assms(1)] by (auto simp: in_header_def reading_block_def)

lemma rx_inv_header:
  assumes "rx_keys cr s" and "payload_fine (s_payload s)" and "length d = 128" and "p < rblock s"
  shows "rx_inv cr (s\<lparr>s_readbuf := Some (mkbuf d p p 128)\<rparr>)"
  using assms by (auto simp: rx_inv_def in_header_def rx_keys_def rblock_def init_buf_def)

text \<open>What \<open>read_packet_init\<close> leaves: an error, part of a block, or a packet whose length is known.\<close>

lemma init_good:
  assumes "rx_keys cr s" and "payload_fine (s_payload s)" and "in_header s"
  shows "case read_packet_init cr junk inp s of
      Inl e \<Rightarrow> \<not> undefined_behaviour e
    | Inr (ok, s') \<Rightarrow> rx_inv cr s' \<and> (ok \<longrightarrow> in_body s')"
proof -
  obtain d0 p0 where h: "init_buf s = mkbuf d0 p0 p0 128" "length d0 = 128" "p0 < rblock s"
    using assms(3) by (auto simp: in_header_def)
  note k = rx_keysD[OF assms(1)]
  let ?maxlen = "ucast (dc_blocksize (k_algo_crypt (kc_recv (s_keys s)))) - of_nat p0 :: u32"
  have ptr: "buf_getwriteptr (mkbuf d0 p0 p0 128) ?maxlen = Inr p0"
    using init_store(1)[of s d0 p0 "[0]" "take (rblock s - p0) [0]"] h k(2) by (simp add: reading_block_def)
  consider (err) e where "inp = SockErr e" | (eof) "inp = SockData []"
    | (data) bs where "inp = SockData bs" "bs \<noteq> []" by (cases inp) auto
  then show ?thesis
  proof cases
    case err
    have "rx_inv cr (s\<lparr>s_readbuf := Some (mkbuf d0 p0 p0 128)\<rparr>)" by (rule rx_inv_header[OF assms(1,2) h(2,3)])
    then show ?thesis
      unfolding read_packet_init_def Let_def init_reads[OF h(1)] err
      by (simp add: ptr os_read_def undefined_behaviour_def)
  next
    case eof
    show ?thesis
      unfolding read_packet_init_def Let_def init_reads[OF h(1)] eof
      by (simp add: ptr os_read_def remoteclosed_def undefined_behaviour_def)
  next
    case data
    obtain d p x where r: "reading_block s d p bs x" by (rule header_bytes[OF assms(1,3) data(2)])
    note rb = reading_blockD[OF r]
    show ?thesis
    proof (cases "length x < rblock s - p")
      case True
      have "rx_inv cr (s\<lparr>s_readbuf := Some (mkbuf (patch d p x) (p + length x) (p + length x) 128)\<rparr>)"
        using True rb(5,6) by (intro rx_inv_header[OF assms(1,2)]) simp_all
      then show ?thesis unfolding data(1) init_short[OF r True] by simp
    next
      case False
      then have lx: "length x = rblock s - p" using rb(2) by simp
      have sy: "mode_sync cr (k_crypt_mode (kc_recv (s_keys s))) (rblock s) (k_cipher_state (kc_recv (s_keys s)))
         (k_cipher_state (kc_recv (s_keys s)))" using assms(1) by (simp add: rx_keys_def)
      have lt: "length (take (rblock s) (patch d p x)) = rblock s" using rb(3,5,6) by auto
      obtain pt st where pt: "mode_decrypt cr (k_crypt_mode (kc_recv (s_keys s))) (take (rblock s) (patch d p x))
           (k_cipher_state (kc_recv (s_keys s))) = Some (pt, st)" "length pt = rblock s"
        "mode_sync cr (k_crypt_mode (kc_recv (s_keys s))) (rblock s) st st"
        using mode_dec_total[OF sy, of "take (rblock s) (patch d p x)"] lt by (metis dvd_refl)
      obtain v where v: "load32h (take 4 pt) = Inr v"
        using load32h_total[of "take 4 pt"] pt(2) rb(3) by auto
      let ?f = "pt @ drop (rblock s) (patch d p x)"
      have lf: "length ?f = 128" using rb(3,5,6) pt(2) by auto
      let ?s' = "\<lambda>L. set_recv ((kc_recv (s_keys s))\<lparr>k_cipher_state := st\<rparr>)
            (s\<lparr>s_readbuf := Some (mkbuf (grown junk ?f L) L (rblock s) (max 128 L))\<rparr>)"
      have "rx_inv cr (?s' L) \<and> in_body (?s' L)" if L: "L \<le> 35000" "16 + rmac s \<le> L" "rblock s dvd L - rmac s" for L
      proof -
        have ok: "mk_ok (grown junk ?f L) L (rblock s) (max 128 L)"
          using L rb(3) length_grown[OF lf] by (auto simp: mk_ok_def)
        have "rx_keys cr (?s' L)" "rblock (?s' L) = rblock s" "rmac (?s' L) = rmac s"
          using assms(1) pt(3) by (simp_all add: rx_keys_def rblock_def rmac_def dir_ok_def mac_ok_def)
        moreover from this have "in_body (?s' L)"
          using ok L unfolding in_body_def by (intro exI[of _ "grown junk ?f L"] exI[of _ L] exI) auto
        moreover have "s_payload (?s' L) = s_payload s" by (simp add: set_recv_def)
        ultimately show ?thesis using assms(2) by (simp only: rx_inv_def simp_thms)
      qed
      then show ?thesis
        unfolding data(1) init_full[OF r lx pt(1,2) v k(2)] by (simp add: undefined_behaviour_def)
    qed
  qed
qed

lemma in_header_len:
  assumes "rx_keys cr s" and "in_header s"
  shows "case s_readbuf s of None \<Rightarrow> True | Some b \<Rightarrow> b_len b < ucast (dc_blocksize (k_algo_crypt (kc_recv (s_keys s))))"
proof -
  obtain d p where h: "init_buf s = mkbuf d p p 128" "p < rblock s" using assms(2) by (auto simp: in_header_def)
  have "unat (of_nat p :: u32) = p" using h(2) rx_keysD(3)[OF assms(1)] by (intro unat_of_nat_u32) auto
  then show ?thesis
    using h by (auto simp: init_buf_def word_less_nat_alt rblock_def split: option.splits)
qed

lemma in_body_len:
  assumes "rx_keys cr s" and "in_body s"
  shows "\<not> (case s_readbuf s of None \<Rightarrow> True | Some b \<Rightarrow> b_len b < ucast (dc_blocksize (k_algo_crypt (kc_recv (s_keys s)))))"
proof -
  obtain d l p z where b: "s_readbuf s = Some (mkbuf d l p z)" "mk_ok d l p z" "rblock s \<le> p"
    using assms(2) by (auto simp: in_body_def)
  then show ?thesis using mk_okD[OF b(2)] by (simp add: word_less_nat_alt rblock_def)
qed

lemma read_packet_good:
  assumes "rx_inv cr s" and "length mac0 = MAX_MAC_LEN"
  shows "rx_good cr (read_packet cr junk mac0 inp1 inp2 s)"
proof -
  have i: "rx_keys cr s" "payload_fine (s_payload s)" "in_header s \<or> in_body s" using assms(1) by (simp_all add: rx_inv_def)
  show ?thesis
  proof (cases "in_body s")
    case True
    then show ?thesis
      using rest_good[OF i(1,2) True assms(2)] in_body_len[OF i(1) True] by (simp add: read_packet_def Let_def)
  next
    case False
    then have h: "in_header s" using i(3) by simp
    have rest: "rx_good cr (read_packet_rest cr mac0 inp2 s')" if "rx_inv cr s'" "in_body s'" for s' :: "'a sshsession_scheme"
      using that by (intro rest_good[OF _ _ _ assms(2)]) (simp_all add: rx_inv_def)
    then show ?thesis
      using init_good[OF i(1,2) h, of junk inp1] in_header_len[OF i(1) h]
      by (auto simp: read_packet_def Let_def split: sum.splits)
  qed
qed

text \<open>One call of \<open>read_packet\<close>, with what it finds on the socket and in fresh memory.\<close>

type_synonym read_call = "(nat \<Rightarrow> u8) \<times> bytes \<times> sock_read \<times> sock_read"

fun read_call :: "crypto \<Rightarrow> read_call \<Rightarrow> 'a sshsession_scheme \<Rightarrow> 'a sshsession_scheme result" where
  "read_call cr (junk, mac0, inp1, inp2) s = read_packet cr junk mac0 inp1 inp2 s"

fun read_call_pre :: "read_call \<Rightarrow> 'a sshsession_scheme \<Rightarrow> bool" where
  "read_call_pre (junk, mac0, inp1, inp2) s \<longleftrightarrow> length mac0 = MAX_MAC_LEN"

interpretation rx: checked_machine "read_call cr" read_call_pre "rx_inv cr" for cr
proof
  fix s s' :: "'a sshsession_scheme" and c
  assume i: "rx_inv cr s" "read_call_pre c s"
  obtain junk mac0 inp1 inp2 where c: "c = (junk, mac0, inp1, inp2)" by (cases c) auto
  have g: "rx_good cr (read_call cr c s)" using read_packet_good[OF i(1), of mac0 junk inp1 inp2] i(2) c by simp
  show "is_safe (read_call cr c s)" using g by (simp add: rx_good_def)
  show "read_call cr c s = Inr s' \<Longrightarrow> rx_inv cr s'" using g by (simp add: rx_good_def)
qed

lemma reads_pre: "\<forall>(junk, mac0, inp1, inp2) \<in> set cs. length mac0 = MAX_MAC_LEN \<Longrightarrow>
    pre_calls (read_call cr) read_call_pre cs s"
  by (induction cs arbitrary: s) (auto split: sum.splits)

subsection \<open>Evaluation\<close>

abbreviation sample_payload :: buffer where
  "sample_payload \<equiv> \<lparr>b_data = [94, 0, 0, 0], b_len = 3, b_pos = 3, b_size = 4\<rparr>"

lemma sample_in_step: "in_step toy_crypto ((sample_session b)\<lparr>s_reply_queue := q\<rparr>) (sample_session b')"
  by (simp add: in_step_def sample_session_def sample_key_def toy_crypto_ok same_keys_def dir_ok_def mac_ok_def
      dropbear_3des_def dropbear_sha1_def cbc_sync_def Let_def)

lemma sample_in_step': "in_step toy_crypto (sample_session b) (sample_session b')"
  using sample_in_step[where b = b and q = "[]" and b' = b'] by (simp add: sample_session_def)

lemma sample_q_rep: "q_rep (s_writequeue (sample_session b)) []"
  by (simp add: sample_session_def sample_queue_def q_rep_def)

subsection \<open>Properties\<close>

text \<open>
  C5: the packet a side encrypts is the packet its peer reads. With both ends in step, sending
  queues one buffer; when its bytes (without the trailing type byte, which is not sent) are the
  next on the peer's socket, whatever follows them, \<open>read_packet\<close> delivers exactly the payload,
  and both ends are in step again.
\<close>
theorem packet_roundtrip:
  assumes "in_step cr s r" and "payload_ok (s_writepayload s)" and "length (contents (s_writepayload s)) \<le> 32768"
    and "q_rep (s_writequeue s) qs" and "s_dataallowed s \<or> packet_is_okay_kex (hd (contents (s_writepayload s)))"
    and "length mac0 = MAX_MAC_LEN" and "length mac1 = MAX_MAC_LEN"
  shows "\<exists>s' wb r'. encrypt_packet cr rnd mac0 s = Inr s' \<and> q_rep (s_writequeue s') (qs @ [wb]) \<and>
    read_packet cr junk mac1 (SockData (butlast (contents wb) @ later))
      (SockData (drop (rblock r) (butlast (contents wb)) @ later)) r = Inr r' \<and>
    map_option contents (s_payload r') = Some (contents (s_writepayload s)) \<and> in_step cr s' r'"
proof -
  obtain c wq wb c' where w: "encrypt_packet cr rnd mac0 s = Inr (after_send c wq (length (contents wb)) s)"
    "q_rep wq (qs @ [wb])" "buf_inv wb" "b_pos wb = 0"
    "\<And>junk later. read_packet cr junk mac1 (SockData (butlast (contents wb) @ later))
            (SockData (drop (rblock r) (butlast (contents wb)) @ later)) r =
          Inr (after_recv c' (length (butlast (contents wb))) (contents (s_writepayload s)) r)"
    "mode_sync cr (k_crypt_mode (kc_trans (s_keys s))) (unat (dc_blocksize (k_algo_crypt (kc_trans (s_keys s))))) c c'"
    by (rule in_step_sent[OF assms, where rnd = rnd]) blast
  let ?r = "after_recv c' (length (butlast (contents wb))) (contents (s_writepayload s)) r"
  have "map_option contents (s_payload ?r) = Some (contents (s_writepayload s))"
    using assms(3) by (simp add: after_recv_def set_recv_def contents_mk mk_ok_def)
  moreover have "q_rep (s_writequeue (after_send c wq (length (contents wb)) s)) (qs @ [wb])"
    using w(2) by (simp add: after_send_def set_trans_def)
  ultimately show ?thesis using w(1,5) in_step_after[OF assms(1) w(6)] by blast
qed

theorem packet_roundtrip_witness:
  "\<exists>s' wb r'. encrypt_packet toy_crypto (\<lambda>i. 9) (replicate 20 0) (sample_session sample_payload) = Inr s' \<and>
    q_rep (s_writequeue s') [wb] \<and>
    read_packet toy_crypto (\<lambda>i. 5) (replicate 20 1) (SockData (butlast (contents wb) @ [1, 2]))
      (SockData (drop 8 (butlast (contents wb)) @ [1, 2])) (sample_session sample_payload) = Inr r' \<and>
    map_option contents (s_payload r') = Some [94, 0, 0] \<and> in_step toy_crypto s' r'"
proof -
  have p: "s_writepayload (sample_session sample_payload) = sample_payload" "s_dataallowed (sample_session sample_payload)"
    "rblock (sample_session sample_payload) = 8" "contents sample_payload = [94, 0, 0]" "payload_ok sample_payload"
    by (simp_all add: sample_session_def rblock_def sample_key_def dropbear_3des_def contents_def payload_ok_def buf_inv_def)
  show ?thesis
    using packet_roundtrip[OF sample_in_step'[of sample_payload sample_payload] _ _ sample_q_rep,
        where ?mac0.0 = "replicate 20 0" and ?mac1.0 = "replicate 20 1" and rnd = "\<lambda>i. 9" and junk = "\<lambda>i. 5" and later = "[1, 2]"] p
    by (simp add: MAX_MAC_LEN_def)
qed



text \<open>
  C6: whatever the peer and the operating system do (any bytes, any fragmentation, errors, end
  of file), any number of calls of \<open>read_packet\<close> from a well-formed reader stays within its
  buffers and keeps the reader well-formed: it ends by an orderly exit or goes on, and a payload
  it delivers has between 1 and 32768 bytes.
\<close>
theorem reading_safe:
  assumes "rx_inv cr s" and "\<forall>(junk, mac0, inp1, inp2) \<in> set cs. length mac0 = MAX_MAC_LEN"
  shows "is_safe (run_calls (read_call cr) cs s) \<and>
    (\<forall>s'. run_calls (read_call cr) cs s = Inr s' \<longrightarrow> rx_inv cr s' \<and>
       (\<forall>b. s_payload s' = Some b \<longrightarrow> 1 \<le> length (contents b) \<and> length (contents b) \<le> 32768))"
  using rx.run_safe[OF assms(1) reads_pre[OF assms(2)]] rx.run_inv[OF assms(1) reads_pre[OF assms(2)]]
  by (auto simp: rx_inv_def payload_fine_def)

theorem reading_safe_witness:
  "is_safe (run_calls (read_call toy_crypto)
     [(\<lambda>i. 0, replicate 20 0, SockData [1, 2, 3], SockErr EAGAIN), (\<lambda>i. 0, replicate 20 0, SockData [7, 7, 7, 7, 7, 7], SockData [])]
     (sample_session sample_payload))"
proof -
  let ?cs = "[(\<lambda>i. 0, replicate 20 0, SockData [1, 2, 3], SockErr EAGAIN),
    (\<lambda>i. 0, replicate 20 0, SockData [7, 7, 7, 7, 7, 7], SockData [])] :: read_call list"
  have "rx_inv toy_crypto (sample_session sample_payload)"
    by (rule in_step_rx[OF sample_in_step']) (simp add: payload_fine_def sample_session_def)
  from reading_safe[OF this, of ?cs] show ?thesis by (simp add: MAX_MAC_LEN_def)
qed

text \<open>
  C7: a packet is accepted only with its MAC: when \<open>decrypt_packet\<close> succeeds, the last bytes of
  what was received are the MAC, under the receiving key and the expected sequence number, of
  the whole decrypted packet, and the sequence number goes up by one, modulo \<open>2 ^ 32\<close>.
\<close>
theorem accepted_authentic:
  assumes "rx_keys cr s" and "length mac0 = MAX_MAC_LEN" and "whole_packet s d l" and "decrypt_packet cr mac0 s = Inr s'"
  shows "\<exists>m. length m = l - rmac s \<and> take (rblock s) m = take (rblock s) d \<and>
    map_option fst (mode_decrypt cr (k_crypt_mode (kc_recv (s_keys s))) (take (l - rmac s - rblock s) (drop (rblock s) d))
       (k_cipher_state (kc_recv (s_keys s)))) = Some (drop (rblock s) m) \<and>
    take (rmac s) (drop (l - rmac s) d) = mac_of cr (kc_recv (s_keys s)) (s_recvseq s) m \<and>
    s_recvseq s' = s_recvseq s + 1"
proof -
  obtain pt st where pt: "mode_decrypt cr (k_crypt_mode (kc_recv (s_keys s)))
      (take (l - rmac s - rblock s) (drop (rblock s) d)) (k_cipher_state (kc_recv (s_keys s))) = Some (pt, st)"
    "length pt = l - rmac s - rblock s" "length (patch d (rblock s) pt) = length d"
    and dp: "decrypt_packet cr mac0 s = (let e = patch d (rblock s) pt; n = l - (unat (e ! 4) + 5 + rmac s) in
      if take (rmac s) (drop (l - rmac s) e) \<noteq> mac_of cr (kc_recv (s_keys s)) (s_recvseq s) (take (l - rmac s) e)
      then Inl (Exit ''Integrity error'')
      else if l < unat (e ! 4) + 6 + rmac s \<or> n > 32768 then Inl (Exit ''Bad packet size'')
      else Inr (after_recv st l (take n (drop 5 e)) s))"
    by (rule decrypt_whole_packet[OF assms(1-3)])
  let ?m = "take (l - rmac s) (patch d (rblock s) pt)"
  have b: "rblock s + rmac s \<le> l" "l \<le> length d"
    using rx_keysD(3)[OF assms(1)] assms(3) whole_packet_buf[OF assms(3)] by (auto simp: whole_packet_def)
  have ok: "take (rmac s) (drop (l - rmac s) (patch d (rblock s) pt)) = mac_of cr (kc_recv (s_keys s)) (s_recvseq s) ?m"
    and "s_recvseq s' = s_recvseq s + 1"
    using assms(4) unfolding dp Let_def by (auto simp: after_recv_def set_recv_def split: if_splits)
  moreover have "take (rmac s) (drop (l - rmac s) (patch d (rblock s) pt)) = take (rmac s) (drop (l - rmac s) d)"
    "length ?m = l - rmac s" "take (rblock s) ?m = take (rblock s) d" "drop (rblock s) ?m = pt"
    using b pt(2,3) by (simp_all add: patch_def)
  ultimately show ?thesis using pt(1) by (intro exI[of _ ?m]) simp
qed

theorem accepted_authentic_witness:
  "let k = sample_key\<lparr>k_algo_crypt := dropbear_nocipher, k_crypt_mode := mode_none\<rparr>;
       m = plain_packet [20, 1, 2] (replicate 8 4);
       d = m @ mac_of toy_crypto k 0xFFFFFFFF m;
       s = set_recv k ((sample_session sample_payload)\<lparr>s_readbuf := Some (mkbuf d 36 36 36)\<rparr>)
   in \<exists>s' m'. decrypt_packet toy_crypto (replicate 20 0) s = Inr s' \<and> s_recvseq s' = 0 \<and> length m' = 16 \<and>
        drop 16 d = mac_of toy_crypto k 0xFFFFFFFF m'"
proof -
  define k where "k = sample_key\<lparr>k_algo_crypt := dropbear_nocipher, k_crypt_mode := mode_none\<rparr>"
  define m where "m = plain_packet [20, 1, 2] (replicate 8 (4 :: u8))"
  define d where "d = m @ mac_of toy_crypto k 0xFFFFFFFF m"
  define s where "s = set_recv k ((sample_session sample_payload)\<lparr>s_readbuf := Some (mkbuf d 36 36 36)\<rparr>)"
  have lm: "length m = 16" by (simp add: m_def length_plain_packet)
  have k: "dir_ok k" "dc_blocksize (k_algo_crypt k) = 8" "dh_hashsize (k_algo_mac k) = 20" "k_crypt_mode k = mode_none"
    by (simp_all add: k_def dir_ok_def mac_ok_def sample_key_def dropbear_nocipher_def dropbear_sha1_def)
  have ld: "length (mac_of toy_crypto k 0xFFFFFFFF m) = 20"
    using length_mac_of[OF toy_crypto_ok, of k] k by (simp add: dir_ok_def)
  have s: "kc_recv (s_keys s) = k" "s_recvseq s = 0xFFFFFFFF" "s_readbuf s = Some (mkbuf d 36 36 36)" "rblock s = 8" "rmac s = 20"
    using k by (simp_all add: s_def rblock_def rmac_def sample_session_def set_recv_def)
  have ok: "mk_ok d 36 36 36" using lm ld by (simp add: mk_ok_def d_def)
  have "decrypt_packet toy_crypto (replicate 20 0) s = Inr (after_recv (k_cipher_state k) 36 [20, 1, 2] s)"
    by (rule decrypt_received[OF toy_crypto_ok _ _ s(3) ok, of _ 8 m m _ _ "replicate 8 4"])
       (use k s lm ld in \<open>simp_all add: MAX_MAC_LEN_def d_def void_cipher_def m_def[symmetric] drop_append[symmetric] del: drop_append\<close>)
  moreover have "rx_keys toy_crypto s" "whole_packet s d 36"
    using s k ok toy_crypto_ok by (auto simp: rx_keys_def whole_packet_def)
  ultimately show ?thesis
    using accepted_authentic[of toy_crypto s "replicate 20 0" d 36] s lm ld
    unfolding Let_def k_def[symmetric] m_def[symmetric] d_def[symmetric] s_def[symmetric]
    by (auto simp: MAX_MAC_LEN_def after_recv_def set_recv_def d_def)
qed

end
