(* ===== verification/WriteQueue.thy ===== *)
theory WriteQueue
  imports Packet
begin

text \<open>
  What \<open>write_packet\<close> of \<^verbatim>\<open>src/reconos/dropbear/packet.c\<close> does with the queue of encrypted packets:
  the pieces it hands to \<open>writev\<close> are the bytes not yet sent, and however many of them the
  operating system takes, exactly the others stay queued.
\<close>

subsection \<open>The bytes still to be sent\<close>

text \<open>The last byte of a queued buffer is the cleartext packet type, which is not sent.\<close>

definition left_in :: "buffer \<Rightarrow> bytes" where
  "left_in b = drop (unat (b_pos b)) (butlast (contents b))"

definition unsent :: "buffer list \<Rightarrow> bytes" where
  "unsent bs = concat (map left_in bs)"

definition queued_ok :: "buffer \<Rightarrow> bool" where
  "queued_ok b \<longleftrightarrow> buf_inv b \<and> unat (b_pos b) + 1 < unat (b_len b)"

lemma unsent_simps [simp]: "unsent [] = []" "unsent (b # bs) = left_in b @ unsent bs"
  by (simp_all add: unsent_def)

lemma sint_small:
  assumes "unat (w :: u32) < 2 ^ 31"
  shows "sint w = int (unat w)"
proof -
  have "int (unat w) < 2 ^ 31" using assms by (metis of_nat_less_iff of_nat_numeral of_nat_power)
  then have "signed_take_bit 31 (int (unat w)) = int (unat w)" by (intro signed_take_bit_int_eq_self) linarith+
  then show ?thesis by (simp add: sint_uint)
qed

lemma queued_ok_len:
  assumes "queued_ok b"
  shows "unat (b_len b - 1 - b_pos b) = length (left_in b)" "sint (b_len b - 1 - b_pos b) = int (length (left_in b))"
    "unat (b_len b - 1) = unat (b_len b) - 1" "0 < length (left_in b)"
proof -
  note i = buf_invD[OF assms[unfolded queued_ok_def, THEN conjunct1]]
  have p: "unat (b_pos b) + 1 < unat (b_len b)" using assms by (simp add: queued_ok_def)
  have l: "length (left_in b) = unat (b_len b) - 1 - unat (b_pos b)"
    using i by (simp add: left_in_def contents_def)
  show 3: "unat (b_len b - 1) = unat (b_len b) - 1" using p by (subst unat_sub_no_underflow) simp_all
  show 1: "unat (b_len b - 1 - b_pos b) = length (left_in b)"
    using p 3 l by (subst unat_sub_no_underflow) simp_all
  have "unat (b_len b - 1 - b_pos b) < 2 ^ 31" using 1 l i by simp
  then show "sint (b_len b - 1 - b_pos b) = int (length (left_in b))"
    using sint_small 1 by metis
  show "0 < length (left_in b)" using p l by simp
qed

subsection \<open>Gathering\<close>

lemma gather_piece:
  assumes "queued_ok b"
  shows "\<exists>t. mem_read (b_data b) (unat (b_len b - 1)) 1 = Inr t"
    "buf_getptr b (b_len b - 1 - b_pos b) = Inr (unat (b_pos b))"
    "mem_read (b_data b) (unat (b_pos b)) (unat (b_len b - 1 - b_pos b)) = Inr (left_in b)"
proof -
  have i: "buf_inv b" using assms by (simp add: queued_ok_def)
  note n = queued_ok_len[OF assms] and d = buf_invD[OF i]
  have p: "unat (b_pos b) + 1 < unat (b_len b)" using assms by (simp add: queued_ok_def)
  have l: "length (left_in b) = unat (b_len b) - 1 - unat (b_pos b)" using d by (simp add: left_in_def contents_def)
  show "\<exists>t. mem_read (b_data b) (unat (b_len b - 1)) 1 = Inr t" using n(3) p d by (simp add: mem_read_def)
  show "buf_getptr b (b_len b - 1 - b_pos b) = Inr (unat (b_pos b))"
    using buf_getptr_ok[OF i, of "b_len b - 1 - b_pos b"] n(1) l i p by (simp add: length_unread)
  have "mem_read (b_data b) (unat (b_pos b)) (unat (b_len b - 1 - b_pos b)) =
      Inr (take (unat (b_len b) - 1 - unat (b_pos b)) (drop (unat (b_pos b)) (b_data b)))"
    unfolding n(1) l using p d by (simp add: mem_read_def)
  also have "take (unat (b_len b) - 1 - unat (b_pos b)) (drop (unat (b_pos b)) (b_data b)) = left_in b"
    using d p by (simp add: left_in_def contents_def butlast_take drop_take)
  finally show "mem_read (b_data b) (unat (b_pos b)) (unat (b_len b - 1 - b_pos b)) = Inr (left_in b)" .
qed

lemma gather_path:
  assumes "q_path (q_heap q) p as" and "map (\<lambda>a. map_option l_item (q_heap q a)) as = map Some bs"
    and "\<forall>b \<in> set bs. queued_ok b"
  shows "\<exists>ign. gather_iov q (length bs) p = Inr (map left_in bs, ign)"
  using assms
proof (induction as arbitrary: p bs)
  case Nil
  then show ?case by auto
next
  case (Cons a as)
  then obtain b bs' l where b: "bs = b # bs'" "p = Some a" "q_heap q a = Some l" "l_item l = b"
    "q_path (q_heap q) (l_link l) as" "map (\<lambda>a. map_option l_item (q_heap q a)) as = map Some bs'"
    by (auto simp: map_eq_Cons_conv)
  obtain ign where i: "gather_iov q (length bs') (l_link l) = Inr (map left_in bs', ign)"
    using Cons.IH[OF b(5,6)] Cons.prems(3) b(1) by auto
  have ok: "queued_ok b" using Cons.prems(3) b(1) by simp
  obtain t where t: "mem_read (b_data b) (unat (b_len b - 1)) 1 = Inr t" using gather_piece(1)[OF ok] by blast
  show ?case
    using gather_piece(2,3)[OF ok] queued_ok_len(2,4)[OF ok] b(1-4) i t
    by (simp add: q_deref_def Let_def del: One_nat_def)
qed

lemma gather_all:
  assumes "q_rep q bs" and "\<forall>b \<in> set bs. queued_ok b" and "length bs < 2 ^ 32"
  shows "\<exists>ign. gather_iov q (unat (q_count q)) (q_head q) = Inr (map left_in bs, ign)"
proof -
  obtain as where "q_path (q_heap q) (q_head q) as" "map (\<lambda>a. map_option l_item (q_heap q a)) as = map Some bs"
    using assms(1) by (auto simp: q_rep_def)
  moreover have "unat (q_count q) = length bs" using q_rep_count[OF assms(1)] assms(3) by (simp add: unat_of_nat_u32)
  ultimately show ?thesis using gather_path[of q "q_head q" as bs] assms(2) by simp
qed

subsection \<open>Accounting for what was written\<close>

lemma q_set_head_rep:
  assumes "q_rep q (b # bs)"
  shows "q_rep (q_set_head q x) (x # bs)"
proof -
  obtain a as l where a: "q_head q = Some a" "q_heap q a = Some l" "l_item l = b"
    "q_path (q_heap q) (l_link l) as" "a \<notin> set as" "distinct as"
    "q_tail q = Some (last (a # as))" "map (\<lambda>a. map_option l_item (q_heap q a)) as = map Some bs"
    "q_count q = of_nat (Suc (length bs))" "dom (q_heap q) = set (a # as)" "\<forall>a \<in> set (a # as). a < q_next q"
    using assms by (auto simp: q_rep_def map_eq_Cons_conv)
  let ?h = "(q_heap q)(a \<mapsto> l\<lparr>l_item := x\<rparr>)"
  have m: "map (\<lambda>c. map_option l_item (?h c)) as = map Some bs"
    using a(5,8) by (metis (mono_tags, lifting) fun_upd_other map_cong)
  have p: "q_path ?h (l_link l) as" using a(4,5) by (simp add: q_path_update)
  have d: "dom ?h = set (a # as)" using a(10) by auto
  show ?thesis
    unfolding q_rep_def
    by (rule exI[of _ "a # as"]) (use a p m d in \<open>auto simp: q_set_head_def\<close>)
qed

text \<open>The packets that are left after \<open>n\<close> bytes of \<open>bs\<close> have been sent.\<close>

lemma consume_written_rep:
  assumes "q_rep q bs" and "\<forall>b \<in> set bs. queued_ok b" and "n \<le> length (unsent bs)" and "length bs \<le> fuel"
  shows "\<exists>q' bs'. consume_written fuel (int n) q = Inr q' \<and> q_rep q' bs' \<and> (\<forall>b \<in> set bs'. queued_ok b) \<and>
    unsent bs' = drop n (unsent bs)"
  using assms
proof (induction bs arbitrary: q n fuel)
  case Nil
  then show ?case by (intro exI[of _ q] exI[of _ "[]"]) (cases fuel; simp)
next
  case (Cons b bs)
  then obtain f where f: "fuel = Suc f" "length bs \<le> f" by (cases fuel) auto
  have ok: "queued_ok b" using Cons.prems(2) by simp
  note l = queued_ok_len[OF ok]
  consider "n = 0" | "0 < n" "n < length (left_in b)" | "0 < n" "length (left_in b) \<le> n" by linarith
  then show ?case
  proof cases
    case 1
    then show ?thesis using Cons.prems f(1) by (intro exI[of _ q] exI[of _ "b # bs"]) simp
  next
    case 2
    have i: "buf_inv b" using ok by (simp add: queued_ok_def)
    have un: "length (left_in b) = unat (b_len b) - 1 - unat (b_pos b)" using buf_invD[OF i] by (simp add: left_in_def contents_def)
    have w: "unat (of_int (int n) :: u32) = n" using 2 un buf_invD[OF i] by (simp add: unat_of_nat_u32)
    have le: "n \<le> length (unread b)" using 2 un i by (simp add: length_unread)
    have inc: "buf_incrpos b (of_int (int n)) = Inr (advance b n)"
      using buf_incrpos_forward[OF i, of "of_int (int n)"] w le by simp
    have pos: "unat (b_pos (advance b n)) = unat (b_pos b) + n" by (rule advance_pos[OF i le])
    have "queued_ok (advance b n)"
      using advance_inv[OF i le] pos 2 un by (simp add: queued_ok_def advance_def)
    moreover have "left_in (advance b n) = drop n (left_in b)"
      unfolding left_in_def pos by (simp add: contents_def advance_def add.commute)
    moreover have "q_rep (q_set_head q (advance b n)) (advance b n # bs)" by (rule q_set_head_rep[OF Cons.prems(1)])
    moreover have "consume_written fuel (int n) q = Inr (q_set_head q (advance b n))"
      using 2 f(1) q_rep_examine[OF Cons.prems(1)] l(2) inc by simp
    ultimately show ?thesis using 2 Cons.prems(2) by (intro exI conjI) auto
  next
    case 3
    obtain q1 where q1: "dequeue q = Inr (b, q1)" "q_rep q1 bs" using q_rep_dequeue[OF Cons.prems(1)] by blast
    have "int n - sint (b_len b - 1 - b_pos b) = int (n - length (left_in b))" using l(2) 3 by simp
    then have "consume_written fuel (int n) q = consume_written f (int (n - length (left_in b))) q1"
      using 3 f(1) q_rep_examine[OF Cons.prems(1)] l(2) q1(1) by simp
    moreover have "drop n (unsent (b # bs)) = drop (n - length (left_in b)) (unsent bs)" using 3 by simp
    ultimately show ?thesis using Cons.IH[OF q1(2), of "n - length (left_in b)" f] Cons.prems(2,3) f(2) 3 by auto
  qed
qed

subsection \<open>Properties\<close>

text \<open>
  C19: no byte of a queued packet is lost, repeated or reordered by \<open>write_packet\<close>: it offers
  \<open>writev\<close> exactly the bytes not yet sent, and when the operating system takes \<open>n\<close> of them the
  packets that stay queued hold the others, in order, ready to be written again.
\<close>
theorem write_packet_exact:
  assumes "q_rep (s_writequeue s) bs" and "\<forall>b \<in> set bs. queued_ok b" and "bs \<noteq> []" and "length bs < 2 ^ 32"
    and "0 < n" and "n \<le> length (unsent bs)"
  shows "\<exists>s' bs' iov ign. gather_iov (s_writequeue s) (unat (q_count (s_writequeue s))) (q_head (s_writequeue s)) = Inr (iov, ign) \<and>
    concat iov = unsent bs \<and> write_packet (WroteN n) now s = Inr s' \<and> q_rep (s_writequeue s') bs' \<and>
    (\<forall>b \<in> set bs'. queued_ok b) \<and> unsent bs' = drop n (unsent bs)"
proof -
  obtain ign where g: "gather_iov (s_writequeue s) (unat (q_count (s_writequeue s))) (q_head (s_writequeue s)) = Inr (map left_in bs, ign)"
    using gather_all[OF assms(1,2,4)] by blast
  have c: "unat (q_count (s_writequeue s)) = length bs" using q_rep_count[OF assms(1)] assms(4) by (simp add: unat_of_nat_u32)
  obtain q' bs' where w: "consume_written (length bs) (int n) (s_writequeue s) = Inr q'" "q_rep q' bs'"
    "\<forall>b \<in> set bs'. queued_ok b" "unsent bs' = drop n (unsent bs)"
    using consume_written_rep[OF assms(1,2,6) le_refl] by blast
  have "\<not> isempty (s_writequeue s)" using q_rep_isempty[OF assms(1)] assms(3) by simp
  then have "\<exists>s'. write_packet (WroteN n) now s = Inr s' \<and> s_writequeue s' = q'"
    using g c w(1) assms(5) by (simp add: write_packet_def Let_def)
  then show ?thesis using g w unfolding unsent_def[of bs, symmetric] by (metis unsent_def)
qed

theorem write_packet_exact_witness:
  "\<exists>q s' bs'. enqueue sample_queue \<lparr>b_data = [1, 2, 3, 90], b_len = 4, b_pos = 0, b_size = 4\<rparr> = Inr q \<and>
     write_packet (WroteN 2) 7 ((sample_session (mkbuf [] 0 0 0))\<lparr>s_writequeue := q\<rparr>) = Inr s' \<and>
     q_rep (s_writequeue s') bs' \<and> unsent bs' = [3]"
proof -
  let ?b = "\<lparr>b_data = [1, 2, 3, 90], b_len = 4, b_pos = 0, b_size = 4\<rparr> :: buffer"
  have "q_rep sample_queue []" by (simp add: sample_queue_def q_rep_def)
  then obtain q where q: "enqueue sample_queue ?b = Inr q" "q_rep q [?b]" using lq.rep_enq by fastforce
  have "queued_ok ?b" "unsent [?b] = [1, 2, 3]" by (simp_all add: queued_ok_def buf_inv_def left_in_def contents_def)
  then show ?thesis
    using write_packet_exact[of "(sample_session (mkbuf [] 0 0 0))\<lparr>s_writequeue := q\<rparr>" "[?b]" 2 7] q by auto
qed

end
