(* ===== verification/Wire.thy ===== *)
theory Wire
  imports Buffer
begin

text \<open>
  How messages are composed from the primitive writes and reads of \<^verbatim>\<open>src/reconos/dropbear/buffer.c\<close>:
  an operation that appends fixed bytes or exits when they do not fit, and an operation that
  recognises fixed bytes. Both are closed under sequencing, so the format of a message is the
  concatenation of the formats of its fields.
\<close>

definition puts :: "(buffer \<Rightarrow> buffer result) \<Rightarrow> bytes \<Rightarrow> bool" where
  "puts f bs \<longleftrightarrow> (\<forall>b. buf_inv b \<longrightarrow>
     (length bs \<le> room b \<longrightarrow> f b = Inr (overwrite b bs)) \<and> (room b < length bs \<longrightarrow> (\<exists>m. f b = Inl (Exit m))))"

definition gets :: "(buffer \<Rightarrow> ('a \<times> buffer) result) \<Rightarrow> bytes \<Rightarrow> 'a \<Rightarrow> bool" where
  "gets f bs x \<longleftrightarrow> (\<forall>b rest. buf_inv b \<longrightarrow> unread b = bs @ rest \<longrightarrow> f b = Inr (x, advance b (length bs)))"

lemma putsI:
  assumes "\<And>b. buf_inv b \<Longrightarrow> length bs \<le> room b \<Longrightarrow> f b = Inr (overwrite b bs)"
    and "\<And>b. buf_inv b \<Longrightarrow> room b < length bs \<Longrightarrow> \<exists>m. f b = Inl (Exit m)"
  shows "puts f bs"
  using assms by (simp add: puts_def)

lemma puts_ok: "puts f bs \<Longrightarrow> buf_inv b \<Longrightarrow> length bs \<le> room b \<Longrightarrow> f b = Inr (overwrite b bs)"
  by (simp add: puts_def)

lemma puts_full: "puts f bs \<Longrightarrow> buf_inv b \<Longrightarrow> room b < length bs \<Longrightarrow> \<exists>m. f b = Inl (Exit m)"
  by (simp add: puts_def)

lemma puts_safe:
  assumes "puts f bs" and "buf_inv b"
  shows "is_safe (f b)"
  using assms puts_ok[OF assms] puts_full[OF assms] by (cases "length bs \<le> room b") (auto simp: not_le)

lemma puts_inv:
  assumes "puts f bs" and "buf_inv b" and "f b = Inr b'"
  shows "b' = overwrite b bs \<and> buf_inv b' \<and> length bs \<le> room b"
  using assms puts_ok[OF assms(1,2)] puts_full[OF assms(1,2)] overwrite_inv[OF assms(2), of bs]
  by (cases "length bs \<le> room b") (auto simp: not_le)

lemma puts_skip: "puts Inr []"
  by (simp add: puts_def overwrite_Nil)

lemma puts_seq:
  assumes "puts f xs" and "puts g ys"
  shows "puts (\<lambda>b. rbind (f b) g) (xs @ ys)"
proof (rule putsI)
  fix b assume b: "buf_inv b" "length (xs @ ys) \<le> room b"
  then have "f b = Inr (overwrite b xs)" by (intro puts_ok[OF assms(1)]) simp_all
  moreover have "g (overwrite b xs) = Inr (overwrite (overwrite b xs) ys)"
    using b by (intro puts_ok[OF assms(2)]) (simp_all add: overwrite_inv room_overwrite)
  ultimately show "rbind (f b) g = Inr (overwrite b (xs @ ys))" using b by (simp add: overwrite_overwrite)
next
  fix b assume b: "buf_inv b" "room b < length (xs @ ys)"
  show "\<exists>m. rbind (f b) g = Inl (Exit m)"
  proof (cases "length xs \<le> room b")
    case True
    then have "\<exists>m. g (overwrite b xs) = Inl (Exit m)"
      using b by (intro puts_full[OF assms(2)]) (simp_all add: overwrite_inv room_overwrite)
    then show ?thesis using puts_ok[OF assms(1) b(1) True] by simp
  next
    case False
    then show ?thesis using puts_full[OF assms(1) b(1)] by (auto simp: not_le)
  qed
qed

lemma gets_seq:
  assumes "gets f xs x" and "gets (g x) ys y"
  shows "gets (\<lambda>b. rbind (f b) (\<lambda>(x, b). g x b)) (xs @ ys) y"
  unfolding gets_def
proof (intro allI impI)
  fix b rest assume b: "buf_inv b" "unread b = (xs @ ys) @ rest"
  then have "f b = Inr (x, advance b (length xs))" using assms(1) by (simp add: gets_def)
  moreover have "unread (advance b (length xs)) = ys @ rest" "buf_inv (advance b (length xs))"
    using b by (simp_all add: unread_advance advance_inv)
  ultimately show "rbind (f b) (\<lambda>(x, b). g x b) = Inr (y, advance b (length (xs @ ys)))"
    using assms(2) by (simp add: gets_def advance_def)
qed

lemma gets_bind:
  assumes "gets f xs x" and "gets (\<lambda>b. g (x, b)) ys y"
  shows "gets (\<lambda>b. rbind (f b) g) (xs @ ys) y"
  using gets_seq[of f xs x "\<lambda>x b. g (x, b)" ys y] assms by simp

lemma gets_return: "gets (\<lambda>b. Inr (x, b)) [] x"
  by (simp add: gets_def)

lemma gets_ok: "gets f bs x \<Longrightarrow> buf_inv b \<Longrightarrow> unread b = bs @ rest \<Longrightarrow> f b = Inr (x, advance b (length bs))"
  by (simp add: gets_def)

lemma puts_byte: "puts (\<lambda>b. buf_putbyte b v) [v]"
  by (rule putsI) (simp_all add: buf_putbyte_eq)

lemma puts_int: "puts (\<lambda>b. buf_putint b v) (store32h v)"
  by (rule putsI) (simp_all add: buf_putint_eq)

lemma puts_string:
  assumes "unat n \<le> length str" and "unat n \<le> 3000000000"
  shows "puts (\<lambda>b. buf_putstring b str n) (store32h n @ take (unat n) str)"
  using assms by (intro putsI) (simp_all add: buf_putstring_eq)

lemma puts_bytes:
  assumes "unat n \<le> length str" and "unat n \<le> 3000000000"
  shows "puts (\<lambda>b. buf_putbytes b str n) (take (unat n) str)"
  using assms by (intro putsI) (simp_all add: buf_putbytes_eq)

lemma gets_byte: "gets buf_getbyte [v] v"
  by (simp add: gets_def buf_getbyte_ok)

lemma gets_int: "gets buf_getint (store32h v) v"
  unfolding gets_def by (intro allI impI int_codec.get_enc) simp_all

context wire_codec
begin

lemma put_puts: "valid x \<Longrightarrow> puts (put x) (enc x)"
  by (intro putsI put_enc put_full) simp_all

lemma get_gets: "valid x \<Longrightarrow> gets get (enc x) x"
  unfolding gets_def by (intro allI impI get_enc) simp_all

end

lemmas puts_fields = puts_byte puts_int puts_skip

text \<open>A message written into an empty buffer is its whole contents.\<close>

lemma overwrite_fresh:
  assumes "buf_inv b" and "b_pos b = 0" and "b_len b = 0" and "length bs \<le> room b"
  shows "contents (overwrite b bs) = bs" "written (overwrite b bs) = bs" "b_len (overwrite b bs) = of_nat (length bs)"
    "b_pos (overwrite b bs) = of_nat (length bs)"
proof -
  note f = overwrite_fields[OF assms(1,4)]
  show w: "written (overwrite b bs) = bs" using written_overwrite[OF assms(1,4)] assms(2) by (simp add: written_def)
  show "contents (overwrite b bs) = bs" using w f assms(2,3) by (simp add: contents_def written_def)
  show "b_len (overwrite b bs) = of_nat (length bs)" "b_pos (overwrite b bs) = of_nat (length bs)"
    using assms(2,3) by (simp_all add: overwrite_def Let_def)
qed

end
