(* ===== verification/Mpint.thy ===== *)
theory Mpint
  imports Wire Cipher
begin

text \<open>
  Multi-precision integers: the conversions of \<^verbatim>\<open>src/reconos/dropbear/libtommath\<close> that Dropbear uses, the
  modular inverse, \<^verbatim>\<open>bignum.c\<close>, the mpint operations of \<^verbatim>\<open>buffer.c\<close> and \<open>gen_random_mpint\<close> of
  \<^verbatim>\<open>random.c\<close>. An \<open>mp_int\<close> is its value. libtommath keeps it clamped: zero has no digits.
  Exhausted memory, the only other failure of these routines, is not modelled.
\<close>

type_synonym mp_int = int

subsection \<open>libtommath\<close>

function count_bits_loop :: "nat \<Rightarrow> nat" where
  "count_bits_loop q = (if q = 0 then 0 else Suc (count_bits_loop (q div 2)))"
  by pat_completeness auto
termination by (relation "measure id") auto

declare count_bits_loop.simps [simp del]

definition mp_count_bits :: "mp_int \<Rightarrow> nat" where
  "mp_count_bits a = count_bits_loop (nat \<bar>a\<bar>)"

definition mp_unsigned_bin_size :: "mp_int \<Rightarrow> nat" where
  "mp_unsigned_bin_size a = (let size = mp_count_bits a in size div 8 + (if size mod 8 \<noteq> 0 then 1 else 0))"

function to_bin_loop :: "nat \<Rightarrow> bytes" where
  "to_bin_loop t = (if t = 0 then [] else of_nat (t mod 256) # to_bin_loop (t div 256))"
  by pat_completeness auto
termination by (relation "measure id") auto

declare to_bin_loop.simps [simp del]

text \<open>The bytes come least significant first and are reversed at the end.\<close>

definition mp_to_unsigned_bin :: "mp_int \<Rightarrow> bytes" where
  "mp_to_unsigned_bin a = rev (to_bin_loop (nat \<bar>a\<bar>))"

fun read_bin_loop :: "mp_int \<Rightarrow> bytes \<Rightarrow> mp_int" where
  "read_bin_loop a [] = a"
| "read_bin_loop a (b # bs) = read_bin_loop (a * 256 + int (unat b)) bs"

definition mp_read_unsigned_bin :: "bytes \<Rightarrow> mp_int" where
  "mp_read_unsigned_bin bs = read_bin_loop 0 bs"

text \<open>Modular arithmetic; a modulus that is not positive is \<open>MP_VAL\<close>, here \<open>None\<close>.\<close>

definition mp_mod :: "mp_int \<Rightarrow> mp_int \<Rightarrow> mp_int option" where
  "mp_mod a b = (if b \<le> 0 then None else Some (a mod b))"

definition mp_mulmod :: "mp_int \<Rightarrow> mp_int \<Rightarrow> mp_int \<Rightarrow> mp_int option" where
  "mp_mulmod a b c = mp_mod (a * b) c"

definition mp_addmod :: "mp_int \<Rightarrow> mp_int \<Rightarrow> mp_int \<Rightarrow> mp_int option" where
  "mp_addmod a b c = mp_mod (a + b) c"

definition mp_exptmod :: "mp_int \<Rightarrow> mp_int \<Rightarrow> mp_int \<Rightarrow> mp_int option" where
  "mp_exptmod g x p = (if p \<le> 0 \<or> x < 0 then None else Some (g ^ nat x mod p))"

text \<open>Halving acts on the magnitude.\<close>

definition mp_div_2 :: "mp_int \<Rightarrow> mp_int" where
  "mp_div_2 a = sgn a * (\<bar>a\<bar> div 2)"

text \<open>
  The inverse, \<open>fast_mp_invmod\<close>: steps 4 and 5 halve while even (zero does not count as even),
  and the rounds from \<open>top\<close> on go on until \<open>u\<close> is zero. \<open>None\<close> is a loop that never gets
  there.
\<close>

function halve :: "int \<Rightarrow> int \<Rightarrow> int \<Rightarrow> int \<times> int" where
  "halve x u B =
     (if u > 0 \<and> even u then halve x (mp_div_2 u) (mp_div_2 (if odd B then B - x else B)) else (u, B))"
  by pat_completeness auto
termination by (relation "measure (\<lambda>(x, u, B). nat u)") (auto simp: mp_div_2_def)

declare halve.simps [simp del]

definition inv_round :: "int \<Rightarrow> int \<times> int \<times> int \<times> int \<Rightarrow> int \<times> int \<times> int \<times> int" where
  "inv_round x = (\<lambda>(u, v, B, D).
     let (u, B) = halve x u B; (v, D) = halve x v D
     in if u \<ge> v then (u - v, v, B - D, D) else (u, v - u, B, D - B))"

partial_function (option) inv_top :: "int \<Rightarrow> int \<times> int \<times> int \<times> int \<Rightarrow> (int \<times> int) option" where
  "inv_top x s =
     (case inv_round x s of (u, v, B, D) \<Rightarrow> if u = 0 then Some (v, D) else inv_top x (u, v, B, D))"

function add_until_pos :: "int \<Rightarrow> int \<Rightarrow> int" where
  "add_until_pos b d = (if d < 0 \<and> b > 0 then add_until_pos b (d + b) else d)"
  by pat_completeness auto
termination by (relation "measure (\<lambda>(b, d). nat (- d))") auto

declare add_until_pos.simps [simp del]

text \<open>The outer option is termination, the inner one \<open>MP_OKAY\<close> or \<open>MP_VAL\<close>; \<open>a\<close> is not negative.\<close>

definition fast_mp_invmod :: "mp_int \<Rightarrow> mp_int \<Rightarrow> mp_int option option" where
  "fast_mp_invmod a b =
     (if even b then Some None
      else map_option (\<lambda>(v, D). if v \<noteq> 1 then None else Some (add_until_pos b D))
             (inv_top b (b, a mod b, 0, 1)))"

text \<open>The general routine keeps both cofactors and brings the result below the modulus.\<close>

function slow_halve :: "int \<Rightarrow> int \<Rightarrow> int \<Rightarrow> int \<Rightarrow> int \<Rightarrow> int \<times> int \<times> int" where
  "slow_halve x y u A B =
     (if u > 0 \<and> even u then
        let (A, B) = (if odd A \<or> odd B then (A + y, B - x) else (A, B))
        in slow_halve x y (mp_div_2 u) (mp_div_2 A) (mp_div_2 B)
      else (u, A, B))"
  by pat_completeness auto
termination by (relation "measure (\<lambda>(x, y, u, A, B). nat u)") (auto simp: mp_div_2_def)

declare slow_halve.simps [simp del]

definition slow_round :: "int \<Rightarrow> int \<Rightarrow> int \<times> int \<times> int \<times> int \<times> int \<times> int \<Rightarrow> int \<times> int \<times> int \<times> int \<times> int \<times> int" where
  "slow_round x y = (\<lambda>(u, v, A, B, C, D).
     let (u, A, B) = slow_halve x y u A B; (v, C, D) = slow_halve x y v C D
     in if u \<ge> v then (u - v, v, A - C, B - D, C, D) else (u, v - u, A, B, C - A, D - B))"

partial_function (option) slow_top :: "int \<Rightarrow> int \<Rightarrow> int \<times> int \<times> int \<times> int \<times> int \<times> int \<Rightarrow> (int \<times> int) option" where
  "slow_top x y s =
     (case slow_round x y s of (u, v, A, B, C, D) \<Rightarrow> if u = 0 then Some (v, C) else slow_top x y (u, v, A, B, C, D))"

function sub_until_below :: "int \<Rightarrow> int \<Rightarrow> int" where
  "sub_until_below b c = (if b > 0 \<and> c \<ge> b then sub_until_below b (c - b) else c)"
  by pat_completeness auto
termination by (relation "measure (\<lambda>(b, c). nat c)") auto

declare sub_until_below.simps [simp del]

definition mp_invmod_slow :: "mp_int \<Rightarrow> mp_int \<Rightarrow> mp_int option option" where
  "mp_invmod_slow a b =
     (if b \<le> 0 then Some None
      else if a mod b \<noteq> 0 \<and> even (a mod b) \<and> even b then Some None
      else map_option (\<lambda>(v, C). if v \<noteq> 1 then None else Some (sub_until_below b (add_until_pos b C)))
             (slow_top (a mod b) b (a mod b, b, 1, 0, 0, 1)))"

definition mp_invmod :: "mp_int \<Rightarrow> mp_int \<Rightarrow> mp_int option result" where
  "mp_invmod a b =
     (if b \<le> 0 then Inr None
      else case if odd b then fast_mp_invmod a b else mp_invmod_slow a b of
             None \<Rightarrow> Inl Hang | Some r \<Rightarrow> Inr r)"

declare inv_top.simps [code] slow_top.simps [code]

subsection \<open>bignum.c, buffer.c and random.c\<close>

definition bytes_to_mp :: "bytes \<Rightarrow> mp_int" where
  "bytes_to_mp bs = mp_read_unsigned_bin bs"

text \<open>The digits of a clamped number, 28 bits each, as \<open>USED\<close> and \<open>DIGIT\<close> read them.\<close>

definition mp_used :: "mp_int \<Rightarrow> nat" where
  "mp_used mp = (mp_count_bits mp + 27) div 28"

definition mp_digit :: "mp_int \<Rightarrow> nat \<Rightarrow> nat" where
  "mp_digit mp i = nat \<bar>mp\<bar> div 2 ^ (28 * i) mod 2 ^ 28"

definition buf_putmpint :: "buffer \<Rightarrow> mp_int \<Rightarrow> buffer result" where
  "buf_putmpint buf mp =
     (if mp < 0 then Inl (Exit ''negative bignum'')
      else
        let bits = mp_count_bits mp;
            (len, pad) = (if mp_used mp = 1 \<and> mp_digit mp 0 = 0 then (0, 0)
                          else (bits div 8 + 1, if bits mod 8 = 0 then 1 else 0)) :: nat \<times> nat
        in rbind (buf_putint buf (of_nat len)) (\<lambda>buf.
           if len > 0 then
             rbind (if pad = 1 then buf_putbyte buf 0 else Inr buf) (\<lambda>buf.
             rbind (buf_getwriteptr buf (of_nat (len - pad))) (\<lambda>p.
             rbind (mem_write (b_data buf) p (mp_to_unsigned_bin mp)) (\<lambda>d.
             buf_incrwritepos (buf\<lparr>b_data := d\<rparr>) (of_nat (len - pad)))))
           else Inr buf))"

definition BUF_MAX_MPINT :: u32 where "BUF_MAX_MPINT = 1030"

text \<open>\<open>DROPBEAR_FAILURE\<close> is \<open>None\<close>.\<close>

definition buf_getmpint :: "buffer \<Rightarrow> (mp_int option \<times> buffer) result" where
  "buf_getmpint buf =
     rbind (buf_getint buf) (\<lambda>(len, buf).
     if len = 0 then Inr (Some 0, buf)
     else if len > BUF_MAX_MPINT then Inr (None, buf)
     else
       rbind (buf_getptr buf 1) (\<lambda>p.
       rbind (mem_read (b_data buf) p 1) (\<lambda>c.
       if hd c AND 128 \<noteq> 0 then Inr (None, buf)
       else
         rbind (buf_getptr buf len) (\<lambda>p.
         rbind (mem_read (b_data buf) p (unat len)) (\<lambda>bs.
         rbind (buf_incrpos buf len) (\<lambda>buf.
         Inr (Some (mp_read_unsigned_bin bs), buf)))))))"

text \<open>The running SHA-1 state is the bytes it has been given.\<close>

definition sha1_process_mp :: "bytes \<Rightarrow> mp_int \<Rightarrow> bytes result" where
  "sha1_process_mp hs mp =
     rbind (buf_new 532) (\<lambda>buf.
     rbind (buf_putmpint buf mp) (\<lambda>buf.
     let i = b_pos buf
     in rbind (buf_setpos buf 0) (\<lambda>buf.
        rbind (buf_getptr buf i) (\<lambda>p.
        rbind (mem_read (b_data buf) p (unat i)) (\<lambda>bs.
        Inr (hs @ bs))))))"

text \<open>
  The draws are what \<open>genrandom\<close> delivers, one after the other for the rounds of the loop;
  \<open>Hang\<close> when none of them ends it.
\<close>

definition random_masks :: "u8 list" where
  "random_masks = [0xff, 0x01, 0x03, 0x07, 0x0f, 0x1f, 0x3f, 0x7f]"

fun gen_random_loop :: "mp_int \<Rightarrow> nat \<Rightarrow> nat \<Rightarrow> (nat \<Rightarrow> u8) list \<Rightarrow> mp_int result" where
  "gen_random_loop maximum size_bits len [] = Inl Hang"
| "gen_random_loop maximum size_bits len (rnd # draws) =
     (let randbuf = map rnd [0..<len];
          rand = bytes_to_mp (randbuf[0 := randbuf ! 0 AND random_masks ! (size_bits mod 8)])
      in if rand < maximum then Inr rand else gen_random_loop maximum size_bits len draws)"

definition gen_random_mpint :: "(nat \<Rightarrow> u8) list \<Rightarrow> mp_int \<Rightarrow> mp_int result" where
  "gen_random_mpint draws maximum =
     (let size_bits = mp_count_bits maximum;
          len = size_bits div 8 + (if size_bits mod 8 \<noteq> 0 then 1 else 0)
      in rbind (m_malloc len) (\<lambda>_. gen_random_loop maximum size_bits len draws))"

subsection \<open>The conversions\<close>

lemma count_bits_bounds:
  "n < 2 ^ count_bits_loop n" "0 < n \<Longrightarrow> 2 ^ (count_bits_loop n - 1) \<le> n"
proof -
  show "n < 2 ^ count_bits_loop n"
    by (induction n rule: count_bits_loop.induct) (subst count_bits_loop.simps, auto)
  show "0 < n \<Longrightarrow> 2 ^ (count_bits_loop n - 1) \<le> n"
  proof (induction n rule: count_bits_loop.induct)
    case (1 q)
    show ?case
    proof (cases "q = 1")
      case False
      then have h: "0 < q div 2" "2 ^ (count_bits_loop (q div 2) - 1) \<le> q div 2" using 1 by auto
      then have "count_bits_loop (q div 2) \<noteq> 0" by (subst count_bits_loop.simps) simp
      then obtain k where k: "count_bits_loop (q div 2) = Suc k" by (cases "count_bits_loop (q div 2)") auto
      then show ?thesis using h 1(2) by (subst count_bits_loop.simps) simp
    qed (simp add: count_bits_loop.simps)
  qed
qed

lemma count_bits_0 [simp]: "count_bits_loop 0 = 0" "mp_count_bits 0 = 0"
  by (simp_all add: count_bits_loop.simps mp_count_bits_def)

lemma count_bits_eq_0 [simp]: "count_bits_loop n = 0 \<longleftrightarrow> n = 0"
  by (subst count_bits_loop.simps) simp

lemma count_bits_unique:
  assumes "2 ^ k \<le> n" and "n < 2 ^ Suc k"
  shows "count_bits_loop n = Suc k"
proof -
  have n: "0 < n" using assms(1) by (metis le_zero_eq neq0_conv power_eq_0_iff zero_neq_numeral)
  have "(2 :: nat) ^ k < 2 ^ count_bits_loop n" "(2 :: nat) ^ (count_bits_loop n - 1) < 2 ^ Suc k"
    by (rule le_less_trans[OF assms(1) count_bits_bounds(1)]) (rule le_less_trans[OF count_bits_bounds(2)[OF n] assms(2)])
  then have "k < count_bits_loop n" "count_bits_loop n - 1 < Suc k"
    by (metis one_less_numeral_iff power_strict_increasing_iff semiring_norm(76))+
  then show ?thesis by simp
qed

lemma length_to_bin: "0 < t \<Longrightarrow> 256 ^ (length (to_bin_loop t) - 1) \<le> t \<and> t < 256 ^ length (to_bin_loop t)"
proof (induction t rule: to_bin_loop.induct)
  case (1 t)
  show ?case
  proof (cases "t div 256 = 0")
    case True
    then show ?thesis using 1(2) by (simp add: to_bin_loop.simps[of t] to_bin_loop.simps[of 0])
  next
    case False
    then have h: "256 ^ (length (to_bin_loop (t div 256)) - 1) \<le> t div 256" "t div 256 < 256 ^ length (to_bin_loop (t div 256))"
      using 1 by auto
    obtain k where k: "length (to_bin_loop (t div 256)) = Suc k"
      using False by (cases "length (to_bin_loop (t div 256))") (simp_all add: to_bin_loop.simps[of "t div 256"])
    have "256 ^ Suc k \<le> t" "t < 256 * 256 ^ Suc k" using h k by simp_all
    then show ?thesis using k 1(2) by (simp add: to_bin_loop.simps[of t])
  qed
qed

lemma read_bin_append: "read_bin_loop a (xs @ ys) = read_bin_loop (read_bin_loop a xs) ys"
  by (induction xs arbitrary: a) simp_all

lemma read_to_bin: "mp_read_unsigned_bin (rev (to_bin_loop t)) = int t"
proof (induction t rule: to_bin_loop.induct)
  case (1 t)
  show ?case
  proof (cases "t = 0")
    case True
    then show ?thesis by (simp add: to_bin_loop.simps mp_read_unsigned_bin_def)
  next
    case False
    then have "read_bin_loop 0 (rev (to_bin_loop (t div 256))) = int (t div 256)"
      using 1 by (simp add: mp_read_unsigned_bin_def)
    moreover have "unat (of_nat (t mod 256) :: u8) = t mod 256" by (simp add: unat_of_nat)
    moreover have "int (t div 256) * 256 + int (t mod 256) = int t"
      by (metis div_mult_mod_eq of_nat_add of_nat_mult of_nat_numeral)
    ultimately show ?thesis
      using False by (simp add: to_bin_loop.simps[of t] mp_read_unsigned_bin_def read_bin_append del: of_nat_mod)
  qed
qed

lemma mp_bin_roundtrip: "0 \<le> a \<Longrightarrow> mp_read_unsigned_bin (mp_to_unsigned_bin a) = a"
  by (simp add: mp_to_unsigned_bin_def read_to_bin)

lemma to_bin_Nil [simp]: "to_bin_loop t = [] \<longleftrightarrow> t = 0"
  by (subst to_bin_loop.simps) simp

text \<open>The number of bytes is the number of bits, rounded up.\<close>

lemma length_to_bin_bits: "length (to_bin_loop t) = (count_bits_loop t + 7) div 8"
proof (cases "t = 0")
  case False
  define n where "n = length (to_bin_loop t) - 1"
  have n: "length (to_bin_loop t) = Suc n" using False by (simp add: n_def)
  have b: "(256 :: nat) ^ n \<le> t" "t < 256 ^ Suc n" using length_to_bin[of t] False n by simp_all
  have e: "(256 :: nat) ^ k = 2 ^ (8 * k)" for k by (simp add: power_mult)
  have c: "count_bits_loop t \<noteq> 0" "2 ^ (count_bits_loop t - 1) \<le> t" "t < 2 ^ count_bits_loop t"
    using count_bits_bounds[of t] False by simp_all
  have "(2 :: nat) ^ (8 * n) < 2 ^ count_bits_loop t" "(2 :: nat) ^ (count_bits_loop t - 1) < 2 ^ (8 * Suc n)"
    using le_less_trans[OF b(1) c(3)] le_less_trans[OF c(2) b(2)] unfolding e by simp_all
  then have "8 * n < count_bits_loop t" "count_bits_loop t - 1 < 8 * Suc n"
    by (metis one_less_numeral_iff power_strict_increasing_iff semiring_norm(76))+
  then have "(count_bits_loop t + 7) div 8 = Suc n" by (intro div_nat_eqI) simp_all
  then show ?thesis using n by simp
qed (simp add: to_bin_loop.simps)

lemma mp_bin_size: "length (mp_to_unsigned_bin a) = mp_unsigned_bin_size a"
proof -
  have "(8 * q + r + 7) div 8 = q + (if r \<noteq> 0 then 1 else 0)" if "r < 8" for q r :: nat
    using that by (cases "r = 0") (auto intro!: div_nat_eqI)
  from this[of "n mod 8" "n div 8" for n] have "(n + 7) div 8 = n div 8 + (if n mod 8 \<noteq> 0 then 1 else 0)" for n :: nat
    by simp
  then show ?thesis by (simp add: mp_to_unsigned_bin_def mp_unsigned_bin_size_def length_to_bin_bits mp_count_bits_def Let_def)
qed

lemma last_to_bin: "0 < t \<Longrightarrow> unat (last (to_bin_loop t)) = t div 256 ^ (length (to_bin_loop t) - 1)"
proof (induction t rule: to_bin_loop.induct)
  case (1 t)
  show ?case
  proof (cases "t div 256 = 0")
    case True
    then have "t < 256" by (simp add: div_eq_0_iff)
    then show ?thesis using 1(2) True by (simp add: to_bin_loop.simps[of t] to_bin_loop.simps[of 0] unat_of_nat)
  next
    case False
    then have h: "unat (last (to_bin_loop (t div 256))) = t div 256 div 256 ^ (length (to_bin_loop (t div 256)) - 1)"
      using 1 by simp
    obtain k where k: "length (to_bin_loop (t div 256)) = Suc k"
      using False by (cases "length (to_bin_loop (t div 256))") simp_all
    show ?thesis using False 1(2) h k
      by (simp add: to_bin_loop.simps[of t] div_mult2_eq[symmetric] mult.commute)
  qed
qed

lemma and_128: "(c :: u8) AND 128 = 0 \<longleftrightarrow> unat c < 128"
proof -
  have "c AND 2 ^ 7 = 0 \<longleftrightarrow> \<not> bit c 7" by (rule and_exp_eq_0_iff_not_bit)
  moreover have "bit c 7 \<longleftrightarrow> odd (unat c div 128)" using bit_unsigned_iff[of c 7, where ?'a = nat] by (simp add: bit_iff_odd[of "unat c"])
  moreover have "unat c div 128 = (if unat c < 128 then 0 else 1)"
    using unat_u8_lt[of c] by (auto intro!: div_nat_eqI)
  ultimately show ?thesis by auto
qed

subsection \<open>The encoding of mpints\<close>

definition mp_enc :: "mp_int \<Rightarrow> bytes" where
  "mp_enc a = store32h (of_nat (mp_count_bits a div 8 + 1)) @
     (if mp_count_bits a mod 8 = 0 then [0] else []) @ mp_to_unsigned_bin a"

definition mp_fits :: "mp_int \<Rightarrow> bool" where
  "mp_fits a \<longleftrightarrow> 0 \<le> a \<and> mp_count_bits a div 8 < 1030"

lemma no_one_zero_digit: "\<not> (mp_used a = 1 \<and> mp_digit a 0 = 0)"
proof
  assume h: "mp_used a = 1 \<and> mp_digit a 0 = 0"
  then have c: "mp_count_bits a \<noteq> 0" "mp_count_bits a \<le> 28" by (auto simp: mp_used_def)
  have "nat \<bar>a\<bar> < 2 ^ mp_count_bits a" using count_bits_bounds(1)[of "nat \<bar>a\<bar>"] by (simp only: mp_count_bits_def)
  also have "\<dots> \<le> 2 ^ 28" using c(2) by (intro power_increasing) simp_all
  finally have "mp_digit a 0 = nat \<bar>a\<bar>" by (simp add: mp_digit_def)
  then show False using h c(1) by (simp add: mp_count_bits_def)
qed

lemma length_mp_bin:
  "length (mp_to_unsigned_bin a) = mp_count_bits a div 8 + 1 - (if mp_count_bits a mod 8 = 0 then 1 else 0)"
  by (simp add: mp_bin_size mp_unsigned_bin_size_def Let_def)

lemma length_mp_enc: "length (mp_enc a) = mp_count_bits a div 8 + 5"
  by (simp add: mp_enc_def length_mp_bin)

text \<open>Bytes stored at the write pointer, with the position moved behind them.\<close>

lemma puts_raw:
  assumes "unat n = length bs" and "length bs \<le> 3000000000"
  shows "puts (\<lambda>b. rbind (buf_getwriteptr b n) (\<lambda>p. rbind (mem_write (b_data b) p bs) (\<lambda>d.
     buf_incrwritepos (b\<lparr>b_data := d\<rparr>) n))) bs"
  using assms by (intro putsI) (simp_all add: buf_getwriteptr_eq write_incrwritepos)

lemma puts_mpint:
  assumes "mp_fits a"
  shows "puts (\<lambda>b. buf_putmpint b a) (mp_enc a)"
proof -
  let ?len = "mp_count_bits a div 8 + 1" and ?pad = "mp_count_bits a mod 8 = 0"
  have "unat (of_nat (?len - (if ?pad then 1 else 0)) :: u32) = length (mp_to_unsigned_bin a)"
    using assms by (simp add: length_mp_bin mp_fits_def unat_of_nat_u32 del: of_nat_diff)
  then have raw: "puts (\<lambda>b. rbind (buf_getwriteptr b (of_nat (?len - (if ?pad then 1 else 0)))) (\<lambda>p.
       rbind (mem_write (b_data b) p (mp_to_unsigned_bin a)) (\<lambda>d.
       buf_incrwritepos (b\<lparr>b_data := d\<rparr>) (of_nat (?len - (if ?pad then 1 else 0)))))) (mp_to_unsigned_bin a)"
    using assms by (intro puts_raw) (simp_all add: length_mp_bin mp_fits_def)
  have pad: "puts (\<lambda>b. if (if ?pad then 1 else 0) = (1 :: nat) then buf_putbyte b 0 else Inr b) (if ?pad then [0] else [])"
    using puts_byte puts_skip by simp
  have "\<not> a < 0" "0 < ?len" using assms by (simp_all add: mp_fits_def)
  then show ?thesis
    using puts_seq[OF puts_int puts_seq[OF pad raw], of "of_nat ?len"]
    unfolding buf_putmpint_def mp_enc_def Let_def if_not_P[OF no_one_zero_digit] prod.case
    by (simp only: if_True if_False)
qed

lemma top_bit_clear:
  assumes "0 < a" and "mp_count_bits a mod 8 \<noteq> 0"
  shows "hd (mp_to_unsigned_bin a) AND 128 = 0"
proof -
  let ?t = "nat a" and ?n = "mp_count_bits a div 8"
  have t: "0 < ?t" "to_bin_loop ?t \<noteq> []" using assms(1) by simp_all
  have l: "length (to_bin_loop ?t) = ?n + 1" using length_mp_bin[of a] assms by (simp add: mp_to_unsigned_bin_def)
  have "?t < 2 ^ mp_count_bits a" using count_bits_bounds(1)[of ?t] assms(1) by (simp add: mp_count_bits_def)
  also have "\<dots> \<le> 2 ^ (8 * ?n + 7)"
  proof (rule power_increasing)
    have "mp_count_bits a = 8 * ?n + mp_count_bits a mod 8" by simp
    then show "mp_count_bits a \<le> 8 * ?n + 7" using mod_less_divisor[of 8 "mp_count_bits a"] by linarith
  qed simp
  also have "\<dots> = 128 * 256 ^ ?n" by (simp add: power_add power_mult)
  finally have "?t div 256 ^ ?n < 128" by (simp add: less_mult_imp_div_less)
  then have "unat (last (to_bin_loop ?t)) < 128" using last_to_bin[OF t(1)] l by simp
  then show ?thesis using t assms(1) by (simp add: and_128 mp_to_unsigned_bin_def hd_rev)
qed

lemma read_bin_zero: "mp_read_unsigned_bin (0 # bs) = mp_read_unsigned_bin bs"
  by (simp add: mp_read_unsigned_bin_def)

lemma gets_mpint:
  assumes "mp_fits a"
  shows "gets buf_getmpint (mp_enc a) (Some a)"
  unfolding gets_def
proof (intro allI impI)
  fix b rest assume b: "buf_inv b" "unread b = mp_enc a @ rest"
  let ?n = "mp_count_bits a div 8 + 1"
  define body where "body = (if mp_count_bits a mod 8 = 0 then [0] else []) @ mp_to_unsigned_bin a"
  have lb: "length body = ?n" by (simp add: body_def length_mp_bin)
  have n: "unat (of_nat ?n :: u32) = ?n" using assms by (intro unat_of_nat_u32) (simp add: mp_fits_def)
  have u: "unread b = store32h (of_nat ?n) @ body @ rest" using b(2) by (simp add: mp_enc_def body_def)
  let ?b = "advance b 4"
  have 1: "buf_getint b = Inr (of_nat ?n, ?b)" using gets_ok[OF gets_int b(1) u] by simp
  have i: "buf_inv ?b" "unread ?b = body @ rest" using b(1) u by (simp_all add: advance_inv unread_advance)
  have hd: "hd body AND 128 = 0"
  proof (cases "mp_count_bits a mod 8 = 0")
    case False
    then have "0 < a" using assms by (cases "a = 0") (auto simp: mp_fits_def)
    then show ?thesis using top_bit_clear False by (simp add: body_def)
  qed (simp add: body_def)
  have rd: "buf_getptr ?b w = Inr (unat (b_pos ?b)) \<and> mem_read (b_data ?b) (unat (b_pos ?b)) (unat w) = Inr (take (unat w) body)"
    if "unat w \<le> ?n" for w
    using buf_getptr_ok[OF i(1), of w] take_unread[OF i(1), of "unat w"] i(2) lb that by simp
  have hb: "hd (take (unat (1 :: u32)) body) = hd body" using lb by (cases body) simp_all
  have v: "mp_read_unsigned_bin body = a"
    using assms mp_bin_roundtrip[of a] by (simp add: body_def read_bin_zero mp_fits_def)
  have inc: "buf_incrpos ?b (of_nat ?n) = Inr (advance ?b ?n)"
    using buf_incrpos_forward[OF i(1), of "of_nat ?n"] n i(2) lb assms by (simp add: mp_fits_def)
  have nz: "(of_nat ?n :: u32) \<noteq> 0" "\<not> (of_nat ?n :: u32) > BUF_MAX_MPINT"
    using n assms by (simp_all only: word_unat_eq_iff unat_0 BUF_MAX_MPINT_def word_less_nat_alt mp_fits_def) simp_all
  have tb: "take ?n body = body" using lb by simp
  have "buf_getmpint b = Inr (Some a, advance ?b ?n)"
    unfolding buf_getmpint_def 1 rbind_simps prod.case
    using nz hd hb rd[of 1] rd[of "of_nat ?n"] inc v n lb tb by simp
  then show "buf_getmpint b = Inr (Some a, advance b (length (mp_enc a)))"
    by (simp add: advance_def length_mp_enc add.commute)
qed

subsection \<open>The modular inverse\<close>

lemma mp_div_2_even: "even a \<Longrightarrow> 2 * mp_div_2 a = a"
  by (cases "0 \<le> a") (auto simp: mp_div_2_def sgn_if)

lemma mp_div_2_pos: "0 < a \<Longrightarrow> mp_div_2 a = a div 2"
  by (simp add: mp_div_2_def)

lemma halve_spec:
  assumes "odd x" and "0 \<le> u" and "x dvd u - B * y"
  shows "case halve x u B of (u', B') \<Rightarrow>
    0 \<le> u' \<and> u' \<le> u \<and> (u' = 0 \<longleftrightarrow> u = 0) \<and> x dvd u' - B' * y \<and> (0 < u \<longrightarrow> odd u') \<and>
    (\<forall>v. odd (gcd u v) \<longrightarrow> gcd u' v = gcd u v)"
  using assms
proof (induction x u B rule: halve.induct)
  case (1 x u B)
  show ?case
  proof (cases "u > 0 \<and> even u")
    case True
    let ?C = "mp_div_2 (if odd B then B - x else B)"
    obtain w where w: "u = 2 * w" using True by auto
    have C: "2 * ?C = (if odd B then B - x else B)" using 1(2) by (intro mp_div_2_even) simp
    have u2: "mp_div_2 u = u div 2" using True by (simp add: mp_div_2_pos)
    have "(u - B * y) + x * y = u - (B - x) * y" by (simp add: algebra_simps)
    moreover have "x dvd (u - B * y) + x * y" using 1(4) by simp
    ultimately have "x dvd u - (B - x) * y" by (simp only:)
    then have "x dvd u - (2 * ?C) * y" unfolding C using 1(4) by (simp only: split: if_splits) simp
    then have "x dvd 2 * (w - ?C * y)" by (simp add: w algebra_simps)
    moreover have "coprime x 2" using 1(2) by simp
    ultimately have "x dvd w - ?C * y" by (simp only: coprime_dvd_mult_right_iff)
    then have d: "x dvd u div 2 - ?C * y" by (simp only: w nonzero_mult_div_cancel_left[of 2, OF zero_neq_numeral[symmetric]])
    have g: "gcd w v = gcd u v" if "odd (gcd u v)" for v
    proof (rule zdvd_antisym_nonneg)
      have "gcd u v dvd 2 * w" by (simp add: w)
      moreover have "coprime (gcd u v) 2" using that coprime_right_2_iff_odd by blast
      ultimately have "gcd u v dvd w" by (simp only: coprime_dvd_mult_right_iff)
      then show "gcd u v dvd gcd w v" by simp
      show "gcd w v dvd gcd u v" by (simp add: w)
    qed simp_all
    have IH: "case halve x (u div 2) ?C of (u', B') \<Rightarrow>
      0 \<le> u' \<and> u' \<le> u div 2 \<and> (u' = 0 \<longleftrightarrow> u div 2 = 0) \<and> x dvd u' - B' * y \<and> (0 < u div 2 \<longrightarrow> odd u') \<and>
      (\<forall>v. odd (gcd (u div 2) v) \<longrightarrow> gcd u' v = gcd (u div 2) v)"
      using 1(1)[OF True] d 1(2) True unfolding u2 by simp
    have "halve x u B = halve x (u div 2) ?C" by (subst halve.simps) (simp only: True u2 if_True simp_thms)
    then show ?thesis using IH True g w by (auto split: prod.splits)
  next
    case False
    then have "halve x u B = (u, B)" by (subst halve.simps) (simp only: if_False)
    then show ?thesis using 1 False by auto
  qed
qed

lemma halve_facts:
  assumes "odd x" and "0 < u" and "x dvd u - B * y" and "halve x u B = (u', B')"
  shows "0 < u'" "u' \<le> u" "x dvd u' - B' * y" "odd (gcd u v) \<Longrightarrow> gcd u' v = gcd u v"
  using halve_spec[OF assms(1) less_imp_le[OF assms(2)] assms(3), unfolded assms(4) prod.case] assms(2)
  by (blast intro: order_le_neq_trans[of 0 u'] dest: sym)+

definition inv_ok :: "int \<Rightarrow> int \<Rightarrow> int \<times> int \<times> int \<times> int \<Rightarrow> bool" where
  "inv_ok x y = (\<lambda>(u, v, B, D). 0 \<le> u \<and> 0 < v \<and> x dvd u - B * y \<and> x dvd v - D * y \<and> gcd u v = gcd x y)"

lemma inv_round_ok:
  assumes "odd x" and "inv_ok x y (u, v, B, D)" and "0 < u" and "inv_round x (u, v, B, D) = (u', v', B', D')"
  shows "inv_ok x y (u', v', B', D')" and "u' + v' < u + v"
proof -
  note i = assms(2)[unfolded inv_ok_def, simplified]
  obtain u1 B1 where h1: "halve x u B = (u1, B1)" by fastforce
  obtain v1 D1 where h2: "halve x v D = (v1, D1)" by fastforce
  have og: "odd (gcd x y)" using assms(1) by (metis dvd_trans gcd_dvd1)
  have ogu: "odd (gcd u v)" using og i by metis
  note f1 = halve_facts[OF assms(1,3) _ h1, where y = y] and f2 = halve_facts[OF assms(1) _ _ h2, where y = y]
  have s1: "0 < u1" "u1 \<le> u" "x dvd u1 - B1 * y" using f1(1-3) i by simp_all
  have g1: "gcd u1 v = gcd x y" using f1(4)[OF _ ogu] i by simp
  then have "odd (gcd v u1)" using og by (metis gcd.commute)
  then have g2: "gcd v1 u1 = gcd v u1" using f2(4) i by blast
  have s2: "0 < v1" "v1 \<le> v" "x dvd v1 - D1 * y" using f2(1-3) i by simp_all
  have s24: "gcd u1 v1 = gcd x y" using g1 g2 by (simp only: gcd.commute)
  show "inv_ok x y (u', v', B', D')"
  proof (cases "u1 \<ge> v1")
    case True
    then have e: "u' = u1 - v1" "v' = v1" "B' = B1 - D1" "D' = D1" using assms(4) h1 h2 by (auto simp: inv_round_def)
    have "x dvd (u1 - B1 * y) - (v1 - D1 * y)" using s1(3) s2(3) by (rule dvd_diff)
    then have "x dvd u' - B' * y" by (simp add: e algebra_simps)
    moreover have "gcd u' v' = gcd x y" using s24 by (simp add: e gcd_diff1)
    ultimately show ?thesis using True s2 by (simp add: inv_ok_def e)
  next
    case False
    then have e: "u' = u1" "v' = v1 - u1" "B' = B1" "D' = D1 - B1" using assms(4) h1 h2 by (auto simp: inv_round_def)
    have "x dvd (v1 - D1 * y) - (u1 - B1 * y)" using s2(3) s1(3) by (rule dvd_diff)
    then have "x dvd v' - D' * y" by (simp add: e algebra_simps)
    moreover have "gcd u' v' = gcd x y" using s24 gcd_diff1[of v1 u1] unfolding e by (simp only: gcd.commute)
    ultimately show ?thesis using False s1 by (simp add: inv_ok_def e)
  qed
  show "u' + v' < u + v"
    using s1 s2 assms(4) h1 h2 by (auto simp: inv_round_def split: if_splits)
qed

lemma inv_top_ends:
  assumes "odd x" and "inv_ok x y s" and "0 < fst s"
  shows "\<exists>v D. inv_top x s = Some (v, D) \<and> 0 < v \<and> v = gcd x y \<and> x dvd v - D * y"
  using assms(2,3)
proof (induction "nat (fst s + fst (snd s))" arbitrary: s rule: less_induct)
  case less
  obtain u v B D where s: "s = (u, v, B, D)" by (cases s) auto
  obtain u' v' B' D' where r: "inv_round x s = (u', v', B', D')" by (cases "inv_round x s") auto
  note k = inv_round_ok[OF assms(1), of y u v B D u' v' B' D']
  have o: "inv_ok x y (u', v', B', D')" "u' + v' < u + v" using k less.prems r s by auto
  show ?case
  proof (cases "u' = 0")
    case True
    then show ?thesis using o r by (subst inv_top.simps) (auto simp: inv_ok_def)
  next
    case False
    then have p: "0 < u'" "0 < v'" using o(1) by (auto simp: inv_ok_def)
    then have "nat (u' + v') < nat (fst s + fst (snd s))" using o(2) s by simp
    from less.hyps[of "(u', v', B', D')"] this o(1) p show ?thesis
      using False r by (subst inv_top.simps) simp
  qed
qed

text \<open>With nothing to invert the rounds subtract zero, forever.\<close>

lemma inv_round_zero:
  assumes "odd x" and "0 < x"
  shows "inv_round x (x, 0, B, D) = (x, 0, B - D, D)"
  using assms by (simp add: inv_round_def halve.simps[of x x] halve.simps[of x 0])

lemma inv_top_zero_aux:
  assumes "inv_top x s = Some r"
  shows "odd x \<longrightarrow> 0 < x \<longrightarrow> (\<forall>B D. s \<noteq> (x, 0, B, D))"
proof -
  let ?P = "\<lambda>x s r. odd x \<longrightarrow> 0 < x \<longrightarrow> (\<forall>B D. s \<noteq> (x, 0, B, D))"
  have "(case (x, s) of (x, s) \<Rightarrow> ?P x s) r"
    by (rule inv_top.raw_induct[of ?P "(x, s)" r]) (fastforce simp: inv_round_zero split: if_splits, simp add: assms)
  then show ?thesis by simp
qed

lemma inv_top_zero:
  assumes "odd x" and "0 < x"
  shows "inv_top x (x, 0, B, D) = None"
  using inv_top_zero_aux[of x "(x, 0, B, D)"] assms by (cases "inv_top x (x, 0, B, D)") auto

lemma add_until_pos_spec: "0 < b \<Longrightarrow> 0 \<le> add_until_pos b d \<and> b dvd add_until_pos b d - d"
proof (induction b d rule: add_until_pos.induct)
  case (1 b d)
  show ?case
  proof (cases "d < 0")
    case True
    then have h: "0 \<le> add_until_pos b (d + b)" "b dvd add_until_pos b (d + b) - (d + b)" using 1 by auto
    have "add_until_pos b d = add_until_pos b (d + b)" by (subst add_until_pos.simps) (use True 1(2) in simp)
    moreover have "b dvd add_until_pos b (d + b) - (d + b) + b" using h(2) by (rule dvd_add) simp
    ultimately show ?thesis using h(1) by (simp add: algebra_simps)
  qed (simp add: add_until_pos.simps)
qed

lemma fast_mp_invmod_spec:
  assumes "odd b" and "0 < b" and "\<not> b dvd a"
  shows "\<exists>r. fast_mp_invmod a b = Some r \<and>
    (if coprime a b then \<exists>c. r = Some c \<and> 0 \<le> c \<and> a * c mod b = 1 mod b else r = None)"
proof -
  let ?y = "a mod b"
  have y: "0 < ?y" using assms by (metis dvd_eq_mod_eq_0 order_le_less pos_mod_sign)
  have "inv_ok b ?y (b, ?y, 0, 1)" using assms y by (simp add: inv_ok_def)
  from inv_top_ends[OF assms(1) this] obtain v D where
    t: "inv_top b (b, ?y, 0, 1) = Some (v, D)" "v = gcd b ?y" "b dvd v - D * ?y" using assms(2) by auto
  have g: "v = gcd a b" using t(2) by (metis gcd.commute gcd_red_int)
  have f: "fast_mp_invmod a b = Some (if v \<noteq> 1 then None else Some (add_until_pos b D))"
    using assms(1) t(1) by (simp add: fast_mp_invmod_def)
  show ?thesis
  proof (cases "v = 1")
    case True
    let ?c = "add_until_pos b D"
    note c = add_until_pos_spec[OF assms(2), of D]
    have "b dvd (a - ?y) * ?c" by (simp add: minus_mod_eq_mult_div)
    moreover have "b dvd ?y * (?c - D)" using c by simp
    moreover have "b dvd D * ?y - 1" using t(3) True by (metis dvd_diff_commute)
    ultimately have "b dvd (a - ?y) * ?c + ?y * (?c - D) + (D * ?y - 1)" by (intro dvd_add)
    then have "b dvd a * ?c - 1" by (simp add: algebra_simps)
    then have "a * ?c mod b = 1 mod b" by (simp add: mod_eq_dvd_iff)
    moreover have "coprime a b" using True g by (simp add: coprime_iff_gcd_eq_1)
    ultimately show ?thesis using f True c by auto
  next
    case False
    then show ?thesis using f g by (auto simp: coprime_iff_gcd_eq_1)
  qed
qed

subsection \<open>Random numbers and hashing\<close>

lemma gen_random_bounds:
  "gen_random_loop maximum size_bits len draws = Inr r \<Longrightarrow> r < maximum"
  by (induction draws) (auto simp: Let_def split: if_splits)

lemma read_bin_nonneg: "0 \<le> a \<Longrightarrow> 0 \<le> read_bin_loop a bs"
  by (induction bs arbitrary: a) simp_all

lemma gen_random_nonneg: "gen_random_loop maximum size_bits len draws = Inr r \<Longrightarrow> 0 \<le> r"
  by (induction draws) (auto simp: Let_def bytes_to_mp_def mp_read_unsigned_bin_def read_bin_nonneg split: if_splits)

lemma read_bin_zeros: "mp_read_unsigned_bin (replicate n 0) = 0"
  by (induction n) (simp_all add: mp_read_unsigned_bin_def)

lemma gen_random_zero:
  assumes "0 < maximum"
  shows "gen_random_loop maximum size_bits len ((\<lambda>i. 0) # draws) = Inr 0"
proof -
  have "(map (\<lambda>i. 0 :: u8) [0..<len])[0 := map (\<lambda>i. 0) [0..<len] ! 0 AND m] = replicate len 0" for m
    by (intro nth_equalityI) (auto simp: nth_list_update)
  then show ?thesis using assms by (simp add: bytes_to_mp_def read_bin_zeros)
qed

lemma sha1_process_mp_eq:
  assumes "mp_fits a" and "length (mp_enc a) \<le> 532"
  shows "sha1_process_mp hs a = Inr (hs @ mp_enc a)"
proof -
  let ?n = "length (mp_enc a)" and ?d = "patch (replicate 532 0) 0 (mp_enc a)"
  have k: "mk_ok (replicate 532 0 :: bytes) 0 0 532" "mk_ok ?d ?n ?n 532" "mk_ok ?d ?n 0 532" using assms(2) by (simp_all add: mk_ok_def)
  have 1: "buf_new 532 = Inr (mkbuf (replicate 532 0) 0 0 532)" using mk_new[of 532] by simp
  have 2: "buf_putmpint (mkbuf (replicate 532 0) 0 0 532) a = Inr (mkbuf ?d ?n ?n 532)"
    using puts_ok[OF puts_mpint[OF assms(1)] mk_inv[OF k(1)]] assms(2) by (simp add: room_mk[OF k(1)] overwrite_mk[OF k(1)])
  have u: "unat (of_nat ?n :: u32) = ?n" using assms(2) by (intro unat_of_nat_u32) simp
  have 3: "buf_setpos (mkbuf ?d ?n ?n 532) 0 = Inr (mkbuf ?d ?n 0 532)" using mk_setpos[OF k(2), of 0] by simp
  have 4: "buf_getptr (mkbuf ?d ?n 0 532) (of_nat ?n) = Inr 0" using u by (intro mk_getptr[OF k(3)]) simp
  have 5: "mem_read ?d 0 (unat (of_nat ?n :: u32)) = Inr (mp_enc a)" unfolding u using assms(2) by (simp add: patch_def)
  show ?thesis unfolding sha1_process_mp_def by (simp only: 1 2 3 4 5 rbind_simps mkbuf_fields Let_def)
qed

subsection \<open>Properties\<close>

interpretation mp_codec: wire_codec "\<lambda>a b. buf_putmpint b a"
  "\<lambda>b. rbind (buf_getmpint b) (\<lambda>(v, b'). Inr (the v, b'))" mp_enc mp_fits
proof
  fix b x rest assume "buf_inv b" "mp_fits x" "unread b = mp_enc x @ rest"
  then show "rbind (buf_getmpint b) (\<lambda>(v, b'). Inr (the v, b')) = Inr (x, advance b (length (mp_enc x)))"
    using gets_ok[OF gets_mpint] by simp
qed (use puts_ok[OF puts_mpint] puts_full[OF puts_mpint] in auto)

text \<open>
  C24: a number that \<open>buf_putmpint\<close> writes is the number \<open>buf_getmpint\<close> reads back from the same
  place, for every non-negative number of up to 8239 bits, and whatever the buffer held before.
\<close>
theorem mpint_roundtrip:
  assumes "buf_inv b" and "mp_fits a" and "length (mp_enc a) \<le> room b"
  shows "rbind (buf_putmpint b a) (\<lambda>b'. rbind (buf_setpos b' (b_pos b)) (\<lambda>b'. rbind (buf_getmpint b') (\<lambda>(v, b'). Inr (the v, b')))) =
    Inr (a, overwrite b (mp_enc a))"
  by (rule mp_codec.put_then_get[OF assms])

theorem mpint_roundtrip_witness:
  "rbind (buf_putmpint (mkbuf (replicate 16 0) 0 0 16) 200) (\<lambda>b'. rbind (buf_setpos b' 0) (\<lambda>b'.
     rbind (buf_getmpint b') (\<lambda>(v, b'). Inr (the v, b')))) = Inr (200, overwrite (mkbuf (replicate 16 0) 0 0 16) (mp_enc 200))"
proof -
  have k: "mk_ok (replicate 16 0 :: bytes) 0 0 16" by (simp add: mk_ok_def)
  have "mp_count_bits 200 = 8" using count_bits_unique[of 7 200] by (simp add: mp_count_bits_def)
  then have "mp_fits 200" "length (mp_enc 200) = 6" by (simp_all add: mp_fits_def length_mp_enc)
  then show ?thesis using mpint_roundtrip[OF mk_inv[OF k], of 200] room_mk[OF k] by simp
qed

text \<open>
  Zero is not written the way the zero check of \<open>buf_putmpint\<close> intends: the check looks for
  one digit of value zero, libtommath represents zero by no digits, and the bytes written are
  \<open>00 00 00 01 00\<close> where the protocol has \<open>00 00 00 00\<close>.
\<close>
theorem mpint_zero_has_a_byte:
  "mp_enc 0 = [0, 0, 0, 1, 0] \<and> puts (\<lambda>b. buf_putmpint b 0) (mp_enc 0)"
  using puts_mpint[of 0] by (simp add: mp_fits_def mp_enc_def mp_to_unsigned_bin_def to_bin_loop.simps store32h_def)



text \<open>
  On a multiple of an odd modulus, zero among them, \<open>fast_mp_invmod\<close> never returns: each
  round subtracts zero and starts over. \<open>buf_dss_verify\<close> calls it on a number from the peer.
\<close>
theorem invmod_zero_hangs:
  assumes "odd b" and "0 < b" and "b dvd a"
  shows "fast_mp_invmod a b = None"
  using assms inv_top_zero[OF assms(1,2)] by (simp add: fast_mp_invmod_def)

theorem invmod_zero_hangs_witness: "fast_mp_invmod 0 7 = None"
  by (rule invmod_zero_hangs) simp_all

text \<open>
  C35: \<open>gen_random_mpint\<close> returns a number from zero up to, not including, the maximum, from the
  first draw that gives one; the comment in the loop promises a number above zero, but a draw of
  zero bytes is accepted.
\<close>
theorem random_mpint_range:
  "(gen_random_mpint draws maximum = Inr r \<longrightarrow> 0 \<le> r \<and> r < maximum) \<and>
   (0 < maximum \<longrightarrow> gen_random_mpint ((\<lambda>i. 0) # draws) maximum = Inr 0)"
proof (intro conjI impI)
  assume "0 < maximum"
  then have "mp_count_bits maximum \<noteq> 0" by (simp add: mp_count_bits_def)
  then have "mp_count_bits maximum div 8 + (if mp_count_bits maximum mod 8 \<noteq> 0 then 1 else 0) \<noteq> 0" by (auto simp: div_eq_0_iff)
  then show "gen_random_mpint ((\<lambda>i. 0) # draws) maximum = Inr 0"
    using gen_random_zero[OF \<open>0 < maximum\<close>] unfolding gen_random_mpint_def m_malloc_def Let_def by (simp only: if_False rbind_simps)
qed (auto simp: gen_random_mpint_def Let_def rbind_eq_Inr_iff gen_random_bounds gen_random_nonneg)

theorem random_mpint_range_witness:
  "gen_random_mpint [\<lambda>i. 0] 200 = Inr 0"
  using random_mpint_range[of "[]" 200 0] count_bits_unique[of 7 200] by (simp add: mp_count_bits_def)

end
