(* ===== verification/SignKey.thy ===== *)
theory SignKey
  imports Mpint Session
begin

text \<open>
  Public keys and signatures: \<^verbatim>\<open>src/reconos/dropbear/rsa.c\<close>, \<^verbatim>\<open>dss.c\<close> and \<^verbatim>\<open>signkey.c\<close>. A key is a record of its
  numbers, a null pointer \<open>None\<close>; \<open>DROPBEAR_FAILURE\<close> is \<open>None\<close> or \<open>False\<close>. The numbers that
  \<open>genrandom\<close> delivers are the argument \<open>draws\<close>. Freeing keys is not modelled.
\<close>

subsection \<open>Keys\<close>

record dropbear_rsa_key =
  rsa_n :: mp_int
  rsa_e :: mp_int
  rsa_d :: "mp_int option"
  rsa_p :: "mp_int option"
  rsa_q :: "mp_int option"

record dropbear_dss_key =
  dss_p :: mp_int
  dss_q :: mp_int
  dss_g :: mp_int
  dss_y :: mp_int
  dss_x :: "mp_int option"

record sign_key =
  sk_dsskey :: "dropbear_dss_key option"
  sk_rsakey :: "dropbear_rsa_key option"

definition new_sign_key :: sign_key where
  "new_sign_key = \<lparr>sk_dsskey = None, sk_rsakey = None\<rparr>"

definition DROPBEAR_SIGNKEY_ANY :: int where "DROPBEAR_SIGNKEY_ANY = 0"
definition DROPBEAR_SIGNKEY_NONE :: int where "DROPBEAR_SIGNKEY_NONE = 3"
definition SSH_SIGNKEY_RSA :: bytes where "SSH_SIGNKEY_RSA = ascii ''ssh-rsa''"
definition SSH_SIGNKEY_DSS :: bytes where "SSH_SIGNKEY_DSS = ascii ''ssh-dss''"
definition MIN_RSA_KEYLEN :: nat where "MIN_RSA_KEYLEN = 512"
definition MIN_DSS_KEYLEN :: nat where "MIN_DSS_KEYLEN = 512"
definition MAX_PUBKEY_SIZE :: u32 where "MAX_PUBKEY_SIZE = 1700"
definition DSS_SIGNATURE_SIZE :: u32 where "DSS_SIGNATURE_SIZE = 55"
definition SHA1_SIZE :: nat where "SHA1_SIZE = 20"

text \<open>A failing \<open>buf_getmpint\<close> ends the caller with \<open>DROPBEAR_FAILURE\<close>.\<close>

definition with_mpint ::
  "(mp_int \<Rightarrow> buffer \<Rightarrow> ('a option \<times> buffer) result) \<Rightarrow> buffer \<Rightarrow> ('a option \<times> buffer) result" where
  "with_mpint k buf =
     rbind (buf_getmpint buf) (\<lambda>(v, buf). case v of None \<Rightarrow> Inr (None, buf) | Some m \<Rightarrow> k m buf)"

definition put_mpint_ptr :: "buffer \<Rightarrow> mp_int option \<Rightarrow> buffer result" where
  "put_mpint_ptr buf p =
     rbind (require (p \<noteq> None) (Assert ''mp != NULL'')) (\<lambda>_. buf_putmpint buf (the p))"

subsection \<open>rsa.c: key formats\<close>

definition buf_get_rsa_pub_key :: "buffer \<Rightarrow> (dropbear_rsa_key option \<times> buffer) result" where
  "buf_get_rsa_pub_key buf =
     rbind (buf_incrpos buf 11) (
     with_mpint (\<lambda>e. with_mpint (\<lambda>n buf.
       if mp_count_bits n < MIN_RSA_KEYLEN then Inr (None, buf)
       else Inr (Some \<lparr>rsa_n = n, rsa_e = e, rsa_d = None, rsa_p = None, rsa_q = None\<rparr>, buf))))"

definition buf_get_rsa_priv_key :: "buffer \<Rightarrow> (dropbear_rsa_key option \<times> buffer) result" where
  "buf_get_rsa_priv_key buf =
     rbind (buf_get_rsa_pub_key buf) (\<lambda>(pub, buf).
     case pub of
       None \<Rightarrow> Inr (None, buf)
     | Some key \<Rightarrow>
         with_mpint (\<lambda>d buf.
           if b_pos buf = b_len buf then Inr (Some (key\<lparr>rsa_d := Some d\<rparr>), buf)
           else with_mpint (\<lambda>p. with_mpint (\<lambda>q buf.
                  Inr (Some (key\<lparr>rsa_d := Some d, rsa_p := Some p, rsa_q := Some q\<rparr>), buf))) buf) buf)"

definition buf_put_rsa_pub_key :: "buffer \<Rightarrow> dropbear_rsa_key \<Rightarrow> buffer result" where
  "buf_put_rsa_pub_key buf key =
     rbind (buf_putstring buf SSH_SIGNKEY_RSA 7) (\<lambda>buf.
     rbind (buf_putmpint buf (rsa_e key)) (\<lambda>buf.
     buf_putmpint buf (rsa_n key)))"

definition buf_put_rsa_priv_key :: "buffer \<Rightarrow> dropbear_rsa_key \<Rightarrow> buffer result" where
  "buf_put_rsa_priv_key buf key =
     rbind (buf_put_rsa_pub_key buf key) (\<lambda>buf.
     rbind (put_mpint_ptr buf (rsa_d key)) (\<lambda>buf.
     rbind (case rsa_p key of Some p \<Rightarrow> buf_putmpint buf p | None \<Rightarrow> Inr buf) (\<lambda>buf.
     case rsa_q key of Some q \<Rightarrow> buf_putmpint buf q | None \<Rightarrow> Inr buf)))"

subsection \<open>rsa.c: signatures\<close>

definition rsa_asn1_magic :: bytes where
  "rsa_asn1_magic = [0x00, 0x30, 0x21, 0x30, 0x09, 0x06, 0x05, 0x2b, 0x0e, 0x03, 0x02, 0x1a, 0x05, 0x00, 0x04, 0x14]"

text \<open>
  The padding loop writes \<open>0xff\<close> up to a position; it could only miss that position by running
  into the end of the buffer, after at most as many rounds as the buffer has bytes.
\<close>

fun pad_ff :: "nat \<Rightarrow> u32 \<Rightarrow> buffer \<Rightarrow> buffer result" where
  "pad_ff 0 target b = (if b_pos b \<noteq> target then Inl (Exit ''Bad buf_incrlen'') else Inr b)"
| "pad_ff (Suc n) target b =
     (if b_pos b \<noteq> target then rbind (buf_putbyte b 0xff) (pad_ff n target) else Inr b)"

definition rsa_pad_em :: "crypto \<Rightarrow> dropbear_rsa_key \<Rightarrow> bytes \<Rightarrow> mp_int result" where
  "rsa_pad_em cr key data =
     (let nsize = of_nat (mp_unsigned_bin_size (rsa_n key)) :: u32
      in rbind (buf_new (nsize - 1)) (\<lambda>rsa_EM.
         rbind (buf_putbyte rsa_EM 1) (\<lambda>rsa_EM.
         rbind (pad_ff (unat (b_size rsa_EM)) (b_size rsa_EM - 16 - 20) rsa_EM) (\<lambda>rsa_EM.
         rbind (buf_putbytes rsa_EM rsa_asn1_magic 16) (\<lambda>rsa_EM.
         rbind (buf_putbytes rsa_EM (cr_hash cr sha1_desc data) 20) (\<lambda>rsa_EM.
         rbind (require (b_pos rsa_EM = b_size rsa_EM) (Assert ''rsa_EM->pos == rsa_EM->size'')) (\<lambda>_.
         rbind (buf_setpos rsa_EM 0) (\<lambda>rsa_EM.
         rbind (buf_getptr rsa_EM (b_size rsa_EM)) (\<lambda>p.
         rbind (mem_read (b_data rsa_EM) p (unat (b_size rsa_EM))) (\<lambda>bs.
         Inr (bytes_to_mp bs)))))))))))"

definition buf_rsa_verify ::
  "crypto \<Rightarrow> buffer \<Rightarrow> dropbear_rsa_key \<Rightarrow> bytes \<Rightarrow> (bool \<times> buffer) result" where
  "buf_rsa_verify cr buf key data =
     rbind (buf_getint buf) (\<lambda>(slen, buf).
     if slen \<noteq> of_nat (mp_unsigned_bin_size (rsa_n key)) then Inr (False, buf)
     else
       let rest = b_len buf - b_pos buf
       in rbind (buf_getptr buf rest) (\<lambda>p.
          rbind (mem_read (b_data buf) p (unat rest)) (\<lambda>bs.
          let s = mp_read_unsigned_bin bs
          in if \<not> s < rsa_n key then Inr (False, buf)
             else
               rbind (rsa_pad_em cr key data) (\<lambda>em.
               case mp_exptmod s (rsa_e key) (rsa_n key) of
                 None \<Rightarrow> Inr (False, buf)
               | Some mdash \<Rightarrow> Inr (em = mdash, buf)))))"

text \<open>\<open>MP_OKAY\<close> or exit.\<close>

definition mp_okay :: "string \<Rightarrow> 'a option \<Rightarrow> 'a result" where
  "mp_okay msg r = (case r of None \<Rightarrow> Inl (Exit msg) | Some x \<Rightarrow> Inr x)"

fun put_zeros :: "nat \<Rightarrow> buffer \<Rightarrow> buffer result" where
  "put_zeros 0 b = Inr b"
| "put_zeros (Suc n) b = rbind (buf_putbyte b 0) (put_zeros n)"

text \<open>A number padded with leading zeros to \<open>width\<close> bytes.\<close>

definition put_padded :: "string \<Rightarrow> nat \<Rightarrow> buffer \<Rightarrow> mp_int \<Rightarrow> buffer result" where
  "put_padded msg width buf a =
     (let writelen = mp_unsigned_bin_size a
      in rbind (require (writelen \<le> width) (Assert msg)) (\<lambda>_.
         rbind (put_zeros (width - writelen) buf) (\<lambda>buf.
         rbind (buf_getwriteptr buf (of_nat writelen)) (\<lambda>p.
         rbind (mem_write (b_data buf) p (mp_to_unsigned_bin a)) (\<lambda>d.
         buf_incrwritepos (buf\<lparr>b_data := d\<rparr>) (of_nat writelen))))))"

text \<open>Signing with blinding: \<open>r\<close> random, \<open>s = r\<^sup>-\<^sup>1 (em r\<^sup>e)\<^sup>d\<close> modulo \<open>n\<close>.\<close>

definition rsa_blind_sign :: "(nat \<Rightarrow> u8) list \<Rightarrow> dropbear_rsa_key \<Rightarrow> mp_int \<Rightarrow> mp_int result" where
  "rsa_blind_sign draws key em =
     rbind (gen_random_mpint draws (rsa_n key)) (\<lambda>r.
     rbind (mp_okay ''RSA error'' (mp_exptmod r (rsa_e key) (rsa_n key))) (\<lambda>re.
     rbind (mp_invmod r (rsa_n key)) (\<lambda>inv.
     rbind (mp_okay ''RSA error'' inv) (\<lambda>rinv.
     rbind (mp_okay ''RSA error'' (mp_mulmod em re (rsa_n key))) (\<lambda>em'.
     rbind (deref (rsa_d key)) (\<lambda>d.
     rbind (mp_okay ''RSA error'' (mp_exptmod em' d (rsa_n key))) (\<lambda>s'.
     mp_okay ''RSA error'' (mp_mulmod s' rinv (rsa_n key)))))))))"

definition buf_put_rsa_sign ::
  "crypto \<Rightarrow> (nat \<Rightarrow> u8) list \<Rightarrow> buffer \<Rightarrow> dropbear_rsa_key \<Rightarrow> bytes \<Rightarrow> buffer result" where
  "buf_put_rsa_sign cr draws buf key data =
     rbind (rsa_pad_em cr key data) (\<lambda>em.
     rbind (rsa_blind_sign draws key em) (\<lambda>s.
     rbind (buf_putstring buf SSH_SIGNKEY_RSA 7) (\<lambda>buf.
     let nsize = mp_unsigned_bin_size (rsa_n key)
     in rbind (buf_putint buf (of_nat nsize)) (\<lambda>buf.
        put_padded ''ssize <= nsize'' nsize buf s))))"

subsection \<open>dss.c\<close>

definition buf_get_dss_pub_key :: "buffer \<Rightarrow> (dropbear_dss_key option \<times> buffer) result" where
  "buf_get_dss_pub_key buf =
     rbind (buf_incrpos buf 11) (
     with_mpint (\<lambda>p. with_mpint (\<lambda>q. with_mpint (\<lambda>g. with_mpint (\<lambda>y buf.
       if mp_count_bits p < MIN_DSS_KEYLEN then Inr (None, buf)
       else Inr (Some \<lparr>dss_p = p, dss_q = q, dss_g = g, dss_y = y, dss_x = None\<rparr>, buf))))))"

definition buf_get_dss_priv_key :: "buffer \<Rightarrow> (dropbear_dss_key option \<times> buffer) result" where
  "buf_get_dss_priv_key buf =
     rbind (buf_get_dss_pub_key buf) (\<lambda>(pub, buf).
     case pub of
       None \<Rightarrow> Inr (None, buf)
     | Some key \<Rightarrow> with_mpint (\<lambda>x buf. Inr (Some (key\<lparr>dss_x := Some x\<rparr>), buf)) buf)"

definition buf_put_dss_pub_key :: "buffer \<Rightarrow> dropbear_dss_key \<Rightarrow> buffer result" where
  "buf_put_dss_pub_key buf key =
     rbind (buf_putstring buf SSH_SIGNKEY_DSS 7) (\<lambda>buf.
     rbind (buf_putmpint buf (dss_p key)) (\<lambda>buf.
     rbind (buf_putmpint buf (dss_q key)) (\<lambda>buf.
     rbind (buf_putmpint buf (dss_g key)) (\<lambda>buf.
     buf_putmpint buf (dss_y key)))))"

definition buf_put_dss_priv_key :: "buffer \<Rightarrow> dropbear_dss_key \<Rightarrow> buffer result" where
  "buf_put_dss_priv_key buf key =
     rbind (buf_put_dss_pub_key buf key) (\<lambda>buf. put_mpint_ptr buf (dss_x key))"

text \<open>A library call whose failure means that the signature is not accepted.\<close>

definition or_bad :: "'a option \<Rightarrow> ('a \<Rightarrow> bool result) \<Rightarrow> bool result" where
  "or_bad r k = (case r of None \<Rightarrow> Inr False | Some x \<Rightarrow> k x)"

definition dss_check :: "dropbear_dss_key \<Rightarrow> mp_int \<Rightarrow> mp_int \<Rightarrow> mp_int \<Rightarrow> bool result" where
  "dss_check key m r s =
     (if \<not> s < dss_q key then Inr False
      else
        rbind (mp_invmod s (dss_q key)) (\<lambda>inv.
        or_bad inv (\<lambda>w.
        or_bad (mp_mulmod m w (dss_q key)) (\<lambda>u1.
        if \<not> r < dss_q key then Inr False
        else
          or_bad (mp_mulmod r w (dss_q key)) (\<lambda>u2.
          or_bad (mp_exptmod (dss_g key) u1 (dss_p key)) (\<lambda>gu.
          or_bad (mp_exptmod (dss_y key) u2 (dss_p key)) (\<lambda>yu.
          or_bad (mp_mulmod gu yu (dss_p key)) (\<lambda>v.
          or_bad (mp_mod v (dss_q key)) (\<lambda>v. Inr (v = r))))))))))"

definition buf_dss_verify ::
  "crypto \<Rightarrow> buffer \<Rightarrow> dropbear_dss_key \<Rightarrow> bytes \<Rightarrow> (bool \<times> buffer) result" where
  "buf_dss_verify cr buf key data =
     rbind (buf_getstring buf) (\<lambda>(str, stringlen, buf).
     if stringlen \<noteq> 40 then Inr (False, buf)
     else
       rbind (mem_read str 20 20) (\<lambda>sbytes.
       rbind (mem_read str 0 20) (\<lambda>rbytes.
       rbind (dss_check key (bytes_to_mp (cr_hash cr sha1_desc data)) (bytes_to_mp rbytes) (bytes_to_mp sbytes)) (\<lambda>ok.
       Inr (ok, buf)))))"

definition dss_sign_values ::
  "(nat \<Rightarrow> u8) list \<Rightarrow> dropbear_dss_key \<Rightarrow> mp_int \<Rightarrow> (mp_int \<times> mp_int) result" where
  "dss_sign_values draws key m =
     rbind (gen_random_mpint draws (dss_q key)) (\<lambda>k.
     rbind (mp_okay ''DSS error'' (mp_exptmod (dss_g key) k (dss_p key))) (\<lambda>gk.
     rbind (mp_okay ''DSS error'' (mp_mod gk (dss_q key))) (\<lambda>r.
     rbind (deref (dss_x key)) (\<lambda>x.
     rbind (mp_okay ''DSS error'' (mp_mulmod r x (dss_q key))) (\<lambda>xr.
     rbind (mp_okay ''DSS error'' (mp_addmod m xr (dss_q key))) (\<lambda>mxr.
     rbind (mp_invmod k (dss_q key)) (\<lambda>inv.
     rbind (mp_okay ''DSS error'' inv) (\<lambda>kinv.
     rbind (mp_okay ''DSS error'' (mp_mulmod kinv mxr (dss_q key))) (\<lambda>s.
     Inr (r, s))))))))))"

definition buf_put_dss_sign ::
  "crypto \<Rightarrow> (nat \<Rightarrow> u8) list \<Rightarrow> buffer \<Rightarrow> dropbear_dss_key \<Rightarrow> bytes \<Rightarrow> buffer result" where
  "buf_put_dss_sign cr draws buf key data =
     rbind (dss_sign_values draws key (bytes_to_mp (cr_hash cr sha1_desc data))) (\<lambda>(r, s).
     rbind (buf_putstring buf SSH_SIGNKEY_DSS 7) (\<lambda>buf.
     rbind (buf_putint buf 40) (\<lambda>buf.
     rbind (put_padded ''writelen <= SHA1_HASH_SIZE'' 20 buf r) (\<lambda>buf.
     put_padded ''writelen <= SHA1_HASH_SIZE'' 20 buf s))))"

subsection \<open>signkey.c\<close>

definition signkey_name_from_type :: "int \<Rightarrow> bytes result" where
  "signkey_name_from_type type =
     (if type = DROPBEAR_SIGNKEY_RSA then Inr SSH_SIGNKEY_RSA
      else if type = DROPBEAR_SIGNKEY_DSS then Inr SSH_SIGNKEY_DSS
      else Inl (Exit ''Bad key type''))"

text \<open>\<open>memcmp (p, lit, n)\<close> with a string literal: both objects are read for \<open>n\<close> bytes.\<close>

definition memcmp_lit :: "bytes \<Rightarrow> bytes \<Rightarrow> nat \<Rightarrow> bool result" where
  "memcmp_lit p lit n =
     rbind (mem_read p 0 n) (\<lambda>x. rbind (mem_read (lit @ [0]) 0 n) (\<lambda>y. Inr (x = y)))"

definition signkey_type_from_name :: "bytes \<Rightarrow> u32 \<Rightarrow> int result" where
  "signkey_type_from_name name namelen =
     rbind (if namelen = 7 then memcmp_lit name SSH_SIGNKEY_RSA 7 else Inr False) (\<lambda>rsa.
     if rsa then Inr DROPBEAR_SIGNKEY_RSA
     else
       rbind (if namelen = 7 then memcmp_lit name SSH_SIGNKEY_DSS 7 else Inr False) (\<lambda>dss.
       if dss then Inr DROPBEAR_SIGNKEY_DSS else Inr DROPBEAR_SIGNKEY_NONE))"

text \<open>
  Reading a key: the name decides which part of \<open>key\<close> is replaced; the result has the type
  read (the argument when it does not match), the key and whether it was read. The name is
  rewound with the negative increment \<open>-len - 4\<close>.
\<close>

definition get_key_with ::
  "(buffer \<Rightarrow> (dropbear_dss_key option \<times> buffer) result) \<Rightarrow> (buffer \<Rightarrow> (dropbear_rsa_key option \<times> buffer) result) \<Rightarrow>
     buffer \<Rightarrow> sign_key \<Rightarrow> int \<Rightarrow> (bool \<times> sign_key \<times> int \<times> buffer) result" where
  "get_key_with get_dss get_rsa buf key type =
     rbind (buf_getstring buf) (\<lambda>(ident, len, buf).
     rbind (signkey_type_from_name ident len) (\<lambda>keytype.
     if type \<noteq> DROPBEAR_SIGNKEY_ANY \<and> type \<noteq> keytype then Inr (False, key, type, buf)
     else
       rbind (buf_incrpos buf (- len - 4)) (\<lambda>buf.
       if keytype = DROPBEAR_SIGNKEY_DSS then
         rbind (get_dss buf) (\<lambda>(k, buf). Inr (k \<noteq> None, key\<lparr>sk_dsskey := k\<rparr>, keytype, buf))
       else if keytype = DROPBEAR_SIGNKEY_RSA then
         rbind (get_rsa buf) (\<lambda>(k, buf). Inr (k \<noteq> None, key\<lparr>sk_rsakey := k\<rparr>, keytype, buf))
       else Inr (False, key, keytype, buf))))"

definition buf_get_pub_key :: "buffer \<Rightarrow> sign_key \<Rightarrow> int \<Rightarrow> (bool \<times> sign_key \<times> int \<times> buffer) result" where
  "buf_get_pub_key = get_key_with buf_get_dss_pub_key buf_get_rsa_pub_key"

definition buf_get_priv_key :: "buffer \<Rightarrow> sign_key \<Rightarrow> int \<Rightarrow> (bool \<times> sign_key \<times> int \<times> buffer) result" where
  "buf_get_priv_key = get_key_with buf_get_dss_priv_key buf_get_rsa_priv_key"

definition key_ptr :: "'a option \<Rightarrow> 'a result" where
  "key_ptr k = (case k of None \<Rightarrow> Inl (Assert ''key != NULL'') | Some x \<Rightarrow> Inr x)"

text \<open>A blob built in a buffer of its own and appended as a string.\<close>

definition put_blob :: "string \<Rightarrow> (buffer \<Rightarrow> buffer result) \<Rightarrow> buffer \<Rightarrow> buffer result" where
  "put_blob msg f buf =
     rbind (buf_new MAX_PUBKEY_SIZE) (\<lambda>blob.
     rbind (f blob) (\<lambda>blob.
     if b_len blob = 0 then Inl (Exit msg)
     else
       rbind (buf_setpos blob 0) (\<lambda>blob.
       rbind (buf_getptr blob (b_len blob)) (\<lambda>p.
       buf_putstring buf (drop p (b_data blob)) (b_len blob)))))"

definition buf_put_pub_key :: "buffer \<Rightarrow> sign_key \<Rightarrow> int \<Rightarrow> buffer result" where
  "buf_put_pub_key buf key type =
     put_blob ''Bad key types in buf_put_pub_key'' (\<lambda>pubkeys.
       rbind (if type = DROPBEAR_SIGNKEY_DSS
              then rbind (key_ptr (sk_dsskey key)) (buf_put_dss_pub_key pubkeys) else Inr pubkeys) (\<lambda>pubkeys.
       if type = DROPBEAR_SIGNKEY_RSA
       then rbind (key_ptr (sk_rsakey key)) (buf_put_rsa_pub_key pubkeys) else Inr pubkeys)) buf"

definition buf_put_priv_key :: "buffer \<Rightarrow> sign_key \<Rightarrow> int \<Rightarrow> buffer result" where
  "buf_put_priv_key buf key type =
     (if type = DROPBEAR_SIGNKEY_DSS then rbind (key_ptr (sk_dsskey key)) (buf_put_dss_priv_key buf)
      else if type = DROPBEAR_SIGNKEY_RSA then rbind (key_ptr (sk_rsakey key)) (buf_put_rsa_priv_key buf)
      else Inl (Exit ''Bad key types in put pub key''))"

definition buf_put_sign ::
  "crypto \<Rightarrow> (nat \<Rightarrow> u8) list \<Rightarrow> buffer \<Rightarrow> sign_key \<Rightarrow> int \<Rightarrow> bytes \<Rightarrow> buffer result" where
  "buf_put_sign cr draws buf key type data =
     put_blob ''Non-matching signing type'' (\<lambda>sigblob.
       rbind (if type = DROPBEAR_SIGNKEY_DSS
              then rbind (key_ptr (sk_dsskey key)) (\<lambda>k. buf_put_dss_sign cr draws sigblob k data) else Inr sigblob) (\<lambda>sigblob.
       if type = DROPBEAR_SIGNKEY_RSA
       then rbind (key_ptr (sk_rsakey key)) (\<lambda>k. buf_put_rsa_sign cr draws sigblob k data) else Inr sigblob)) buf"

definition buf_verify ::
  "crypto \<Rightarrow> buffer \<Rightarrow> sign_key \<Rightarrow> bytes \<Rightarrow> (bool \<times> buffer) result" where
  "buf_verify cr buf key data =
     rbind (buf_getint buf) (\<lambda>(bloblen, buf).
     rbind (buf_getstring buf) (\<lambda>(ident, identlen, buf).
     rbind (if bloblen = DSS_SIGNATURE_SIZE then memcmp_lit ident SSH_SIGNKEY_DSS (unat identlen) else Inr False) (\<lambda>dss.
     if dss then
       (case sk_dsskey key of
          None \<Rightarrow> Inl (Exit ''No DSS key to verify signature'')
        | Some k \<Rightarrow> buf_dss_verify cr buf k data)
     else
       rbind (memcmp_lit ident SSH_SIGNKEY_RSA (unat identlen)) (\<lambda>rsa.
       if rsa then
         (case sk_rsakey key of
            None \<Rightarrow> Inl (Exit ''No RSA key to verify signature'')
          | Some k \<Rightarrow> buf_rsa_verify cr buf k data)
       else Inl (Exit ''Non-matching signing type'')))))"

definition hexdig :: "u8 \<Rightarrow> u8" where
  "hexdig x = (if x > 0xf then 88 else if x < 10 then 48 + x else 97 + x - 10)"

definition sign_key_md5_fingerprint :: "crypto \<Rightarrow> bytes \<Rightarrow> bytes" where
  "sign_key_md5_fingerprint cr keyblob =
     (let hash = cr_hash cr md5_desc keyblob; buflen = 4 + 3 * 16;
          ret = ascii ''md5 '' @ concat (map (\<lambda>h. [hexdig (drop_bit 4 h), hexdig (h AND 0x0f), 58]) hash)
      in take buflen (ret[buflen - 1 := 0]))"

definition sign_key_fingerprint :: "crypto \<Rightarrow> bytes \<Rightarrow> bytes" where
  "sign_key_fingerprint cr keyblob = sign_key_md5_fingerprint cr keyblob"

subsection \<open>Signing and checking\<close>

lemma mp_invmod_inverse:
  assumes "odd b" and "0 < b" and "coprime a b" and "mp_invmod a b = Inr (Some c)"
  shows "a * c mod b = 1 mod b" "0 \<le> c"
proof -
  have f: "fast_mp_invmod a b = Some (Some c)"
    using assms(1,2,4) by (auto simp: mp_invmod_def split: option.splits)
  have "\<not> b dvd a"
  proof
    assume "b dvd a"
    then have "fast_mp_invmod a b = None" using inv_top_zero[OF assms(1,2)] assms(1) by (simp add: fast_mp_invmod_def)
    then show False using f by simp
  qed
  from fast_mp_invmod_spec[OF assms(1,2) this] f assms(3) show "a * c mod b = 1 mod b" "0 \<le> c" by auto
qed

lemma mp_invmod_total:
  assumes "odd b" and "1 < b" and "coprime a b"
  obtains c where "mp_invmod a b = Inr (Some c)" and "a * c mod b = 1 mod b" and "0 \<le> c"
proof -
  have "\<not> b dvd a"
  proof
    assume "b dvd a"
    then have "b dvd 1" using assms(3) by (meson coprime_common_divisor dvd_refl)
    then show False using assms(2) by simp
  qed
  from fast_mp_invmod_spec[OF assms(1) _ this] assms obtain c where
    "fast_mp_invmod a b = Some (Some c)" "a * c mod b = 1 mod b" "0 \<le> c" by auto
  then show thesis using that assms by (simp add: mp_invmod_def)
qed

text \<open>A key pair: the private exponent undoes the public one modulo \<open>n\<close>.\<close>

definition rsa_pair :: "dropbear_rsa_key \<Rightarrow> bool" where
  "rsa_pair key \<longleftrightarrow> odd (rsa_n key) \<and> 512 \<le> mp_count_bits (rsa_n key) \<and> mp_count_bits (rsa_n key) \<le> 8000 \<and> 0 < rsa_n key \<and>
     0 \<le> rsa_e key \<and>
     (case rsa_d key of None \<Rightarrow> False
      | Some d \<Rightarrow> 0 \<le> d \<and> (\<forall>x. (x ^ nat d) ^ nat (rsa_e key) mod rsa_n key = x mod rsa_n key))"

lemma mod_mult_cong: "(a :: int) mod n = b mod n \<Longrightarrow> c mod n = d mod n \<Longrightarrow> a * c mod n = b * d mod n"
  by (metis mod_mult_eq)

lemma mod_power_cong: "(a :: int) mod n = b mod n \<Longrightarrow> a ^ k mod n = b ^ k mod n"
  by (metis power_mod)

lemma rsa_blind_value:
  assumes k: "\<And>x :: int. (x ^ d) ^ e mod n = x mod n" and r: "r * ri mod n = 1 mod n"
    and s: "s = ((em * (r ^ e mod n)) mod n) ^ d mod n * ri mod n"
  shows "s ^ e mod n = em mod n"
proof -
  have "s mod n = (em * r ^ e) ^ d * ri mod n"
    unfolding s by (simp add: mod_mult_left_eq mod_mult_right_eq power_mod)
  then have "s ^ e mod n = ((em * r ^ e) ^ d * ri) ^ e mod n" by (rule mod_power_cong)
  also have "\<dots> = ((em * r ^ e) ^ d) ^ e * ri ^ e mod n" by (simp only: power_mult_distrib)
  also have "\<dots> = (em * r ^ e) * ri ^ e mod n" by (rule mod_mult_cong[OF k refl])
  also have "\<dots> = em * (r * ri) ^ e mod n" by (simp only: power_mult_distrib mult.assoc)
  also have "\<dots> = em * 1 ^ e mod n" by (rule mod_mult_cong[OF refl mod_power_cong[OF r]])
  finally show ?thesis by simp
qed

lemma rsa_blind_sign_verifies:
  assumes "rsa_pair key" and "gen_random_mpint draws (rsa_n key) = Inr r" and "coprime r (rsa_n key)"
  obtains s where "rsa_blind_sign draws key em = Inr s" and "0 \<le> s" and "s < rsa_n key"
    and "s ^ nat (rsa_e key) mod rsa_n key = em mod rsa_n key"
proof -
  let ?n = "rsa_n key" and ?e = "rsa_e key"
  obtain d where d: "rsa_d key = Some d" "0 \<le> d" "\<And>x. (x ^ nat d) ^ nat ?e mod ?n = x mod ?n"
    using assms(1) by (auto simp: rsa_pair_def split: option.splits)
  have n: "odd ?n" "0 < ?n" "0 \<le> ?e" using assms(1) by (simp_all add: rsa_pair_def)
  have n1: "1 < ?n"
  proof (rule ccontr)
    assume "\<not> 1 < ?n"
    then have "nat ?n = 1" using n(2) by simp
    then show False using assms(1) count_bits_unique[of 0 1] by (simp add: rsa_pair_def mp_count_bits_def)
  qed
  obtain ri where ri: "mp_invmod r ?n = Inr (Some ri)" "r * ri mod ?n = 1 mod ?n"
    using mp_invmod_total[OF n(1) n1 assms(3)] by blast
  define s where "s = ((em * (r ^ nat ?e mod ?n)) mod ?n) ^ nat d mod ?n * ri mod ?n"
  have "rsa_blind_sign draws key em = Inr s"
    unfolding rsa_blind_sign_def using assms(2) ri(1) d(1,2) n
    by (simp add: mp_exptmod_def mp_mulmod_def mp_mod_def mp_okay_def s_def)
  moreover have "0 \<le> s" "s < ?n" using n(2) by (simp_all add: s_def)
  ultimately show thesis using that rsa_blind_value[OF d(3) ri(2) s_def] by blast
qed

text \<open>DSS: \<open>g\<close> has order dividing \<open>q\<close> modulo \<open>p\<close>, and \<open>y\<close> is \<open>g\<close> to the private number.\<close>

definition dss_pair :: "dropbear_dss_key \<Rightarrow> bool" where
  "dss_pair key \<longleftrightarrow> odd (dss_q key) \<and> 1 < dss_q key \<and> 0 < dss_p key \<and> dss_g key ^ nat (dss_q key) mod dss_p key = 1 mod dss_p key \<and>
     (case dss_x key of None \<Rightarrow> False | Some x \<Rightarrow> 0 \<le> x \<and> dss_y key mod dss_p key = dss_g key ^ nat x mod dss_p key)"

lemma power_mod_order:
  assumes "(g :: int) ^ q mod p = 1 mod p" and "a mod q = b mod q"
  shows "g ^ a mod p = g ^ b mod p"
proof -
  have "g ^ c mod p = g ^ (c mod q) mod p" for c
  proof -
    have "g ^ c = (g ^ q) ^ (c div q) * g ^ (c mod q)" by (simp flip: power_mult power_add)
    then have "g ^ c mod p = (g ^ q) ^ (c div q) * g ^ (c mod q) mod p" by simp
    also have "\<dots> = 1 ^ (c div q) * g ^ (c mod q) mod p"
      by (rule mod_mult_cong[OF mod_power_cong[OF assms(1)] refl])
    finally show ?thesis by simp
  qed
  then show ?thesis using assms(2) by metis
qed

lemma dss_exponents:
  assumes "(k :: int) * ki mod q = 1 mod q" and "s * w mod q = 1 mod q" and "s = ki * ((m + r * x mod q) mod q) mod q"
    and "u1 = m * w mod q" and "u2 = r * w mod q"
  shows "(u1 + x * u2) mod q = k mod q"
proof -
  have "s mod q = ki * (m + r * x) mod q" unfolding assms(3) by (simp add: mod_mult_right_eq mod_add_right_eq)
  then have "k * w * s mod q = k * w * (ki * (m + r * x)) mod q" by (rule mod_mult_cong[OF refl])
  moreover have "k * w * (ki * (m + r * x)) = (k * ki) * (w * (m + r * x))" by (simp add: algebra_simps)
  moreover have "(k * ki) * (w * (m + r * x)) mod q = 1 * (w * (m + r * x)) mod q" by (rule mod_mult_cong[OF assms(1) refl])
  moreover have "k * w * s mod q = k * 1 mod q"
    using mod_mult_cong[OF refl assms(2), of k] by (simp add: ac_simps)
  moreover have "(u1 + x * u2) mod q = (m * w + x * (r * w)) mod q"
    unfolding assms(4,5) by (intro mod_add_cong) (simp_all add: mod_mult_right_eq)
  moreover have "m * w + x * (r * w) = w * (m + r * x)" by (simp add: algebra_simps)
  ultimately show ?thesis by simp
qed

lemma dss_sign_checks:
  assumes "dss_pair key" and "dss_sign_values draws key m = Inr (r, s)" and "0 \<le> m" and "coprime s (dss_q key)"
    and "\<And>k. gen_random_mpint draws (dss_q key) = Inr k \<Longrightarrow> coprime k (dss_q key)"
  shows "dss_check key m r s = Inr True"
proof -
  let ?p = "dss_p key" and ?q = "dss_q key" and ?g = "dss_g key" and ?y = "dss_y key"
  obtain x where x: "dss_x key = Some x" "0 \<le> x" "?y mod ?p = ?g ^ nat x mod ?p"
    using assms(1) by (auto simp: dss_pair_def split: option.splits)
  have q: "odd ?q" "1 < ?q" "0 < ?q" "0 < ?p" "?g ^ nat ?q mod ?p = 1 mod ?p" using assms(1) by (simp_all add: dss_pair_def)
  obtain k where k1: "gen_random_mpint draws ?q = Inr k"
    using assms(2) by (cases "gen_random_mpint draws ?q") (simp_all add: dss_sign_values_def)
  then have k0: "0 \<le> k" by (auto simp: gen_random_mpint_def Let_def rbind_eq_Inr_iff gen_random_nonneg)
  have md: "mp_mod a ?q = Some (a mod ?q)" "mp_mulmod a b ?q = Some (a * b mod ?q)" "mp_addmod a b ?q = Some ((a + b) mod ?q)" for a b
    using q(3) by (simp_all add: mp_mod_def mp_mulmod_def mp_addmod_def)
  have gk: "mp_exptmod ?g k ?p = Some (?g ^ nat k mod ?p)" using k0 q(4) by (simp add: mp_exptmod_def)
  define r1 where "r1 = (?g ^ nat k mod ?p) mod ?q"
  have v: "dss_sign_values draws key m = rbind (mp_invmod k ?q) (\<lambda>inv. rbind (mp_okay ''DSS error'' inv) (\<lambda>ki.
      Inr (r1, ki * ((m + r1 * x mod ?q) mod ?q) mod ?q)))"
    by (simp only: dss_sign_values_def k1 gk md x(1) mp_okay_def option.case rbind_simps deref_simps r1_def)
  obtain ki where k2: "mp_invmod k ?q = Inr (Some ki)"
    using assms(2) unfolding v by (auto simp: rbind_eq_Inr_iff mp_okay_def split: option.splits)
  have "Inr (r1, ki * ((m + r1 * x mod ?q) mod ?q) mod ?q) = (Inr (r, s) :: (mp_int \<times> mp_int) result)"
    using assms(2) unfolding v by (simp only: k2 mp_okay_def option.case rbind_simps)
  then have rs: "r = r1" "s = ki * ((m + r1 * x mod ?q) mod ?q) mod ?q" by blast+
  have k: "gen_random_mpint draws ?q = Inr k" "mp_invmod k ?q = Inr (Some ki)" "0 \<le> k"
    "r = (?g ^ nat k mod ?p) mod ?q" "s = ki * ((m + r * x mod ?q) mod ?q) mod ?q"
    using k0 k1 k2 rs(2) unfolding rs(1) by (simp_all only: r1_def)
  have ki: "k * ki mod ?q = 1 mod ?q" using mp_invmod_inverse(1)[OF q(1,3) assms(5)[OF k(1)] k(2)] .
  obtain w where w: "mp_invmod s ?q = Inr (Some w)" "s * w mod ?q = 1 mod ?q" "0 \<le> w"
    using mp_invmod_total[OF q(1,2) assms(4)] by blast
  define u1 where "u1 = m * w mod ?q"
  define u2 where "u2 = r * w mod ?q"
  have u: "0 \<le> u1" "0 \<le> u2" using q(3) by (simp_all add: u1_def u2_def)
  have e: "(u1 + x * u2) mod ?q = k mod ?q" by (rule dss_exponents[OF ki w(2) k(5) u1_def u2_def])
  have "?g ^ nat u1 * ?y ^ nat u2 mod ?p = ?g ^ nat u1 * (?g ^ nat x) ^ nat u2 mod ?p"
    by (rule mod_mult_cong[OF refl mod_power_cong[OF x(3)]])
  also have "\<dots> = ?g ^ (nat u1 + nat x * nat u2) mod ?p" by (simp only: power_add power_mult)
  also have "\<dots> = ?g ^ nat k mod ?p"
  proof (rule power_mod_order[OF q(5)])
    have "int ((nat u1 + nat x * nat u2) mod nat ?q) = int (nat k mod nat ?q)"
      using e u x(2) k(3) q(3) by (simp add: zmod_int)
    then show "(nat u1 + nat x * nat u2) mod nat ?q = nat k mod nat ?q" by simp
  qed
  finally have gy: "(?g ^ nat u1 mod ?p) * (?y ^ nat u2 mod ?p) mod ?p = ?g ^ nat k mod ?p" by (simp add: mod_mult_eq)
  have "s < ?q" "r < ?q" using q(3) by (simp_all add: k(4,5))
  moreover have "mp_mulmod m w ?q = Some u1" "mp_mulmod r w ?q = Some u2"
    using q(3) by (simp_all add: mp_mulmod_def mp_mod_def u1_def u2_def)
  moreover have "mp_exptmod ?g u1 ?p = Some (?g ^ nat u1 mod ?p)" "mp_exptmod ?y u2 ?p = Some (?y ^ nat u2 mod ?p)"
    using q(4) u by (simp_all add: mp_exptmod_def)
  moreover have "mp_mulmod (?g ^ nat u1 mod ?p) (?y ^ nat u2 mod ?p) ?p = Some (?g ^ nat k mod ?p)"
    "mp_mod (?g ^ nat k mod ?p) ?q = Some r"
    using q(3,4) gy k(4) by (simp_all add: mp_mulmod_def mp_mod_def)
  ultimately show ?thesis
    by (simp only: dss_check_def or_bad_def w(1) not_True_eq_False if_False rbind_simps option.case simp_thms)
qed

subsection \<open>The formats\<close>

lemma puts_zeros: "puts (put_zeros n) (replicate n 0)"
proof (induction n)
  case (Suc n)
  have e: "put_zeros (Suc n) = (\<lambda>b. rbind (buf_putbyte b 0) (put_zeros n))" by (rule ext) simp
  show ?case using puts_seq[OF puts_byte[of 0] Suc] unfolding e by simp
qed (simp add: puts_def overwrite_Nil)

definition padded :: "nat \<Rightarrow> mp_int \<Rightarrow> bytes" where
  "padded width a = replicate (width - mp_unsigned_bin_size a) 0 @ mp_to_unsigned_bin a"

lemma length_padded: "mp_unsigned_bin_size a \<le> width \<Longrightarrow> length (padded width a) = width"
  by (simp add: padded_def mp_bin_size)

lemma read_padded: "0 \<le> a \<Longrightarrow> mp_read_unsigned_bin (padded width a) = a"
proof -
  assume a: "0 \<le> a"
  have "mp_read_unsigned_bin (replicate n 0 @ bs) = mp_read_unsigned_bin bs" for n bs
    by (induction n) (simp_all add: read_bin_zero)
  then show ?thesis using a by (simp add: padded_def mp_bin_roundtrip)
qed

lemma puts_padded:
  assumes "mp_unsigned_bin_size a \<le> width" and "width \<le> 2000"
  shows "puts (\<lambda>b. put_padded msg width b a) (padded width a)"
proof -
  have "puts (\<lambda>b. rbind (buf_getwriteptr b (of_nat (mp_unsigned_bin_size a))) (\<lambda>p.
       rbind (mem_write (b_data b) p (mp_to_unsigned_bin a)) (\<lambda>d.
       buf_incrwritepos (b\<lparr>b_data := d\<rparr>) (of_nat (mp_unsigned_bin_size a))))) (mp_to_unsigned_bin a)"
    using assms by (intro puts_raw) (simp_all add: mp_bin_size unat_of_nat_u32)
  from puts_seq[OF puts_zeros this] show ?thesis
    using assms(1) unfolding put_padded_def padded_def Let_def by simp
qed

lemma bin_size_less:
  assumes "0 \<le> a" and "a < n"
  shows "mp_unsigned_bin_size a \<le> mp_unsigned_bin_size n"
proof (cases "a = 0")
  case False
  let ?k = "length (to_bin_loop (nat a))"
  have "256 ^ (?k - 1) \<le> nat a" using length_to_bin[of "nat a"] assms False by simp
  also have "\<dots> < nat n" using assms by simp
  also have "\<dots> < 256 ^ length (to_bin_loop (nat n))" using length_to_bin[of "nat n"] assms by simp
  finally have "?k - 1 < length (to_bin_loop (nat n))" by simp
  then show ?thesis using assms by (simp add: mp_bin_size[symmetric] mp_to_unsigned_bin_def)
qed (simp add: mp_bin_size[symmetric] mp_to_unsigned_bin_def to_bin_loop.simps)

lemma pad_ff_eq:
  assumes "buf_inv b" and "unat target = unat (b_pos b) + k" and "k \<le> n" and "k \<le> room b"
  shows "pad_ff n target b = Inr (overwrite b (replicate k 255))"
  using assms
proof (induction n arbitrary: b k)
  case 0
  then have "b_pos b = target" by (simp add: word_unat_eq_iff)
  then show ?case using 0 by (simp add: overwrite_Nil)
next
  case (Suc n)
  show ?case
  proof (cases k)
    case 0
    then have "b_pos b = target" using Suc.prems by (simp add: word_unat_eq_iff)
    then show ?thesis using 0 Suc.prems by (simp add: overwrite_Nil)
  next
    case (Suc j)
    let ?b = "overwrite b [255]"
    have r: "length [255 :: u8] \<le> room b" using Suc Suc.prems(4) by simp
    have "b_pos b \<noteq> target" using Suc Suc.prems(2) by auto
    moreover have "buf_putbyte b 255 = Inr ?b" using r by (simp add: buf_putbyte_eq[OF Suc.prems(1)])
    moreover have "pad_ff n target ?b = Inr (overwrite ?b (replicate j 255))"
      using Suc.prems Suc r overwrite_fields(1)[OF Suc.prems(1) r]
      by (intro Suc.IH) (simp_all add: overwrite_inv room_overwrite)
    ultimately show ?thesis using Suc Suc.prems overwrite_overwrite[OF Suc.prems(1), of "[255]" "replicate j 255"] by simp
  qed
qed

definition em_bytes :: "crypto \<Rightarrow> nat \<Rightarrow> bytes \<Rightarrow> bytes" where
  "em_bytes cr nsize data = [1] @ replicate (nsize - 38) 255 @ rsa_asn1_magic @ cr_hash cr sha1_desc data"

lemma length_em_bytes: "crypto_ok cr \<Longrightarrow> 38 \<le> nsize \<Longrightarrow> length (em_bytes cr nsize data) = nsize - 1"
  by (simp add: em_bytes_def rsa_asn1_magic_def length_cr_hash)

lemma rsa_pad_em_eq:
  assumes "crypto_ok cr" and "38 \<le> mp_unsigned_bin_size (rsa_n key)" and "mp_unsigned_bin_size (rsa_n key) \<le> 2000"
  shows "rsa_pad_em cr key data = Inr (bytes_to_mp (em_bytes cr (mp_unsigned_bin_size (rsa_n key)) data))"
proof -
  let ?n = "mp_unsigned_bin_size (rsa_n key)"
  define z where "z = ?n - 1"
  define j where "j = z - 37"
  have n: "?n = z + 1" "37 \<le> z" "z \<le> 1999" "j + 37 = z" "?n - 38 = j" using assms(2,3) by (simp_all add: z_def j_def)
  let ?w = "of_nat ?n - 1 :: u32"
  have w: "unat ?w = z" using n(1-3) by (simp add: unat_of_nat_u32)
  let ?b = "mkbuf (replicate z 0) 0 0 z"
  have k: "mk_ok (replicate z (0 :: u8)) 0 0 z" using n(3) by (simp add: mk_ok_def)
  note i = mk_inv[OF k] and rm = room_mk[OF k]
  have 1: "buf_new ?w = Inr ?b" using mk_new[of ?w] w n(3) by simp
  have r1: "length [1 :: u8] \<le> room ?b" using rm n(4) by simp
  let ?b1 = "overwrite ?b [1]"
  have 2: "buf_putbyte ?b 1 = Inr ?b1" unfolding buf_putbyte_eq[OF i] using r1 by simp
  note i1 = overwrite_inv[OF i r1] and f1 = overwrite_fields[OF i r1]
  have z: "b_size ?b1 = ?w" using f1(3) n(1) by simp
  have uz: "unat (b_size ?b1) = z" using z w by simp
  have t: "unat (b_size ?b1 - 16 - 20) = 1 + j"
  proof -
    have "unat (b_size ?b1 - 16) = z - 16" using uz n(2) by (subst unat_sub_no_underflow) simp_all
    then show ?thesis using n(2,4) by (subst unat_sub_no_underflow) simp_all
  qed
  let ?b2 = "overwrite ?b1 (replicate j 255)"
  have ro1: "room ?b1 = z - 1" using room_overwrite[OF i r1] rm by simp
  have 3: "pad_ff (unat (b_size ?b1)) (b_size ?b1 - 16 - 20) ?b1 = Inr ?b2"
    using t f1(1) uz ro1 n(4) by (intro pad_ff_eq[OF i1]) simp_all
  have e2: "?b2 = overwrite ?b ([1] @ replicate j 255)" using rm n(4) by (intro overwrite_overwrite[OF i]) simp
  define H where "H = cr_hash cr sha1_desc data"
  have lH: "length H = 20" by (simp add: H_def length_cr_hash[OF assms(1)])
  have r2: "length ([1 :: u8] @ replicate j 255) \<le> room ?b" using rm n(4) by simp
  have i2: "buf_inv ?b2" "room ?b2 = 36"
    using overwrite_inv[OF i r2] room_overwrite[OF i r2] rm n(4) unfolding e2 by simp_all
  have p: "puts (\<lambda>b. rbind (buf_putbytes b rsa_asn1_magic 16) (\<lambda>b. buf_putbytes b H 20)) (rsa_asn1_magic @ H)"
    using puts_seq[OF puts_bytes[of 16 rsa_asn1_magic] puts_bytes[of 20 H]] lH by (simp add: rsa_asn1_magic_def)
  let ?e = "em_bytes cr ?n data" let ?b3 = "overwrite ?b ?e"
  have le: "length ?e = z" using length_em_bytes[OF assms(1,2)] n(1) by simp
  have ee: "?e = ([1] @ replicate j 255) @ (rsa_asn1_magic @ H)" by (simp add: em_bytes_def H_def n(5))
  have 4: "rbind (buf_putbytes ?b2 rsa_asn1_magic 16) (\<lambda>b. buf_putbytes b H 20) = Inr ?b3"
    using puts_ok[OF p i2(1)] i2(2) lH overwrite_overwrite[OF i, of "[1] @ replicate j 255" "rsa_asn1_magic @ H"] rm le
    unfolding e2 ee by (simp add: rsa_asn1_magic_def n(4))
  have m3: "?b3 = mkbuf ?e z z z" using overwrite_mk[OF k, of ?e] le by (simp add: patch_def)
  have k3: "mk_ok ?e z z z" "mk_ok ?e z 0 z" using le n(3) by (simp_all add: mk_ok_def)
  have 5: "buf_setpos ?b3 0 = Inr (mkbuf ?e z 0 z)" unfolding m3 using mk_setpos[OF k3(1), of 0] by simp
  have 6: "buf_getptr (mkbuf ?e z 0 z) (of_nat z) = Inr 0"
    using mk_okD(2)[OF k3(2)] by (intro mk_getptr[OF k3(2)]) simp
  have 7: "mem_read ?e 0 (unat (of_nat z :: u32)) = Inr ?e" using mk_okD(2)[OF k3(2)] le by simp
  have 8: "b_pos ?b3 = b_size ?b3" unfolding m3 by simp
  obtain c where c: "buf_putbytes ?b2 rsa_asn1_magic 16 = Inr c" "buf_putbytes c H 20 = Inr ?b3"
    using 4 by (auto simp: rbind_eq_Inr_iff)
  show ?thesis
    unfolding rsa_pad_em_def Let_def H_def[symmetric]
    by (simp only: 1 2 3 c rbind_simps 8 require_simps simp_thms 5 mkbuf_fields 6 7)
qed

lemma read_bin_bound: "0 \<le> mp_read_unsigned_bin bs" "mp_read_unsigned_bin bs < 256 ^ length bs"
proof -
  have "read_bin_loop a bs < (a + 1) * 256 ^ length bs" if "0 \<le> a" for a
    using that
  proof (induction bs arbitrary: a)
    case (Cons b bs)
    have "int (unat b) < 256" using unat_u8_lt[of b] by linarith
    then have "a * 256 + int (unat b) + 1 \<le> (a + 1) * 256" by simp
    then have "(a * 256 + int (unat b) + 1) * 256 ^ length bs \<le> (a + 1) * 256 * 256 ^ length bs"
      by (intro mult_right_mono) simp_all
    moreover have "read_bin_loop (a * 256 + int (unat b)) bs < (a * 256 + int (unat b) + 1) * 256 ^ length bs"
      using Cons.prems by (intro Cons.IH) simp
    ultimately have "read_bin_loop (a * 256 + int (unat b)) bs < (a + 1) * 256 * 256 ^ length bs" by (rule less_le_trans[rotated])
    then show ?case by (simp only: read_bin_loop.simps list.size power_add power_one_right add.right_neutral mult.assoc power_Suc add_Suc_right)
  qed simp
  from this[of 0] show "mp_read_unsigned_bin bs < 256 ^ length bs" by (simp add: mp_read_unsigned_bin_def)
  show "0 \<le> mp_read_unsigned_bin bs" by (simp add: mp_read_unsigned_bin_def read_bin_nonneg)
qed

lemma rsa_pair_size:
  assumes "rsa_pair key"
  shows "64 \<le> mp_unsigned_bin_size (rsa_n key)" "mp_unsigned_bin_size (rsa_n key) \<le> 1001"
    "256 ^ (mp_unsigned_bin_size (rsa_n key) - 1) \<le> rsa_n key"
proof -
  let ?n = "rsa_n key"
  have b: "512 \<le> mp_count_bits ?n" "mp_count_bits ?n \<le> 8000" "0 < ?n" using assms by (simp_all add: rsa_pair_def)
  have "512 div 8 \<le> mp_count_bits ?n div 8" "mp_count_bits ?n div 8 \<le> 8000 div 8" using b by (simp_all only: div_le_mono)
  then show "64 \<le> mp_unsigned_bin_size ?n" "mp_unsigned_bin_size ?n \<le> 1001" by (simp_all add: mp_unsigned_bin_size_def Let_def)
  have "256 ^ (length (to_bin_loop (nat ?n)) - 1) \<le> nat ?n" using length_to_bin[of "nat ?n"] b(3) by simp
  then have "int (256 ^ (length (to_bin_loop (nat ?n)) - 1)) \<le> ?n" using b(3) by linarith
  then show "256 ^ (mp_unsigned_bin_size ?n - 1) \<le> ?n" using b(3) by (simp add: mp_bin_size[symmetric] mp_to_unsigned_bin_def)
qed

definition rsa_sig :: "nat \<Rightarrow> mp_int \<Rightarrow> bytes" where
  "rsa_sig nsize s = store32h 7 @ SSH_SIGNKEY_RSA @ store32h (of_nat nsize) @ padded nsize s"

lemma length_names [simp]: "length SSH_SIGNKEY_RSA = 7" "length SSH_SIGNKEY_DSS = 7"
  by (simp_all add: SSH_SIGNKEY_RSA_def SSH_SIGNKEY_DSS_def ascii_def)

lemma puts_name: "length str = 7 \<Longrightarrow> puts (\<lambda>b. buf_putstring b str 7) (store32h 7 @ str)"
  using puts_string[of 7 str] by simp

lemma rsa_sign_puts:
  assumes "crypto_ok cr" and "rsa_pair key" and "gen_random_mpint draws (rsa_n key) = Inr r" and "coprime r (rsa_n key)"
  obtains s where "puts (\<lambda>b. buf_put_rsa_sign cr draws b key data) (rsa_sig (mp_unsigned_bin_size (rsa_n key)) s)"
    and "0 \<le> s" and "s < rsa_n key" and "mp_unsigned_bin_size s \<le> mp_unsigned_bin_size (rsa_n key)"
    and "s ^ nat (rsa_e key) mod rsa_n key = bytes_to_mp (em_bytes cr (mp_unsigned_bin_size (rsa_n key)) data)"
proof -
  let ?n = "rsa_n key" let ?ns = "mp_unsigned_bin_size ?n" let ?em = "bytes_to_mp (em_bytes cr ?ns data)"
  note z = rsa_pair_size[OF assms(2)]
  have em: "rsa_pad_em cr key data = Inr ?em" using z by (intro rsa_pad_em_eq[OF assms(1)]) simp_all
  have "?em < 256 ^ (?ns - 1)" using read_bin_bound(2)[of "em_bytes cr ?ns data"] length_em_bytes[OF assms(1), of ?ns data] z(1)
    by (simp add: bytes_to_mp_def)
  then have lt: "?em mod ?n = ?em" using z(3) read_bin_bound(1)[of "em_bytes cr ?ns data"] by (simp add: bytes_to_mp_def)
  obtain s where s: "rsa_blind_sign draws key ?em = Inr s" "0 \<le> s" "s < ?n" "s ^ nat (rsa_e key) mod ?n = ?em mod ?n"
    by (rule rsa_blind_sign_verifies[OF assms(2-4)])
  have bs: "mp_unsigned_bin_size s \<le> ?ns" by (rule bin_size_less[OF s(2,3)])
  have "puts (\<lambda>b. rbind (buf_putstring b SSH_SIGNKEY_RSA 7) (\<lambda>b. rbind (buf_putint b (of_nat ?ns)) (\<lambda>b.
      put_padded ''ssize <= nsize'' ?ns b s))) ((store32h 7 @ SSH_SIGNKEY_RSA) @ store32h (of_nat ?ns) @ padded ?ns s)"
    using z(2) by (intro puts_seq puts_name puts_int puts_padded bs) simp_all
  then have "puts (\<lambda>b. buf_put_rsa_sign cr draws b key data) (rsa_sig ?ns s)"
    unfolding buf_put_rsa_sign_def em rbind_simps s(1) Let_def rsa_sig_def by simp
  then show thesis using that s bs lt by simp
qed

lemma rsa_verify_accepts:
  assumes "crypto_ok cr" and "rsa_pair key" and "0 \<le> s" and "s < rsa_n key"
    and "s ^ nat (rsa_e key) mod rsa_n key = bytes_to_mp (em_bytes cr (mp_unsigned_bin_size (rsa_n key)) data)"
    and "buf_inv b" and "unread b = store32h (of_nat (mp_unsigned_bin_size (rsa_n key))) @ padded (mp_unsigned_bin_size (rsa_n key)) s"
  shows "buf_rsa_verify cr b key data = Inr (True, advance b 4)"
proof -
  let ?n = "rsa_n key" let ?ns = "mp_unsigned_bin_size ?n"
  note z = rsa_pair_size[OF assms(2)]
  have em: "rsa_pad_em cr key data = Inr (bytes_to_mp (em_bytes cr ?ns data))"
    using z by (intro rsa_pad_em_eq[OF assms(1)]) simp_all
  let ?b = "advance b 4"
  have 1: "buf_getint b = Inr (of_nat ?ns, ?b)" using gets_ok[OF gets_int assms(6,7)] by simp
  have i: "buf_inv ?b" "unread ?b = padded ?ns s" using assms(6,7) by (simp_all add: advance_inv unread_advance)
  have w: "unat (b_len ?b - b_pos ?b) = length (unread ?b)"
    using buf_invD[OF i(1)] by (subst unat_sub_no_underflow) (simp_all add: length_unread[OF i(1)])
  have 2: "buf_getptr ?b (b_len ?b - b_pos ?b) = Inr (unat (b_pos ?b))"
    using buf_getptr_ok[OF i(1), of "b_len ?b - b_pos ?b"] w unread_le[OF i(1)] by simp
  have 3: "mem_read (b_data ?b) (unat (b_pos ?b)) (unat (b_len ?b - b_pos ?b)) = Inr (padded ?ns s)"
    using take_unread[OF i(1), of "length (unread ?b)"] i(2) unfolding w by simp
  have 4: "mp_exptmod s (rsa_e key) ?n = Some (bytes_to_mp (em_bytes cr ?ns data))"
    using assms(2,5) by (simp add: mp_exptmod_def rsa_pair_def)
  show ?thesis
    unfolding buf_rsa_verify_def 1 rbind_simps prod.case Let_def
    using assms(4) by (simp only: 2 3 4 em read_padded[OF assms(3)] simp_thms if_False rbind_simps option.case not_True_eq_False)
qed

lemma puts_blob:
  assumes "puts f bs" and "bs \<noteq> []" and "length bs \<le> 1700"
  shows "puts (put_blob msg f) (store32h (of_nat (length bs)) @ bs)"
proof -
  let ?n = "length bs" and ?b0 = "mkbuf (replicate 1700 0) 0 0 1700"
  have k: "mk_ok (replicate 1700 (0 :: u8)) 0 0 1700" by (simp add: mk_ok_def)
  let ?d = "patch (replicate 1700 0) 0 bs"
  have ld: "length ?d = 1700" using assms(3) by simp
  have k1: "mk_ok ?d ?n ?n 1700" "mk_ok ?d ?n 0 1700" using assms(3) ld by (simp_all add: mk_ok_def)
  have 0: "buf_new MAX_PUBKEY_SIZE = Inr ?b0" using mk_new[of MAX_PUBKEY_SIZE] by (simp add: MAX_PUBKEY_SIZE_def)
  have 1: "f ?b0 = Inr (mkbuf ?d ?n ?n 1700)"
    using puts_ok[OF assms(1) mk_inv[OF k]] assms(3) by (simp add: room_mk[OF k] overwrite_mk[OF k])
  have u: "unat (of_nat ?n :: u32) = ?n" using assms(3) by (intro unat_of_nat_u32) simp
  then have nz: "(of_nat ?n :: u32) \<noteq> 0" using assms(2) by (metis length_0_conv unat_0)
  have 2: "buf_setpos (mkbuf ?d ?n ?n 1700) 0 = Inr (mkbuf ?d ?n 0 1700)" using mk_setpos[OF k1(1), of 0] by simp
  have 3: "buf_getptr (mkbuf ?d ?n 0 1700) (of_nat ?n) = Inr 0" using u by (intro mk_getptr[OF k1(2)]) simp
  have "put_blob msg f b = buf_putstring b ?d (of_nat ?n)" for b
    unfolding put_blob_def by (simp only: 0 1 2 3 rbind_simps mkbuf_fields nz if_False drop_0)
  moreover have "puts (\<lambda>b. buf_putstring b ?d (of_nat ?n)) (store32h (of_nat ?n) @ bs)"
    using puts_string[of "of_nat ?n" ?d] u ld assms(3) by (simp add: patch_def)
  ultimately show ?thesis by (simp add: puts_def)
qed

lemma getname:
  assumes "buf_inv b" and "length str = 7" and "unread b = store32h 7 @ str @ rest"
  shows "buf_getstring b = Inr (str @ [0], 7, advance b 11)"
  using buf_getstring_eq[OF assms(1), of 7] assms by (simp add: MAX_STRING_LEN_def)

lemma names_differ: "SSH_SIGNKEY_RSA \<noteq> SSH_SIGNKEY_DSS"
  by (simp add: SSH_SIGNKEY_RSA_def SSH_SIGNKEY_DSS_def ascii_def)

lemma memcmp_name: "length str = 7 \<Longrightarrow> length lit = 7 \<Longrightarrow> memcmp_lit (str @ [0]) lit 7 = Inr (str = lit)"
  by (simp add: memcmp_lit_def)

lemma buf_verify_rsa:
  assumes "buf_inv b" and "unread b = store32h n @ store32h 7 @ SSH_SIGNKEY_RSA @ rest" and "sk_rsakey sk = Some key"
  shows "buf_verify cr b sk data = buf_rsa_verify cr (advance b 15) key data"
proof -
  let ?b = "advance b 4"
  have 1: "buf_getint b = Inr (n, ?b)" using gets_ok[OF gets_int assms(1,2)] by simp
  have i: "buf_inv ?b" "unread ?b = store32h 7 @ SSH_SIGNKEY_RSA @ rest" using assms(1,2) by (simp_all add: advance_inv unread_advance)
  have 2: "buf_getstring ?b = Inr (SSH_SIGNKEY_RSA @ [0], 7, advance b 15)"
    using getname[OF i(1) _ i(2)] by (simp add: advance_def)
  show ?thesis
    unfolding buf_verify_def 1 rbind_simps prod.case 2
    using memcmp_name[of SSH_SIGNKEY_RSA SSH_SIGNKEY_DSS] memcmp_name[of SSH_SIGNKEY_RSA SSH_SIGNKEY_RSA] names_differ assms(3)
    by simp
qed

subsection \<open>Public keys\<close>

definition rsa_pub_enc :: "dropbear_rsa_key \<Rightarrow> bytes" where
  "rsa_pub_enc key = (store32h 7 @ SSH_SIGNKEY_RSA) @ mp_enc (rsa_e key) @ mp_enc (rsa_n key)"

definition dss_pub_enc :: "dropbear_dss_key \<Rightarrow> bytes" where
  "dss_pub_enc key = (store32h 7 @ SSH_SIGNKEY_DSS) @ mp_enc (dss_p key) @ mp_enc (dss_q key) @ mp_enc (dss_g key) @ mp_enc (dss_y key)"

lemma puts_rsa_pub:
  "mp_fits (rsa_e key) \<Longrightarrow> mp_fits (rsa_n key) \<Longrightarrow> puts (\<lambda>b. buf_put_rsa_pub_key b key) (rsa_pub_enc key)"
  unfolding buf_put_rsa_pub_key_def rsa_pub_enc_def by (intro puts_seq puts_name puts_mpint length_names)

lemma puts_dss_pub:
  "mp_fits (dss_p key) \<Longrightarrow> mp_fits (dss_q key) \<Longrightarrow> mp_fits (dss_g key) \<Longrightarrow> mp_fits (dss_y key) \<Longrightarrow>
     puts (\<lambda>b. buf_put_dss_pub_key b key) (dss_pub_enc key)"
  unfolding buf_put_dss_pub_key_def dss_pub_enc_def
  by (intro puts_seq puts_name puts_mpint length_names)

lemma gets_with_mpint:
  assumes "mp_fits a" and "gets (k a) bs x"
  shows "gets (with_mpint k) (mp_enc a @ bs) x"
  unfolding gets_def
proof (intro allI impI)
  fix b rest assume b: "buf_inv b" "unread b = (mp_enc a @ bs) @ rest"
  let ?b = "advance b (length (mp_enc a))"
  have "with_mpint k b = k a ?b" using gets_ok[OF gets_mpint[OF assms(1)] b(1), of "bs @ rest"] b(2) by (simp add: with_mpint_def)
  also have "\<dots> = Inr (x, advance ?b (length bs))"
    using b by (intro gets_ok[OF assms(2), where rest = rest]) (simp_all add: advance_inv unread_advance)
  finally show "with_mpint k b = Inr (x, advance b (length (mp_enc a @ bs)))" by (simp add: advance_def)
qed

lemma skip_name:
  assumes "gets f bs x" and "buf_inv b" and "unread b = store32h 7 @ str @ bs @ rest" and "length str = 7"
  shows "rbind (buf_incrpos b 11) f = Inr (x, advance b (11 + length bs))"
proof -
  have l: "11 \<le> length (unread b)" using assms(3,4) by simp
  have "buf_incrpos b 11 = Inr (advance b 11)" using buf_incrpos_forward[OF assms(2), of 11] l by simp
  moreover have "f (advance b 11) = Inr (x, advance (advance b 11) (length bs))"
    using assms l by (intro gets_ok[OF assms(1), where rest = rest]) (simp_all add: advance_inv unread_advance)
  ultimately show ?thesis by (simp add: advance_def add.commute)
qed

lemma rewind_name:
  assumes "buf_inv b" and "11 \<le> length (unread b)"
  shows "buf_incrpos (advance b 11) (- 7 - 4) = Inr b"
proof -
  let ?b = "advance b 11"
  have i: "buf_inv ?b" by (rule advance_inv[OF assms])
  have p: "unat (b_pos ?b) = unat (b_pos b) + 11" by (rule advance_pos[OF assms])
  have s: "sint (- 7 - 4 :: u32) = - 11" by simp
  have m: "sint BUF_MAX_INCR = 1000000000" by (simp add: sint_BUF_MAX_INCR)
  have e: "b_pos ?b + (- 7 - 4) = b_pos b" by (simp add: advance_def)
  have le: "\<not> b_pos b > b_len ?b" using buf_invD[OF assms(1)] by (simp add: advance_def word_less_nat_alt)
  have "uint (b_pos ?b) = int (unat (b_pos b)) + 11" using p by (simp add: uint_nat del: of_nat_unat)
  then have g: "11 \<le> uint (b_pos ?b)" "uint (b_pos ?b) \<le> 1000000000" using pos_sint(2)[OF i] by simp_all
  then have "\<not> (- 11 :: int) > 1000000000"
    "\<not> (uint (b_pos ?b) + - 11 > 2147483647 \<or> uint (b_pos ?b) + - 11 < - 2147483648)" "\<not> uint (b_pos ?b) + - 11 < 0"
    by simp_all
  then show ?thesis
    unfolding buf_incrpos_def s m pos_sint(1)[OF i] e by (simp only: le if_False simp_thms) (simp add: advance_def)
qed

lemma type_of_names:
  "signkey_type_from_name (SSH_SIGNKEY_RSA @ [0]) 7 = Inr DROPBEAR_SIGNKEY_RSA"
  "signkey_type_from_name (SSH_SIGNKEY_DSS @ [0]) 7 = Inr DROPBEAR_SIGNKEY_DSS"
  using names_differ by (simp_all add: signkey_type_from_name_def memcmp_name)

lemma gets_rsa_body:
  assumes "mp_fits (rsa_e key)" and "mp_fits (rsa_n key)" and "512 \<le> mp_count_bits (rsa_n key)"
  shows "gets (with_mpint (\<lambda>e. with_mpint (\<lambda>n buf.
       if mp_count_bits n < MIN_RSA_KEYLEN then Inr (None, buf)
       else Inr (Some \<lparr>rsa_n = n, rsa_e = e, rsa_d = None, rsa_p = None, rsa_q = None\<rparr>, buf))))
     (mp_enc (rsa_e key) @ mp_enc (rsa_n key) @ []) (Some \<lparr>rsa_n = rsa_n key, rsa_e = rsa_e key, rsa_d = None, rsa_p = None, rsa_q = None\<rparr>)"
  using assms(3) by (intro gets_with_mpint assms(1,2)) (simp add: gets_def MIN_RSA_KEYLEN_def)

lemma gets_dss_body:
  assumes "mp_fits (dss_p key)" and "mp_fits (dss_q key)" and "mp_fits (dss_g key)" and "mp_fits (dss_y key)"
    and "512 \<le> mp_count_bits (dss_p key)"
  shows "gets (with_mpint (\<lambda>p. with_mpint (\<lambda>q. with_mpint (\<lambda>g. with_mpint (\<lambda>y buf.
       if mp_count_bits p < MIN_DSS_KEYLEN then Inr (None, buf)
       else Inr (Some \<lparr>dss_p = p, dss_q = q, dss_g = g, dss_y = y, dss_x = None\<rparr>, buf))))))
     (mp_enc (dss_p key) @ mp_enc (dss_q key) @ mp_enc (dss_g key) @ mp_enc (dss_y key) @ [])
     (Some \<lparr>dss_p = dss_p key, dss_q = dss_q key, dss_g = dss_g key, dss_y = dss_y key, dss_x = None\<rparr>)"
  using assms(5) by (intro gets_with_mpint assms(1-4)) (simp add: gets_def MIN_DSS_KEYLEN_def)

lemma get_pub_named:
  assumes "buf_inv b" and "length str = 7" and "unread b = store32h 7 @ str @ rest"
    and "signkey_type_from_name (str @ [0]) 7 = Inr ty" and "type = DROPBEAR_SIGNKEY_ANY \<or> type = ty"
  shows "buf_get_pub_key b sk type =
    (if ty = DROPBEAR_SIGNKEY_DSS then rbind (buf_get_dss_pub_key b) (\<lambda>(k, buf). Inr (k \<noteq> None, sk\<lparr>sk_dsskey := k\<rparr>, ty, buf))
     else if ty = DROPBEAR_SIGNKEY_RSA then rbind (buf_get_rsa_pub_key b) (\<lambda>(k, buf). Inr (k \<noteq> None, sk\<lparr>sk_rsakey := k\<rparr>, ty, buf))
     else Inr (False, sk, ty, b))"
  using getname[OF assms(1-3)] assms(4,5) rewind_name[OF assms(1)] assms(2,3)
  by (auto simp: buf_get_pub_key_def get_key_with_def)

definition rsa_public_ok :: "dropbear_rsa_key \<Rightarrow> bool" where
  "rsa_public_ok key \<longleftrightarrow> mp_fits (rsa_e key) \<and> mp_fits (rsa_n key) \<and> 512 \<le> mp_count_bits (rsa_n key)"

definition dss_public_ok :: "dropbear_dss_key \<Rightarrow> bool" where
  "dss_public_ok key \<longleftrightarrow> mp_fits (dss_p key) \<and> mp_fits (dss_q key) \<and> mp_fits (dss_g key) \<and> mp_fits (dss_y key) \<and>
     512 \<le> mp_count_bits (dss_p key)"

subsection \<open>Keys to evaluate with\<close>

definition sample_rsa :: dropbear_rsa_key where
  "sample_rsa = \<lparr>rsa_n = 2 ^ 511 + 1, rsa_e = 1, rsa_d = Some 1, rsa_p = None, rsa_q = None\<rparr>"

definition sample_dss :: dropbear_dss_key where
  "sample_dss = \<lparr>dss_p = 29, dss_q = 7, dss_g = 16, dss_y = 7, dss_x = Some 3\<rparr>"

lemma sample_rsa_bits: "mp_count_bits (2 ^ 511 + 1) = 512" "mp_count_bits 1 = 1"
  using count_bits_unique[of 511 "2 ^ 511 + 1"] count_bits_unique[of 0 1] by (simp_all add: mp_count_bits_def nat_add_distrib)

lemma sample_rsa_pair: "rsa_pair sample_rsa"
  using sample_rsa_bits by (simp add: rsa_pair_def sample_rsa_def)

lemma sample_rsa_draw: "gen_random_mpint [\<lambda>i. if i = 63 then 1 else 0] (rsa_n sample_rsa) = Inr 1"
proof -
  let ?f = "\<lambda>i :: nat. if i = 63 then 1 else (0 :: u8)"
  have "(map ?f [0..<64])[0 := map ?f [0..<64] ! 0 AND 255] = replicate 63 0 @ [1]"
    by (intro nth_equalityI) (auto simp: nth_list_update nth_append)
  moreover have "read_bin_loop 0 (replicate 63 0 @ [1]) = 1"
    using read_bin_zeros[of 63] by (simp add: read_bin_append mp_read_unsigned_bin_def)
  ultimately show ?thesis
    using sample_rsa_bits by (simp add: gen_random_mpint_def sample_rsa_def Let_def m_malloc_def bytes_to_mp_def
        mp_read_unsigned_bin_def random_masks_def)
qed

subsection \<open>Properties\<close>

text \<open>
  C20: a signature that \<open>buf_put_sign\<close> makes with an RSA key is accepted by \<open>buf_verify\<close> with the
  same key and data, when it stands at the end of the buffer, as it does in the messages that
  carry one. The blinding number, drawn at random, has to be coprime to the modulus.
\<close>
theorem rsa_signature_verifies:
  assumes "crypto_ok cr" and "rsa_pair key" and "sk_rsakey sk = Some key"
    and "gen_random_mpint draws (rsa_n key) = Inr r" and "coprime r (rsa_n key)"
  shows "\<exists>bs. puts (\<lambda>b. buf_put_sign cr draws b sk DROPBEAR_SIGNKEY_RSA data) bs \<and>
    (\<forall>b. buf_inv b \<longrightarrow> unread b = bs \<longrightarrow> (\<exists>b'. buf_verify cr b sk data = Inr (True, b')))"
proof -
  let ?ns = "mp_unsigned_bin_size (rsa_n key)"
  obtain s where s: "puts (\<lambda>b. buf_put_rsa_sign cr draws b key data) (rsa_sig ?ns s)" "0 \<le> s" "s < rsa_n key"
    "mp_unsigned_bin_size s \<le> ?ns" "s ^ nat (rsa_e key) mod rsa_n key = bytes_to_mp (em_bytes cr ?ns data)"
    by (rule rsa_sign_puts[OF assms(1,2,4,5)])
  let ?bs = "store32h (of_nat (length (rsa_sig ?ns s))) @ rsa_sig ?ns s"
  have l: "length (rsa_sig ?ns s) \<le> 1700" "rsa_sig ?ns s \<noteq> []"
    using length_padded[OF s(4)] rsa_pair_size(2)[OF assms(2)] by (simp_all add: rsa_sig_def store32h_def)
  have "buf_put_sign cr draws b sk DROPBEAR_SIGNKEY_RSA data =
      put_blob ''Non-matching signing type'' (\<lambda>b. buf_put_rsa_sign cr draws b key data) b" for b
    by (simp add: buf_put_sign_def DROPBEAR_SIGNKEY_RSA_def DROPBEAR_SIGNKEY_DSS_def assms(3) key_ptr_def)
  then have "puts (\<lambda>b. buf_put_sign cr draws b sk DROPBEAR_SIGNKEY_RSA data) ?bs"
    using puts_blob[OF s(1) l(2,1)] by simp
  moreover have "buf_verify cr b sk data = Inr (True, advance (advance b 15) 4)" if b: "buf_inv b" "unread b = ?bs" for b
  proof -
    have "buf_verify cr b sk data = buf_rsa_verify cr (advance b 15) key data"
      using b by (intro buf_verify_rsa[OF _ _ assms(3)]) (simp_all add: rsa_sig_def)
    also have "\<dots> = Inr (True, advance (advance b 15) 4)"
      using b by (intro rsa_verify_accepts[OF assms(1,2) s(2,3,5)]) (simp_all add: rsa_sig_def advance_inv unread_advance)
    finally show ?thesis .
  qed
  ultimately show ?thesis by blast
qed

theorem rsa_signature_verifies_witness:
  "let sk = new_sign_key\<lparr>sk_rsakey := Some sample_rsa\<rparr>; draws = [\<lambda>i. if i = 63 then 1 else 0]
   in \<exists>bs. puts (\<lambda>b. buf_put_sign toy_crypto draws b sk DROPBEAR_SIGNKEY_RSA [1, 2, 3]) bs \<and>
     (\<forall>b. buf_inv b \<longrightarrow> unread b = bs \<longrightarrow> (\<exists>b'. buf_verify toy_crypto b sk [1, 2, 3] = Inr (True, b')))"
  unfolding Let_def by (rule rsa_signature_verifies[OF toy_crypto_ok sample_rsa_pair _ sample_rsa_draw]) simp_all

text \<open>
  C23: a DSS signature computed by \<open>buf_put_dss_sign\<close> passes the check of \<open>buf_dss_verify\<close>, for a key
  whose generator has an order dividing \<open>q\<close>, whenever the random number and the second half
  of the signature have inverses modulo \<open>q\<close>.
\<close>
theorem dss_signature_checks:
  assumes "dss_pair key" and "dss_sign_values draws key (bytes_to_mp (cr_hash cr sha1_desc data)) = Inr (r, s)"
    and "coprime s (dss_q key)" and "gen_random_mpint draws (dss_q key) = Inr k" and "coprime k (dss_q key)"
  shows "dss_check key (bytes_to_mp (cr_hash cr sha1_desc data)) r s = Inr True"
  using assms(4,5) read_bin_bound(1)[of "cr_hash cr sha1_desc data"]
  by (intro dss_sign_checks[OF assms(1,2) _ assms(3)]) (simp_all add: bytes_to_mp_def)

theorem dss_signature_checks_witness:
  "\<exists>r s. dss_sign_values [\<lambda>i. 2] sample_dss (bytes_to_mp (cr_hash toy_crypto sha1_desc [1, 2, 3])) = Inr (r, s) \<and>
     dss_check sample_dss (bytes_to_mp (cr_hash toy_crypto sha1_desc [1, 2, 3])) r s = Inr True"
proof -
  have k: "gen_random_mpint [\<lambda>i. 2] (dss_q sample_dss) = Inr 2" by code_simp
  have v: "dss_sign_values [\<lambda>i. 2] sample_dss (bytes_to_mp (cr_hash toy_crypto sha1_desc [1, 2, 3])) = Inr (3, 2)" by code_simp
  have p: "dss_pair sample_dss" by (simp add: dss_pair_def sample_dss_def)
  show ?thesis
    using dss_signature_checks[OF p v _ k] v by (simp add: sample_dss_def)
qed

text \<open>
  C21: a DSS signature whose second half is zero makes \<open>buf_dss_verify\<close> run forever: zero is below
  \<open>q\<close>, so it is handed to \<open>mp_invmod\<close>, which does not return. The peer chooses the signature.
\<close>
theorem dss_verify_hangs:
  assumes "buf_inv b" and "unread b = store32h 40 @ rbytes @ replicate 20 0 @ rest" and "length rbytes = 20"
    and "odd (dss_q key)" and "0 < dss_q key"
  shows "buf_dss_verify cr b key data = Inl Hang"
proof -
  have "buf_getstring b = Inr ((rbytes @ replicate 20 0) @ [0], 40, advance b 44)"
    using buf_getstring_eq[OF assms(1), of 40] assms(2,3) by (simp add: MAX_STRING_LEN_def)
  moreover have "mp_invmod 0 (dss_q key) = Inl Hang"
    using inv_top_zero[OF assms(4,5)] assms(4,5) by (simp add: mp_invmod_def fast_mp_invmod_def)
  ultimately show ?thesis
    using assms(3,5) by (simp add: buf_dss_verify_def dss_check_def bytes_to_mp_def read_bin_zeros)
qed

theorem dss_verify_hangs_witness:
  "buf_dss_verify toy_crypto (mkbuf (store32h 40 @ replicate 20 1 @ replicate 20 0) 44 0 44) sample_dss [1, 2, 3] = Inl Hang"
proof -
  have k: "mk_ok (store32h 40 @ replicate 20 1 @ replicate 20 0) 44 0 44" by (simp add: mk_ok_def)
  show ?thesis
    using unread_mk[OF k] by (intro dss_verify_hangs[OF mk_inv[OF k], of "replicate 20 1" "[]"]) (simp_all add: sample_dss_def)
qed

text \<open>
  C34: \<open>buf_verify\<close> compares the algorithm name of a signature with as many bytes as the peer's
  name has: an empty name counts as any algorithm and the signature is checked as RSA, and a
  longer name is compared beyond the end of the string constant.
\<close>
theorem verify_ident_length:
  assumes "buf_inv b" and "unread b = store32h n @ store32h (of_nat (length ident)) @ ident @ rest"
    and "n \<noteq> DSS_SIGNATURE_SIZE" and "sk_rsakey sk = Some key"
  shows "(ident = [] \<longrightarrow> buf_verify cr b sk data = buf_rsa_verify cr (advance b 8) key data) \<and>
     (8 < length ident \<longrightarrow> length ident \<le> 1400 \<longrightarrow> buf_verify cr b sk data = Inl OutOfBounds)"
proof -
  let ?b = "advance b 4"
  have 1: "buf_getint b = Inr (n, ?b)" using gets_ok[OF gets_int assms(1,2)] by simp
  have i: "buf_inv ?b" "unread ?b = store32h (of_nat (length ident)) @ ident @ rest"
    using assms(1,2) by (simp_all add: advance_inv unread_advance)
  have 2: "buf_getstring ?b = Inr (ident @ [0], of_nat (length ident), advance b (8 + length ident))" if "length ident \<le> 1400"
    using buf_getstring_eq[OF i(1), of "of_nat (length ident)"] i(2) that
    by (simp add: MAX_STRING_LEN_def word_nat unat_of_nat_u32 advance_def)
  have 3: "memcmp_lit (ident @ [0]) SSH_SIGNKEY_RSA (length ident) =
      (if 8 < length ident then Inl OutOfBounds else Inr (ident = take (length ident) (SSH_SIGNKEY_RSA @ [0])))"
    by (simp add: memcmp_lit_def mem_read_def)
  show ?thesis using 1 2 3 assms(3,4) by (auto simp: buf_verify_def unat_of_nat_u32)
qed

theorem verify_ident_length_witness:
  "let d = store32h 1 @ store32h 9 @ replicate 9 65
   in buf_verify toy_crypto (mkbuf d 17 0 17) (new_sign_key\<lparr>sk_rsakey := Some sample_rsa\<rparr>) [1, 2, 3] = Inl OutOfBounds"
proof -
  let ?d = "store32h 1 @ store32h 9 @ replicate 9 65"
  have k: "mk_ok ?d 17 0 17" by (simp add: mk_ok_def)
  show ?thesis
    using verify_ident_length[OF mk_inv[OF k], of 1 "replicate 9 65" "[]" "new_sign_key\<lparr>sk_rsakey := Some sample_rsa\<rparr>"] unread_mk[OF k]
    by (simp add: DSS_SIGNATURE_SIZE_def)
qed

text \<open>
  C33: a public key written by \<open>buf_put_rsa_pub_key\<close> or \<open>buf_put_dss_pub_key\<close> is read back by
  \<open>buf_get_pub_key\<close>, whether its type is asked for or left open, as the same numbers without the private ones,
  and leaves the buffer behind the key.
\<close>
theorem pub_key_roundtrip:
  assumes "buf_inv b"
  shows "(rsa_public_ok key \<and> unread b = rsa_pub_enc key @ rest \<and> type \<in> {DROPBEAR_SIGNKEY_ANY, DROPBEAR_SIGNKEY_RSA} \<longrightarrow>
      puts (\<lambda>b. buf_put_rsa_pub_key b key) (rsa_pub_enc key) \<and>
      buf_get_pub_key b sk type = Inr (True, sk\<lparr>sk_rsakey := Some (key\<lparr>rsa_d := None, rsa_p := None, rsa_q := None\<rparr>)\<rparr>,
        DROPBEAR_SIGNKEY_RSA, advance b (length (rsa_pub_enc key)))) \<and>
    (dss_public_ok dkey \<and> unread b = dss_pub_enc dkey @ rest \<and> type \<in> {DROPBEAR_SIGNKEY_ANY, DROPBEAR_SIGNKEY_DSS} \<longrightarrow>
      puts (\<lambda>b. buf_put_dss_pub_key b dkey) (dss_pub_enc dkey) \<and>
      buf_get_pub_key b sk type = Inr (True, sk\<lparr>sk_dsskey := Some (dkey\<lparr>dss_x := None\<rparr>)\<rparr>,
        DROPBEAR_SIGNKEY_DSS, advance b (length (dss_pub_enc dkey))))"
proof (intro conjI impI)
  assume h: "rsa_public_ok key \<and> unread b = rsa_pub_enc key @ rest \<and> type \<in> {DROPBEAR_SIGNKEY_ANY, DROPBEAR_SIGNKEY_RSA}"
  then show "puts (\<lambda>b. buf_put_rsa_pub_key b key) (rsa_pub_enc key)" by (simp add: rsa_public_ok_def puts_rsa_pub)
  have u: "unread b = store32h 7 @ SSH_SIGNKEY_RSA @ (mp_enc (rsa_e key) @ mp_enc (rsa_n key) @ []) @ rest"
    using h by (simp add: rsa_pub_enc_def)
  have "buf_get_rsa_pub_key b = Inr (Some (key\<lparr>rsa_d := None, rsa_p := None, rsa_q := None\<rparr>), advance b (length (rsa_pub_enc key)))"
    using skip_name[OF gets_rsa_body assms u] h by (simp add: buf_get_rsa_pub_key_def rsa_public_ok_def rsa_pub_enc_def)
  then show "buf_get_pub_key b sk type = Inr (True, sk\<lparr>sk_rsakey := Some (key\<lparr>rsa_d := None, rsa_p := None, rsa_q := None\<rparr>)\<rparr>,
        DROPBEAR_SIGNKEY_RSA, advance b (length (rsa_pub_enc key)))"
    using get_pub_named[OF assms _ u type_of_names(1)] h by (auto simp: DROPBEAR_SIGNKEY_RSA_def DROPBEAR_SIGNKEY_DSS_def)
next
  assume h: "dss_public_ok dkey \<and> unread b = dss_pub_enc dkey @ rest \<and> type \<in> {DROPBEAR_SIGNKEY_ANY, DROPBEAR_SIGNKEY_DSS}"
  then show "puts (\<lambda>b. buf_put_dss_pub_key b dkey) (dss_pub_enc dkey)" by (simp add: dss_public_ok_def puts_dss_pub)
  have u: "unread b = store32h 7 @ SSH_SIGNKEY_DSS @ (mp_enc (dss_p dkey) @ mp_enc (dss_q dkey) @ mp_enc (dss_g dkey) @ mp_enc (dss_y dkey) @ []) @ rest"
    using h by (simp add: dss_pub_enc_def)
  have "buf_get_dss_pub_key b = Inr (Some (dkey\<lparr>dss_x := None\<rparr>), advance b (length (dss_pub_enc dkey)))"
    using skip_name[OF gets_dss_body assms u] h by (simp add: buf_get_dss_pub_key_def dss_public_ok_def dss_pub_enc_def)
  then show "buf_get_pub_key b sk type = Inr (True, sk\<lparr>sk_dsskey := Some (dkey\<lparr>dss_x := None\<rparr>)\<rparr>,
        DROPBEAR_SIGNKEY_DSS, advance b (length (dss_pub_enc dkey)))"
    using get_pub_named[OF assms _ u type_of_names(2)] h by auto
qed

theorem pub_key_roundtrip_witness:
  "let d = rsa_pub_enc sample_rsa
   in buf_get_pub_key (mkbuf d (length d) 0 (length d)) new_sign_key DROPBEAR_SIGNKEY_ANY =
     Inr (True, new_sign_key\<lparr>sk_rsakey := Some (sample_rsa\<lparr>rsa_d := None, rsa_p := None, rsa_q := None\<rparr>)\<rparr>,
       DROPBEAR_SIGNKEY_RSA, advance (mkbuf d (length d) 0 (length d)) (length d))"
proof -
  let ?d = "rsa_pub_enc sample_rsa" let ?b = "mkbuf ?d (length ?d) 0 (length ?d)"
  have ok: "rsa_public_ok sample_rsa" using sample_rsa_bits by (simp add: rsa_public_ok_def sample_rsa_def mp_fits_def)
  have "length ?d \<le> 1000000000" using sample_rsa_bits by (simp add: rsa_pub_enc_def length_mp_enc sample_rsa_def)
  then have k: "mk_ok ?d (length ?d) 0 (length ?d)" by (simp add: mk_ok_def)
  show ?thesis
    using pub_key_roundtrip[OF mk_inv[OF k], of sample_rsa "[]" DROPBEAR_SIGNKEY_ANY new_sign_key] unread_mk[OF k] ok
    by (simp add: Let_def)
qed

end
