(* ===== verification/Kex.thy ===== *)
theory Kex
  imports Packet SignKey
begin

text \<open>
  The key exchange: \<^verbatim>\<open>src/reconos/dropbear/common-kex.c\<close>, \<^verbatim>\<open>svr-kex.c\<close> and the exchange of
  \<^verbatim>\<open>cli-kex.c\<close>. The algorithm tables are variables of the program (command line options change
  them), here the record \<open>kex_tables\<close>. The function pointer \<open>ses.send_kex_first_guess\<close> is the
  argument \<open>guess\<close>. A SHA-1 state is the sequence of bytes it was given. What a handler takes from
  its surroundings is the record \<open>env\<close>: the \<open>i\<close>-th result of \<open>genrandom\<close> and of the draws of
  \<open>gen_random_mpint\<close>, the clock, and the contents of arrays that are not initialised.
\<close>

record kex_tables =
  kt_kex :: "algo_type list"
  kt_hostkey :: "algo_type list"
  kt_ciphers :: "algo_type list"
  kt_hashes :: "algo_type list"

record env =
  env_rnd :: "nat \<Rightarrow> nat \<Rightarrow> u8"
  env_draws :: "nat \<Rightarrow> (nat \<Rightarrow> u8) list"
  env_now :: int
  env_mac :: bytes
  env_junk :: "nat \<Rightarrow> u8"

definition std_tables :: kex_tables where
  "std_tables = \<lparr>kt_kex = sshkex, kt_hostkey = sshhostkey, kt_ciphers = sshciphers, kt_hashes = sshhashes\<rparr>"

definition SSH_MSG_KEXDH_REPLY :: u8 where "SSH_MSG_KEXDH_REPLY = 31"
definition LOCAL_IDENT :: bytes where "LOCAL_IDENT = ascii ''SSH-2.0-dropbear_2013.60''"
definition KEXHASHBUF_MAX_INTS :: u32 where "KEXHASHBUF_MAX_INTS = 1700 + 130 + 130 + 130"
definition MAX_IV_LEN :: nat where "MAX_IV_LEN = 20"
definition MAX_KEY_LEN :: nat where "MAX_KEY_LEN = 32"
definition DH_G_VAL :: int where "DH_G_VAL = 2"

definition dh_p_1 :: bytes where
  "dh_p_1 =
     [0xFF, 0xFF, 0xFF, 0xFF, 0xFF, 0xFF, 0xFF, 0xFF, 0xC9, 0x0F, 0xDA, 0xA2, 0x21, 0x68, 0xC2, 0x34,
      0xC4, 0xC6, 0x62, 0x8B, 0x80, 0xDC, 0x1C, 0xD1, 0x29, 0x02, 0x4E, 0x08, 0x8A, 0x67, 0xCC, 0x74,
      0x02, 0x0B, 0xBE, 0xA6, 0x3B, 0x13, 0x9B, 0x22, 0x51, 0x4A, 0x08, 0x79, 0x8E, 0x34, 0x04, 0xDD,
      0xEF, 0x95, 0x19, 0xB3, 0xCD, 0x3A, 0x43, 0x1B, 0x30, 0x2B, 0x0A, 0x6D, 0xF2, 0x5F, 0x14, 0x37,
      0x4F, 0xE1, 0x35, 0x6D, 0x6D, 0x51, 0xC2, 0x45, 0xE4, 0x85, 0xB5, 0x76, 0x62, 0x5E, 0x7E, 0xC6,
      0xF4, 0x4C, 0x42, 0xE9, 0xA6, 0x37, 0xED, 0x6B, 0x0B, 0xFF, 0x5C, 0xB6, 0xF4, 0x06, 0xB7, 0xED,
      0xEE, 0x38, 0x6B, 0xFB, 0x5A, 0x89, 0x9F, 0xA5, 0xAE, 0x9F, 0x24, 0x11, 0x7C, 0x4B, 0x1F, 0xE6,
      0x49, 0x28, 0x66, 0x51, 0xEC, 0xE6, 0x53, 0x81, 0xFF, 0xFF, 0xFF, 0xFF, 0xFF, 0xFF, 0xFF, 0xFF]"

definition dh_p_14 :: bytes where
  "dh_p_14 =
     [0xFF, 0xFF, 0xFF, 0xFF, 0xFF, 0xFF, 0xFF, 0xFF, 0xC9, 0x0F, 0xDA, 0xA2, 0x21, 0x68, 0xC2, 0x34,
      0xC4, 0xC6, 0x62, 0x8B, 0x80, 0xDC, 0x1C, 0xD1, 0x29, 0x02, 0x4E, 0x08, 0x8A, 0x67, 0xCC, 0x74,
      0x02, 0x0B, 0xBE, 0xA6, 0x3B, 0x13, 0x9B, 0x22, 0x51, 0x4A, 0x08, 0x79, 0x8E, 0x34, 0x04, 0xDD,
      0xEF, 0x95, 0x19, 0xB3, 0xCD, 0x3A, 0x43, 0x1B, 0x30, 0x2B, 0x0A, 0x6D, 0xF2, 0x5F, 0x14, 0x37,
      0x4F, 0xE1, 0x35, 0x6D, 0x6D, 0x51, 0xC2, 0x45, 0xE4, 0x85, 0xB5, 0x76, 0x62, 0x5E, 0x7E, 0xC6,
      0xF4, 0x4C, 0x42, 0xE9, 0xA6, 0x37, 0xED, 0x6B, 0x0B, 0xFF, 0x5C, 0xB6, 0xF4, 0x06, 0xB7, 0xED,
      0xEE, 0x38, 0x6B, 0xFB, 0x5A, 0x89, 0x9F, 0xA5, 0xAE, 0x9F, 0x24, 0x11, 0x7C, 0x4B, 0x1F, 0xE6,
      0x49, 0x28, 0x66, 0x51, 0xEC, 0xE4, 0x5B, 0x3D, 0xC2, 0x00, 0x7C, 0xB8, 0xA1, 0x63, 0xBF, 0x05,
      0x98, 0xDA, 0x48, 0x36, 0x1C, 0x55, 0xD3, 0x9A, 0x69, 0x16, 0x3F, 0xA8, 0xFD, 0x24, 0xCF, 0x5F,
      0x83, 0x65, 0x5D, 0x23, 0xDC, 0xA3, 0xAD, 0x96, 0x1C, 0x62, 0xF3, 0x56, 0x20, 0x85, 0x52, 0xBB,
      0x9E, 0xD5, 0x29, 0x07, 0x70, 0x96, 0x96, 0x6D, 0x67, 0x0C, 0x35, 0x4E, 0x4A, 0xBC, 0x98, 0x04,
      0xF1, 0x74, 0x6C, 0x08, 0xCA, 0x18, 0x21, 0x7C, 0x32, 0x90, 0x5E, 0x46, 0x2E, 0x36, 0xCE, 0x3B,
      0xE3, 0x9E, 0x77, 0x2C, 0x18, 0x0E, 0x86, 0x03, 0x9B, 0x27, 0x83, 0xA2, 0xEC, 0x07, 0xA2, 0x8F,
      0xB5, 0xC5, 0x5D, 0xF0, 0x6F, 0x4C, 0x52, 0xC9, 0xDE, 0x2B, 0xCB, 0xF6, 0x95, 0x58, 0x17, 0x18,
      0x39, 0x95, 0x49, 0x7C, 0xEA, 0x95, 0x6A, 0xE5, 0x15, 0xD2, 0x26, 0x18, 0x98, 0xFA, 0x05, 0x10,
      0x15, 0x72, 0x8E, 0x5A, 0x8A, 0xAC, 0xAA, 0x68, 0xFF, 0xFF, 0xFF, 0xFF, 0xFF, 0xFF, 0xFF, 0xFF]"

definition set_kexstate :: "(KEXState \<Rightarrow> KEXState) \<Rightarrow> 'a sshsession_scheme \<Rightarrow> 'a sshsession_scheme" where
  "set_kexstate f s = s\<lparr>s_kexstate := f (s_kexstate s)\<rparr>"

subsection \<open>KEXINIT\<close>

definition put_random :: "(nat \<Rightarrow> u8) \<Rightarrow> u32 \<Rightarrow> buffer \<Rightarrow> buffer result" where
  "put_random rnd n buf =
     rbind (buf_getwriteptr buf n) (\<lambda>p.
     rbind (mem_write (b_data buf) p (map rnd [0..<unat n])) (\<lambda>d.
     buf_incrwritepos (buf\<lparr>b_data := d\<rparr>) n))"

definition put_kexinit :: "(nat \<Rightarrow> u8) \<Rightarrow> kex_tables \<Rightarrow> algo_type list \<Rightarrow> bool \<Rightarrow> buffer \<Rightarrow> buffer result" where
  "put_kexinit cookie tabs comps first_guess b =
     rbind (buf_putbyte b SSH_MSG_KEXINIT) (\<lambda>b.
     rbind (put_random cookie 16 b) (\<lambda>b.
     rbind (buf_put_algolist b (kt_kex tabs)) (\<lambda>b.
     rbind (buf_put_algolist b (kt_hostkey tabs)) (\<lambda>b.
     rbind (buf_put_algolist b (kt_ciphers tabs)) (\<lambda>b.
     rbind (buf_put_algolist b (kt_ciphers tabs)) (\<lambda>b.
     rbind (buf_put_algolist b (kt_hashes tabs)) (\<lambda>b.
     rbind (buf_put_algolist b (kt_hashes tabs)) (\<lambda>b.
     rbind (buf_put_algolist b comps) (\<lambda>b.
     rbind (buf_put_algolist b comps) (\<lambda>b.
     rbind (buf_putstring b [] 0) (\<lambda>b.
     rbind (buf_putstring b [] 0) (\<lambda>b.
     rbind (buf_putbyte b (if first_guess then 1 else 0)) (\<lambda>b.
     buf_putint b 0)))))))))))))"

text \<open>A table is never empty: it has at least the terminating entry.\<close>

definition send_msg_kexinit ::
  "crypto \<Rightarrow> env \<Rightarrow> kex_tables \<Rightarrow> ('a sshsession_scheme \<Rightarrow> 'a sshsession_scheme result) option \<Rightarrow>
     'a sshsession_scheme \<Rightarrow> 'a sshsession_scheme result" where
  "send_msg_kexinit cr env tabs guess s =
     rbind (on_writepayload (put_kexinit (env_rnd env 0) tabs (s_compress_algos s) (guess \<noteq> None)) s) (\<lambda>s.
     rbind (buf_newcopy (s_writepayload s)) (\<lambda>c.
     rbind (encrypt_packet cr (env_rnd env 1) (env_mac env) (s\<lparr>s_transkexinit := Some c\<rparr>)) (\<lambda>s.
     let s = set_kexstate (\<lambda>k. k\<lparr>ks_sentkexinit := True\<rparr>) (s\<lparr>s_dataallowed := False\<rparr>);
         nk = \<lparr>nk_recv = None, nk_trans = None, nk_algo_kex = 0, nk_algo_hostkey = 0\<rparr>
     in case guess of
          None \<Rightarrow> Inr (s\<lparr>s_newkeys := Some nk\<rparr>)
        | Some send \<Rightarrow>
            send (s\<lparr>s_newkeys := Some (nk\<lparr>nk_algo_kex := a_val (kt_kex tabs ! 0),
                                         nk_algo_hostkey := a_val (kt_hostkey tabs ! 0)\<rparr>)\<rparr>))))"

subsection \<open>NEWKEYS\<close>

definition kexinitialise :: "int \<Rightarrow> 'a sshsession_scheme \<Rightarrow> 'a sshsession_scheme" where
  "kexinitialise now = set_kexstate (\<lambda>k. k\<lparr>ks_sentkexinit := False, ks_recvkexinit := False,
     ks_recvnewkeys := False, ks_sentnewkeys := False, ks_them_firstfollows := False,
     ks_datatrans := 0, ks_datarecv := 0, ks_our_first_follows_matches := False, ks_lastkextime := now\<rparr>)"

definition kexfirstinitialise :: "int \<Rightarrow> 'a sshsession_scheme \<Rightarrow> 'a sshsession_scheme" where
  "kexfirstinitialise now s =
     kexinitialise now (set_kexstate (\<lambda>k. k\<lparr>ks_donefirstkex := False\<rparr>) (s\<lparr>s_compress_algos := ssh_nocompress\<rparr>))"

definition switch_recv :: "'a sshsession_scheme \<Rightarrow> 'a sshsession_scheme result" where
  "switch_recv s =
     (if ks_recvnewkeys (s_kexstate s)
      then rbind (deref (s_newkeys s)) (\<lambda>nk. case nk_recv nk of
             None \<Rightarrow> Inr s
           | Some k \<Rightarrow> Inr (if k_valid k then set_recv k (s\<lparr>s_newkeys := Some (nk\<lparr>nk_recv := None\<rparr>)\<rparr>) else s))
      else Inr s)"

definition switch_trans :: "'a sshsession_scheme \<Rightarrow> 'a sshsession_scheme result" where
  "switch_trans s =
     (if ks_sentnewkeys (s_kexstate s)
      then rbind (deref (s_newkeys s)) (\<lambda>nk. case nk_trans nk of
             None \<Rightarrow> Inr s
           | Some k \<Rightarrow> Inr (if k_valid k then set_trans k (s\<lparr>s_newkeys := Some (nk\<lparr>nk_trans := None\<rparr>)\<rparr>) else s))
      else Inr s)"

definition switch_done :: "int \<Rightarrow> 'a sshsession_scheme \<Rightarrow> 'a sshsession_scheme result" where
  "switch_done now s =
     (if ks_sentnewkeys (s_kexstate s) \<and> ks_recvnewkeys (s_kexstate s)
      then rbind (deref (s_newkeys s)) (\<lambda>nk.
             Inr (kexinitialise now (s\<lparr>s_keys := (s_keys s)\<lparr>kc_algo_kex := nk_algo_kex nk,
                    kc_algo_hostkey := nk_algo_hostkey nk, kc_allow_compress := False\<rparr>, s_newkeys := None\<rparr>)))
      else Inr s)"

definition switch_keys :: "int \<Rightarrow> 'a sshsession_scheme \<Rightarrow> 'a sshsession_scheme result" where
  "switch_keys now s =
     (if \<not> (ks_sentkexinit (s_kexstate s) \<and> ks_recvkexinit (s_kexstate s))
      then Inl (Exit ''Unexpected newkeys message'')
      else rbind (switch_recv s) (\<lambda>s. rbind (switch_trans s) (switch_done now)))"

text \<open>
  \<open>out\<close> is the array the keys are written to; the state of the hash that all calls start from is
  \<open>hs\<close>. Every call writes a whole digest first, whatever \<open>outlen\<close> is.
\<close>

function hashkeys_loop :: "crypto \<Rightarrow> bytes \<Rightarrow> nat \<Rightarrow> nat \<Rightarrow> bytes \<Rightarrow> bytes result" where
  "hashkeys_loop cr hs outlen offset out =
     (if offset < outlen then
        rbind (mem_read out 0 offset) (\<lambda>bs.
        rbind (mem_write out offset (take (min (outlen - offset) SHA1_HASH_SIZE) (cr_hash cr sha1_desc (hs @ bs)))) (\<lambda>out.
        hashkeys_loop cr hs outlen (offset + SHA1_HASH_SIZE) out))
      else Inr out)"
  by pat_completeness auto
termination by (relation "measure (\<lambda>(_, _, outlen, offset, _). outlen - offset)") (auto simp: SHA1_HASH_SIZE_def)

declare hashkeys_loop.simps [simp del]

definition hashkeys :: "crypto \<Rightarrow> bytes \<Rightarrow> bytes \<Rightarrow> nat \<Rightarrow> bytes \<Rightarrow> char \<Rightarrow> bytes result" where
  "hashkeys cr session_id out outlen hs X =
     rbind (mem_read session_id 0 SHA1_HASH_SIZE) (\<lambda>sid.
     rbind (mem_write out 0 (cr_hash cr sha1_desc (hs @ ascii [X] @ sid))) (\<lambda>out.
     hashkeys_loop cr hs outlen SHA1_HASH_SIZE out))"

text \<open>
  \<open>find_cipher\<close> and \<open>find_hash\<close> return the index of a registered descriptor; \<open>crypto_init\<close>
  registers all of them, and the index is represented by the descriptor.
\<close>

definition start_cipher ::
  "crypto \<Rightarrow> bytes \<Rightarrow> bytes \<Rightarrow> key_context_directional \<Rightarrow> key_context_directional result" where
  "start_cipher cr IV key k =
     (case dc_cipherdesc (k_algo_crypt k) of
        None \<Rightarrow> Inr k
      | Some d \<Rightarrow>
          (case mode_start cr (k_crypt_mode k) d IV key (unat (dc_keysize (k_algo_crypt k))) (k_cipher_state k) of
             None \<Rightarrow> Inl (Exit ''Crypto error'')
           | Some st \<Rightarrow> Inr (k\<lparr>k_cipher_state := st\<rparr>)))"

definition start_mac ::
  "crypto \<Rightarrow> bytes \<Rightarrow> bytes \<Rightarrow> char \<Rightarrow> key_context_directional \<Rightarrow> key_context_directional result" where
  "start_mac cr session_id hs letter k =
     (case dh_hashdesc (k_algo_mac k) of
        None \<Rightarrow> Inr k
      | Some h \<Rightarrow>
          rbind (hashkeys cr session_id (k_mackey k) (unat (dh_keysize (k_algo_mac k))) hs letter) (\<lambda>mackey.
          Inr (k\<lparr>k_mackey := mackey, k_hash_index := h\<rparr>)))"

definition gen_new_keys :: "crypto \<Rightarrow> env \<Rightarrow> 'a sshsession_scheme \<Rightarrow> 'a sshsession_scheme result" where
  "gen_new_keys cr env s =
     rbind (deref (s_dh_K s)) (\<lambda>K.
     rbind (sha1_process_mp [] K) (\<lambda>hs.
     rbind (mem_read (s_hash s) 0 SHA1_HASH_SIZE) (\<lambda>h.
     let hs = hs @ h; s = s\<lparr>s_dh_K := None, s_hash := replicate SHA1_HASH_SIZE 0\<rparr>; client = \<not> s_isserver s;
         IV = map (env_junk env) [0..<MAX_IV_LEN]; key = map (env_junk env) [0..<MAX_KEY_LEN]
     in rbind (deref (s_newkeys s)) (\<lambda>nk.
        rbind (deref (nk_trans nk)) (\<lambda>trans.
        rbind (deref (nk_recv nk)) (\<lambda>recv.
        rbind (deref (s_session_id s)) (\<lambda>sid.
        let C2S_keysize = unat (dc_keysize (k_algo_crypt (if client then trans else recv)));
            S2C_keysize = unat (dc_keysize (k_algo_crypt (if client then recv else trans)))
        in rbind (hashkeys cr sid IV SHA1_HASH_SIZE hs CHR ''A'') (\<lambda>C2S_IV.
           rbind (hashkeys cr sid IV SHA1_HASH_SIZE hs CHR ''B'') (\<lambda>S2C_IV.
           rbind (hashkeys cr sid key C2S_keysize hs CHR ''C'') (\<lambda>C2S_key.
           rbind (hashkeys cr sid key S2C_keysize hs CHR ''D'') (\<lambda>S2C_key.
           rbind (start_cipher cr (if client then S2C_IV else C2S_IV) (if client then S2C_key else C2S_key) recv) (\<lambda>recv.
           rbind (start_cipher cr (if client then C2S_IV else S2C_IV) (if client then C2S_key else S2C_key) trans) (\<lambda>trans.
           rbind (start_mac cr sid hs (if client then CHR ''E'' else CHR ''F'') trans) (\<lambda>trans.
           rbind (start_mac cr sid hs (if client then CHR ''F'' else CHR ''E'') recv) (\<lambda>recv.
           Inr (s\<lparr>s_newkeys := Some (nk\<lparr>nk_trans := Some (trans\<lparr>k_valid := True\<rparr>),
                                        nk_recv := Some (recv\<lparr>k_valid := True\<rparr>)\<rparr>)\<rparr>))))))))))))))))"

definition send_msg_newkeys :: "crypto \<Rightarrow> env \<Rightarrow> 'a sshsession_scheme \<Rightarrow> 'a sshsession_scheme result" where
  "send_msg_newkeys cr env s =
     rbind (on_writepayload (\<lambda>b. buf_putbyte b SSH_MSG_NEWKEYS) s) (\<lambda>s.
     rbind (encrypt_packet cr (env_rnd env 2) (env_mac env) s) (\<lambda>s.
     let s = set_kexstate (\<lambda>k. k\<lparr>ks_sentnewkeys := True, ks_donefirstkex := True\<rparr>) (s\<lparr>s_dataallowed := True\<rparr>)
     in rbind (gen_new_keys cr env s) (switch_keys (env_now env))))"

definition recv_msg_newkeys :: "int \<Rightarrow> 'a sshsession_scheme \<Rightarrow> 'a sshsession_scheme result" where
  "recv_msg_newkeys now s = switch_keys now (set_kexstate (\<lambda>k. k\<lparr>ks_recvnewkeys := True\<rparr>) s)"

subsection \<open>Negotiation\<close>

definition match_or_exit ::
  "bool \<Rightarrow> string \<Rightarrow> algo_type list \<Rightarrow> kexguess2_used option \<Rightarrow> buffer \<Rightarrow>
     ((algo_type \<times> kexguess2_used option \<times> bool) \<times> buffer) result" where
  "match_or_exit server erralgo algos kexguess2 buf =
     rbind (buf_match_algo server buf algos kexguess2) (\<lambda>(r, kexguess2, goodguess, buf).
     case r of
       None \<Rightarrow> Inl (Exit (''No matching algo '' @ erralgo))
     | Some i \<Rightarrow> Inr ((algos ! i, kexguess2, goodguess), buf))"

definition cipher_data :: "algo_type \<Rightarrow> dropbear_cipher result" where
  "cipher_data a = (case a_data a of CipherData c \<Rightarrow> Inr c | _ \<Rightarrow> Inl NullDeref)"

definition hash_data :: "algo_type \<Rightarrow> dropbear_hash result" where
  "hash_data a = (case a_data a of HashData h \<Rightarrow> Inr h | _ \<Rightarrow> Inl NullDeref)"

text \<open>The fields of one direction; the others stay zero from the \<open>memset\<close> at the start.\<close>

definition new_direction :: "algo_type \<Rightarrow> algo_type \<Rightarrow> algo_type \<Rightarrow> key_context_directional result" where
  "new_direction cipher_algo hash_algo comp_algo =
     rbind (cipher_data cipher_algo) (\<lambda>c.
     rbind (deref (a_mode cipher_algo)) (\<lambda>m.
     rbind (hash_data hash_algo) (\<lambda>h.
     Inr \<lparr>k_algo_crypt = c, k_crypt_mode = m, k_algo_mac = h, k_hash_index = sha1_desc,
          k_algo_comp = a_val comp_algo, k_cipher_state = StateZero, k_mackey = replicate MAX_MAC_LEN 0,
          k_valid = False\<rparr>)))"

record chosen =
  ch_kex :: algo_type
  ch_hostkey :: algo_type
  ch_c2s_cipher :: algo_type
  ch_s2c_cipher :: algo_type
  ch_c2s_hash :: algo_type
  ch_s2c_hash :: algo_type
  ch_c2s_comp :: algo_type
  ch_s2c_comp :: algo_type
  ch_allgood :: bool

definition match_algos ::
  "bool \<Rightarrow> kex_tables \<Rightarrow> algo_type list \<Rightarrow> buffer \<Rightarrow> (chosen \<times> buffer) result" where
  "match_algos server tabs comps b =
     rbind (match_or_exit server ''kex'' (kt_kex tabs) (Some KEXGUESS2_LOOK) b) (\<lambda>((kex, kg, good1), b).
     if a_val kex = KEXGUESS2_ALGO_ID then Inl (Exit ''No matching algo kex'')
     else
       rbind (match_or_exit server ''hostkey'' (kt_hostkey tabs) kg b) (\<lambda>((hostkey, _, good2), b).
       rbind (match_or_exit server ''enc c->s'' (kt_ciphers tabs) None b) (\<lambda>((c2s_cipher, _), b).
       rbind (match_or_exit server ''enc s->c'' (kt_ciphers tabs) None b) (\<lambda>((s2c_cipher, _), b).
       rbind (match_or_exit server ''mac c->s'' (kt_hashes tabs) None b) (\<lambda>((c2s_hash, _), b).
       rbind (match_or_exit server ''mac s->c'' (kt_hashes tabs) None b) (\<lambda>((s2c_hash, _), b).
       rbind (match_or_exit server ''comp c->s'' comps None b) (\<lambda>((c2s_comp, _), b).
       rbind (match_or_exit server ''comp s->c'' comps None b) (\<lambda>((s2c_comp, _), b).
       Inr (\<lparr>ch_kex = kex, ch_hostkey = hostkey, ch_c2s_cipher = c2s_cipher, ch_s2c_cipher = s2c_cipher,
              ch_c2s_hash = c2s_hash, ch_s2c_hash = s2c_hash, ch_c2s_comp = c2s_comp, ch_s2c_comp = s2c_comp,
              ch_allgood = (good1 \<and> good2)\<rparr>, b)))))))))"

text \<open>\<open>guess\<close> tells whether \<open>ses.send_kex_first_guess\<close> is set.\<close>

definition read_kex_algos ::
  "kex_tables \<Rightarrow> bool \<Rightarrow> 'a sshsession_scheme \<Rightarrow> 'a sshsession_scheme result" where
  "read_kex_algos tabs guess s =
     rbind (deref (s_payload s)) (\<lambda>b.
     rbind (buf_incrpos b 16) (\<lambda>b.
     rbind (deref (s_newkeys s)) (\<lambda>_.
     rbind (match_algos (s_isserver s) tabs (s_compress_algos s) b) (\<lambda>(ch, b).
     rbind (buf_eatstring b) (\<lambda>b.
     rbind (buf_eatstring b) (\<lambda>b.
     rbind (buf_getbool b) (\<lambda>(follows, b).
     let s = (if follows \<noteq> 0
              then set_kexstate (\<lambda>k. k\<lparr>ks_them_firstfollows := True\<rparr>)
                     (if ch_allgood ch then s else s\<lparr>s_ignorenext := True\<rparr>)
              else s)
     in rbind (new_direction (ch_c2s_cipher ch) (ch_c2s_hash ch) (ch_c2s_comp ch)) (\<lambda>c2s.
        rbind (new_direction (ch_s2c_cipher ch) (ch_s2c_hash ch) (ch_s2c_comp ch)) (\<lambda>s2c.
        rbind (buf_getint b) (\<lambda>(_, b).
        let s = s\<lparr>s_payload := Some b,
                  s_newkeys := Some \<lparr>nk_recv = Some (if s_isserver s then c2s else s2c),
                                     nk_trans = Some (if s_isserver s then s2c else c2s),
                                     nk_algo_kex = a_val (ch_kex ch), nk_algo_hostkey = a_val (ch_hostkey ch)\<rparr>\<rparr>
        in Inr (if guess \<and> ch_allgood ch
                then set_kexstate (\<lambda>k. k\<lparr>ks_our_first_follows_matches := True\<rparr>) s else s)))))))))))"

definition strlen :: "bytes \<Rightarrow> nat" where
  "strlen c = length (takeWhile (\<lambda>x. x \<noteq> 0) c)"

text \<open>The four strings that start the exchange hash, in the order of the two roles.\<close>

definition put_idents ::
  "bool \<Rightarrow> bytes \<Rightarrow> buffer \<Rightarrow> buffer \<Rightarrow> buffer \<Rightarrow> buffer result" where
  "put_idents client remote transkexinit payload hb =
     rbind (if client then buf_putstring hb LOCAL_IDENT (of_nat (strlen LOCAL_IDENT))
            else buf_putstring hb remote (of_nat (strlen remote))) (\<lambda>hb.
     rbind (if client then buf_putstring hb remote (of_nat (strlen remote))
            else buf_putstring hb LOCAL_IDENT (of_nat (strlen LOCAL_IDENT))) (\<lambda>hb.
     rbind (if client then buf_putstring hb (b_data transkexinit) (b_len transkexinit)
            else buf_putstring hb (b_data payload) (b_len payload)) (\<lambda>hb.
     if client then buf_putstring hb (b_data payload) (b_len payload)
     else buf_putstring hb (b_data transkexinit) (b_len transkexinit))))"

definition recv_msg_kexinit ::
  "crypto \<Rightarrow> env \<Rightarrow> kex_tables \<Rightarrow> ('a sshsession_scheme \<Rightarrow> 'a sshsession_scheme result) option \<Rightarrow>
     'a sshsession_scheme \<Rightarrow> 'a sshsession_scheme result" where
  "recv_msg_kexinit cr env tabs guess s =
     rbind (if \<not> ks_sentkexinit (s_kexstate s) then send_msg_kexinit cr env tabs guess s else Inr s) (\<lambda>s.
     rbind (deref (s_remoteident s)) (\<lambda>remote.
     rbind (deref (s_transkexinit s)) (\<lambda>transkexinit.
     rbind (deref (s_payload s)) (\<lambda>payload.
     rbind (buf_new (of_nat (strlen LOCAL_IDENT) + of_nat (strlen remote) + b_len transkexinit + b_len payload
              + KEXHASHBUF_MAX_INTS)) (\<lambda>hb.
     rbind (read_kex_algos tabs (guess \<noteq> None) s) (\<lambda>s.
     rbind (deref (s_payload s)) (\<lambda>payload.
     rbind (buf_setpos payload 0) (\<lambda>payload.
     rbind (put_idents (\<not> s_isserver s) remote transkexinit payload hb) (\<lambda>hb.
     let s = s\<lparr>s_payload := Some payload, s_kexhashbuf := Some hb, s_transkexinit := None,
               s_requirenext := (if s_isserver s then (SSH_MSG_KEXDH_INIT, snd (s_requirenext s))
                                 else s_requirenext s)\<rparr>
     in Inr (set_kexstate (\<lambda>k. k\<lparr>ks_recvkexinit := True\<rparr>) s))))))))))"

subsection \<open>Diffie-Hellman\<close>

definition load_dh_p :: "int \<Rightarrow> mp_int" where
  "load_dh_p algo_kex =
     (if algo_kex = DROPBEAR_KEX_DH_GROUP1 then bytes_to_mp dh_p_1
      else if algo_kex = DROPBEAR_KEX_DH_GROUP14 then bytes_to_mp dh_p_14
      else 0)"

text \<open>The result is \<open>dh_pub\<close> and \<open>dh_priv\<close>.\<close>

definition gen_kexdh_vals :: "(nat \<Rightarrow> u8) list \<Rightarrow> int \<Rightarrow> (mp_int \<times> mp_int) result" where
  "gen_kexdh_vals draws algo_kex =
     (let dh_p = load_dh_p algo_kex; dh_q = mp_div_2 (dh_p - 1)
      in rbind (gen_random_mpint draws dh_q) (\<lambda>dh_priv.
         rbind (mp_okay ''Diffie-Hellman error'' (mp_exptmod DH_G_VAL dh_priv dh_p)) (\<lambda>dh_pub.
         Inr (dh_pub, dh_priv))))"

definition put_exchange :: "sign_key \<Rightarrow> int \<Rightarrow> mp_int \<Rightarrow> mp_int \<Rightarrow> mp_int \<Rightarrow> buffer \<Rightarrow> buffer result" where
  "put_exchange hostkey algo_hostkey dh_e dh_f dh_K hb =
     rbind (buf_put_pub_key hb hostkey algo_hostkey) (\<lambda>hb.
     rbind (buf_putmpint hb dh_e) (\<lambda>hb.
     rbind (buf_putmpint hb dh_f) (\<lambda>hb.
     buf_putmpint hb dh_K)))"

definition kexdh_comb_key ::
  "crypto \<Rightarrow> mp_int \<Rightarrow> mp_int \<Rightarrow> mp_int \<Rightarrow> sign_key \<Rightarrow> 'a sshsession_scheme \<Rightarrow> 'a sshsession_scheme result" where
  "kexdh_comb_key cr dh_pub_us dh_priv dh_pub_them hostkey s =
     rbind (deref (s_newkeys s)) (\<lambda>nk.
     let dh_p = load_dh_p (nk_algo_kex nk)
     in if \<not> dh_pub_them < dh_p \<or> \<not> dh_pub_them > 0 then Inl (Exit ''Diffie-Hellman error'')
     else
       rbind (mp_okay ''Diffie-Hellman error'' (mp_exptmod dh_pub_them dh_priv dh_p)) (\<lambda>dh_K.
       let dh_e = (if s_isserver s then dh_pub_them else dh_pub_us);
           dh_f = (if s_isserver s then dh_pub_us else dh_pub_them)
       in rbind (deref (s_kexhashbuf s)) (\<lambda>hb.
          rbind (put_exchange hostkey (nk_algo_hostkey nk) dh_e dh_f dh_K hb) (\<lambda>hb.
          rbind (buf_setpos hb 0) (\<lambda>hb.
          rbind (buf_getptr hb (b_len hb)) (\<lambda>p.
          rbind (mem_read (b_data hb) p (unat (b_len hb))) (\<lambda>bs.
          let H = cr_hash cr sha1_desc bs
          in Inr (s\<lparr>s_dh_K := Some dh_K, s_hash := H, s_kexhashbuf := None,
                    s_session_id := (case s_session_id s of None \<Rightarrow> Some H | Some i \<Rightarrow> Some i)\<rparr>))))))))"

subsection \<open>The server: svr-kex.c\<close>

definition put_kexdh_reply ::
  "crypto \<Rightarrow> (nat \<Rightarrow> u8) list \<Rightarrow> sign_key \<Rightarrow> int \<Rightarrow> mp_int \<Rightarrow> bytes \<Rightarrow> buffer \<Rightarrow> buffer result" where
  "put_kexdh_reply cr draws hostkey algo_hostkey dh_f hash b =
     rbind (buf_putbyte b SSH_MSG_KEXDH_REPLY) (\<lambda>b.
     rbind (buf_put_pub_key b hostkey algo_hostkey) (\<lambda>b.
     rbind (buf_putmpint b dh_f) (\<lambda>b.
     buf_put_sign cr draws b hostkey algo_hostkey hash)))"

definition send_msg_kexdh_reply ::
  "crypto \<Rightarrow> env \<Rightarrow> sign_key \<Rightarrow> mp_int \<Rightarrow> 'a sshsession_scheme \<Rightarrow> 'a sshsession_scheme result" where
  "send_msg_kexdh_reply cr env hostkey dh_e s =
     rbind (deref (s_newkeys s)) (\<lambda>nk.
     rbind (gen_kexdh_vals (env_draws env 0) (nk_algo_kex nk)) (\<lambda>(dh_f, dh_y).
     rbind (kexdh_comb_key cr dh_f dh_y dh_e hostkey s) (\<lambda>s.
     rbind (on_writepayload (put_kexdh_reply cr (env_draws env 1) hostkey (nk_algo_hostkey nk) dh_f (s_hash s)) s) (\<lambda>s.
     encrypt_packet cr (env_rnd env 1) (env_mac env) s))))"

definition recv_msg_kexdh_init ::
  "crypto \<Rightarrow> env \<Rightarrow> sign_key \<Rightarrow> 'a sshsession_scheme \<Rightarrow> 'a sshsession_scheme result" where
  "recv_msg_kexdh_init cr env hostkey s =
     (if \<not> ks_recvkexinit (s_kexstate s) then Inl (Exit ''Premature kexdh_init message received'')
      else
        rbind (deref (s_payload s)) (\<lambda>b.
        rbind (buf_getmpint b) (\<lambda>(v, b).
        case v of
          None \<Rightarrow> Inl (Exit ''Failed to get kex value'')
        | Some dh_e \<Rightarrow>
            rbind (send_msg_kexdh_reply cr env hostkey dh_e (s\<lparr>s_payload := Some b\<rparr>)) (\<lambda>s.
            rbind (send_msg_newkeys cr env s) (\<lambda>s.
            Inr (s\<lparr>s_requirenext := (SSH_MSG_NEWKEYS, 0)\<rparr>))))))"

subsection \<open>The client: cli-kex.c\<close>

text \<open>
  The fields of \<open>struct clientsession\<close> the exchange uses. The look-up in the file of known hosts,
  \<open>checkhostkey\<close>, is the argument \<open>trusted\<close>: it reads files, asks the user and exits when the key
  is refused.
\<close>

datatype cli_kex_state = KEX_NOTHING | KEXINIT_RCVD | KEXDH_INIT_SENT | KEXDONE

record clientsession = sshsession +
  cs_dh_e :: "mp_int option"
  cs_dh_x :: "mp_int option"
  cs_dh_val_algo :: int
  cs_kex_state :: cli_kex_state

definition DROPBEAR_KEX_NONE :: int where "DROPBEAR_KEX_NONE = 0"

definition send_msg_kexdh_init ::
  "crypto \<Rightarrow> env \<Rightarrow> 'a clientsession_scheme \<Rightarrow> 'a clientsession_scheme result" where
  "send_msg_kexdh_init cr env s =
     rbind (case (cs_dh_e s, cs_dh_x s) of
              (Some e, Some x) \<Rightarrow>
                rbind (deref (s_newkeys s)) (\<lambda>nk. Inr (cs_dh_val_algo s = nk_algo_kex nk))
            | _ \<Rightarrow> Inr False) (\<lambda>reuse.
     rbind (if reuse then Inr s
            else rbind (deref (s_newkeys s)) (\<lambda>nk.
                 rbind (gen_kexdh_vals (env_draws env 2) (nk_algo_kex nk)) (\<lambda>(dh_e, dh_x).
                 Inr (s\<lparr>cs_dh_e := Some dh_e, cs_dh_x := Some dh_x, cs_dh_val_algo := nk_algo_kex nk\<rparr>)))) (\<lambda>s.
     rbind (deref (cs_dh_e s)) (\<lambda>dh_e.
     rbind (on_writepayload (\<lambda>b. rbind (buf_putbyte b SSH_MSG_KEXDH_INIT) (\<lambda>b. buf_putmpint b dh_e)) s) (\<lambda>s.
     rbind (encrypt_packet cr (env_rnd env 3) (env_mac env) s) (\<lambda>s.
     Inr (s\<lparr>s_requirenext := (SSH_MSG_KEXDH_REPLY, SSH_MSG_KEXINIT)\<rparr>))))))"

definition recv_msg_kexdh_reply ::
  "crypto \<Rightarrow> env \<Rightarrow> (bytes \<Rightarrow> bool) \<Rightarrow> 'a clientsession_scheme \<Rightarrow> 'a clientsession_scheme result" where
  "recv_msg_kexdh_reply cr env trusted s =
     (if cs_kex_state s \<noteq> KEXDH_INIT_SENT then Inl (Exit ''Received out-of-order kexdhreply'')
      else
        rbind (deref (s_newkeys s)) (\<lambda>nk.
        rbind (deref (s_payload s)) (\<lambda>b.
        rbind (buf_getint b) (\<lambda>(keybloblen, b).
        rbind (buf_getptr b keybloblen) (\<lambda>p.
        rbind (mem_read (b_data b) p (unat keybloblen)) (\<lambda>keyblob.
        if \<not> ks_donefirstkex (s_kexstate s) \<and> \<not> trusted keyblob then Inl (Exit ''Didn't validate host key'')
        else
          rbind (buf_get_pub_key b new_sign_key (nk_algo_hostkey nk)) (\<lambda>(ok, hostkey, _, b).
          if \<not> ok then Inl (Exit ''Bad KEX packet'')
          else
            rbind (buf_getmpint b) (\<lambda>(v, b).
            case v of
              None \<Rightarrow> Inl (Exit ''Bad KEX packet'')
            | Some dh_f \<Rightarrow>
                rbind (deref (cs_dh_e s)) (\<lambda>dh_e.
                rbind (deref (cs_dh_x s)) (\<lambda>dh_x.
                rbind (kexdh_comb_key cr dh_e dh_x dh_f hostkey s) (\<lambda>s.
                rbind (buf_verify cr b hostkey (s_hash s)) (\<lambda>(good, b).
                if \<not> good then Inl (Exit ''Bad hostkey signature'')
                else
                  rbind (send_msg_newkeys cr env (s\<lparr>s_payload := Some b, cs_dh_e := None, cs_dh_x := None,
                           cs_dh_val_algo := DROPBEAR_KEX_NONE\<rparr>)) (\<lambda>s.
                  Inr (s\<lparr>s_requirenext := (SSH_MSG_NEWKEYS, 0)\<rparr>))))))))))))))"

end
