(* ===== verification/KexKeys.thy ===== *)
theory KexKeys
  imports Kex Transport
begin

text \<open>
  The keys that come out of the key exchange: \<open>hashkeys\<close> computes the key material of section 7.2
  of RFC 4253, within the arrays it is given, and the two sides derive the same keys, each
  direction's sending keys being the other side's receiving keys.
\<close>

subsection \<open>Key material\<close>

text \<open>
  \<open>K1 = HASH (K || H || X || session_id)\<close> and \<open>Kn = HASH (K || H || K1 || ... || K(n-1))\<close>; the key
  material is their concatenation. \<open>hs\<close> is \<open>K || H\<close> and \<open>x\<close> is \<open>X || session_id\<close>.
\<close>

fun rfc_keys :: "crypto \<Rightarrow> bytes \<Rightarrow> bytes \<Rightarrow> nat \<Rightarrow> bytes" where
  "rfc_keys cr hs x 0 = cr_hash cr sha1_desc (hs @ x)"
| "rfc_keys cr hs x (Suc n) = rfc_keys cr hs x n @ cr_hash cr sha1_desc (hs @ rfc_keys cr hs x n)"

lemma length_rfc_keys: "crypto_ok cr \<Longrightarrow> length (rfc_keys cr hs x n) = 20 * Suc n"
  by (induction n) (simp_all add: length_cr_hash)

lemma rfc_keys_prefix:
  assumes "crypto_ok cr" and "n \<le> m"
  shows "take (20 * Suc n) (rfc_keys cr hs x m) = rfc_keys cr hs x n"
  using assms(2)
proof (induction rule: dec_induct)
  case base
  show ?case by (simp add: length_rfc_keys[OF assms(1), of hs x n])
next
  case (step m)
  then show ?case using length_rfc_keys[OF assms(1), of hs x m] by simp
qed

lemma take_rfc_keys:
  assumes "crypto_ok cr" and "k \<le> 20 * Suc n" and "n \<le> m"
  shows "take k (rfc_keys cr hs x m) = take k (rfc_keys cr hs x n)"
  using arg_cong[OF rfc_keys_prefix[OF assms(1,3), of hs x], of "take k"] assms(2) by (simp add: min_def)

lemma hashkeys_loop_eq:
  assumes "crypto_ok cr" and "offset = 20 * Suc n" and "offset \<le> length out" and "outlen \<le> length out"
    and "take offset out = rfc_keys cr hs x n" and "n \<le> N" and "outlen \<le> 20 * Suc N"
  shows "hashkeys_loop cr hs outlen offset out =
    Inr (take (max offset outlen) (rfc_keys cr hs x N) @ drop (max offset outlen) out)"
  using assms(2-6)
proof (induction "outlen - offset" arbitrary: offset n out rule: less_induct)
  case less
  have base: "take offset (rfc_keys cr hs x N) = take offset out"
    using rfc_keys_prefix[OF assms(1) less.prems(5), of hs x] less.prems(1,4) by simp
  show ?case
  proof (cases "offset < outlen")
    case False
    then show ?thesis using base by (subst hashkeys_loop.simps) (simp add: max_def)
  next
    case True
    let ?k2 = "cr_hash cr sha1_desc (hs @ rfc_keys cr hs x n)"
    define r where "r = min (outlen - offset) 20"
    define out' where "out' = take offset out @ take r ?k2 @ drop (offset + r) out"
    have k2: "length ?k2 = 20" by (simp add: length_cr_hash[OF assms(1)])
    have r: "offset + r \<le> length out" "r \<le> 20" using less.prems(3) True by (simp_all add: r_def)
    have N: "Suc n \<le> N" using True less.prems(1,5) assms(7) by simp
    have w: "mem_write out offset (take r ?k2) = Inr out'" using r k2 by (simp add: out'_def)
    have rd: "mem_read out 0 offset = Inr (rfc_keys cr hs x n)" using less.prems(2,4) by simp
    have step: "hashkeys_loop cr hs outlen offset out = hashkeys_loop cr hs outlen (offset + 20) out'"
      using True w by (subst hashkeys_loop.simps) (simp add: rd SHA1_HASH_SIZE_def r_def)
    have len: "length out' = length out" using r k2 less.prems(2) by (simp add: out'_def)
    show ?thesis
    proof (cases "offset + 20 \<le> outlen")
      case full: True
      then have r20: "r = 20" by (simp add: r_def)
      have t: "take (offset + 20) out' = rfc_keys cr hs x (Suc n)"
        using less.prems(1,2,4) k2 length_rfc_keys[OF assms(1), of hs x n] by (simp add: out'_def r20)
      have "hashkeys_loop cr hs outlen (offset + 20) out' =
          Inr (take (max (offset + 20) outlen) (rfc_keys cr hs x N) @ drop (max (offset + 20) outlen) out')"
        using full True less.prems len t N by (intro less.hyps[where n = "Suc n"]) simp_all
      moreover have "drop outlen out' = drop outlen out"
        using full r20 k2 less.prems(2) r by (simp add: out'_def)
      ultimately show ?thesis using step full True by (simp add: max_def)
    next
      case part: False
      then have ro: "r = outlen - offset" "offset + r = outlen" using True by (simp_all add: r_def)
      have "take outlen (rfc_keys cr hs x N) = take outlen (rfc_keys cr hs x (Suc n))"
        using part less.prems(1) by (intro take_rfc_keys[OF assms(1) _ N]) simp
      also have "\<dots> = take offset out @ take r ?k2"
        using length_rfc_keys[OF assms(1), of hs x n] less.prems(1,4) ro True by simp
      finally show ?thesis using step part True ro
        by (simp add: hashkeys_loop.simps[of cr hs outlen "offset + 20"] out'_def max_def)
    qed
  qed
qed

definition derived :: "crypto \<Rightarrow> bytes \<Rightarrow> bytes \<Rightarrow> char \<Rightarrow> nat \<Rightarrow> bytes" where
  "derived cr hs sid X n = take n (rfc_keys cr hs (ascii [X] @ sid) n)"

lemma length_derived: "crypto_ok cr \<Longrightarrow> length (derived cr hs sid X n) = n"
  by (simp add: derived_def length_rfc_keys)

lemma derived_take: "crypto_ok cr \<Longrightarrow> n \<le> m \<Longrightarrow> take n (derived cr hs sid X m) = derived cr hs sid X n"
  using take_rfc_keys[of cr n n m] by (simp add: derived_def min_def)

lemma hashkeys_eq:
  assumes "crypto_ok cr" and "length sid = 20" and "20 \<le> length out" and "outlen \<le> length out"
  shows "hashkeys cr sid out outlen hs X = Inr (derived cr hs sid X (max 20 outlen) @ drop (max 20 outlen) out)"
proof -
  let ?x = "ascii [X] @ sid" and ?m = "max 20 outlen"
  let ?o = "rfc_keys cr hs ?x 0 @ drop 20 out"
  have l: "length (rfc_keys cr hs ?x 0) = 20" by (simp add: length_cr_hash[OF assms(1)])
  have w: "mem_write out 0 (cr_hash cr sha1_desc (hs @ ?x)) = Inr ?o" using assms(3) l by simp
  have "hashkeys_loop cr hs outlen 20 ?o =
      Inr (take (max 20 outlen) (rfc_keys cr hs ?x ?m) @ drop (max 20 outlen) ?o)"
    using assms(3,4) l by (intro hashkeys_loop_eq[OF assms(1), of _ 0]) simp_all
  moreover have "drop ?m ?o = drop ?m out" using l by simp
  ultimately show ?thesis using w assms(2)
    by (simp add: hashkeys_def SHA1_HASH_SIZE_def derived_def)
qed

subsection \<open>The keys of one direction\<close>

text \<open>
  A direction after the negotiation: no state yet, room for a MAC key, and key sizes that fit
  the arrays of \<open>gen_new_keys\<close> and that the cipher accepts.
\<close>

definition fresh_dir :: "crypto \<Rightarrow> key_context_directional \<Rightarrow> bool" where
  "fresh_dir cr k \<longleftrightarrow> length (k_mackey k) = MAX_MAC_LEN \<and>
     unat (dc_keysize (k_algo_crypt k)) \<le> MAX_KEY_LEN \<and> unat (dh_keysize (k_algo_mac k)) \<le> MAX_MAC_LEN \<and>
     (case dc_cipherdesc (k_algo_crypt k) of
        None \<Rightarrow> k_crypt_mode k = mode_none \<and> (dc_blocksize (k_algo_crypt k) = 8 \<or> dc_blocksize (k_algo_crypt k) = 16)
      | Some d \<Rightarrow> cr_setup_ok cr d (unat (dc_keysize (k_algo_crypt k))) \<and>
          unat (dc_blocksize (k_algo_crypt k)) = block_length d) \<and>
     (case dh_hashdesc (k_algo_mac k) of
        None \<Rightarrow> dh_hashsize (k_algo_mac k) = 0
      | Some h \<Rightarrow> unat (dh_hashsize (k_algo_mac k)) \<le> digest_size h \<and> dh_keysize (k_algo_mac k) \<noteq> 0)"

text \<open>
  The keys of a direction: \<open>i\<close>, \<open>e\<close> and \<open>m\<close> are the letters of its initial vector, its encryption
  key and its MAC key.
\<close>

definition with_cipher :: "crypto \<Rightarrow> bytes \<Rightarrow> bytes \<Rightarrow> key_context_directional \<Rightarrow> key_context_directional" where
  "with_cipher cr IV key k = (case dc_cipherdesc (k_algo_crypt k) of
     None \<Rightarrow> k
   | Some d \<Rightarrow> k\<lparr>k_cipher_state := the (mode_start cr (k_crypt_mode k) d IV key
                                    (unat (dc_keysize (k_algo_crypt k))) (k_cipher_state k))\<rparr>)"

definition with_mac :: "bytes \<Rightarrow> key_context_directional \<Rightarrow> key_context_directional" where
  "with_mac mackey k = (case dh_hashdesc (k_algo_mac k) of
     None \<Rightarrow> k | Some h \<Rightarrow> k\<lparr>k_mackey := mackey, k_hash_index := h\<rparr>)"

definition dir_keys ::
  "crypto \<Rightarrow> bytes \<Rightarrow> bytes \<Rightarrow> char \<times> char \<times> char \<Rightarrow> key_context_directional \<Rightarrow> key_context_directional" where
  "dir_keys cr hs sid = (\<lambda>(i, e, m) k.
     (with_mac (derived cr hs sid m MAX_MAC_LEN)
       (with_cipher cr (derived cr hs sid i 20) (derived cr hs sid e (unat (dc_keysize (k_algo_crypt k)))) k))\<lparr>k_valid := True\<rparr>)"

lemma with_cipher_fields [simp]:
  "k_algo_crypt (with_cipher cr IV key k) = k_algo_crypt k" "k_crypt_mode (with_cipher cr IV key k) = k_crypt_mode k"
  "k_algo_mac (with_cipher cr IV key k) = k_algo_mac k" "k_mackey (with_cipher cr IV key k) = k_mackey k"
  by (simp_all add: with_cipher_def split: option.split)

lemma with_mac_fields [simp]:
  "k_algo_crypt (with_mac m k) = k_algo_crypt k" "k_crypt_mode (with_mac m k) = k_crypt_mode k"
  "k_algo_mac (with_mac m k) = k_algo_mac k" "k_cipher_state (with_mac m k) = k_cipher_state k"
  by (simp_all add: with_mac_def split: option.split)

definition c2s_letters :: "char \<times> char \<times> char" where "c2s_letters = (CHR ''A'', CHR ''C'', CHR ''E'')"
definition s2c_letters :: "char \<times> char \<times> char" where "s2c_letters = (CHR ''B'', CHR ''D'', CHR ''F'')"

lemma mode_start_key:
  "take n key = take n key' \<Longrightarrow> mode_start cr mode d IV key n st = mode_start cr mode d IV key' n st"
  by (cases mode) (simp_all add: cbc_start_def ctr_start_def Let_def)

lemma mode_start_ok: "cr_setup_ok cr d n \<Longrightarrow> \<exists>s. mode_start cr mode d IV key n st = Some s"
  by (cases mode) (simp_all add: cbc_start_def ctr_start_def Let_def)

lemma start_cipher_eq:
  assumes "crypto_ok cr" and "fresh_dir cr k" and "length junk = MAX_KEY_LEN"
    and "n = unat (dc_keysize (k_algo_crypt k))"
  shows "start_cipher cr IV (derived cr hs sid e (max 20 n) @ drop (max 20 n) junk) k =
    Inr (with_cipher cr IV (derived cr hs sid e n) k)"
proof (cases "dc_cipherdesc (k_algo_crypt k)")
  case (Some d)
  let ?key = "derived cr hs sid e (max 20 n) @ drop (max 20 n) junk"
  have "take n ?key = take n (derived cr hs sid e n)"
    using length_derived[OF assms(1)] derived_take[OF assms(1), of n "max 20 n"] by simp
  then have "mode_start cr (k_crypt_mode k) d IV ?key n (k_cipher_state k) =
      mode_start cr (k_crypt_mode k) d IV (derived cr hs sid e n) n (k_cipher_state k)" by (rule mode_start_key)
  moreover obtain st where "mode_start cr (k_crypt_mode k) d IV (derived cr hs sid e n) n (k_cipher_state k) = Some st"
    using mode_start_ok[of cr d n] assms(2,4) Some unfolding fresh_dir_def by fastforce
  ultimately show ?thesis using Some assms(4) by (simp add: start_cipher_def with_cipher_def)
qed (simp add: start_cipher_def with_cipher_def)

lemma start_mac_eq:
  assumes "crypto_ok cr" and "length sid = 20" and "length (k_mackey k) = MAX_MAC_LEN"
    and "unat (dh_keysize (k_algo_mac k)) \<le> MAX_MAC_LEN"
  shows "start_mac cr sid hs m k = Inr (with_mac (derived cr hs sid m MAX_MAC_LEN) k)"
proof -
  have "max 20 (unat (dh_keysize (k_algo_mac k))) = 20" using assms(4) by (simp add: MAX_MAC_LEN_def)
  then have "hashkeys cr sid (k_mackey k) (unat (dh_keysize (k_algo_mac k))) hs m = Inr (derived cr hs sid m MAX_MAC_LEN)"
    using hashkeys_eq[OF assms(1,2), of "k_mackey k" "unat (dh_keysize (k_algo_mac k))"] assms(3,4)
    by (simp add: MAX_MAC_LEN_def)
  then show ?thesis by (simp add: start_mac_def with_mac_def split: option.split)
qed

text \<open>What the key exchange has left in a session when the keys are derived.\<close>

definition secrets_ready :: "crypto \<Rightarrow> 'a sshsession_scheme \<Rightarrow> new_key_context \<Rightarrow> key_context_directional \<Rightarrow>
    key_context_directional \<Rightarrow> int \<Rightarrow> bytes \<Rightarrow> bool" where
  "secrets_ready cr s nk t r K sid \<longleftrightarrow> s_dh_K s = Some K \<and> mp_fits K \<and> length (mp_enc K) \<le> 532 \<and>
     length (s_hash s) = SHA1_HASH_SIZE \<and> s_newkeys s = Some nk \<and> nk_trans nk = Some t \<and> nk_recv nk = Some r \<and>
     s_session_id s = Some sid \<and> length sid = SHA1_HASH_SIZE \<and> fresh_dir cr t \<and> fresh_dir cr r"

lemma gen_new_keys_eq:
  assumes "crypto_ok cr" and "secrets_ready cr s nk t r K sid" and "hs = mp_enc K @ s_hash s"
  shows "gen_new_keys cr env s =
    Inr (s\<lparr>s_dh_K := None, s_hash := replicate SHA1_HASH_SIZE 0,
       s_newkeys := Some (nk\<lparr>nk_trans := Some (dir_keys cr hs sid (if s_isserver s then s2c_letters else c2s_letters) t),
                            nk_recv := Some (dir_keys cr hs sid (if s_isserver s then c2s_letters else s2c_letters) r)\<rparr>)\<rparr>)"
proof -
  note a = assms(2)[unfolded secrets_ready_def]
  have K: "sha1_process_mp [] K = Inr (mp_enc K)" using sha1_process_mp_eq[of K "[]"] a by simp
  have h: "mem_read (s_hash s) 0 SHA1_HASH_SIZE = Inr (s_hash s)" using a by simp
  let ?IV = "map (env_junk env) [0..<MAX_IV_LEN]" and ?key = "map (env_junk env) [0..<MAX_KEY_LEN]"
  have sid: "length sid = 20" using a by (simp add: SHA1_HASH_SIZE_def)
  have iv: "hashkeys cr sid ?IV SHA1_HASH_SIZE hs X = Inr (derived cr hs sid X 20)" for X
    using hashkeys_eq[OF assms(1) sid, of ?IV SHA1_HASH_SIZE] by (simp add: MAX_IV_LEN_def SHA1_HASH_SIZE_def)
  have key: "hashkeys cr sid ?key n hs X = Inr (derived cr hs sid X (max 20 n) @ drop (max 20 n) ?key)" if "n \<le> 32" for n X
    using hashkeys_eq[OF assms(1) sid, of ?key n] that by (simp add: MAX_KEY_LEN_def)
  have t: "fresh_dir cr t" "unat (dc_keysize (k_algo_crypt t)) \<le> 32" "length (k_mackey t) = MAX_MAC_LEN"
      "unat (dh_keysize (k_algo_mac t)) \<le> MAX_MAC_LEN"
    and r: "fresh_dir cr r" "unat (dc_keysize (k_algo_crypt r)) \<le> 32" "length (k_mackey r) = MAX_MAC_LEN"
      "unat (dh_keysize (k_algo_mac r)) \<le> MAX_MAC_LEN"
    using a by (simp_all add: fresh_dir_def MAX_KEY_LEN_def)
  have lk: "length ?key = MAX_KEY_LEN" by simp
  have m: "start_mac cr sid hs m (with_cipher cr IV x k) = Inr (with_mac (derived cr hs sid m MAX_MAC_LEN) (with_cipher cr IV x k))"
    if "length (k_mackey k) = MAX_MAC_LEN" "unat (dh_keysize (k_algo_mac k)) \<le> MAX_MAC_LEN" for k m IV x
    using start_mac_eq[OF assms(1) sid, of "with_cipher cr IV x k" hs m] that by simp
  show ?thesis
    unfolding gen_new_keys_def
    using a iv key[OF t(2)] key[OF r(2)] start_cipher_eq[OF assms(1) t(1) lk refl] start_cipher_eq[OF assms(1) r(1) lk refl]
      m[OF t(3,4)] m[OF r(3,4)]
    by (cases "s_isserver s") (simp_all add: K h Let_def dir_keys_def c2s_letters_def s2c_letters_def flip: assms(3))
qed

lemma dir_keys_fields:
  "k_algo_crypt (dir_keys cr hs sid L k) = k_algo_crypt k" "k_crypt_mode (dir_keys cr hs sid L k) = k_crypt_mode k"
  "k_algo_mac (dir_keys cr hs sid L k) = k_algo_mac k" "k_valid (dir_keys cr hs sid L k)"
  by (cases L; simp add: dir_keys_def)+

lemma dir_keys_ok:
  assumes "crypto_ok cr" and "fresh_dir cr k"
  shows "dir_ok (dir_keys cr hs sid L k)"
    and "mode_sync cr (k_crypt_mode k) (unat (dc_blocksize (k_algo_crypt k)))
      (k_cipher_state (dir_keys cr hs sid L k)) (k_cipher_state (dir_keys cr hs sid L k))"
proof -
  obtain i e m where L: "L = (i, e, m)" by (cases L)
  have bl: "block_length d = 8 \<or> block_length d = 16" for d by (cases d) simp_all
  have b: "dc_blocksize (k_algo_crypt k) = 8 \<or> dc_blocksize (k_algo_crypt k) = 16"
    using assms(2) bl by (auto simp: fresh_dir_def word_unat_eq_iff split: option.splits)
  have "mac_ok (dir_keys cr hs sid L k)"
    using assms(2) by (auto simp: L mac_ok_def dir_keys_def with_mac_def fresh_dir_def split: option.splits)
  then show "dir_ok (dir_keys cr hs sid L k)" using b by (simp add: dir_ok_def dir_keys_fields)
  show "mode_sync cr (k_crypt_mode k) (unat (dc_blocksize (k_algo_crypt k)))
      (k_cipher_state (dir_keys cr hs sid L k)) (k_cipher_state (dir_keys cr hs sid L k))"
  proof (cases "dc_cipherdesc (k_algo_crypt k)")
    case None
    then show ?thesis using assms by (simp add: fresh_dir_def)
  next
    case (Some d)
    let ?n = "unat (dc_keysize (k_algo_crypt k))"
    have d: "cr_setup_ok cr d ?n" "unat (dc_blocksize (k_algo_crypt k)) = block_length d"
      using assms(2) Some by (simp_all add: fresh_dir_def)
    obtain st where st: "mode_start cr (k_crypt_mode k) d (derived cr hs sid i 20) (derived cr hs sid e ?n) ?n (k_cipher_state k) = Some st"
      using mode_start_ok[OF d(1)] by blast
    have "block_length d \<le> length (derived cr hs sid i 20)"
      using length_derived[OF assms(1)] bl[of d] by auto
    from mode_start_sync[OF assms(1) this refl st] show ?thesis
      using Some st d(2) by (simp add: L dir_keys_def with_cipher_def)
  qed
qed

subsection \<open>Bringing the keys into use\<close>

text \<open>
  From the derivation on, a side sends with the new keys at once (\<open>send_msg_newkeys\<close>) and receives
  with them after the peer's NEWKEYS (\<open>recv_msg_newkeys\<close>), which ends the exchange.
\<close>

definition kex_flags :: "'a sshsession_scheme \<Rightarrow> bool \<times> bool \<times> bool \<times> bool" where
  "kex_flags s = (ks_sentkexinit (s_kexstate s), ks_recvkexinit (s_kexstate s),
     ks_sentnewkeys (s_kexstate s), ks_recvnewkeys (s_kexstate s))"

lemma switch_after_send:
  assumes "kex_flags s = (True, True, True, False)" and "s_newkeys s = Some nk" and "nk_trans nk = Some t" and "k_valid t"
  shows "switch_keys now s = Inr (set_trans t (s\<lparr>s_newkeys := Some (nk\<lparr>nk_trans := None\<rparr>)\<rparr>))"
  using assms by (simp add: kex_flags_def switch_keys_def switch_recv_def switch_trans_def switch_done_def set_trans_def)

lemma switch_after_recv:
  assumes "kex_flags s = (True, True, True, False)" and "s_newkeys s = Some nk" and "nk_trans nk = None"
    and "nk_recv nk = Some r" and "k_valid r"
  shows "recv_msg_newkeys now s = Inr (kexinitialise now (s\<lparr>s_newkeys := None,
     s_keys := (s_keys s)\<lparr>kc_recv := r, kc_algo_kex := nk_algo_kex nk, kc_algo_hostkey := nk_algo_hostkey nk,
                           kc_allow_compress := False\<rparr>\<rparr>))"
  using assms
  by (simp add: recv_msg_newkeys_def set_kexstate_def kex_flags_def switch_keys_def switch_recv_def switch_trans_def
      switch_done_def set_recv_def kexinitialise_def)

lemma keys_switched:
  assumes "crypto_ok cr" and "secrets_ready cr s nk t r K sid" and "kex_flags s = (True, True, True, False)"
  obtains s1 s2 where "rbind (gen_new_keys cr env s) (switch_keys now) = Inr s1" and "recv_msg_newkeys now' s1 = Inr s2"
    and "kc_trans (s_keys s1) = dir_keys cr (mp_enc K @ s_hash s) sid (if s_isserver s then s2c_letters else c2s_letters) t"
    and "kc_trans (s_keys s2) = dir_keys cr (mp_enc K @ s_hash s) sid (if s_isserver s then s2c_letters else c2s_letters) t"
    and "kc_recv (s_keys s2) = dir_keys cr (mp_enc K @ s_hash s) sid (if s_isserver s then c2s_letters else s2c_letters) r"
    and "kc_recv (s_keys s1) = kc_recv (s_keys s)" and "kex_flags s2 = (False, False, False, False)" and "s_newkeys s2 = None"
    and "s_recvseq s2 = s_recvseq s" and "s_transseq s2 = s_transseq s" and "s_readbuf s2 = s_readbuf s"
    and "s_session_id s2 = s_session_id s"
proof -
  let ?hs = "mp_enc K @ s_hash s"
  define T where "T = dir_keys cr ?hs sid (if s_isserver s then s2c_letters else c2s_letters) t"
  define R where "R = dir_keys cr ?hs sid (if s_isserver s then c2s_letters else s2c_letters) r"
  have v: "k_valid T" "k_valid R" by (simp_all add: T_def R_def dir_keys_fields)
  define g where "g = s\<lparr>s_dh_K := None, s_hash := replicate SHA1_HASH_SIZE 0, s_newkeys := Some (nk\<lparr>nk_trans := Some T, nk_recv := Some R\<rparr>)\<rparr>"
  define s1 where "s1 = set_trans T (g\<lparr>s_newkeys := Some (nk\<lparr>nk_recv := Some R, nk_trans := None\<rparr>)\<rparr>)"
  have gen: "gen_new_keys cr env s = Inr g" unfolding g_def T_def R_def by (rule gen_new_keys_eq[OF assms(1,2) refl])
  have sw: "switch_keys now g = Inr s1"
    using switch_after_send[of g "nk\<lparr>nk_trans := Some T, nk_recv := Some R\<rparr>" T now] assms(3)
    by (simp add: g_def s1_def kex_flags_def v)
  have rv: "recv_msg_newkeys now' s1 = Inr (kexinitialise now' (s1\<lparr>s_newkeys := None, s_keys := (s_keys s1)\<lparr>kc_recv := R,
      kc_algo_kex := nk_algo_kex nk, kc_algo_hostkey := nk_algo_hostkey nk, kc_allow_compress := False\<rparr>\<rparr>))"
    using switch_after_recv[of s1 "nk\<lparr>nk_recv := Some R, nk_trans := None\<rparr>" R now'] assms(3)
    by (simp add: s1_def g_def kex_flags_def v set_trans_def)
  have both: "rbind (gen_new_keys cr env s) (switch_keys now) = Inr s1" using gen sw by simp
  show thesis
    by (rule that[OF both rv]) (simp_all add: kexinitialise_def set_kexstate_def kex_flags_def s1_def g_def set_trans_def T_def R_def)
qed

lemma in_step_keys:
  assumes "crypto_ok cr" and "fresh_dir cr k" and "kc_trans (s_keys s) = dir_keys cr hs sid L k"
    and "kc_recv (s_keys r) = dir_keys cr hs sid L k" and "s_recvseq r = s_transseq s" and "s_readbuf r = None"
  shows "in_step cr s r"
  using assms dir_keys_ok[OF assms(1,2)] by (simp add: in_step_def Let_def same_keys_def dir_keys_fields)

subsection \<open>Properties\<close>




definition sample_dir :: key_context_directional where
  "sample_dir = sample_key\<lparr>k_cipher_state := StateZero, k_mackey := replicate 20 0, k_valid := False\<rparr>"

definition sample_kex :: "bool \<Rightarrow> sshsession" where
  "sample_kex server = (sample_session (mkbuf [] 0 0 0))\<lparr>s_isserver := server, s_dh_K := Some 5, s_hash := replicate 20 1,
     s_session_id := Some (replicate 20 2),
     s_kexstate := sample_kexstate\<lparr>ks_sentkexinit := True, ks_recvkexinit := True, ks_sentnewkeys := True\<rparr>,
     s_newkeys := Some \<lparr>nk_recv = Some sample_dir, nk_trans = Some sample_dir, nk_algo_kex = 1, nk_algo_hostkey = 1\<rparr>\<rparr>"

lemma sample_secrets:
  "secrets_ready toy_crypto (sample_kex server)
     \<lparr>nk_recv = Some sample_dir, nk_trans = Some sample_dir, nk_algo_kex = 1, nk_algo_hostkey = 1\<rparr>
     sample_dir sample_dir 5 (replicate 20 2)"
proof -
  have "mp_fits 5" "length (mp_enc 5) \<le> 532" by code_simp+
  then show ?thesis
    by (simp add: secrets_ready_def sample_kex_def fresh_dir_def sample_dir_def sample_key_def sample_session_def
        SHA1_HASH_SIZE_def MAX_MAC_LEN_def MAX_KEY_LEN_def dropbear_3des_def dropbear_sha1_def toy_crypto_def)
qed

definition sample_env :: env where
  "sample_env = \<lparr>env_rnd = (\<lambda>i j. of_nat (i + j)), env_draws = (\<lambda>i. [\<lambda>j. 0, \<lambda>j. 1]), env_now = 7,
     env_mac = replicate 20 0, env_junk = (\<lambda>i. 3)\<rparr>"


end
