(* ===== verification/KexAgree.thy ===== *)
theory KexAgree
  imports KexKeys
begin

text \<open>
  The two sides of a key exchange reach the same result: from the KEXINIT messages they choose the
  same algorithms and start the same exchange hash, and from the Diffie-Hellman values they compute
  the same shared secret, exchange hash and session identifier.
\<close>

subsection \<open>The KEXINIT message\<close>

definition list_enc :: "algo_type list \<Rightarrow> bytes" where
  "list_enc algos = store32h (of_nat (length (join (usable_names algos)))) @ join (usable_names algos)"

definition lists_enc :: "kex_tables \<Rightarrow> algo_type list \<Rightarrow> bytes" where
  "lists_enc t comps = list_enc (kt_kex t) @ list_enc (kt_hostkey t) @ list_enc (kt_ciphers t) @ list_enc (kt_ciphers t) @
     list_enc (kt_hashes t) @ list_enc (kt_hashes t) @ list_enc comps @ list_enc comps"

definition kexinit_enc :: "bytes \<Rightarrow> kex_tables \<Rightarrow> algo_type list \<Rightarrow> bool \<Rightarrow> bytes" where
  "kexinit_enc cookie t comps first = SSH_MSG_KEXINIT # cookie @ lists_enc t comps @
     store32h 0 @ store32h 0 @ (if first then 1 else 0) # store32h 0"

definition tables_fine :: "kex_tables \<Rightarrow> algo_type list \<Rightarrow> bool" where
  "tables_fine t comps \<longleftrightarrow> table_ok (kt_kex t) \<and> table_ok (kt_hostkey t) \<and> table_ok (kt_ciphers t) \<and>
     table_ok (kt_hashes t) \<and> table_ok comps"

lemma puts_algolist: "table_ok algos \<Longrightarrow> puts (\<lambda>b. buf_put_algolist b algos) (list_enc algos)"
  using str_codec.put_puts[of "join (usable_names algos)"]
  by (simp add: buf_put_algolist_eq list_enc_def table_ok_def)

lemma puts_random:
  assumes "unat n \<le> 3000000000"
  shows "puts (put_random rnd n) (map rnd [0..<unat n])"
  using puts_raw[of n "map rnd [0..<unat n]"] assms unfolding put_random_def[abs_def] by simp

lemma puts_kexinit:
  assumes "tables_fine t comps"
  shows "puts (put_kexinit cookie t comps first) (kexinit_enc (map cookie [0..<16]) t comps first)"
proof -
  have c: "puts (put_random cookie 16) (map cookie [0..<16])" using puts_random[of 16 cookie] by simp
  have e: "puts (\<lambda>b. buf_putstring b [] 0) (store32h 0)" using puts_string[of 0 "[]"] by simp
  have f: "puts (\<lambda>b. buf_putbyte b (if first then 1 else 0)) [if first then 1 else 0]" by (rule puts_byte)
  have l: "puts (\<lambda>b. buf_put_algolist b (kt_kex t)) (list_enc (kt_kex t))"
    "puts (\<lambda>b. buf_put_algolist b (kt_hostkey t)) (list_enc (kt_hostkey t))"
    "puts (\<lambda>b. buf_put_algolist b (kt_ciphers t)) (list_enc (kt_ciphers t))"
    "puts (\<lambda>b. buf_put_algolist b (kt_hashes t)) (list_enc (kt_hashes t))"
    "puts (\<lambda>b. buf_put_algolist b comps) (list_enc comps)"
    using assms by (simp_all add: tables_fine_def puts_algolist)
  have "puts (put_kexinit cookie t comps first) ([SSH_MSG_KEXINIT] @ map cookie [0..<16] @ list_enc (kt_kex t) @
      list_enc (kt_hostkey t) @ list_enc (kt_ciphers t) @ list_enc (kt_ciphers t) @ list_enc (kt_hashes t) @
      list_enc (kt_hashes t) @ list_enc comps @ list_enc comps @ store32h 0 @ store32h 0 @
      [if first then 1 else 0] @ store32h 0)"
    unfolding put_kexinit_def by (intro puts_seq puts_byte puts_int c e f l)
  then show ?thesis by (simp add: kexinit_enc_def lists_enc_def)
qed

subsection \<open>Choosing the algorithms\<close>

lemma gets_match:
  assumes "table_ok algos" and "table_ok peer" and "pick server algos (usable_names peer) kg = (Some i, kg', g)"
  shows "gets (match_or_exit server err algos kg) (list_enc peer) (algos ! i, kg', g)"
  unfolding gets_def
proof (intro allI impI)
  fix b rest assume b: "buf_inv b" "unread b = list_enc peer @ rest"
  have n: "\<forall>n \<in> set (usable_names peer). name_ok n" "length (usable_names peer) \<le> 20"
    "length (join (usable_names peer)) \<le> 1300"
    using assms(2) names_ok_usable length_usable by (auto simp: table_ok_def)
  show "match_or_exit server err algos kg b = Inr ((algos ! i, kg', g), advance b (length (list_enc peer)))"
    using buf_match_algo_pick[OF b(1) assms(1) n _ assms(3), of rest] b(2)
    by (simp add: match_or_exit_def list_enc_def)
qed

lemma match_algos_gets:
  assumes "tables_fine t comps" and "tables_fine p pcomps"
    and "pick server (kt_kex t) (usable_names (kt_kex p)) (Some KEXGUESS2_LOOK) = (Some i1, kg1, g1)"
    and "a_val (kt_kex t ! i1) \<noteq> KEXGUESS2_ALGO_ID"
    and "pick server (kt_hostkey t) (usable_names (kt_hostkey p)) kg1 = (Some i2, kg2, g2)"
    and "pick server (kt_ciphers t) (usable_names (kt_ciphers p)) None = (Some i3, kg3, g3)"
    and "pick server (kt_hashes t) (usable_names (kt_hashes p)) None = (Some i4, kg4, g4)"
    and "pick server comps (usable_names pcomps) None = (Some i5, kg5, g5)"
  shows "gets (match_algos server t comps) (lists_enc p pcomps)
    \<lparr>ch_kex = kt_kex t ! i1, ch_hostkey = kt_hostkey t ! i2, ch_c2s_cipher = kt_ciphers t ! i3, ch_s2c_cipher = kt_ciphers t ! i3,
     ch_c2s_hash = kt_hashes t ! i4, ch_s2c_hash = kt_hashes t ! i4, ch_c2s_comp = comps ! i5, ch_s2c_comp = comps ! i5,
     ch_allgood = (g1 \<and> g2)\<rparr>" (is "gets _ _ ?ch")
proof -
  note tf = assms(1,2)[unfolded tables_fine_def]
  have m: "gets (match_or_exit server err (kt_kex t) (Some KEXGUESS2_LOOK)) (list_enc (kt_kex p)) (kt_kex t ! i1, kg1, g1)"
    "gets (match_or_exit server err (kt_hostkey t) kg1) (list_enc (kt_hostkey p)) (kt_hostkey t ! i2, kg2, g2)"
    "gets (match_or_exit server err (kt_ciphers t) None) (list_enc (kt_ciphers p)) (kt_ciphers t ! i3, kg3, g3)"
    "gets (match_or_exit server err (kt_hashes t) None) (list_enc (kt_hashes p)) (kt_hashes t ! i4, kg4, g4)"
    "gets (match_or_exit server err comps None) (list_enc pcomps) (comps ! i5, kg5, g5)" for err
    using tf by (auto intro: gets_match[OF _ _ assms(3)] gets_match[OF _ _ assms(5)] gets_match[OF _ _ assms(6)]
        gets_match[OF _ _ assms(7)] gets_match[OF _ _ assms(8)])
  have "gets (match_algos server t comps) (list_enc (kt_kex p) @ list_enc (kt_hostkey p) @ list_enc (kt_ciphers p) @
     list_enc (kt_ciphers p) @ list_enc (kt_hashes p) @ list_enc (kt_hashes p) @ list_enc pcomps @ list_enc pcomps @ []) ?ch"
    unfolding match_algos_def
    apply (rule gets_bind[OF m(1)])
    apply (simp only: prod.case assms(4) if_False)
    apply (rule gets_bind[OF m(2)], simp only: prod.case)
    apply (rule gets_bind[OF m(3)], simp only: prod.case)
    apply (rule gets_bind[OF m(3)], simp only: prod.case)
    apply (rule gets_bind[OF m(4)], simp only: prod.case)
    apply (rule gets_bind[OF m(4)], simp only: prod.case)
    apply (rule gets_bind[OF m(5)], simp only: prod.case)
    apply (rule gets_bind[OF m(5)], simp only: prod.case)
    apply (rule gets_return)
    done
  then show ?thesis by (simp add: lists_enc_def)
qed

text \<open>
  A table made from a standard one: entries may be left out, reordered or marked unusable (by the
  options \<open>-c\<close> and \<open>-m\<close>, or for want of a host key), so a name still stands for one algorithm.
\<close>

definition same_algo :: "algo_type \<Rightarrow> algo_type \<Rightarrow> bool" where
  "same_algo a b \<longleftrightarrow> a_name a = a_name b \<and> a_val a = a_val b \<and> a_data a = a_data b \<and> a_mode a = a_mode b"

definition table_of :: "algo_type list \<Rightarrow> algo_type list \<Rightarrow> bool" where
  "table_of std algos \<longleftrightarrow> table_ok algos \<and> (\<forall>a \<in> set (entries algos). \<exists>b \<in> set (entries std). same_algo a b)"

lemma same_algo_std:
  assumes "distinct (map a_name (entries std))" and "table_of std as" and "table_of std bs"
    and "a \<in> set (entries as)" and "b \<in> set (entries bs)" and "a_name a = a_name b"
  shows "same_algo a b"
proof -
  obtain x y where "x \<in> set (entries std)" "same_algo a x" "y \<in> set (entries std)" "same_algo b y"
    using assms(2-5) unfolding table_of_def by meson
  moreover from this have "x = y" using assms(1,6) by (auto simp: same_algo_def distinct_map dest: inj_onD)
  ultimately show ?thesis by (simp add: same_algo_def)
qed

text \<open>Both sides pick entries for the same algorithm when they have one in common.\<close>

lemma pick_Some:
  assumes "table_ok algos" and "(if server then negotiated ns (usable_names algos) else negotiated (usable_names algos) ns) = Some n"
  obtains i kg' g where "pick server algos ns kg = (Some i, kg', g)" and "a_name (algos ! i) = Some n"
    and "algos ! i \<in> set (entries algos)"
proof -
  obtain r kg' g where p: "pick server algos ns kg = (r, kg', g)" by (metis prod_cases3)
  note c = pick_chosen[OF assms(1) p]
  from c(1) assms(2) obtain i where i: "r = Some i" "a_name (algos ! i) = Some n"
    by (auto simp: chosen_name_def split: option.splits)
  then have "algos ! i \<in> set (entries algos)" using c(3)[OF i(1)] entries_nth[of i algos] nth_mem by fastforce
  then show thesis using that p i by blast
qed

lemma picks_agree:
  assumes "distinct (map a_name (entries std))" and "table_of std tc" and "table_of std ts"
    and "negotiated (usable_names tc) (usable_names ts) = Some n"
  obtains i kgc gc j kgs gs where "pick False tc (usable_names ts) kg1 = (Some i, kgc, gc)"
    and "pick True ts (usable_names tc) kg2 = (Some j, kgs, gs)" and "same_algo (tc ! i) (ts ! j)"
    and "a_name (tc ! i) = Some n" and "\<exists>b \<in> set (entries std). same_algo (tc ! i) b"
    and "\<exists>b \<in> set (entries std). same_algo (ts ! j) b"
proof -
  have t: "table_ok tc" "table_ok ts" using assms(2,3) by (simp_all add: table_of_def)
  obtain i kgc gc where i: "pick False tc (usable_names ts) kg1 = (Some i, kgc, gc)" "a_name (tc ! i) = Some n"
    "tc ! i \<in> set (entries tc)"
    by (rule pick_Some[OF t(1), of False "usable_names ts" n kg1]) (use assms(4) in auto)
  obtain j kgs gs where j: "pick True ts (usable_names tc) kg2 = (Some j, kgs, gs)" "a_name (ts ! j) = Some n"
    "ts ! j \<in> set (entries ts)"
    by (rule pick_Some[OF t(2), of True "usable_names tc" n kg2]) (use assms(4) in auto)
  show thesis
    using that[OF i(1) j(1) same_algo_std[OF assms(1-3) i(3) j(3)] i(2)] i j assms(2,3) by (auto simp: table_of_def)
qed

text \<open>What both sides end up with: the algorithms of the exchange and of each direction.\<close>

definition kex_std :: "kex_tables \<Rightarrow> algo_type list \<Rightarrow> bool" where
  "kex_std t comps \<longleftrightarrow> table_of sshkex (kt_kex t) \<and> table_of sshhostkey (kt_hostkey t) \<and> table_of sshciphers (kt_ciphers t) \<and>
     table_of sshhashes (kt_hashes t) \<and> table_of ssh_nocompress comps"

definition compatible :: "kex_tables \<Rightarrow> kex_tables \<Rightarrow> algo_type list \<Rightarrow> algo_type list \<Rightarrow> bool" where
  "compatible tc ts cc cs \<longleftrightarrow>
     negotiated (usable_names (kt_kex tc)) (usable_names (kt_kex ts)) \<notin> {None, Some (ascii KEXGUESS2_ALGO_NAME)} \<and>
     negotiated (usable_names (kt_hostkey tc)) (usable_names (kt_hostkey ts)) \<noteq> None \<and>
     negotiated (usable_names (kt_ciphers tc)) (usable_names (kt_ciphers ts)) \<noteq> None \<and>
     negotiated (usable_names (kt_hashes tc)) (usable_names (kt_hashes ts)) \<noteq> None \<and>
     negotiated (usable_names cc) (usable_names cs) \<noteq> None"

lemma std_names_distinct:
  "distinct (map a_name (entries sshkex))" "distinct (map a_name (entries sshhostkey))"
  "distinct (map a_name (entries sshciphers))" "distinct (map a_name (entries sshhashes))"
  "distinct (map a_name (entries ssh_nocompress))"
  by (simp_all add: entries_def algo_tables)

lemma kex_std_fine: "kex_std t comps \<Longrightarrow> tables_fine t comps"
  by (simp add: kex_std_def tables_fine_def table_of_def)

text \<open>The setup routines of the block ciphers accept the key sizes of the table.\<close>

definition ciphers_ok :: "crypto \<Rightarrow> bool" where
  "ciphers_ok cr \<longleftrightarrow> cr_setup_ok cr aes_desc 16 \<and> cr_setup_ok cr aes_desc 32 \<and> cr_setup_ok cr des3_desc 24 \<and>
     cr_setup_ok cr twofish_desc 16 \<and> cr_setup_ok cr twofish_desc 32"

lemma new_direction_std:
  assumes "ciphers_ok cr" and "\<exists>b \<in> set (entries sshciphers). same_algo c b" and "\<exists>b \<in> set (entries sshhashes). same_algo h b"
  obtains k where "new_direction c h z = Inr k" and "fresh_dir cr k"
proof -
  have "\<exists>k. new_direction c h z = Inr k \<and> fresh_dir cr k"
    using assms
    by (auto simp: entries_def algo_tables same_algo_def new_direction_def cipher_data_def hash_data_def fresh_dir_def
        ciphers_ok_def dropbear_aes128_def dropbear_aes256_def dropbear_3des_def dropbear_twofish128_def
        dropbear_twofish256_def dropbear_sha1_def dropbear_sha1_96_def dropbear_md5_def MAX_KEY_LEN_def MAX_MAC_LEN_def)
  then show thesis using that by blast
qed

lemma new_direction_cong:
  "same_algo c c' \<Longrightarrow> same_algo h h' \<Longrightarrow> same_algo z z' \<Longrightarrow> new_direction c h z = new_direction c' h' z'"
  by (simp add: new_direction_def cipher_data_def hash_data_def same_algo_def)

subsection \<open>Reading the peer's KEXINIT\<close>

lemma incrpos_advance:
  assumes "buf_inv b" and "unread b = bs @ rest" and "unat n = length bs" and "length bs \<le> 1000000"
  shows "buf_incrpos b n = Inr (advance b (length bs))" "buf_inv (advance b (length bs))" "unread (advance b (length bs)) = rest"
  using assms buf_incrpos_forward[OF assms(1), of n] by (simp_all add: advance_inv unread_advance)

lemma eatstring_empty:
  assumes "buf_inv b" and "unread b = store32h 0 @ rest"
  shows "buf_eatstring b = Inr (advance b 4)" "buf_inv (advance b 4)" "unread (advance b 4) = rest"
proof -
  show i: "buf_inv (advance b 4)" "unread (advance b 4) = rest"
    using assms by (simp_all add: advance_inv unread_advance)
  show "buf_eatstring b = Inr (advance b 4)"
    using gets_ok[OF gets_int assms] buf_incrpos_forward[OF i(1), of 0] by (simp add: buf_eatstring_def)
qed

definition negotiated_session ::
  "bool \<Rightarrow> bool \<Rightarrow> chosen \<Rightarrow> key_context_directional \<Rightarrow> key_context_directional \<Rightarrow> buffer \<Rightarrow>
     'a sshsession_scheme \<Rightarrow> 'a sshsession_scheme" where
  "negotiated_session first guess ch c2s s2c b s =
     set_kexstate (\<lambda>k. k\<lparr>ks_them_firstfollows := first \<or> ks_them_firstfollows k,
                         ks_our_first_follows_matches := guess \<and> ch_allgood ch \<or> ks_our_first_follows_matches k\<rparr>)
       (s\<lparr>s_payload := Some b, s_ignorenext := (first \<and> \<not> ch_allgood ch \<or> s_ignorenext s),
          s_newkeys := Some \<lparr>nk_recv = Some (if s_isserver s then c2s else s2c),
                             nk_trans = Some (if s_isserver s then s2c else c2s),
                             nk_algo_kex = a_val (ch_kex ch), nk_algo_hostkey = a_val (ch_hostkey ch)\<rparr>\<rparr>)"

lemma read_kex_algos_eq:
  assumes "s_payload s = Some b" and "buf_inv b" and "length cookie = 16"
    and "unread b = cookie @ lists_enc p pcomps @ store32h 0 @ store32h 0 @ (if first then 1 else 0) # store32h 0 @ rest"
    and "s_newkeys s \<noteq> None"
    and "gets (match_algos (s_isserver s) t (s_compress_algos s)) (lists_enc p pcomps) ch"
    and "new_direction (ch_c2s_cipher ch) (ch_c2s_hash ch) (ch_c2s_comp ch) = Inr c2s"
    and "new_direction (ch_s2c_cipher ch) (ch_s2c_hash ch) (ch_s2c_comp ch) = Inr s2c"
  shows "read_kex_algos t guess s =
    Inr (negotiated_session first guess ch c2s s2c (advance b (29 + length (lists_enc p pcomps))) s)"
proof -
  let ?L = "lists_enc p pcomps"
  let ?b1 = "advance b 16" let ?b2 = "advance ?b1 (length ?L)" let ?b3 = "advance ?b2 4" let ?b4 = "advance ?b3 4"
  let ?b5 = "advance ?b4 1"
  obtain nk where nk: "s_newkeys s = Some nk" using assms(5) by auto
  have 1: "buf_incrpos b 16 = Inr ?b1" "buf_inv ?b1"
    "unread ?b1 = ?L @ store32h 0 @ store32h 0 @ (if first then 1 else 0) # store32h 0 @ rest"
    using incrpos_advance[OF assms(2,4), of 16] assms(3) by simp_all
  have 2: "match_algos (s_isserver s) t (s_compress_algos s) ?b1 = Inr (ch, ?b2)" "buf_inv ?b2"
    "unread ?b2 = store32h 0 @ store32h 0 @ (if first then 1 else 0) # store32h 0 @ rest"
    using gets_ok[OF assms(6) 1(2,3)] 1(2,3) by (simp_all add: advance_inv unread_advance)
  note 3 = eatstring_empty[OF 2(2,3)]
  note 4 = eatstring_empty[OF 3(2,3)]
  have 5: "buf_getbool ?b4 = Inr (if first then 1 else 0, ?b5)" "buf_inv ?b5" "unread ?b5 = store32h 0 @ rest"
    using gets_ok[OF gets_byte 4(2), of "if first then 1 else 0" "store32h 0 @ rest"] 4(2,3)
    by (simp_all add: buf_getbool_eq advance_inv unread_advance)
  have 6: "buf_getint ?b5 = Inr (0, advance ?b5 4)" using gets_ok[OF gets_int 5(2,3)] by simp
  have e: "advance ?b5 4 = advance b (29 + length ?L)" by (simp add: advance_advance add.commute)
  show ?thesis
    unfolding read_kex_algos_def
    by (simp add: assms(1,7,8) nk 1(1) 2(1) 3(1) 4(1) 5(1) 6 Let_def negotiated_session_def set_kexstate_def e del: One_nat_def)
qed

subsection \<open>The start of the exchange hash\<close>

definition str_enc :: "bytes \<Rightarrow> bytes" where
  "str_enc x = store32h (of_nat (length x)) @ x"

text \<open>\<open>V_C\<close>, \<open>V_S\<close>, \<open>I_C\<close> and \<open>I_S\<close>, the same on both sides.\<close>

definition idents_enc :: "bytes \<Rightarrow> bytes \<Rightarrow> bytes \<Rightarrow> bytes \<Rightarrow> bytes" where
  "idents_enc vc vs ic is = str_enc vc @ str_enc vs @ str_enc ic @ str_enc is"

lemma length_str_enc [simp]: "length (str_enc x) = 4 + length x"
  by (simp add: str_enc_def)

lemma puts_contents:
  assumes "buf_inv b"
  shows "puts (\<lambda>hb. buf_putstring hb (b_data b) (b_len b)) (str_enc (contents b))"
proof -
  have "unat (b_len b) \<le> length (b_data b)" "unat (b_len b) \<le> 3000000000" "length (contents b) = unat (b_len b)"
    using buf_invD[OF assms] by (simp_all add: contents_def)
  then show ?thesis using puts_string[of "b_len b" "b_data b"] by (simp add: str_enc_def contents_def)
qed

lemma puts_cstr:
  assumes "strlen x \<le> 1000000"
  shows "puts (\<lambda>hb. buf_putstring hb x (of_nat (strlen x))) (str_enc (takeWhile (\<lambda>c. c \<noteq> 0) x))"
proof -
  have u: "unat (of_nat (strlen x) :: u32) = strlen x" using assms by (intro unat_of_nat_u32) simp
  have "strlen x \<le> length x" by (simp add: strlen_def length_takeWhile_le)
  then show ?thesis using puts_string[of "of_nat (strlen x)" x] assms u
    by (simp add: str_enc_def strlen_def takeWhile_eq_take[symmetric])
qed

lemma puts_idents:
  assumes "buf_inv tk" and "buf_inv pl" and "strlen remote \<le> 1000000"
  shows "puts (put_idents client remote tk pl) (let v = takeWhile (\<lambda>c. c \<noteq> 0) remote; w = takeWhile (\<lambda>c. c \<noteq> 0) LOCAL_IDENT
    in if client then idents_enc w v (contents tk) (contents pl) else idents_enc v w (contents pl) (contents tk))"
proof -
  have l: "strlen LOCAL_IDENT \<le> 1000000" by (simp add: strlen_def LOCAL_IDENT_def ascii_def)
  note p = puts_contents[OF assms(1)] puts_contents[OF assms(2)] puts_cstr[OF assms(3)] puts_cstr[OF l]
  show ?thesis
    unfolding put_idents_def idents_enc_def Let_def
    by (cases client) (simp_all only: if_True if_False, (intro puts_seq p)+)
qed

text \<open>The hash buffer after the identifications, with room for the host key and three numbers.\<close>

definition hash_started :: "buffer \<Rightarrow> bytes \<Rightarrow> bool" where
  "hash_started hb bs \<longleftrightarrow> buf_inv hb \<and> contents hb = bs \<and> written hb = bs \<and> 2074 \<le> room hb"

definition kexinit_done ::
  "bool \<Rightarrow> bool \<Rightarrow> chosen \<Rightarrow> key_context_directional \<Rightarrow> key_context_directional \<Rightarrow> buffer \<Rightarrow> buffer \<Rightarrow>
     'a sshsession_scheme \<Rightarrow> 'a sshsession_scheme" where
  "kexinit_done first guess ch c2s s2c b hb s =
     set_kexstate (\<lambda>k. k\<lparr>ks_recvkexinit := True\<rparr>)
       ((negotiated_session first guess ch c2s s2c (b\<lparr>b_pos := 0\<rparr>) s)\<lparr>s_kexhashbuf := Some hb, s_transkexinit := None,
          s_requirenext := (if s_isserver s then (SSH_MSG_KEXDH_INIT, snd (s_requirenext s)) else s_requirenext s)\<rparr>)"

lemma unread_contents: "buf_inv b \<Longrightarrow> unread b = drop (unat (b_pos b)) (contents b)"
  by (simp add: unread_def contents_def drop_take)

lemma recv_msg_kexinit_eq:
  assumes "ks_sentkexinit (s_kexstate s)" and "s_transkexinit s = Some tk" and "buf_inv tk" and "length (contents tk) \<le> 100000"
    and "s_payload s = Some b" and "buf_inv b" and "b_pos b = 1" and "length (contents b) \<le> 100000"
    and "contents b = kexinit_enc cookie p pcomps first" and "length cookie = 16"
    and "s_newkeys s \<noteq> None" and "s_remoteident s = Some remote" and "strlen remote \<le> 1000"
    and "gets (match_algos (s_isserver s) t (s_compress_algos s)) (lists_enc p pcomps) ch"
    and "new_direction (ch_c2s_cipher ch) (ch_c2s_hash ch) (ch_c2s_comp ch) = Inr c2s"
    and "new_direction (ch_s2c_cipher ch) (ch_s2c_hash ch) (ch_s2c_comp ch) = Inr s2c"
    and "v = takeWhile (\<lambda>c. c \<noteq> 0) remote" and "w = takeWhile (\<lambda>c. c \<noteq> 0) LOCAL_IDENT"
  shows "\<exists>hb. recv_msg_kexinit cr env t guess s = Inr (kexinit_done first (guess \<noteq> None) ch c2s s2c b hb s) \<and>
    hash_started hb (if s_isserver s then idents_enc v w (contents b) (contents tk) else idents_enc w v (contents tk) (contents b))"
proof -
  let ?ids = "if s_isserver s then idents_enc v w (contents b) (contents tk) else idents_enc w v (contents tk) (contents b)"
  define n :: u32 where "n = of_nat (strlen LOCAL_IDENT) + of_nat (strlen remote) + b_len tk + b_len b + KEXHASHBUF_MAX_INTS"
  define b' where "b' = advance b (29 + length (lists_enc p pcomps))"
  have li: "strlen LOCAL_IDENT = 24" by (simp add: strlen_def LOCAL_IDENT_def ascii_def)
  have un: "unat n = 24 + strlen remote + length (contents tk) + length (contents b) + 2090"
  proof -
    have "n = of_nat (24 + strlen remote + length (contents tk) + length (contents b) + 2090)"
      by (simp add: n_def li KEXHASHBUF_MAX_INTS_def length_contents[OF assms(3)] length_contents[OF assms(6)])
    moreover have "unat (of_nat (24 + strlen remote + length (contents tk) + length (contents b) + 2090) :: u32) =
        24 + strlen remote + length (contents tk) + length (contents b) + 2090"
      using assms(4,8,13) by (intro unat_of_nat_u32) simp
    ultimately show ?thesis by (simp only:)
  qed
  let ?z = "unat n"
  have nw: "buf_new n = Inr (mkbuf (replicate ?z 0) 0 0 ?z)" using un assms(4,8,13) by (intro mk_new) simp
  have ok: "mk_ok (replicate ?z 0 :: bytes) 0 0 ?z" using un assms(4,8,13) by (simp add: mk_ok_def)
  have rd: "read_kex_algos t (guess \<noteq> None) s = Inr (negotiated_session first (guess \<noteq> None) ch c2s s2c b' s)"
    unfolding b'_def using assms(7,9,10)
    by (intro read_kex_algos_eq[OF assms(5,6) assms(10) _ assms(11,14-16), where rest = "[]"])
       (simp add: unread_contents[OF assms(6)] kexinit_enc_def)
  have sp: "buf_setpos b' 0 = Inr (b\<lparr>b_pos := 0\<rparr>)" by (simp add: buf_setpos_def b'_def advance_def)
  have i0: "buf_inv (b\<lparr>b_pos := 0\<rparr>)" "contents (b\<lparr>b_pos := 0\<rparr>) = contents b"
    using assms(6) by (simp_all add: buf_inv_def contents_def)
  have lids: "length ?ids + 2074 = ?z"
    using un by (simp add: idents_enc_def assms(17,18) flip: strlen_def) (simp add: li)
  let ?hb = "overwrite (mkbuf (replicate ?z 0) 0 0 ?z) ?ids"
  have pt: "put_idents (\<not> s_isserver s) remote tk (b\<lparr>b_pos := 0\<rparr>) (mkbuf (replicate ?z 0) 0 0 ?z) = Inr ?hb"
    using puts_ok[OF puts_idents[OF assms(3) i0(1), of remote "\<not> s_isserver s"] mk_inv[OF ok]] assms(13) lids i0(2)
    by (auto simp: Let_def room_mk[OF ok] simp flip: assms(17,18) split: if_splits)
  have hs: "hash_started ?hb ?ids"
    using overwrite_fresh[OF mk_inv[OF ok], of ?ids] lids overwrite_inv[OF mk_inv[OF ok], of ?ids] room_overwrite[OF mk_inv[OF ok], of ?ids]
    unfolding hash_started_def by (simp add: room_mk[OF ok])
  define g where "g \<longleftrightarrow> guess \<noteq> None"
  define hb where "hb = ?hb"
  have "recv_msg_kexinit cr env t guess s = Inr (kexinit_done first (guess \<noteq> None) ch c2s s2c b hb s)"
    unfolding recv_msg_kexinit_def g_def[symmetric]
    using assms(1,2,5,12) sp pt[folded hb_def] rd[folded g_def]
    by (simp add: n_def[symmetric] nw negotiated_session_def kexinit_done_def set_kexstate_def Let_def)
  then show ?thesis using hs unfolding hb_def by blast
qed

subsection \<open>Both sides after the KEXINIT messages\<close>

definition has_sent :: "'a sshsession_scheme \<Rightarrow> buffer \<Rightarrow> bytes \<Rightarrow> kex_tables \<Rightarrow> bool \<Rightarrow> bool" where
  "has_sent s tk cookie t first \<longleftrightarrow> ks_sentkexinit (s_kexstate s) \<and> s_transkexinit s = Some tk \<and> buf_inv tk \<and>
     contents tk = kexinit_enc cookie t (s_compress_algos s) first \<and> length cookie = 16 \<and> s_newkeys s \<noteq> None"

text \<open>\<open>process_packet\<close> has taken the type byte when it calls a handler.\<close>

definition has_received :: "'a sshsession_scheme \<Rightarrow> bytes \<Rightarrow> bool" where
  "has_received s bs \<longleftrightarrow> (\<exists>b. s_payload s = Some b \<and> buf_inv b \<and> b_pos b = 1 \<and> contents b = bs)"

definition dropbear_peer :: "'a sshsession_scheme \<Rightarrow> bool" where
  "dropbear_peer s \<longleftrightarrow> (\<exists>r. s_remoteident s = Some r \<and> takeWhile (\<lambda>c. c \<noteq> 0) r = LOCAL_IDENT)"

text \<open>The result of the negotiation in a session; \<open>d1\<close> is the direction to the server.\<close>

definition agreed ::
  "'a sshsession_scheme \<Rightarrow> int \<Rightarrow> int \<Rightarrow> key_context_directional \<Rightarrow> key_context_directional \<Rightarrow> bytes \<Rightarrow> bool" where
  "agreed s kex hostkey d1 d2 ids \<longleftrightarrow> (\<exists>hb. s_kexhashbuf s = Some hb \<and> hash_started hb ids) \<and>
     ks_sentkexinit (s_kexstate s) \<and> ks_recvkexinit (s_kexstate s) \<and>
     s_newkeys s = Some \<lparr>nk_recv = Some (if s_isserver s then d1 else d2), nk_trans = Some (if s_isserver s then d2 else d1),
                         nk_algo_kex = kex, nk_algo_hostkey = hostkey\<rparr>"

lemma length_list_enc: "table_ok algos \<Longrightarrow> length (list_enc algos) \<le> 164"
  by (simp add: list_enc_def table_ok_def)

lemma length_kexinit:
  assumes "tables_fine t comps" and "length cookie = 16"
  shows "length (kexinit_enc cookie t comps first) \<le> 1500"
  using assms length_list_enc[of "kt_kex t"] length_list_enc[of "kt_hostkey t"] length_list_enc[of "kt_ciphers t"]
    length_list_enc[of "kt_hashes t"] length_list_enc[of comps]
  by (simp add: kexinit_enc_def lists_enc_def tables_fine_def)

lemma agreed_done:
  assumes "ks_sentkexinit (s_kexstate s)" and "hash_started hb ids"
  shows "agreed (kexinit_done first guess ch d1 d2 b hb s) (a_val (ch_kex ch)) (a_val (ch_hostkey ch)) d1 d2 ids"
  using assms by (simp add: agreed_def kexinit_done_def negotiated_session_def set_kexstate_def)

lemma kexinit_side:
  assumes "has_sent s tk cookie t first" and "kex_std t (s_compress_algos s)" and "dropbear_peer s"
    and "has_received s (kexinit_enc pcookie p pcomps pfirst)" and "length pcookie = 16" and "kex_std p pcomps"
    and "gets (match_algos (s_isserver s) t (s_compress_algos s)) (lists_enc p pcomps) ch"
    and "new_direction (ch_c2s_cipher ch) (ch_c2s_hash ch) (ch_c2s_comp ch) = Inr d1"
    and "new_direction (ch_s2c_cipher ch) (ch_s2c_hash ch) (ch_s2c_comp ch) = Inr d2"
    and "pb = kexinit_enc pcookie p pcomps pfirst"
  obtains b hb where "recv_msg_kexinit cr env t guess s = Inr (kexinit_done pfirst (guess \<noteq> None) ch d1 d2 b hb s)"
    and "hash_started hb (idents_enc LOCAL_IDENT LOCAL_IDENT (if s_isserver s then pb else contents tk) (if s_isserver s then contents tk else pb))"
proof -
  note hs = assms(1)[unfolded has_sent_def]
  obtain r where r: "s_remoteident s = Some r" "takeWhile (\<lambda>c. c \<noteq> 0) r = LOCAL_IDENT"
    using assms(3) by (auto simp: dropbear_peer_def)
  obtain b where b: "s_payload s = Some b" "buf_inv b" "b_pos b = 1" "contents b = pb"
    using assms(4,10) by (auto simp: has_received_def)
  have li: "takeWhile (\<lambda>c. c \<noteq> 0) LOCAL_IDENT = LOCAL_IDENT" "length LOCAL_IDENT = 24"
    by (simp_all add: LOCAL_IDENT_def ascii_def)
  have sr: "strlen r \<le> 1000" by (simp add: strlen_def r(2) li(2))
  have ln: "length (contents tk) \<le> 100000" "length (contents b) \<le> 100000"
    using length_kexinit[OF kex_std_fine[OF assms(2)], of cookie first] length_kexinit[OF kex_std_fine[OF assms(6)] assms(5), of pfirst]
      hs b(4) assms(10) by simp_all
  have st: "ks_sentkexinit (s_kexstate s)" "s_transkexinit s = Some tk" "buf_inv tk" "s_newkeys s \<noteq> None"
    "contents b = kexinit_enc pcookie p pcomps pfirst"
    using hs b(4) assms(10) by simp_all
  obtain hb where "recv_msg_kexinit cr env t guess s = Inr (kexinit_done pfirst (guess \<noteq> None) ch d1 d2 b hb s)"
    "hash_started hb (if s_isserver s then idents_enc LOCAL_IDENT LOCAL_IDENT (contents b) (contents tk)
       else idents_enc LOCAL_IDENT LOCAL_IDENT (contents tk) (contents b))"
    using recv_msg_kexinit_eq[OF st(1-3) ln(1) b(1-3) ln(2) st(5) assms(5) st(4) r(1) sr assms(7-9) r(2)[symmetric] li(1)[symmetric]]
    by blast
  then show thesis using that[of b hb] b(4) by (cases "s_isserver s") simp_all
qed

lemma kexguess_val:
  assumes "\<exists>b \<in> set (entries sshkex). same_algo a b" and "a_name a \<noteq> Some (ascii KEXGUESS2_ALGO_NAME)"
  shows "a_val a \<noteq> KEXGUESS2_ALGO_ID" and "a_val a = DROPBEAR_KEX_DH_GROUP1 \<or> a_val a = DROPBEAR_KEX_DH_GROUP14"
  using assms
  by (auto simp: entries_def algo_tables same_algo_def KEXGUESS2_ALGO_ID_def DROPBEAR_KEX_DH_GROUP1_def DROPBEAR_KEX_DH_GROUP14_def)

lemma negotiation:
  assumes "ciphers_ok cr" and "kex_std tc cc" and "kex_std ts cs" and "compatible tc ts cc cs"
  obtains chc chs d1 d2 where "gets (match_algos False tc cc) (lists_enc ts cs) chc" and "gets (match_algos True ts cs) (lists_enc tc cc) chs"
    and "a_val (ch_kex chc) = a_val (ch_kex chs)" and "a_val (ch_hostkey chc) = a_val (ch_hostkey chs)"
    and "a_val (ch_kex chc) = DROPBEAR_KEX_DH_GROUP1 \<or> a_val (ch_kex chc) = DROPBEAR_KEX_DH_GROUP14"
    and "new_direction (ch_c2s_cipher chc) (ch_c2s_hash chc) (ch_c2s_comp chc) = Inr d1"
    and "new_direction (ch_s2c_cipher chc) (ch_s2c_hash chc) (ch_s2c_comp chc) = Inr d2"
    and "new_direction (ch_c2s_cipher chs) (ch_c2s_hash chs) (ch_c2s_comp chs) = Inr d1"
    and "new_direction (ch_s2c_cipher chs) (ch_s2c_hash chs) (ch_s2c_comp chs) = Inr d2"
    and "fresh_dir cr d1" and "fresh_dir cr d2"
proof -
  have T: "table_of sshkex (kt_kex tc)" "table_of sshkex (kt_kex ts)" "table_of sshhostkey (kt_hostkey tc)"
    "table_of sshhostkey (kt_hostkey ts)" "table_of sshciphers (kt_ciphers tc)" "table_of sshciphers (kt_ciphers ts)"
    "table_of sshhashes (kt_hashes tc)" "table_of sshhashes (kt_hashes ts)" "table_of ssh_nocompress cc" "table_of ssh_nocompress cs"
    using assms(2,3) by (simp_all add: kex_std_def)
  note cp = assms(4)[unfolded compatible_def]
  obtain n1 where n1: "negotiated (usable_names (kt_kex tc)) (usable_names (kt_kex ts)) = Some n1" "n1 \<noteq> ascii KEXGUESS2_ALGO_NAME"
    using cp by auto
  obtain i1 kg1 g1 j1 lg1 h1 where p1: "pick False (kt_kex tc) (usable_names (kt_kex ts)) (Some KEXGUESS2_LOOK) = (Some i1, kg1, g1)"
    "pick True (kt_kex ts) (usable_names (kt_kex tc)) (Some KEXGUESS2_LOOK) = (Some j1, lg1, h1)"
    "same_algo (kt_kex tc ! i1) (kt_kex ts ! j1)" "a_name (kt_kex tc ! i1) = Some n1"
    "\<exists>b \<in> set (entries sshkex). same_algo (kt_kex tc ! i1) b" "\<exists>b \<in> set (entries sshkex). same_algo (kt_kex ts ! j1) b"
    by (rule picks_agree[OF std_names_distinct(1) T(1,2) n1(1)])
  obtain n2 where n2: "negotiated (usable_names (kt_hostkey tc)) (usable_names (kt_hostkey ts)) = Some n2" using cp by auto
  obtain i2 kg2 g2 j2 lg2 h2 where p2: "pick False (kt_hostkey tc) (usable_names (kt_hostkey ts)) kg1 = (Some i2, kg2, g2)"
    "pick True (kt_hostkey ts) (usable_names (kt_hostkey tc)) lg1 = (Some j2, lg2, h2)" "same_algo (kt_hostkey tc ! i2) (kt_hostkey ts ! j2)"
    "a_name (kt_hostkey tc ! i2) = Some n2" "\<exists>b \<in> set (entries sshhostkey). same_algo (kt_hostkey tc ! i2) b"
    "\<exists>b \<in> set (entries sshhostkey). same_algo (kt_hostkey ts ! j2) b"
    by (rule picks_agree[OF std_names_distinct(2) T(3,4) n2])
  obtain n3 where n3: "negotiated (usable_names (kt_ciphers tc)) (usable_names (kt_ciphers ts)) = Some n3" using cp by auto
  obtain i3 kg3 g3 j3 lg3 h3 where p3: "pick False (kt_ciphers tc) (usable_names (kt_ciphers ts)) None = (Some i3, kg3, g3)"
    "pick True (kt_ciphers ts) (usable_names (kt_ciphers tc)) None = (Some j3, lg3, h3)" "same_algo (kt_ciphers tc ! i3) (kt_ciphers ts ! j3)"
    "a_name (kt_ciphers tc ! i3) = Some n3" "\<exists>b \<in> set (entries sshciphers). same_algo (kt_ciphers tc ! i3) b"
    "\<exists>b \<in> set (entries sshciphers). same_algo (kt_ciphers ts ! j3) b"
    by (rule picks_agree[OF std_names_distinct(3) T(5,6) n3])
  obtain n4 where n4: "negotiated (usable_names (kt_hashes tc)) (usable_names (kt_hashes ts)) = Some n4" using cp by auto
  obtain i4 kg4 g4 j4 lg4 h4 where p4: "pick False (kt_hashes tc) (usable_names (kt_hashes ts)) None = (Some i4, kg4, g4)"
    "pick True (kt_hashes ts) (usable_names (kt_hashes tc)) None = (Some j4, lg4, h4)" "same_algo (kt_hashes tc ! i4) (kt_hashes ts ! j4)"
    "a_name (kt_hashes tc ! i4) = Some n4" "\<exists>b \<in> set (entries sshhashes). same_algo (kt_hashes tc ! i4) b"
    "\<exists>b \<in> set (entries sshhashes). same_algo (kt_hashes ts ! j4) b"
    by (rule picks_agree[OF std_names_distinct(4) T(7,8) n4])
  obtain n5 where n5: "negotiated (usable_names cc) (usable_names cs) = Some n5" using cp by auto
  obtain i5 kg5 g5 j5 lg5 h5 where p5: "pick False cc (usable_names cs) None = (Some i5, kg5, g5)"
    "pick True cs (usable_names cc) None = (Some j5, lg5, h5)" "same_algo (cc ! i5) (cs ! j5)"
    "a_name (cc ! i5) = Some n5" "\<exists>b \<in> set (entries ssh_nocompress). same_algo (cc ! i5) b"
    "\<exists>b \<in> set (entries ssh_nocompress). same_algo (cs ! j5) b"
    by (rule picks_agree[OF std_names_distinct(5) T(9,10) n5])
  have nm: "a_name (kt_kex tc ! i1) \<noteq> Some (ascii KEXGUESS2_ALGO_NAME)" "a_name (kt_kex ts ! j1) \<noteq> Some (ascii KEXGUESS2_ALGO_NAME)"
    using p1(3,4) n1(2) unfolding same_algo_def by (metis option.inject)+
  obtain d where d: "new_direction (kt_ciphers tc ! i3) (kt_hashes tc ! i4) (cc ! i5) = Inr d" "fresh_dir cr d"
    by (rule new_direction_std[OF assms(1) p3(5) p4(5)])
  have d': "new_direction (kt_ciphers ts ! j3) (kt_hashes ts ! j4) (cs ! j5) = Inr d"
    using new_direction_cong[OF p3(3) p4(3) p5(3)] d(1) by simp
  note tf = kex_std_fine[OF assms(2)] kex_std_fine[OF assms(3)]
  show thesis
    by (rule that[OF match_algos_gets[OF tf p1(1) kexguess_val(1)[OF p1(5) nm(1)] p2(1) p3(1) p4(1) p5(1)]
          match_algos_gets[OF tf(2,1) p1(2) kexguess_val(1)[OF p1(6) nm(2)] p2(2) p3(2) p4(2) p5(2)], of d d])
       (use p1(3) p2(3) d d' kexguess_val(2)[OF p1(5) nm(1)] in \<open>simp_all add: same_algo_def\<close>)
qed

lemma kexinit_both:
  assumes "ciphers_ok cr" and "\<not> s_isserver c" and "s_isserver s" and "dropbear_peer c" and "dropbear_peer s"
    and "kex_std tc (s_compress_algos c)" and "kex_std ts (s_compress_algos s)"
    and "compatible tc ts (s_compress_algos c) (s_compress_algos s)"
    and "has_sent c tkc cookc tc fc" and "has_sent s tks cooks ts fs"
    and "has_received c (contents tks)" and "has_received s (contents tkc)"
  obtains gc chc bc hbc gs chs bs hbs d1 d2 where
    "recv_msg_kexinit cr envc tc guessc c = Inr (kexinit_done fs gc chc d1 d2 bc hbc c)"
    and "recv_msg_kexinit cr envs ts guesss s = Inr (kexinit_done fc gs chs d1 d2 bs hbs s)"
    and "hash_started hbc (idents_enc LOCAL_IDENT LOCAL_IDENT (contents tkc) (contents tks))"
    and "hash_started hbs (idents_enc LOCAL_IDENT LOCAL_IDENT (contents tkc) (contents tks))"
    and "a_val (ch_kex chc) = a_val (ch_kex chs)" and "a_val (ch_hostkey chc) = a_val (ch_hostkey chs)"
    and "a_val (ch_kex chc) = DROPBEAR_KEX_DH_GROUP1 \<or> a_val (ch_kex chc) = DROPBEAR_KEX_DH_GROUP14"
    and "fresh_dir cr d1" and "fresh_dir cr d2"
proof -
  obtain chc chs d1 d2 where n: "gets (match_algos False tc (s_compress_algos c)) (lists_enc ts (s_compress_algos s)) chc"
    "gets (match_algos True ts (s_compress_algos s)) (lists_enc tc (s_compress_algos c)) chs"
    "a_val (ch_kex chc) = a_val (ch_kex chs)" "a_val (ch_hostkey chc) = a_val (ch_hostkey chs)"
    "a_val (ch_kex chc) = DROPBEAR_KEX_DH_GROUP1 \<or> a_val (ch_kex chc) = DROPBEAR_KEX_DH_GROUP14"
    "new_direction (ch_c2s_cipher chc) (ch_c2s_hash chc) (ch_c2s_comp chc) = Inr d1"
    "new_direction (ch_s2c_cipher chc) (ch_s2c_hash chc) (ch_s2c_comp chc) = Inr d2"
    "new_direction (ch_c2s_cipher chs) (ch_c2s_hash chs) (ch_c2s_comp chs) = Inr d1"
    "new_direction (ch_s2c_cipher chs) (ch_s2c_hash chs) (ch_s2c_comp chs) = Inr d2"
    "fresh_dir cr d1" "fresh_dir cr d2"
    by (rule negotiation[OF assms(1,6-8)])
  have k: "length cookc = 16" "length cooks = 16" "contents tkc = kexinit_enc cookc tc (s_compress_algos c) fc"
    "contents tks = kexinit_enc cooks ts (s_compress_algos s) fs"
    using assms(9,10) by (simp_all add: has_sent_def)
  obtain bc hbc where 1: "recv_msg_kexinit cr envc tc guessc c = Inr (kexinit_done fs (guessc \<noteq> None) chc d1 d2 bc hbc c)"
    "hash_started hbc (idents_enc LOCAL_IDENT LOCAL_IDENT (if s_isserver c then contents tks else contents tkc) (if s_isserver c then contents tkc else contents tks))"
    by (rule kexinit_side[OF assms(9,6,4) assms(11)[unfolded k(4)] k(2) assms(7) _ n(6,7) k(4)]) (use n(1) assms(2) in auto)
  obtain bs hbs where 2: "recv_msg_kexinit cr envs ts guesss s = Inr (kexinit_done fc (guesss \<noteq> None) chs d1 d2 bs hbs s)"
    "hash_started hbs (idents_enc LOCAL_IDENT LOCAL_IDENT (if s_isserver s then contents tkc else contents tks) (if s_isserver s then contents tks else contents tkc))"
    by (rule kexinit_side[OF assms(10,7,5) assms(12)[unfolded k(3)] k(1) assms(6) _ n(8,9) k(3)]) (use n(2) assms(3) in auto)
  show thesis using that[OF 1(1) 2(1) _ _ n(3-5,10,11)] 1(2) 2(2) assms(2,3) by simp
qed

subsection \<open>The Diffie-Hellman groups\<close>

lemma read_bin_snoc: "bytes_to_mp (xs @ [x]) = bytes_to_mp xs * 256 + int (unat x)"
  by (simp add: bytes_to_mp_def mp_read_unsigned_bin_def read_bin_append)

lemma count_bits_le:
  assumes "0 \<le> a" and "a < 2 ^ n"
  shows "mp_count_bits a \<le> n"
proof (cases "a = 0")
  case False
  have "nat a < 2 ^ n" using assms(2) by (metis nat_less_iff assms(1) of_nat_numeral of_nat_power)
  moreover have "2 ^ (count_bits_loop (nat a) - 1) \<le> nat a" using False assms(1) by (intro count_bits_bounds(2)) simp
  ultimately have "(2 :: nat) ^ (count_bits_loop (nat a) - 1) < 2 ^ n" by (rule le_less_trans[rotated])
  then show ?thesis using assms(1) by (simp add: mp_count_bits_def)
qed simp

definition dh_group :: "int \<Rightarrow> bool" where
  "dh_group kex \<longleftrightarrow> kex = DROPBEAR_KEX_DH_GROUP1 \<or> kex = DROPBEAR_KEX_DH_GROUP14"

lemma dh_bytes:
  "dh_p_1 = butlast dh_p_1 @ [255]" "length dh_p_1 = 128" "dh_p_14 = butlast dh_p_14 @ [255]" "length dh_p_14 = 256"
  "hd (butlast dh_p_1) = 255" "hd (butlast dh_p_14) = 255" "butlast dh_p_1 \<noteq> []" "butlast dh_p_14 \<noteq> []"
  by (simp_all add: dh_p_1_def dh_p_14_def)

lemma read_bin_ge: "0 \<le> a \<Longrightarrow> a \<le> read_bin_loop a bs"
proof (induction bs arbitrary: a)
  case (Cons b bs)
  have "a * 256 + int (unat b) \<le> read_bin_loop a (b # bs)"
    using Cons.IH[of "a * 256 + int (unat b)"] Cons.prems by simp
  then show ?case using Cons.prems by (smt (verit) of_nat_0_le_iff)
qed simp

lemma bytes_to_mp_big: "bs \<noteq> [] \<Longrightarrow> hd bs = 255 \<Longrightarrow> 255 \<le> bytes_to_mp bs"
  using read_bin_ge[of 255 "tl bs"] by (cases bs) (simp_all add: bytes_to_mp_def mp_read_unsigned_bin_def)

lemma dh_prime_bounds:
  assumes "dh_group kex"
  shows "odd (load_dh_p kex)" and "1000 \<le> load_dh_p kex" and "load_dh_p kex < 2 ^ 2048"
proof -
  have odd: "odd (bytes_to_mp (xs @ [255]))" "bytes_to_mp (xs @ [255]) = bytes_to_mp xs * 256 + 255" for xs
    by (simp_all add: read_bin_snoc)
  have ub: "bytes_to_mp bs < 2 ^ (8 * length bs)" for bs
    using read_bin_bound(2)[of bs] by (simp add: bytes_to_mp_def power_mult)
  have big: "1000 \<le> bytes_to_mp dh_p_1" "1000 \<le> bytes_to_mp dh_p_14"
    using bytes_to_mp_big[OF dh_bytes(7,5)] bytes_to_mp_big[OF dh_bytes(8,6)]
      arg_cong[OF dh_bytes(1), of bytes_to_mp] arg_cong[OF dh_bytes(3), of bytes_to_mp]
      odd(2)[of "butlast dh_p_1"] odd(2)[of "butlast dh_p_14"] by linarith+
  have "odd (bytes_to_mp dh_p_1)" "odd (bytes_to_mp dh_p_14)"
    using odd(1) dh_bytes(1,3) by metis+
  moreover have "bytes_to_mp dh_p_1 < 2 ^ 2048" "bytes_to_mp dh_p_14 < 2 ^ 2048"
    using ub[of dh_p_1] ub[of dh_p_14] power_increasing[of 1024 2048 "2 :: int"]
    by (simp_all add: dh_bytes(2,4))
  ultimately show "odd (load_dh_p kex)" and "1000 \<le> load_dh_p kex" and "load_dh_p kex < 2 ^ 2048"
    using assms big by (auto simp: dh_group_def load_dh_p_def)
qed

lemma below_prime:
  assumes "dh_group kex" and "0 \<le> a" and "a < load_dh_p kex"
  shows "mp_fits a" and "length (mp_enc a) \<le> 261"
proof -
  have "mp_count_bits a \<le> 2048" using dh_prime_bounds(3)[OF assms(1)] assms(2,3) by (intro count_bits_le) simp_all
  then have "mp_count_bits a div 8 \<le> 256" by simp
  then show "mp_fits a" and "length (mp_enc a) \<le> 261" using assms(2) by (simp_all add: mp_fits_def length_mp_enc)
qed

lemma gen_kexdh_vals_eq:
  assumes "dh_group kex" and "gen_kexdh_vals draws kex = Inr (pub, priv)"
  shows "pub = 2 ^ nat priv mod load_dh_p kex" and "0 \<le> priv" and "0 < pub" and "pub < load_dh_p kex"
proof -
  let ?p = "load_dh_p kex"
  note b = dh_prime_bounds[OF assms(1)]
  have g: "gen_random_mpint draws (mp_div_2 (?p - 1)) = Inr priv" "mp_exptmod DH_G_VAL priv ?p = Some pub"
    using assms(2) by (auto simp: gen_kexdh_vals_def Let_def result_simps mp_okay_def split: option.splits)
  show p: "pub = 2 ^ nat priv mod ?p" and n: "0 \<le> priv"
    using g(2) b(2) by (auto simp: mp_exptmod_def DH_G_VAL_def split: if_splits)
  show "pub < ?p" using p b(2) by (simp add: pos_mod_bound)
  have "coprime (2 ^ nat priv) ?p" using b(1) by (simp add: coprime_power_left_iff)
  moreover have "\<not> is_unit ?p" using b(2) by (simp add: zdvd1_eq)
  ultimately have "\<not> ?p dvd 2 ^ nat priv" by (metis coprime_absorb_left coprime_commute)
  then have "pub \<noteq> 0" using p by (simp add: dvd_eq_mod_eq_0)
  then show "0 < pub" using p b(2) by (metis less_le order.strict_trans2 pos_mod_sign zero_less_numeral)
qed

subsection \<open>Shared secret and exchange hash\<close>

lemma contents_append:
  assumes "hash_started hb ids" and "length xs \<le> room hb"
  shows "contents (overwrite hb xs) = ids @ xs" "buf_inv (overwrite hb xs)"
proof -
  have i: "buf_inv hb" "contents hb = written hb" "written hb = ids" using assms(1) by (simp_all add: hash_started_def)
  note f = overwrite_fields[OF i(1) assms(2)]
  have "unat (b_pos hb) = unat (b_len hb)"
    using arg_cong[OF i(2), of length] buf_invD[OF i(1)] by (simp add: contents_def written_def)
  then have "contents (overwrite hb xs) = written (overwrite hb xs)" using f by (simp add: contents_def written_def)
  then show "contents (overwrite hb xs) = ids @ xs" using written_overwrite[OF i(1) assms(2)] i(3) by simp
  show "buf_inv (overwrite hb xs)" by (rule overwrite_inv[OF i(1) assms(2)])
qed

lemma read_all:
  assumes "buf_inv hb"
  shows "rbind (buf_setpos hb 0) (\<lambda>hb. rbind (buf_getptr hb (b_len hb)) (\<lambda>p.
     rbind (mem_read (b_data hb) p (unat (b_len hb))) f)) = f (contents hb)"
proof -
  let ?h = "hb\<lparr>b_pos := 0\<rparr>"
  have "buf_setpos hb 0 = Inr ?h" "buf_getptr ?h (b_len ?h) = Inr 0"
    by (simp_all add: buf_setpos_def buf_getptr_def)
  moreover have "mem_read (b_data ?h) 0 (unat (b_len ?h)) = Inr (contents hb)"
    using buf_invD[OF assms] by (simp add: contents_def)
  ultimately show ?thesis by simp
qed

text \<open>The exchange hash of RFC 4253, section 8: \<open>ids\<close> are the identifications, \<open>blob\<close> is \<open>K_S\<close>.\<close>

definition exchange_hash :: "crypto \<Rightarrow> bytes \<Rightarrow> bytes \<Rightarrow> int \<Rightarrow> int \<Rightarrow> int \<Rightarrow> bytes" where
  "exchange_hash cr ids blob e f K = cr_hash cr sha1_desc (ids @ blob @ mp_enc e @ mp_enc f @ mp_enc K)"

definition with_secret :: "int \<Rightarrow> bytes \<Rightarrow> 'a sshsession_scheme \<Rightarrow> 'a sshsession_scheme" where
  "with_secret K H s = s\<lparr>s_dh_K := Some K, s_hash := H, s_kexhashbuf := None,
     s_session_id := (case s_session_id s of None \<Rightarrow> Some H | Some i \<Rightarrow> Some i)\<rparr>"

lemma comb_key_eq:
  assumes "agreed s kex hk d1 d2 ids" and "dh_group kex" and "0 < them" and "them < load_dh_p kex" and "0 \<le> us" and "us < load_dh_p kex"
    and "0 \<le> priv" and "K = them ^ nat priv mod load_dh_p kex"
    and "puts (\<lambda>b. buf_put_pub_key b hostkey hk) blob" and "length blob \<le> 1280"
  shows "kexdh_comb_key cr us priv them hostkey s =
    Inr (with_secret K (exchange_hash cr ids blob (if s_isserver s then them else us) (if s_isserver s then us else them) K) s)"
proof -
  let ?p = "load_dh_p kex" and ?e = "if s_isserver s then them else us" and ?f = "if s_isserver s then us else them"
  obtain hb where hb: "s_kexhashbuf s = Some hb" "hash_started hb ids" using assms(1) by (auto simp: agreed_def)
  obtain nk where nk: "s_newkeys s = Some nk" "nk_algo_kex nk = kex" "nk_algo_hostkey nk = hk" using assms(1) by (auto simp: agreed_def)
  have p: "1000 \<le> ?p" by (rule dh_prime_bounds(2)[OF assms(2)])
  have K: "0 \<le> K" "K < ?p" "mp_exptmod them priv ?p = Some K" using p assms(7,8) by (simp_all add: mp_exptmod_def)
  have ef: "0 \<le> ?e" "?e < ?p" "0 \<le> ?f" "?f < ?p" using assms(3-6) by simp_all
  note m = below_prime[OF assms(2) ef(1,2)] below_prime[OF assms(2) ef(3,4)] below_prime[OF assms(2) K(1,2)]
  let ?x = "blob @ mp_enc ?e @ mp_enc ?f @ mp_enc K"
  have "puts (put_exchange hostkey hk ?e ?f K) ?x"
    unfolding put_exchange_def by (intro puts_seq puts_mpint assms(9) m)
  moreover have r: "length ?x \<le> room hb" "buf_inv hb"
    using hb(2) m(2,4,6) assms(10) by (simp_all add: hash_started_def del: if_split)
  ultimately have pt: "put_exchange hostkey hk ?e ?f K hb = Inr (overwrite hb ?x)" by (intro puts_ok) simp_all
  note c = contents_append[OF hb(2) r(1)]
  show ?thesis
    unfolding kexdh_comb_key_def nk(1) deref_simps rbind_simps Let_def nk(2,3)
    using assms(3,4) K(3) hb(1)
    by (simp only: not_less[symmetric] simp_thms if_False mp_okay_def option.case rbind_simps deref_simps pt read_all[OF c(2)] c(1)
        with_secret_def exchange_hash_def)
qed

lemma secrets_shared:
  assumes "crypto_ok cr" and "agreed c kex hk d1 d2 ids" and "agreed s kex hk d1 d2 ids" and "\<not> s_isserver c" and "s_isserver s"
    and "dh_group kex" and "gen_kexdh_vals drawsc kex = Inr (e, x)" and "gen_kexdh_vals drawss kex = Inr (f, y)"
    and "puts (\<lambda>b. buf_put_pub_key b keyc hk) blob" and "puts (\<lambda>b. buf_put_pub_key b keys hk) blob" and "length blob \<le> 1280"
    and "K = 2 ^ (nat x * nat y) mod load_dh_p kex"
  shows "kexdh_comb_key cr e x f keyc c = Inr (with_secret K (exchange_hash cr ids blob e f K) c)"
    and "kexdh_comb_key cr f y e keys s = Inr (with_secret K (exchange_hash cr ids blob e f K) s)"
    and "mp_fits K" and "length (mp_enc K) \<le> 261" and "0 \<le> K" and "K < load_dh_p kex"
proof -
  note v = gen_kexdh_vals_eq[OF assms(6,7)] gen_kexdh_vals_eq[OF assms(6,8)]
  have K: "K = f ^ nat x mod load_dh_p kex" "K = e ^ nat y mod load_dh_p kex"
    unfolding assms(12) v(1,5) by (simp_all add: power_mod mult.commute flip: power_mult)
  show "kexdh_comb_key cr e x f keyc c = Inr (with_secret K (exchange_hash cr ids blob e f K) c)"
    using comb_key_eq[OF assms(2,6) v(7,8) _ v(4,2) K(1) assms(9,11), of cr] v(3) assms(4) by simp
  show "kexdh_comb_key cr f y e keys s = Inr (with_secret K (exchange_hash cr ids blob e f K) s)"
    using comb_key_eq[OF assms(3,6) v(3,4) _ v(8,6) K(2) assms(10,11), of cr] v(7) assms(5) by simp
  have p: "1000 \<le> load_dh_p kex" by (rule dh_prime_bounds(2)[OF assms(6)])
  show k: "0 \<le> K" "K < load_dh_p kex" using p by (simp_all add: assms(12))
  show "mp_fits K" "length (mp_enc K) \<le> 261" by (rule below_prime[OF assms(6) k])+
qed

lemma with_secret_ready:
  assumes "agreed s kex hk d1 d2 ids" and "fresh_dir cr d1" and "fresh_dir cr d2" and "mp_fits K" and "length (mp_enc K) \<le> 261"
    and "length H = 20" and "\<forall>i. s_session_id s = Some i \<longrightarrow> length i = 20"
  shows "secrets_ready cr (with_secret K H s)
    \<lparr>nk_recv = Some (if s_isserver s then d1 else d2), nk_trans = Some (if s_isserver s then d2 else d1), nk_algo_kex = kex, nk_algo_hostkey = hk\<rparr>
    (if s_isserver s then d2 else d1) (if s_isserver s then d1 else d2) K (case s_session_id s of None \<Rightarrow> H | Some i \<Rightarrow> i)"
  using assms by (auto simp: secrets_ready_def with_secret_def agreed_def SHA1_HASH_SIZE_def split: option.splits)

subsection \<open>Properties\<close>

text \<open>
  C9: the two sides agree on everything the KEXINIT messages decide. A client and a server whose
  tables are made from the standard ones and have an algorithm of each kind in common, each
  having sent its KEXINIT and received the other's, both handle it successfully; afterwards they
  have the same key exchange and host key algorithm, the same algorithms for each direction (what
  one sends with the other receives with), and have started the same exchange hash.
\<close>
theorem kexinit_agreement:
  assumes "ciphers_ok cr" and "\<not> s_isserver c" and "s_isserver s" and "dropbear_peer c" and "dropbear_peer s"
    and "kex_std tc (s_compress_algos c)" and "kex_std ts (s_compress_algos s)"
    and "compatible tc ts (s_compress_algos c) (s_compress_algos s)"
    and "has_sent c tkc cookc tc fc" and "has_sent s tks cooks ts fs"
    and "has_received c (contents tks)" and "has_received s (contents tkc)"
  shows "\<exists>c1 s1 kex hk d1 d2 ids. recv_msg_kexinit cr envc tc guessc c = Inr c1 \<and> recv_msg_kexinit cr envs ts guesss s = Inr s1 \<and>
    agreed c1 kex hk d1 d2 ids \<and> agreed s1 kex hk d1 d2 ids \<and> dh_group kex \<and> fresh_dir cr d1 \<and> fresh_dir cr d2 \<and>
    fst (s_requirenext s1) = SSH_MSG_KEXDH_INIT"
proof -
  obtain gc chc bc hbc gs chs bs hbs d1 d2 where k:
    "recv_msg_kexinit cr envc tc guessc c = Inr (kexinit_done fs gc chc d1 d2 bc hbc c)"
    "recv_msg_kexinit cr envs ts guesss s = Inr (kexinit_done fc gs chs d1 d2 bs hbs s)"
    "hash_started hbc (idents_enc LOCAL_IDENT LOCAL_IDENT (contents tkc) (contents tks))"
    "hash_started hbs (idents_enc LOCAL_IDENT LOCAL_IDENT (contents tkc) (contents tks))"
    "a_val (ch_kex chc) = a_val (ch_kex chs)" "a_val (ch_hostkey chc) = a_val (ch_hostkey chs)"
    "a_val (ch_kex chc) = DROPBEAR_KEX_DH_GROUP1 \<or> a_val (ch_kex chc) = DROPBEAR_KEX_DH_GROUP14"
    "fresh_dir cr d1" "fresh_dir cr d2"
    by (rule kexinit_both[OF assms])
  have sent: "ks_sentkexinit (s_kexstate c)" "ks_sentkexinit (s_kexstate s)" using assms(9,10) by (simp_all add: has_sent_def)
  have "fst (s_requirenext (kexinit_done fc gs chs d1 d2 bs hbs s)) = SSH_MSG_KEXDH_INIT"
    using assms(3) by (simp add: kexinit_done_def negotiated_session_def set_kexstate_def)
  then show ?thesis
    using k(1,2,7-9) agreed_done[OF sent(1) k(3), of fs gc chc d1 d2 bc] agreed_done[OF sent(2) k(4), of fc gs chs d1 d2 bs]
    unfolding k(5,6) dh_group_def by blast
qed

definition sample_init :: "bool \<Rightarrow> bytes" where
  "sample_init server = kexinit_enc (replicate 16 (if server then 1 else 2)) std_tables ssh_nocompress (\<not> server)"

definition sample_neg :: "bool \<Rightarrow> sshsession" where
  "sample_neg server = (let i = sample_init server; j = sample_init (\<not> server)
     in (sample_session (mkbuf [] 0 0 0))\<lparr>s_isserver := server, s_remoteident := Some LOCAL_IDENT,
          s_transkexinit := Some (mkbuf i (length i) 0 (length i)), s_payload := Some (mkbuf j (length j) 1 (length j)),
          s_kexstate := sample_kexstate\<lparr>ks_sentkexinit := True\<rparr>,
          s_newkeys := Some \<lparr>nk_recv = None, nk_trans = None, nk_algo_kex = 0, nk_algo_hostkey = 0\<rparr>\<rparr>)"

lemma std_tables_std: "kex_std std_tables ssh_nocompress"
  by (auto simp: kex_std_def std_tables_def table_of_def same_algo_def)

lemma std_compatible: "compatible std_tables std_tables ssh_nocompress ssh_nocompress"
  by (simp add: compatible_def std_tables_def negotiated_def usable_names_def entries_def algo_tables)

lemma sample_init_buf:
  assumes "p \<le> 1"
  shows "buf_inv (mkbuf (sample_init server) (length (sample_init server)) p (length (sample_init server)))"
    and "contents (mkbuf (sample_init server) (length (sample_init server)) p (length (sample_init server))) = sample_init server"
proof -
  have "length (sample_init server) \<le> 1500" "1 \<le> length (sample_init server)"
    using length_kexinit[OF kex_std_fine[OF std_tables_std], of "replicate 16 (if server then 1 else 2)" "\<not> server"]
    by (simp_all add: sample_init_def) (simp add: kexinit_enc_def)
  then have ok: "mk_ok (sample_init server) (length (sample_init server)) p (length (sample_init server))"
    using assms by (simp add: mk_ok_def)
  show "buf_inv (mkbuf (sample_init server) (length (sample_init server)) p (length (sample_init server)))" by (rule mk_inv[OF ok])
  show "contents (mkbuf (sample_init server) (length (sample_init server)) p (length (sample_init server))) = sample_init server"
    by (simp add: contents_mk[OF ok])
qed

lemma sample_neg_ready:
  "dropbear_peer (sample_neg server)" "s_compress_algos (sample_neg server) = ssh_nocompress" "s_isserver (sample_neg server) = server"
  "has_sent (sample_neg server) (mkbuf (sample_init server) (length (sample_init server)) 0 (length (sample_init server)))
     (replicate 16 (if server then 1 else 2)) std_tables (\<not> server)"
  "has_received (sample_neg server) (sample_init (\<not> server))"
  using sample_init_buf[of 0 server] sample_init_buf[of 1 "\<not> server"]
  by (simp_all add: dropbear_peer_def has_sent_def has_received_def sample_neg_def Let_def sample_session_def sample_kexstate_def
      LOCAL_IDENT_def ascii_def) (simp_all add: sample_init_def)

theorem kexinit_agreement_witness:
  "\<exists>c1 s1 kex hk d1 d2 ids. recv_msg_kexinit toy_crypto sample_env std_tables (Some Inr) (sample_neg False) = Inr c1 \<and>
     recv_msg_kexinit toy_crypto sample_env std_tables None (sample_neg True) = Inr s1 \<and>
     agreed c1 kex hk d1 d2 ids \<and> agreed s1 kex hk d1 d2 ids \<and> dh_group kex"
proof -
  have "ciphers_ok toy_crypto" by (simp add: ciphers_ok_def toy_crypto_def)
  from kexinit_agreement[OF this _ _ sample_neg_ready(1) sample_neg_ready(1) _ _ _ sample_neg_ready(4) sample_neg_ready(4),
      of False True "sample_env" "Some Inr" "sample_env" None]
  show ?thesis using sample_neg_ready(5)[of False] sample_neg_ready(5)[of True] std_tables_std std_compatible sample_init_buf(2)[of 0]
    by (simp add: sample_neg_ready(2,3)) blast
qed

text \<open>
  C10: both sides compute the same secret. After the negotiation, with the values each side drew
  and sent to the other, and the same host key blob on both sides, \<open>kexdh_comb_key\<close> succeeds on
  both; it leaves the same shared secret, exchange hash and session identifier, and everything the
  derivation of the keys needs (the hypotheses of \<open>new_keys_in_step\<close>).
\<close>
theorem secret_agreement:
  assumes "crypto_ok cr" and "agreed c kex hk d1 d2 ids" and "agreed s kex hk d1 d2 ids" and "\<not> s_isserver c" and "s_isserver s"
    and "dh_group kex" and "fresh_dir cr d1" and "fresh_dir cr d2"
    and "gen_kexdh_vals drawsc kex = Inr (e, x)" and "gen_kexdh_vals drawss kex = Inr (f, y)"
    and "puts (\<lambda>b. buf_put_pub_key b keyc hk) blob" and "puts (\<lambda>b. buf_put_pub_key b keys hk) blob" and "length blob \<le> 1280"
    and "s_session_id c = s_session_id s" and "\<forall>i. s_session_id s = Some i \<longrightarrow> length i = SHA1_HASH_SIZE"
  shows "\<exists>c2 s2 nkc nks K sid. kexdh_comb_key cr e x f keyc c = Inr c2 \<and> kexdh_comb_key cr f y e keys s = Inr s2 \<and>
    secrets_ready cr c2 nkc d1 d2 K sid \<and> secrets_ready cr s2 nks d2 d1 K sid \<and> s_hash c2 = s_hash s2 \<and>
    s_session_id c2 = s_session_id s2 \<and> K = 2 ^ (nat x * nat y) mod load_dh_p kex"
proof -
  define K where "K = 2 ^ (nat x * nat y) mod load_dh_p kex"
  let ?H = "exchange_hash cr ids blob e f K"
  have H: "length ?H = 20" by (simp add: exchange_hash_def length_cr_hash[OF assms(1)])
  note sh = secrets_shared[OF assms(1-6,9-13) K_def]
  have i: "\<forall>i. s_session_id c = Some i \<longrightarrow> length i = 20" "\<forall>i. s_session_id s = Some i \<longrightarrow> length i = 20"
    using assms(14,15) by (simp_all add: SHA1_HASH_SIZE_def)
  show ?thesis
    using sh(1,2) with_secret_ready[OF assms(2,7,8) sh(3,4) H i(1)] with_secret_ready[OF assms(3,7,8) sh(3,4) H i(2)] assms(4,5,14) K_def
    by (intro exI[of _ "with_secret K ?H c"] exI[of _ "with_secret K ?H s"]) (auto simp: with_secret_def)
qed

definition sample_agreed :: "bool \<Rightarrow> sshsession" where
  "sample_agreed server = (sample_session (mkbuf [] 0 0 0))\<lparr>s_isserver := server,
     s_kexhashbuf := Some (mkbuf (replicate 3000 0) 0 0 3000),
     s_kexstate := sample_kexstate\<lparr>ks_sentkexinit := True, ks_recvkexinit := True\<rparr>,
     s_newkeys := Some \<lparr>nk_recv = Some sample_dir, nk_trans = Some sample_dir, nk_algo_kex = 1, nk_algo_hostkey = 1\<rparr>\<rparr>"

lemma sample_agreed_ok: "agreed (sample_agreed server) 1 1 sample_dir sample_dir []"
proof -
  have ok: "mk_ok (replicate 3000 (0 :: u8)) 0 0 3000" by (simp add: mk_ok_def)
  then show ?thesis
    by (simp add: agreed_def sample_agreed_def hash_started_def sample_session_def sample_kexstate_def mk_inv contents_mk room_mk written_def)
qed

lemma sample_vals: "gen_kexdh_vals [\<lambda>i. 0] 1 = Inr (1, 0)"
proof -
  have g: "dh_group 1" by (simp add: dh_group_def DROPBEAR_KEX_DH_GROUP1_def)
  note p = dh_prime_bounds[OF g]
  have q: "0 < mp_div_2 (load_dh_p 1 - 1)" using p(2) by (subst mp_div_2_pos) auto
  then have "mp_count_bits (mp_div_2 (load_dh_p 1 - 1)) \<noteq> 0" by (simp add: mp_count_bits_def)
  then have "\<not> (mp_count_bits (mp_div_2 (load_dh_p 1 - 1)) mod 8 = 0 \<and> mp_count_bits (mp_div_2 (load_dh_p 1 - 1)) div 8 = 0)"
    by presburger
  then have "gen_random_mpint [\<lambda>i. 0] (mp_div_2 (load_dh_p 1 - 1)) = Inr 0"
    using gen_random_zero[OF q, where draws = "[]"] by (auto simp: gen_random_mpint_def Let_def m_malloc_def simp del: gen_random_loop.simps)
  then show ?thesis using p(2) by (simp add: gen_kexdh_vals_def Let_def mp_exptmod_def mp_okay_def)
qed

lemma rsa_blob:
  assumes "rsa_public_ok key" and "sk_rsakey sk = Some key" and "length (rsa_pub_enc key) \<le> 1276"
  shows "puts (\<lambda>b. buf_put_pub_key b sk DROPBEAR_SIGNKEY_RSA) (str_enc (rsa_pub_enc key))"
proof -
  have "buf_put_pub_key b sk DROPBEAR_SIGNKEY_RSA = put_blob ''Bad key types in buf_put_pub_key'' (\<lambda>b. buf_put_rsa_pub_key b key) b" for b
    by (simp add: buf_put_pub_key_def DROPBEAR_SIGNKEY_RSA_def DROPBEAR_SIGNKEY_DSS_def assms(2) key_ptr_def)
  moreover have "rsa_pub_enc key \<noteq> []" by (simp add: rsa_pub_enc_def store32h_def)
  ultimately show ?thesis
    using puts_blob[OF puts_rsa_pub, of key] assms(1,3) by (simp add: rsa_public_ok_def str_enc_def)
qed

lemma sample_rsa_public: "rsa_public_ok sample_rsa" "length (rsa_pub_enc sample_rsa) \<le> 1276"
  using sample_rsa_bits by (simp_all add: rsa_public_ok_def sample_rsa_def mp_fits_def rsa_pub_enc_def length_mp_enc)

theorem secret_agreement_witness:
  "\<exists>c2 s2 nkc nks K sid. kexdh_comb_key toy_crypto 1 0 1 (new_sign_key\<lparr>sk_rsakey := Some sample_rsa\<rparr>) (sample_agreed False) = Inr c2 \<and>
     kexdh_comb_key toy_crypto 1 0 1 (new_sign_key\<lparr>sk_rsakey := Some sample_rsa\<rparr>) (sample_agreed True) = Inr s2 \<and>
     secrets_ready toy_crypto c2 nkc sample_dir sample_dir K sid \<and> secrets_ready toy_crypto s2 nks sample_dir sample_dir K sid \<and>
     s_hash c2 = s_hash s2"
proof -
  have f: "fresh_dir toy_crypto sample_dir" using sample_secrets[of True] by (simp add: secrets_ready_def)
  have g: "dh_group 1" by (simp add: dh_group_def DROPBEAR_KEX_DH_GROUP1_def)
  have b: "puts (\<lambda>b. buf_put_pub_key b (new_sign_key\<lparr>sk_rsakey := Some sample_rsa\<rparr>) 1) (str_enc (rsa_pub_enc sample_rsa))"
    using rsa_blob[OF sample_rsa_public(1) _ sample_rsa_public(2)] by (simp add: DROPBEAR_SIGNKEY_RSA_def)
  have i: "\<not> s_isserver (sample_agreed False)" "s_isserver (sample_agreed True)" "s_session_id (sample_agreed False) = s_session_id (sample_agreed True)"
    "\<forall>i. s_session_id (sample_agreed True) = Some i \<longrightarrow> length i = SHA1_HASH_SIZE"
    by (simp_all add: sample_agreed_def sample_session_def)
  have "length (str_enc (rsa_pub_enc sample_rsa)) \<le> 1280" using sample_rsa_public(2) by simp
  from secret_agreement[OF toy_crypto_ok sample_agreed_ok sample_agreed_ok i(1,2) g f f sample_vals sample_vals b b this i(3,4)]
  show ?thesis by blast
qed

end
