(* ===== verification/ProcessPacket.thy ===== *)
theory ProcessPacket
  imports KexAgree
begin

text \<open>
  The dispatcher of received packets, \<^verbatim>\<open>src/reconos/dropbear/process-packet.c\<close>. The table
  \<open>ses.packettypes\<close> of packet types and their handlers is an argument; it ends with an entry of type 0.
\<close>

definition MAX_UNAUTH_PACKET_TYPE :: u8 where "MAX_UNAUTH_PACKET_TYPE = SSH_MSG_USERAUTH_PK_OK"

type_synonym 's packettypes = "(u8 \<times> ('s \<Rightarrow> 's result)) list"

fun find_handler :: "u8 \<Rightarrow> 's packettypes \<Rightarrow> ('s \<Rightarrow> 's result) option result" where
  "find_handler type [] = Inl OutOfBounds"
| "find_handler type ((ty, handler) # rest) =
     (if ty = 0 then Inr None else if ty = type then Inr (Some handler) else find_handler type rest)"

definition recv_unimplemented ::
  "crypto \<Rightarrow> (nat \<Rightarrow> u8) \<Rightarrow> bytes \<Rightarrow> 'a sshsession_scheme \<Rightarrow> 'a sshsession_scheme result" where
  "recv_unimplemented cr rnd mac0 s =
     rbind (on_writepayload (\<lambda>b. rbind (buf_putbyte b SSH_MSG_UNIMPLEMENTED) (\<lambda>b. buf_putint b (s_recvseq s - 1))) s)
       (encrypt_packet cr rnd mac0)"

definition process_packet ::
  "crypto \<Rightarrow> (nat \<Rightarrow> u8) \<Rightarrow> bytes \<Rightarrow> int \<Rightarrow> 'a sshsession_scheme packettypes \<Rightarrow>
     'a sshsession_scheme \<Rightarrow> 'a sshsession_scheme result" where
  "process_packet cr rnd mac0 now packettypes s =
     rbind (deref (s_payload s)) (\<lambda>b.
     rbind (buf_getbyte b) (\<lambda>(type, b).
     let s = s\<lparr>s_payload := Some b, s_lastpacket := type, s_last_packet_time := now\<rparr>;
         (req0, req1) = s_requirenext s
     in if type = SSH_MSG_IGNORE \<or> type = SSH_MSG_DEBUG then Inr (s\<lparr>s_payload := None\<rparr>)
        else if type = SSH_MSG_UNIMPLEMENTED then Inl (Exit ''Received SSH_MSG_UNIMPLEMENTED'')
        else if type = SSH_MSG_DISCONNECT then Inl (Closed ''Disconnect received'')
        else if req0 \<noteq> 0 \<and> req0 \<noteq> type \<and> (req1 = 0 \<or> req1 \<noteq> type)
        then Inl (Exit ''Unexpected packet type'')
        else
          let s = (if req0 \<noteq> 0 then s\<lparr>s_requirenext := (0, 0)\<rparr> else s)
          in if s_ignorenext s then Inr (s\<lparr>s_ignorenext := False, s_payload := None\<rparr>)
             else if \<not> s_authdone s \<and> type > MAX_UNAUTH_PACKET_TYPE
             then Inl (Exit ''Received message before userauth'')
             else
               rbind (find_handler type packettypes) (\<lambda>h.
               rbind (case h of None \<Rightarrow> recv_unimplemented cr rnd mac0 s | Some handler \<Rightarrow> handler s) (\<lambda>s.
               Inr (s\<lparr>s_payload := None\<rparr>)))))"

subsection \<open>The server's table\<close>

text \<open>
  \<open>svr_packettypes\<close> of \<^verbatim>\<open>svr-session.c\<close>: the handlers of the key exchange, and \<open>h\<close> for the handlers of
  the authentication and channel layers.
\<close>

definition SSH_MSG_GLOBAL_REQUEST :: u8 where "SSH_MSG_GLOBAL_REQUEST = 80"
definition SSH_MSG_CHANNEL_OPEN :: u8 where "SSH_MSG_CHANNEL_OPEN = 90"
definition SSH_MSG_CHANNEL_OPEN_CONFIRMATION :: u8 where "SSH_MSG_CHANNEL_OPEN_CONFIRMATION = 91"
definition SSH_MSG_CHANNEL_OPEN_FAILURE :: u8 where "SSH_MSG_CHANNEL_OPEN_FAILURE = 92"
definition SSH_MSG_CHANNEL_WINDOW_ADJUST :: u8 where "SSH_MSG_CHANNEL_WINDOW_ADJUST = 93"
definition SSH_MSG_CHANNEL_DATA :: u8 where "SSH_MSG_CHANNEL_DATA = 94"
definition SSH_MSG_CHANNEL_EXTENDED_DATA :: u8 where "SSH_MSG_CHANNEL_EXTENDED_DATA = 95"
definition SSH_MSG_CHANNEL_EOF :: u8 where "SSH_MSG_CHANNEL_EOF = 96"
definition SSH_MSG_CHANNEL_CLOSE :: u8 where "SSH_MSG_CHANNEL_CLOSE = 97"
definition SSH_MSG_CHANNEL_REQUEST :: u8 where "SSH_MSG_CHANNEL_REQUEST = 98"
definition SSH_MSG_CHANNEL_SUCCESS :: u8 where "SSH_MSG_CHANNEL_SUCCESS = 99"
definition SSH_MSG_CHANNEL_FAILURE :: u8 where "SSH_MSG_CHANNEL_FAILURE = 100"

lemmas channel_msg_defs = SSH_MSG_GLOBAL_REQUEST_def SSH_MSG_CHANNEL_OPEN_def SSH_MSG_CHANNEL_OPEN_CONFIRMATION_def SSH_MSG_CHANNEL_OPEN_FAILURE_def
  SSH_MSG_CHANNEL_WINDOW_ADJUST_def SSH_MSG_CHANNEL_DATA_def SSH_MSG_CHANNEL_EXTENDED_DATA_def SSH_MSG_CHANNEL_EOF_def
  SSH_MSG_CHANNEL_CLOSE_def SSH_MSG_CHANNEL_REQUEST_def SSH_MSG_CHANNEL_SUCCESS_def SSH_MSG_CHANNEL_FAILURE_def

definition svr_packettypes ::
  "crypto \<Rightarrow> env \<Rightarrow> kex_tables \<Rightarrow> sign_key \<Rightarrow> (u8 \<Rightarrow> 'a sshsession_scheme \<Rightarrow> 'a sshsession_scheme result) \<Rightarrow>
     'a sshsession_scheme packettypes" where
  "svr_packettypes cr env tabs hostkey h =
     [(SSH_MSG_CHANNEL_DATA, h SSH_MSG_CHANNEL_DATA),
      (SSH_MSG_CHANNEL_WINDOW_ADJUST, h SSH_MSG_CHANNEL_WINDOW_ADJUST),
      (SSH_MSG_USERAUTH_REQUEST, h SSH_MSG_USERAUTH_REQUEST),
      (SSH_MSG_SERVICE_REQUEST, h SSH_MSG_SERVICE_REQUEST),
      (SSH_MSG_KEXINIT, recv_msg_kexinit cr env tabs None),
      (SSH_MSG_KEXDH_INIT, recv_msg_kexdh_init cr env hostkey),
      (SSH_MSG_NEWKEYS, recv_msg_newkeys (env_now env)),
      (SSH_MSG_GLOBAL_REQUEST, h SSH_MSG_GLOBAL_REQUEST),
      (SSH_MSG_CHANNEL_REQUEST, h SSH_MSG_CHANNEL_REQUEST),
      (SSH_MSG_CHANNEL_OPEN, h SSH_MSG_CHANNEL_OPEN),
      (SSH_MSG_CHANNEL_EOF, h SSH_MSG_CHANNEL_EOF),
      (SSH_MSG_CHANNEL_CLOSE, h SSH_MSG_CHANNEL_CLOSE),
      (SSH_MSG_CHANNEL_OPEN_CONFIRMATION, h SSH_MSG_CHANNEL_OPEN_CONFIRMATION),
      (SSH_MSG_CHANNEL_OPEN_FAILURE, h SSH_MSG_CHANNEL_OPEN_FAILURE),
      (0, Inr)]"

subsection \<open>What the dispatcher guarantees\<close>

lemma process_packet_payload:
  assumes "s_payload s = Some b" and "buf_inv b" and "unread b = ty # rest"
  shows "buf_getbyte b = Inr (ty, advance b 1)"
  using gets_ok[OF gets_byte assms(2), of ty rest] assms(3) by simp

text \<open>
  C15: nothing above the authentication layer runs before the user is authenticated. Until
  \<open>authdone\<close> is set, the handlers for packet types above 60 have no influence on
  \<open>process_packet\<close>: replacing them by anything else gives the same result, on every packet and in
  every state, whatever is required next or ignored.
\<close>
theorem preauth_gate:
  assumes "\<not> s_authdone s" and "\<And>ty. ty \<le> 60 \<Longrightarrow> find_handler ty table1 = find_handler ty table2"
  shows "process_packet cr rnd mac0 now table1 s = process_packet cr rnd mac0 now table2 s"
  using assms(1)
  by (auto simp: process_packet_def Let_def MAX_UNAUTH_PACKET_TYPE_def SSH_MSG_USERAUTH_PK_OK_def assms(2) not_less
      intro!: rbind_cong split: prod.splits if_splits)

text \<open>After a wrong guess: the packet that is required next is also the one that is ignored.\<close>

lemma ignored_packet:
  assumes "s_payload s = Some b" and "buf_inv b" and "unread b = SSH_MSG_KEXDH_INIT # rest"
    and "fst (s_requirenext s) = SSH_MSG_KEXDH_INIT" and "s_ignorenext s"
  shows "process_packet cr rnd mac0 now table s =
    Inr (s\<lparr>s_payload := None, s_lastpacket := SSH_MSG_KEXDH_INIT, s_last_packet_time := now, s_requirenext := (0, 0),
           s_ignorenext := False\<rparr>)"
  using assms process_packet_payload[OF assms(1-3)]
  by (cases "s_requirenext s") (simp add: process_packet_def Let_def ssh_msg_defs)

lemma second_kexinit:
  assumes "s_payload s = Some b" and "buf_inv b" and "unread b = SSH_MSG_KEXINIT # rest" and "s_requirenext s = (0, 0)"
    and "\<not> s_ignorenext s" and "ks_sentkexinit (s_kexstate s)" and "s_remoteident s \<noteq> None" and "s_transkexinit s = None"
  shows "process_packet cr rnd mac0 now (svr_packettypes cr env tabs hostkey h) s = Inl NullDeref"
  using assms process_packet_payload[OF assms(1-3)]
  by (auto simp: process_packet_def Let_def ssh_msg_defs svr_packettypes_def channel_msg_defs MAX_UNAUTH_PACKET_TYPE_def recv_msg_kexinit_def)

text \<open>
  What sending a packet can change: the two buffers and the queue on the way out, the sequence
  number, the cipher state and the count of bytes. All else is as before, in every extension of
  the session record.
\<close>

definition only_sent :: "'a sshsession_scheme \<Rightarrow> 'a sshsession_scheme \<Rightarrow> bool" where
  "only_sent s s' \<longleftrightarrow> s' = s\<lparr>s_writepayload := s_writepayload s', s_writequeue := s_writequeue s', s_transseq := s_transseq s',
     s_kexstate := (s_kexstate s)\<lparr>ks_datatrans := ks_datatrans (s_kexstate s')\<rparr>,
     s_keys := (s_keys s)\<lparr>kc_trans := kc_trans (s_keys s')\<rparr>, s_reply_queue := s_reply_queue s'\<rparr>"

lemma only_sentD:
  assumes "only_sent s s'"
  shows "s_isserver s' = s_isserver s" "s_remoteident s' = s_remoteident s" "s_payload s' = s_payload s"
    "s_transkexinit s' = s_transkexinit s" "s_requirenext s' = s_requirenext s" "s_ignorenext s' = s_ignorenext s"
    "s_newkeys s' = s_newkeys s" "s_dataallowed s' = s_dataallowed s" "s_authdone s' = s_authdone s"
    "ks_sentkexinit (s_kexstate s') = ks_sentkexinit (s_kexstate s)"
    "ks_recvkexinit (s_kexstate s') = ks_recvkexinit (s_kexstate s)"
    "sshsession.more s' = sshsession.more s"
  by (subst assms[unfolded only_sent_def], simp)+

lemma encrypt_only_sends:
  assumes "encrypt_packet cr rnd mac0 s = Inr s'"
  shows "only_sent s s'"
  using assms
  by (auto simp: encrypt_packet_def result_simps Let_def enqueue_reply_packet_def clear_writepayload_def set_trans_def
      only_sent_def split: if_splits prod.splits)

lemma write_encrypt_only_sends:
  assumes "rbind (on_writepayload f s) (encrypt_packet cr rnd mac0) = Inr s'"
  shows "only_sent s s'"
proof -
  obtain b where "encrypt_packet cr rnd mac0 (s\<lparr>s_writepayload := b\<rparr>) = Inr s'"
    using assms by (auto simp: on_writepayload_def result_simps)
  then show ?thesis using encrypt_only_sends unfolding only_sent_def by fastforce
qed

lemma send_msg_kexinit_keeps:
  assumes "send_msg_kexinit cr env tabs None s = Inr s'"
  shows "s_isserver s' = s_isserver s \<and> ks_sentkexinit (s_kexstate s')"
proof -
  obtain b c s1 where "encrypt_packet cr (env_rnd env 1) (env_mac env) (s\<lparr>s_writepayload := b, s_transkexinit := Some c\<rparr>) = Inr s1"
    and "s_isserver s' = s_isserver s1" "ks_sentkexinit (s_kexstate s')"
    using assms by (auto simp: send_msg_kexinit_def on_writepayload_def result_simps set_kexstate_def Let_def)
  then show ?thesis using only_sentD(1)[OF encrypt_only_sends, of cr "env_rnd env 1" "env_mac env" _ s1] by simp
qed

lemma read_kex_algos_keeps:
  assumes "read_kex_algos tabs guess s = Inr s'"
  shows "s_isserver s' = s_isserver s \<and> s_remoteident s' = s_remoteident s \<and>
    ks_sentkexinit (s_kexstate s') = ks_sentkexinit (s_kexstate s)"
  using assms
  by (auto simp: read_kex_algos_def set_kexstate_def Let_def elim!: rbind_InrE split: prod.splits if_splits)

lemma after_kexinit:
  assumes "recv_msg_kexinit cr env tabs None s = Inr s1" and "s_isserver s"
  shows "s_transkexinit s1 = None" "s_remoteident s1 \<noteq> None" "fst (s_requirenext s1) = SSH_MSG_KEXDH_INIT"
    "ks_sentkexinit (s_kexstate s1)"
proof -
  obtain s0 s2 remote pl hb where s0: "(if \<not> ks_sentkexinit (s_kexstate s) then send_msg_kexinit cr env tabs None s else Inr s) = Inr s0"
    and r: "s_remoteident s0 = Some remote" "read_kex_algos tabs False s0 = Inr s2"
    and s1: "s1 = set_kexstate (\<lambda>k. k\<lparr>ks_recvkexinit := True\<rparr>) (s2\<lparr>s_payload := Some pl, s_kexhashbuf := Some hb,
      s_transkexinit := None, s_requirenext := (if s_isserver s2 then (SSH_MSG_KEXDH_INIT, snd (s_requirenext s2)) else s_requirenext s2)\<rparr>)"
    using assms(1) unfolding recv_msg_kexinit_def by (auto simp: rbind_eq_Inr_iff Let_def simp del: if_split)
  have "s_isserver s0 \<and> ks_sentkexinit (s_kexstate s0)"
    using s0 assms(2) send_msg_kexinit_keeps[of cr env tabs s s0] by (auto split: if_splits)
  then show "s_transkexinit s1 = None" "s_remoteident s1 \<noteq> None" "fst (s_requirenext s1) = SSH_MSG_KEXDH_INIT"
    "ks_sentkexinit (s_kexstate s1)"
    using read_kex_algos_keeps[OF r(2)] r(1) by (simp_all add: s1 set_kexstate_def)
qed

text \<open>
  C16: a peer can crash a server with its second KEXINIT. When the client's KEXINIT announces a
  guessed packet and the guess is wrong, \<open>recv_msg_kexinit\<close> both requires a KEXDH_INIT next and
  marks the next packet to be ignored. \<open>process_packet\<close> checks the requirement first and then ignores the
  packet, so that nothing is required any more; the next KEXINIT reaches \<open>recv_msg_kexinit\<close>, which
  follows the null pointer \<open>ses.transkexinit\<close>. Whatever the packets contain after their type.
\<close>
theorem second_kexinit_crashes:
  assumes "s_isserver s" and "recv_msg_kexinit cr env tabs None s = Inr s1" and "s_ignorenext s1"
    and "buf_inv b1" and "unread b1 = SSH_MSG_KEXDH_INIT # rest1" and "buf_inv b2" and "unread b2 = SSH_MSG_KEXINIT # rest2"
  shows "\<exists>s2. process_packet cr rnd mac0 now (svr_packettypes cr env tabs hostkey h) (s1\<lparr>s_payload := Some b1\<rparr>) = Inr s2 \<and>
    process_packet cr rnd mac0 now' (svr_packettypes cr env tabs hostkey h) (s2\<lparr>s_payload := Some b2\<rparr>) = Inl NullDeref"
proof -
  note k = after_kexinit[OF assms(2,1)]
  let ?s1 = "s1\<lparr>s_payload := Some b1\<rparr>"
  let ?s2 = "?s1\<lparr>s_payload := None, s_lastpacket := SSH_MSG_KEXDH_INIT, s_last_packet_time := now, s_requirenext := (0, 0),
    s_ignorenext := False\<rparr>"
  have "process_packet cr rnd mac0 now (svr_packettypes cr env tabs hostkey h) ?s1 = Inr ?s2"
    using k(3) assms(3) by (intro ignored_packet[OF _ assms(4,5)]) simp_all
  moreover have "process_packet cr rnd mac0 now' (svr_packettypes cr env tabs hostkey h) (?s2\<lparr>s_payload := Some b2\<rparr>) = Inl NullDeref"
    using k by (intro second_kexinit[OF _ assms(6,7)]) simp_all
  ultimately show ?thesis by blast
qed

text \<open>A server without the first method of the client, which announces a guessed packet.\<close>

definition stricter_tables :: kex_tables where
  "stricter_tables = std_tables\<lparr>kt_kex := tl sshkex\<rparr>"

definition one_byte :: "u8 \<Rightarrow> buffer" where
  "one_byte v = mkbuf [v] 1 0 1"

lemma one_byte_ok: "buf_inv (one_byte v)" "unread (one_byte v) = v # []"
proof -
  have "mk_ok [v] 1 0 1" by (simp add: mk_ok_def)
  then show "buf_inv (one_byte v)" "unread (one_byte v) = v # []" by (simp_all add: one_byte_def mk_inv unread_mk)
qed

lemma stricter_fine: "tables_fine stricter_tables ssh_nocompress"
proof -
  have "table_ok (tl sshkex)"
    by (simp add: table_ok_def algo_tables terminated_def entries_def usable_names_def name_ok_def MAX_PROPOSED_ALGO_def)
  then show ?thesis by (simp add: tables_fine_def stricter_tables_def std_tables_def)
qed

lemma stricter_picks:
  "pick True (kt_kex stricter_tables) (usable_names (kt_kex std_tables)) (Some KEXGUESS2_LOOK) = (Some 0, Some KEXGUESS2_YES, False)"
  "pick True (kt_hostkey stricter_tables) (usable_names (kt_hostkey std_tables)) (Some KEXGUESS2_YES) = (Some 0, Some KEXGUESS2_YES, True)"
  "pick True (kt_ciphers stricter_tables) (usable_names (kt_ciphers std_tables)) None = (Some 0, None, False)"
  "pick True (kt_hashes stricter_tables) (usable_names (kt_hashes std_tables)) None = (Some 0, None, False)"
  "pick True ssh_nocompress (usable_names ssh_nocompress) None = (Some 0, None, False)"
  by (simp_all add: pick_def stricter_tables_def std_tables_def usable_names_def entries_def algo_tables look_kexguess2_def
        good_guess_def ascii_def KEXGUESS2_ALGO_NAME_def)

lemma wrong_guess: "\<exists>s1. recv_msg_kexinit toy_crypto sample_env stricter_tables None (sample_neg True) = Inr s1 \<and> s_ignorenext s1"
proof -
  let ?c = "sample_init False" and ?i = "sample_init True"
  let ?b = "mkbuf ?c (length ?c) 1 (length ?c)" and ?tk = "mkbuf ?i (length ?i) 0 (length ?i)"
  let ?ch = "\<lparr>ch_kex = kt_kex stricter_tables ! 0, ch_hostkey = kt_hostkey stricter_tables ! 0,
    ch_c2s_cipher = kt_ciphers stricter_tables ! 0, ch_s2c_cipher = kt_ciphers stricter_tables ! 0,
    ch_c2s_hash = kt_hashes stricter_tables ! 0, ch_s2c_hash = kt_hashes stricter_tables ! 0,
    ch_c2s_comp = ssh_nocompress ! 0, ch_s2c_comp = ssh_nocompress ! 0, ch_allgood = (False \<and> True)\<rparr>"
  have s: "s_payload (sample_neg True) = Some ?b" "s_transkexinit (sample_neg True) = Some ?tk"
    "ks_sentkexinit (s_kexstate (sample_neg True))" "s_newkeys (sample_neg True) \<noteq> None"
    "s_remoteident (sample_neg True) = Some LOCAL_IDENT" "s_isserver (sample_neg True)"
    "s_compress_algos (sample_neg True) = ssh_nocompress"
    by (simp_all add: sample_neg_def Let_def sample_session_def)
  have l: "length ?c \<le> 1500" "length ?i \<le> 1500"
    using length_kexinit[OF kex_std_fine[OF std_tables_std], of "replicate 16 2" True]
      length_kexinit[OF kex_std_fine[OF std_tables_std], of "replicate 16 1" False] by (simp_all add: sample_init_def)
  have g: "gets (match_algos True stricter_tables ssh_nocompress) (lists_enc std_tables ssh_nocompress) ?ch"
    by (rule match_algos_gets[OF stricter_fine kex_std_fine[OF std_tables_std] stricter_picks(1) _ stricter_picks(2-5)])
      (simp add: stricter_tables_def sshkex_def algo_plain_def KEXGUESS2_ALGO_ID_def DROPBEAR_KEX_DH_GROUP14_def)
  have ci: "ciphers_ok toy_crypto" by (simp add: ciphers_ok_def toy_crypto_def)
  obtain d where d: "new_direction (kt_ciphers stricter_tables ! 0) (kt_hashes stricter_tables ! 0) (ssh_nocompress ! 0) = Inr d"
    by (simp add: new_direction_def stricter_tables_def std_tables_def algo_tables cipher_data_def hash_data_def)
  obtain hb where "recv_msg_kexinit toy_crypto sample_env stricter_tables None (sample_neg True) =
      Inr (kexinit_done True (None \<noteq> (None :: (sshsession \<Rightarrow> sshsession result) option)) ?ch d d ?b hb (sample_neg True))"
    using recv_msg_kexinit_eq[OF s(3,2) sample_init_buf(1) _ s(1) sample_init_buf(1) _ _ _ _ s(4,5), of "replicate 16 2" std_tables ssh_nocompress True
      stricter_tables ?ch d d "takeWhile (\<lambda>c. c \<noteq> 0) LOCAL_IDENT" "takeWhile (\<lambda>c. c \<noteq> 0) LOCAL_IDENT" toy_crypto sample_env None]
      g d l s(6,7) sample_init_buf(2)[of 0 True] sample_init_buf(2)[of 1 False]
    by (auto simp: sample_init_def strlen_def LOCAL_IDENT_def ascii_def)
  then show ?thesis by (auto simp: kexinit_done_def negotiated_session_def set_kexstate_def)
qed

theorem second_kexinit_crashes_witness:
  "\<exists>s1 s2. recv_msg_kexinit toy_crypto sample_env stricter_tables None (sample_neg True) = Inr s1 \<and>
     process_packet toy_crypto (\<lambda>_. 0) [] 7 (svr_packettypes toy_crypto sample_env stricter_tables new_sign_key (\<lambda>_. Inr))
       (s1\<lparr>s_payload := Some (one_byte SSH_MSG_KEXDH_INIT)\<rparr>) = Inr s2 \<and>
     process_packet toy_crypto (\<lambda>_. 0) [] 8 (svr_packettypes toy_crypto sample_env stricter_tables new_sign_key (\<lambda>_. Inr))
       (s2\<lparr>s_payload := Some (one_byte SSH_MSG_KEXINIT)\<rparr>) = Inl NullDeref"
proof -
  obtain s1 where s1: "recv_msg_kexinit toy_crypto sample_env stricter_tables None (sample_neg True) = Inr s1" "s_ignorenext s1"
    using wrong_guess by blast
  have "s_isserver (sample_neg True)" by (simp add: sample_neg_ready)
  from second_kexinit_crashes[OF this s1 one_byte_ok one_byte_ok] s1(1) show ?thesis by blast
qed

theorem preauth_gate_witness:
  "process_packet toy_crypto (\<lambda>_. 0) [] 7 [(90, Inr), (0, Inr)]
       ((sample_session (mkbuf [] 0 0 0))\<lparr>s_authdone := False, s_payload := Some (one_byte 90)\<rparr>) =
     process_packet toy_crypto (\<lambda>_. 0) [] 7 [(90, \<lambda>_. Inl NullDeref), (0, Inr)]
       ((sample_session (mkbuf [] 0 0 0))\<lparr>s_authdone := False, s_payload := Some (one_byte 90)\<rparr>)"
  by (rule preauth_gate) auto

end
