(* ===== verification/Sender.thy ===== *)
theory Sender
  imports ProcessPacket
begin

text \<open>
  Sending a message. The handlers of the layers above write a message to \<open>ses.writepayload\<close> and call
  \<open>encrypt_packet\<close> (\<^verbatim>\<open>src/reconos/dropbear/packet.c\<close>); \<open>sender_ok\<close> is the state in which that succeeds, for every message that
  fits, and in which it leaves the session.
\<close>

text \<open>The writes to \<open>ses.writepayload\<close> that end with a call of \<open>encrypt_packet\<close>; \<open>k\<close> counts the calls.\<close>

definition send_payload ::
  "crypto \<Rightarrow> env \<Rightarrow> nat \<Rightarrow> (buffer \<Rightarrow> buffer result) \<Rightarrow> 'a sshsession_scheme \<Rightarrow> 'a sshsession_scheme result" where
  "send_payload cr env k f s = rbind (on_writepayload f s) (encrypt_packet cr (env_rnd env k) (env_mac env))"

subsection \<open>A session that can send\<close>

definition sender_ok :: "crypto \<Rightarrow> 'a sshsession_scheme \<Rightarrow> bool" where
  "sender_ok cr s \<longleftrightarrow> (\<exists>r :: sshsession. in_step cr s r) \<and> (\<exists>qs. q_rep (s_writequeue s) qs) \<and>
     fresh_payload (s_writepayload s) \<and> b_size (s_writepayload s) = TRANS_MAX_PAYLOAD_LEN"

definition env_ok :: "env \<Rightarrow> bool" where
  "env_ok env \<longleftrightarrow> length (env_mac env) = MAX_MAC_LEN"

lemma sender_okD:
  assumes "sender_ok cr s"
  shows "buf_inv (s_writepayload s)" "b_len (s_writepayload s) = 0" "b_pos (s_writepayload s) = 0"
    "b_size (s_writepayload s) = 16384" "room (s_writepayload s) = 16384"
  using assms by (simp_all add: sender_ok_def fresh_payload_def TRANS_MAX_PAYLOAD_LEN_def room_def)

text \<open>The fields \<open>sender_ok\<close> depends on.\<close>

lemma sender_ok_cong:
  assumes "s_keys s' = s_keys s" and "s_transseq s' = s_transseq s" and "s_writequeue s' = s_writequeue s"
    and "s_writepayload s' = s_writepayload s"
  shows "sender_ok cr s' = sender_ok cr s"
  using assms by (simp add: sender_ok_def in_step_def)

lemma encrypt_sender_ok:
  assumes "sender_ok cr (s\<lparr>s_writepayload := w\<rparr>)" and "payload_ok b" and "length (contents b) \<le> 16384"
    and "b_size b = TRANS_MAX_PAYLOAD_LEN" and "length mac0 = MAX_MAC_LEN"
  shows "\<exists>s'. encrypt_packet cr rnd mac0 (s\<lparr>s_writepayload := b\<rparr>) = Inr s' \<and> sender_ok cr s' \<and> only_sent s s'"
proof -
  let ?s = "s\<lparr>s_writepayload := b\<rparr>"
  obtain r :: sshsession and qs where r: "in_step cr ?s r" "q_rep (s_writequeue ?s) qs"
    using assms(1) by (auto simp: sender_ok_def in_step_def)
  have f: "fresh_payload (emptied b)" "b_size (emptied b) = TRANS_MAX_PAYLOAD_LEN"
    using assms(2,4) emptied_inv[of b] by (simp_all add: payload_ok_def fresh_payload_def emptied_def)
  show ?thesis
  proof (cases "s_dataallowed ?s \<or> packet_is_okay_kex (hd (contents (s_writepayload ?s)))")
    case True
    have p: "payload_ok (s_writepayload ?s)" "length (contents (s_writepayload ?s)) \<le> 32768" using assms(2,3) by simp_all
    obtain st wq wb st' where w: "encrypt_packet cr rnd mac0 ?s = Inr (after_send st wq (length (contents wb)) ?s)"
      "q_rep wq (qs @ [wb])"
      "mode_sync cr (k_crypt_mode (kc_trans (s_keys ?s))) (unat (dc_blocksize (k_algo_crypt (kc_trans (s_keys ?s))))) st st'"
      by (rule in_step_sent[OF r(1) p r(2) True assms(5,5)])
    have "in_step cr (after_send st wq (length (contents wb)) ?s) (after_recv st' 0 [] r)"
      by (rule in_step_after[OF r(1) w(3)])
    then have "sender_ok cr (after_send st wq (length (contents wb)) ?s)"
      using w(2) f by (auto simp: sender_ok_def after_send_def set_trans_def)
    moreover have "only_sent s (after_send st wq (length (contents wb)) ?s)"
      by (simp add: only_sent_def after_send_def set_trans_def)
    ultimately show ?thesis using w(1) by blast
  next
    case False
    then obtain c where c: "encrypt_packet cr rnd mac0 ?s =
        Inr (?s\<lparr>s_writepayload := emptied b, s_reply_queue := s_reply_queue ?s @ [c]\<rparr>)"
      using encrypt_packet_queues[of ?s cr rnd mac0] assms(2) by auto
    have "sender_ok cr (?s\<lparr>s_writepayload := emptied b, s_reply_queue := s_reply_queue ?s @ [c]\<rparr>)"
      using r f by (auto simp: sender_ok_def in_step_def)
    moreover have "only_sent s (?s\<lparr>s_writepayload := emptied b, s_reply_queue := s_reply_queue ?s @ [c]\<rparr>)"
      by (simp add: only_sent_def)
    ultimately show ?thesis using c by blast
  qed
qed

text \<open>A message that fits is sent, and changes nothing that is not part of sending.\<close>

lemma send_payload_ok:
  assumes "sender_ok cr s" and "env_ok env" and "puts f bs" and "1 \<le> length bs" and "length bs \<le> 16384"
  shows "\<exists>s'. send_payload cr env k f s = Inr s' \<and> sender_ok cr s' \<and> only_sent s s'"
proof -
  note s = sender_okD[OF assms(1)]
  let ?b = "overwrite (s_writepayload s) bs"
  have l: "length bs \<le> room (s_writepayload s)" using assms(5) s(5) by simp
  note o = overwrite_fresh[OF s(1) s(3,2) l] overwrite_fields[OF s(1) l]
  have "unat (of_nat (length bs) :: u32) = length bs" using assms(5) by (intro unat_of_nat_u32) simp
  then have "payload_ok ?b" "length (contents ?b) \<le> 16384" "b_size ?b = TRANS_MAX_PAYLOAD_LEN"
    using o overwrite_inv[OF s(1) l] assms(4,5) s(4) by (simp_all add: payload_ok_def TRANS_MAX_PAYLOAD_LEN_def)
  moreover have "sender_ok cr (s\<lparr>s_writepayload := s_writepayload s\<rparr>)" using assms(1) by simp
  ultimately obtain s' where "encrypt_packet cr (env_rnd env k) (env_mac env) (s\<lparr>s_writepayload := ?b\<rparr>) = Inr s'"
    "sender_ok cr s'" "only_sent s s'"
    using encrypt_sender_ok[of cr "s_writepayload s" s ?b "env_mac env" "env_rnd env k"] assms(2) unfolding env_ok_def by blast
  then show ?thesis using puts_ok[OF assms(3) s(1) l] by (simp add: send_payload_def on_writepayload_def)
qed

text \<open>A session to evaluate with, and the values drawn for it.\<close>

lemma sample_sender: "sender_ok toy_crypto (sample_session (mkbuf (replicate 16384 0) 0 0 16384))"
proof -
  let ?w = "mkbuf (replicate 16384 0) 0 0 16384"
  have "in_step toy_crypto (sample_session ?w) (sample_session ?w)" using sample_in_step'[of ?w ?w] by (simp add: in_step_def)
  moreover have "q_rep (s_writequeue (sample_session ?w)) []" by (rule sample_q_rep)
  moreover have "s_writepayload (sample_session ?w) = ?w" by (simp add: sample_session_def)
  ultimately show ?thesis
    unfolding sender_ok_def fresh_payload_def TRANS_MAX_PAYLOAD_LEN_def
    using mk_inv[of "replicate 16384 0" 0 0 16384] by (auto simp: mkbuf_def mk_ok_def)
qed

lemma sample_env_ok: "env_ok sample_env"
  by (simp add: env_ok_def sample_env_def MAX_MAC_LEN_def)

end
