(* ===== verification/Listener.thy ===== *)
theory Listener
  imports ProcessPacket
begin

text \<open>
  The listening sockets of a connection, \<^verbatim>\<open>src/reconos/dropbear/listener.c\<close>, used for TCP, X11 and
  agent forwarding. \<open>ses.listeners\<close> is an array of pointers: a pointer to a listener is its slot.
  The functions \<open>acceptor\<close> and \<open>cleanup\<close> of a listener are function pointers; the record has the
  name of the function and the operations take what the names stand for as an argument. \<open>typedata\<close>
  is a pointer that this component only passes on. The descriptors the program closes or shuts
  down are recorded in \<open>s_closed\<close> and \<open>s_shutdown\<close>. A set of descriptors is a list, and setting one outside
  the range of an \<open>fd_set\<close> is undefined.
\<close>

definition DROPBEAR_MAX_SOCKS :: nat where "DROPBEAR_MAX_SOCKS = 2"
definition MAX_LISTENERS :: u32 where "MAX_LISTENERS = 20"
definition LISTENER_EXTEND_SIZE :: u32 where "LISTENER_EXTEND_SIZE = 1"
definition FD_SETSIZE :: int where "FD_SETSIZE = 1024"

type_synonym fd_set = "int list"

definition FD_SET :: "int \<Rightarrow> fd_set \<Rightarrow> fd_set result" where
  "FD_SET fd fds = (if 0 \<le> fd \<and> fd < FD_SETSIZE then Inr (List.insert fd fds) else Inl OutOfBounds)"

definition FD_ISSET :: "int \<Rightarrow> fd_set \<Rightarrow> bool result" where
  "FD_ISSET fd fds = (if 0 \<le> fd \<and> fd < FD_SETSIZE then Inr (fd \<in> set fds) else Inl OutOfBounds)"

record Listener =
  l_socks :: "int list"
  l_nsocks :: u32
  l_index :: u32
  l_acceptor :: string
  l_cleanup :: "string option"
  l_type :: int
  l_typedata :: nat

record listensession = sshsession +
  s_listeners :: "Listener option list"
  s_listensize :: u32
  s_maxfd :: int
  s_closed :: "int list"
  s_shutdown :: "(int \<times> int) list"

definition os_close :: "int \<Rightarrow> 'a listensession_scheme \<Rightarrow> 'a listensession_scheme" where
  "os_close fd s = s\<lparr>s_closed := s_closed s @ [fd]\<rparr>"

definition nth_or_ub :: "'b list \<Rightarrow> nat \<Rightarrow> 'b result" where
  "nth_or_ub xs i = (if i < length xs then Inr (xs ! i) else Inl OutOfBounds)"

definition listeners_initialise :: "'a listensession_scheme \<Rightarrow> 'a listensession_scheme" where
  "listeners_initialise s = s\<lparr>s_listeners := [None], s_listensize := 1\<rparr>"

text \<open>The pointer in slot \<open>i\<close>, followed.\<close>

definition listener_at :: "nat \<Rightarrow> 'a listensession_scheme \<Rightarrow> Listener result" where
  "listener_at i s = rbind (nth_or_ub (s_listeners s) i) deref"

fun set_socks :: "int list \<Rightarrow> nat \<Rightarrow> nat \<Rightarrow> fd_set \<Rightarrow> fd_set result" where
  "set_socks socks j 0 fds = Inr fds"
| "set_socks socks j (Suc n) fds =
     rbind (nth_or_ub socks j) (\<lambda>fd. rbind (FD_SET fd fds) (set_socks socks (Suc j) n))"

fun set_listeners :: "Listener option list \<Rightarrow> nat \<Rightarrow> nat \<Rightarrow> fd_set \<Rightarrow> fd_set result" where
  "set_listeners ls i 0 fds = Inr fds"
| "set_listeners ls i (Suc n) fds =
     rbind (nth_or_ub ls i) (\<lambda>l.
     rbind (case l of None \<Rightarrow> Inr fds | Some listener \<Rightarrow> set_socks (l_socks listener) 0 (unat (l_nsocks listener)) fds)
       (set_listeners ls (Suc i) n))"

definition set_listener_fds :: "'a listensession_scheme \<Rightarrow> fd_set \<Rightarrow> fd_set result" where
  "set_listener_fds s readfds = set_listeners (s_listeners s) 0 (unat (s_listensize s)) readfds"

text \<open>
  The two loops of \<open>handle_listeners\<close>. An acceptor may change the session, so the bounds are read
  again in every round, from the slot of the listener.
\<close>

lemma unat_next:
  fixes i n :: u32
  assumes "i < n"
  shows "unat (i + 1) = Suc (unat i)" and "4294967296 - unat (i + 1) < 4294967296 - unat i"
proof -
  have "unat i < unat n" using assms by (simp add: word_less_nat_alt)
  moreover have "unat n < 4294967296" by simp
  ultimately have "unat i + 1 < 4294967296" by linarith
  then show e: "unat (i + 1) = Suc (unat i)" using unat_add_no_overflow[of i 1] by simp
  show "4294967296 - unat (i + 1) < 4294967296 - unat i" using \<open>unat i + 1 < 4294967296\<close> by (simp add: e)
qed

function accept_socks ::
  "(string \<Rightarrow> nat \<Rightarrow> int \<Rightarrow> 'a listensession_scheme \<Rightarrow> 'a listensession_scheme result) \<Rightarrow> fd_set \<Rightarrow> nat \<Rightarrow> u32 \<Rightarrow>
     'a listensession_scheme \<Rightarrow> 'a listensession_scheme result" where
  "accept_socks accept readfds i j s =
     rbind (listener_at i s) (\<lambda>listener.
     if j < l_nsocks listener then
       rbind (nth_or_ub (l_socks listener) (unat j)) (\<lambda>sock.
       rbind (FD_ISSET sock readfds) (\<lambda>ready.
       rbind (if ready then accept (l_acceptor listener) i sock s else Inr s) (\<lambda>s.
       accept_socks accept readfds i (j + 1) s)))
     else Inr s)"
  by pat_completeness auto
termination by (relation "measure (\<lambda>(_, _, _, j, _). 4294967296 - unat j)") (simp_all add: unat_next(2))

function handle_from ::
  "(string \<Rightarrow> nat \<Rightarrow> int \<Rightarrow> 'a listensession_scheme \<Rightarrow> 'a listensession_scheme result) \<Rightarrow> fd_set \<Rightarrow> u32 \<Rightarrow>
     'a listensession_scheme \<Rightarrow> 'a listensession_scheme result" where
  "handle_from accept readfds i s =
     (if i < s_listensize s then
        rbind (nth_or_ub (s_listeners s) (unat i)) (\<lambda>l.
        rbind (case l of None \<Rightarrow> Inr s | Some _ \<Rightarrow> accept_socks accept readfds (unat i) 0 s)
          (handle_from accept readfds (i + 1)))
      else Inr s)"
  by pat_completeness auto
termination by (relation "measure (\<lambda>(_, _, i, _). 4294967296 - unat i)") (simp_all add: unat_next(2))

declare accept_socks.simps [simp del] handle_from.simps [simp del]

definition handle_listeners ::
  "(string \<Rightarrow> nat \<Rightarrow> int \<Rightarrow> 'a listensession_scheme \<Rightarrow> 'a listensession_scheme result) \<Rightarrow> fd_set \<Rightarrow>
     'a listensession_scheme \<Rightarrow> 'a listensession_scheme result" where
  "handle_listeners accept readfds s = handle_from accept readfds 0 s"

text \<open>
  \<open>free_slot\<close> is the search that both \<open>new_listener\<close> and \<open>newchannel\<close> start with: the first slot
  that is null, or the size of the array.
\<close>

fun free_slot :: "'b option list \<Rightarrow> nat \<Rightarrow> nat \<Rightarrow> nat result" where
  "free_slot xs i 0 = Inr i"
| "free_slot xs i (Suc n) =
     rbind (nth_or_ub xs i) (\<lambda>x. case x of None \<Rightarrow> Inr i | Some _ \<Rightarrow> free_slot xs (Suc i) n)"

text \<open>
  The sockets are to be closed when there are too many listeners; the loop has the slot number
  where the number of the socket belongs.
\<close>

fun close_socks_at :: "int list \<Rightarrow> nat \<Rightarrow> nat \<Rightarrow> 'a listensession_scheme \<Rightarrow> 'a listensession_scheme result" where
  "close_socks_at socks i 0 s = Inr s"
| "close_socks_at socks i (Suc n) s =
     rbind (nth_or_ub socks i) (\<lambda>fd. close_socks_at socks i n (os_close fd s))"

fun max_socks :: "int list \<Rightarrow> nat \<Rightarrow> nat \<Rightarrow> int \<Rightarrow> int result" where
  "max_socks socks j 0 m = Inr m"
| "max_socks socks j (Suc n) m = rbind (nth_or_ub socks j) (\<lambda>fd. max_socks socks (Suc j) n (max m fd))"

definition new_listener ::
  "int list \<Rightarrow> u32 \<Rightarrow> int \<Rightarrow> nat \<Rightarrow> string \<Rightarrow> string option \<Rightarrow> 'a listensession_scheme \<Rightarrow>
     (nat option \<times> 'a listensession_scheme) result" where
  "new_listener socks nsocks type typedata acceptor cleanup s =
     rbind (free_slot (s_listeners s) 0 (unat (s_listensize s))) (\<lambda>i.
     if i = unat (s_listensize s) \<and> s_listensize s > MAX_LISTENERS
     then rbind (close_socks_at socks i (unat nsocks) s) (\<lambda>s. Inr (None, s))
     else
       let s = (if i = unat (s_listensize s)
                then s\<lparr>s_listeners := take i (s_listeners s) @ replicate (unat LISTENER_EXTEND_SIZE) None,
                       s_listensize := s_listensize s + LISTENER_EXTEND_SIZE\<rparr>
                else s)
       in rbind (max_socks socks 0 (unat nsocks) (s_maxfd s)) (\<lambda>m.
          if unat nsocks > DROPBEAR_MAX_SOCKS then Inl OutOfBounds
          else
            let l = \<lparr>l_socks = take (unat nsocks) socks @ replicate (DROPBEAR_MAX_SOCKS - unat nsocks) 0,
                     l_nsocks = nsocks, l_index = of_nat i, l_acceptor = acceptor, l_cleanup = cleanup,
                     l_type = type, l_typedata = typedata\<rparr>
            in Inr (Some i, s\<lparr>s_maxfd := m, s_listeners := (s_listeners s)[i := Some l]\<rparr>)))"

text \<open>
  The loop of \<open>get_listener\<close> loads the pointer once, in its initialisation, and then only counts.
  \<open>match\<close> compares two \<open>typedata\<close>.
\<close>

fun get_listener_loop ::
  "int \<Rightarrow> nat \<Rightarrow> (nat \<Rightarrow> nat \<Rightarrow> bool result) \<Rightarrow> Listener option \<Rightarrow> nat \<Rightarrow> bool result" where
  "get_listener_loop type typedata match l 0 = Inr False"
| "get_listener_loop type typedata match l (Suc n) =
     rbind (deref l) (\<lambda>listener.
     rbind (if l_type listener = type then match typedata (l_typedata listener) else Inr False) (\<lambda>m.
     if m then Inr True else get_listener_loop type typedata match l n))"

definition get_listener ::
  "int \<Rightarrow> nat \<Rightarrow> (nat \<Rightarrow> nat \<Rightarrow> bool result) \<Rightarrow> 'a listensession_scheme \<Rightarrow> nat option result" where
  "get_listener type typedata match s =
     rbind (nth_or_ub (s_listeners s) 0) (\<lambda>l.
     rbind (get_listener_loop type typedata match l (unat (s_listensize s))) (\<lambda>found.
     Inr (if found then Some 0 else None)))"

fun close_socks :: "int list \<Rightarrow> nat \<Rightarrow> nat \<Rightarrow> 'a listensession_scheme \<Rightarrow> 'a listensession_scheme result" where
  "close_socks socks j 0 s = Inr s"
| "close_socks socks j (Suc n) s =
     rbind (nth_or_ub socks j) (\<lambda>fd. close_socks socks (Suc j) n (os_close fd s))"

definition remove_listener ::
  "(string \<Rightarrow> nat \<Rightarrow> 'a listensession_scheme \<Rightarrow> 'a listensession_scheme result) \<Rightarrow> nat \<Rightarrow>
     'a listensession_scheme \<Rightarrow> 'a listensession_scheme result" where
  "remove_listener cleanup i s =
     rbind (listener_at i s) (\<lambda>listener.
     rbind (case l_cleanup listener of None \<Rightarrow> Inr s | Some f \<Rightarrow> cleanup f i s) (\<lambda>s.
     rbind (listener_at i s) (\<lambda>listener.
     rbind (close_socks (l_socks listener) 0 (unat (l_nsocks listener)) s) (\<lambda>s.
     rbind (nth_or_ub (s_listeners s) (unat (l_index listener))) (\<lambda>_.
     Inr (s\<lparr>s_listeners := (s_listeners s)[unat (l_index listener) := None]\<rparr>))))))"

subsection \<open>Invariant\<close>

definition listener_ok :: "nat \<Rightarrow> Listener \<Rightarrow> bool" where
  "listener_ok i l \<longleftrightarrow> unat (l_index l) = i \<and> length (l_socks l) = DROPBEAR_MAX_SOCKS \<and> unat (l_nsocks l) \<le> DROPBEAR_MAX_SOCKS"

definition listeners_inv :: "'a listensession_scheme \<Rightarrow> bool" where
  "listeners_inv s \<longleftrightarrow> length (s_listeners s) = unat (s_listensize s) \<and> 1 \<le> unat (s_listensize s) \<and> unat (s_listensize s) \<le> 21 \<and>
     (\<forall>i < length (s_listeners s). \<forall>l. s_listeners s ! i = Some l \<longrightarrow> listener_ok i l)"

lemma free_slot_spec:
  assumes "i + n = length xs"
  shows "\<exists>j. free_slot xs i n = Inr j \<and> i \<le> j \<and> j \<le> length xs \<and> (j < length xs \<longrightarrow> xs ! j = None) \<and>
    (\<forall>k. i \<le> k \<and> k < j \<longrightarrow> xs ! k \<noteq> None)"
  using assms
proof (induction xs i n rule: free_slot.induct)
  case (2 xs i n)
  then have i: "i < length xs" by simp
  show ?case
  proof (cases "xs ! i")
    case None
    then show ?thesis using i by (intro exI[of _ i]) (auto simp: nth_or_ub_def)
  next
    case (Some x)
    obtain j where j: "free_slot xs (Suc i) n = Inr j" "Suc i \<le> j" "j \<le> length xs" "j < length xs \<longrightarrow> xs ! j = None"
      "\<forall>k. Suc i \<le> k \<and> k < j \<longrightarrow> xs ! k \<noteq> None"
      using "2.IH"[of "Some x"] 2(2) i Some by (auto simp: nth_or_ub_def)
    then show ?thesis using i Some by (intro exI[of _ j]) (auto simp: nth_or_ub_def le_Suc_eq dest: antisym_conv2)
  qed
qed auto

lemma listener_at_ok:
  assumes "listeners_inv s" and "i < length (s_listeners s)" and "s_listeners s ! i = Some l"
  shows "listener_at i s = Inr l" and "listener_ok i l"
  using assms by (simp_all add: listener_at_def nth_or_ub_def listeners_inv_def)

lemma max_socks_total: "j + n \<le> length socks \<Longrightarrow> \<exists>m'. max_socks socks j n m = Inr m'"
  by (induction socks j n m rule: max_socks.induct) (auto simp: nth_or_ub_def)

lemma listeners_inv_update:
  assumes "listeners_inv s" and "\<And>l. x = Some l \<Longrightarrow> listener_ok i l"
  shows "listeners_inv (s\<lparr>s_listeners := (s_listeners s)[i := x]\<rparr>)"
  unfolding listeners_inv_def
proof (intro conjI allI impI)
  fix k l assume k: "k < length (s_listeners (s\<lparr>s_listeners := (s_listeners s)[i := x]\<rparr>))"
    "s_listeners (s\<lparr>s_listeners := (s_listeners s)[i := x]\<rparr>) ! k = Some l"
  then show "listener_ok k l" using assms by (cases "k = i") (auto simp: listeners_inv_def)
qed (use assms(1) in \<open>simp_all add: listeners_inv_def\<close>)

lemma listeners_inv_grow:
  assumes "listeners_inv s" and "s_listensize s \<le> MAX_LISTENERS"
  shows "listeners_inv (s\<lparr>s_listeners := s_listeners s @ [None], s_listensize := s_listensize s + 1\<rparr>)"
proof -
  have "unat (s_listensize s) \<le> 20" using assms(2) by (simp add: MAX_LISTENERS_def word_le_nat_alt)
  then have "unat (s_listensize s + 1) = unat (s_listensize s) + 1" using unat_add_no_overflow[of "s_listensize s" 1] by simp
  then show ?thesis using assms(1) \<open>unat (s_listensize s) \<le> 20\<close> by (auto simp: listeners_inv_def nth_append less_Suc_eq)
qed

text \<open>A new listener takes the first free slot; the array grows by one slot up to 21.\<close>

lemma new_listener_ok:
  assumes "listeners_inv s" and "length socks = DROPBEAR_MAX_SOCKS" and "unat nsocks \<le> DROPBEAR_MAX_SOCKS"
    and "s_listensize s \<le> MAX_LISTENERS \<or> None \<in> set (s_listeners s)"
  shows "\<exists>i l s'. new_listener socks nsocks type typedata acceptor cleanup s = Inr (Some i, s') \<and> listeners_inv s' \<and>
    s_listeners s' ! i = Some l \<and> l_typedata l = typedata \<and> l_type l = type \<and>
    (\<forall>k < length (s_listeners s). k \<noteq> i \<longrightarrow> s_listeners s' ! k = s_listeners s ! k)"
proof -
  let ?n = "unat (s_listensize s)"
  have inv: "length (s_listeners s) = ?n" "?n \<le> 21" using assms(1) by (simp_all add: listeners_inv_def)
  obtain i where i: "free_slot (s_listeners s) 0 ?n = Inr i" "i \<le> ?n" "i < ?n \<longrightarrow> s_listeners s ! i = None"
    "\<forall>k < i. s_listeners s ! k \<noteq> None"
    using free_slot_spec[of 0 ?n "s_listeners s"] inv(1) by auto
  have few: "\<not> (i = ?n \<and> s_listensize s > MAX_LISTENERS)"
    using assms(4) i(4) inv(1) by (auto simp: in_set_conv_nth not_less)
  define s1 where "s1 = (if i = ?n then s\<lparr>s_listeners := take i (s_listeners s) @ replicate (unat LISTENER_EXTEND_SIZE) None,
                       s_listensize := s_listensize s + LISTENER_EXTEND_SIZE\<rparr> else s)"
  have s1: "listeners_inv s1" "i < length (s_listeners s1)" "\<forall>k < ?n. s_listeners s1 ! k = s_listeners s ! k"
    using listeners_inv_grow[OF assms(1)] few assms(1) i(2) inv(1)
    by (auto simp: s1_def LISTENER_EXTEND_SIZE_def not_less nth_append)
  obtain m where m: "max_socks socks 0 (unat nsocks) (s_maxfd s1) = Inr m"
    using max_socks_total[of 0 "unat nsocks" socks] assms(2,3) by auto
  define l where "l = \<lparr>l_socks = take (unat nsocks) socks @ replicate (DROPBEAR_MAX_SOCKS - unat nsocks) 0,
    l_nsocks = nsocks, l_index = of_nat i, l_acceptor = acceptor, l_cleanup = cleanup, l_type = type, l_typedata = typedata\<rparr>"
  have "unat (of_nat i :: u32) = i" using i(2) inv(2) by (intro unat_of_nat_u32) simp
  then have lo: "listener_ok i l" using assms(2,3) by (simp add: listener_ok_def l_def DROPBEAR_MAX_SOCKS_def)
  have "new_listener socks nsocks type typedata acceptor cleanup s =
      Inr (Some i, s1\<lparr>s_maxfd := m, s_listeners := (s_listeners s1)[i := Some l]\<rparr>)"
    using assms(3) unfolding new_listener_def i(1) rbind_simps if_not_P[OF few] s1_def[symmetric] l_def Let_def m
    by simp
  moreover have "listeners_inv (s1\<lparr>s_maxfd := m, s_listeners := (s_listeners s1)[i := Some l]\<rparr>)"
    using listeners_inv_update[OF s1(1), of "Some l" i] lo by (simp add: listeners_inv_def)
  ultimately show ?thesis using s1(2,3) inv(1) by (intro exI[of _ i] exI[of _ l]) (auto simp: l_def)
qed

lemma close_socks_ok:
  "j + n \<le> length socks \<Longrightarrow> close_socks socks j n s = Inr (s\<lparr>s_closed := s_closed s @ take n (drop j socks)\<rparr>)"
proof (induction socks j n s rule: close_socks.induct)
  case (2 socks j n s)
  then have "drop j socks = socks ! j # drop (Suc j) socks" by (simp add: Cons_nth_drop_Suc)
  then show ?case using 2 by (simp add: nth_or_ub_def os_close_def)
qed simp

lemma get_loop_again:
  "get_listener_loop type typedata match l (Suc n) = rbind (deref l) (\<lambda>listener.
     if l_type listener = type then match typedata (l_typedata listener) else Inr False)"
proof (induction n)
  case (Suc n)
  show ?case by (subst get_listener_loop.simps(2), subst Suc, cases l) (auto simp: rbind_def split: sum.splits)
qed (cases l, auto simp: rbind_def split: sum.splits)

text \<open>
  C18: what the look-up of a listener finds, and what happens to one listener too many.
  \<open>get_listener\<close> considers only the first slot, whatever the others hold, and follows a null pointer when
  that slot is empty, as it is before the first forwarding (a peer asks for a look-up with
  \<open>cancel-tcpip-forward\<close>). When all 21 slots are taken, \<open>new_listener\<close> reads \<open>socks\<close> at the number of the
  slot instead of closing the sockets.
\<close>
theorem listener_lookup_and_limit:
  assumes "listeners_inv s"
  shows "get_listener type typedata match s = (case s_listeners s ! 0 of
      None \<Rightarrow> Inl NullDeref
    | Some l \<Rightarrow> if l_type l = type
        then rbind (match typedata (l_typedata l)) (\<lambda>m. Inr (if m then Some 0 else None)) else Inr None) \<and>
    (None \<notin> set (s_listeners s) \<longrightarrow> s_listensize s > MAX_LISTENERS \<longrightarrow> length socks = DROPBEAR_MAX_SOCKS \<longrightarrow> 0 < nsocks \<longrightarrow>
      new_listener socks nsocks type typedata acceptor cleanup s = Inl OutOfBounds)"
proof (intro conjI impI)
  have n: "length (s_listeners s) = unat (s_listensize s)" "0 < unat (s_listensize s)" using assms by (simp_all add: listeners_inv_def)
  then obtain k where k: "unat (s_listensize s) = Suc k" by (cases "unat (s_listensize s)") auto
  show "get_listener type typedata match s = (case s_listeners s ! 0 of
      None \<Rightarrow> Inl NullDeref
    | Some l \<Rightarrow> if l_type l = type
        then rbind (match typedata (l_typedata l)) (\<lambda>m. Inr (if m then Some 0 else None)) else Inr None)"
    using n get_loop_again[of type typedata match _ k]
    by (auto simp: get_listener_def nth_or_ub_def k simp del: get_listener_loop.simps(2) split: option.splits)
next
  assume a: "None \<notin> set (s_listeners s)" "s_listensize s > MAX_LISTENERS" "length socks = DROPBEAR_MAX_SOCKS" "0 < nsocks"
  let ?n = "unat (s_listensize s)"
  have n: "length (s_listeners s) = ?n" using assms by (simp add: listeners_inv_def)
  obtain i where "free_slot (s_listeners s) 0 ?n = Inr i" "i \<le> ?n" "i < ?n \<longrightarrow> s_listeners s ! i = None"
    using free_slot_spec[of 0 ?n "s_listeners s"] n by auto
  moreover from this a(1) n have "i = ?n" by (metis le_neq_implies_less nth_mem)
  moreover have "20 < ?n" using a(2) by (simp add: MAX_LISTENERS_def word_less_nat_alt)
  moreover obtain m where "unat nsocks = Suc m" using a(4) by (cases "unat nsocks") (auto simp: word_less_nat_alt)
  ultimately show "new_listener socks nsocks type typedata acceptor cleanup s = Inl OutOfBounds"
    using a(2,3) by (simp add: new_listener_def nth_or_ub_def DROPBEAR_MAX_SOCKS_def)
qed

definition sample_listens :: "Listener option list \<Rightarrow> listensession" where
  "sample_listens ls = sshsession.extend (sample_session (mkbuf [] 0 0 0))
     \<lparr>s_listeners = ls, s_listensize = of_nat (length ls), s_maxfd = 0, s_closed = [], s_shutdown = []\<rparr>"

theorem listener_lookup_and_limit_witness:
  "get_listener 5 0 (\<lambda>a b. Inr (a = b)) (sample_listens [None]) = Inl NullDeref"
  by (subst conjunct1[OF listener_lookup_and_limit])
     (simp_all add: sample_listens_def listeners_inv_def sshsession.defs)

end
