(* ===== verification/Channel.thy ===== *)
theory Channel
  imports Listener CircBuffer Sender
begin

text \<open>
  The channels of a connection, \<^verbatim>\<open>src/reconos/dropbear/common-channel.c\<close>. \<open>struct Channel\<close> is the record
  \<open>Channel\<close>, \<open>ses.channels\<close> a list of optional channels, and a pointer to a channel is its slot: following it
  after the channel was freed is \<open>UseAfterFree\<close>. \<open>struct ChanType\<close> is split: its data are the record \<open>ChanType\<close>,
  its function pointers the record \<open>ChanOps\<close>, which the operations find with the argument \<open>ops\<close>. \<open>W\<close> is
  \<open>opts.recv_window\<close>. What \<open>read\<close>, \<open>write\<close> and \<open>getsockopt\<close> return is an argument; the bytes written to
  descriptors are appended to \<open>s_output\<close>.
\<close>

subsection \<open>Data\<close>

definition FD_UNINIT :: int where "FD_UNINIT = -2"
definition FD_CLOSED :: int where "FD_CLOSED = -1"
definition SHUT_RD :: int where "SHUT_RD = 0"
definition SHUT_WR :: int where "SHUT_WR = 1"
definition SHUT_RDWR :: int where "SHUT_RDWR = 2"
definition MAX_CHANNELS :: u32 where "MAX_CHANNELS = 100"
definition CHAN_EXTEND_SIZE :: u32 where "CHAN_EXTEND_SIZE = 3"
definition TRANS_MAX_WINDOW :: u32 where "TRANS_MAX_WINDOW = 500000000"
definition TRANS_MAX_WIN_INCR :: u32 where "TRANS_MAX_WIN_INCR = 500000000"
definition SSH_EXTENDED_DATA_STDERR :: u32 where "SSH_EXTENDED_DATA_STDERR = 1"
definition SSH_OPEN_ADMINISTRATIVELY_PROHIBITED :: int where "SSH_OPEN_ADMINISTRATIVELY_PROHIBITED = 1"
definition SSH_OPEN_CONNECT_FAILED :: int where "SSH_OPEN_CONNECT_FAILED = 2"
definition SSH_OPEN_UNKNOWN_CHANNEL_TYPE :: int where "SSH_OPEN_UNKNOWN_CHANNEL_TYPE = 3"
definition SSH_OPEN_IN_PROGRESS :: int where "SSH_OPEN_IN_PROGRESS = 99"

record ChanType =
  ct_sepfds :: bool
  ct_name :: string

record Channel =
  c_index :: u32
  c_remotechan :: u32
  c_recvwindow :: u32
  c_transwindow :: u32
  c_recvdonelen :: u32
  c_recvmaxpacket :: u32
  c_transmaxpacket :: u32
  c_typedata :: nat
  c_writefd :: int
  c_readfd :: int
  c_errfd :: int
  c_writebuf :: "circbuffer option"
  c_extrabuf :: "circbuffer option"
  c_sent_close :: bool
  c_recv_close :: bool
  c_recv_eof :: bool
  c_sent_eof :: bool
  c_close_handler_done :: bool
  c_initconn :: bool
  c_await_open :: bool
  c_flushing :: bool
  c_read_mangler :: bool
  c_type :: ChanType

record chansession = listensession +
  s_channels :: "Channel option list"
  s_chansize :: u32
  s_chancount :: u32
  s_chantypes :: "ChanType list"
  s_output :: "(int \<times> bytes) list"

text \<open>The handlers of a channel type; \<open>None\<close> is a null pointer. The last is \<open>channel->read_mangler\<close>.\<close>

record 's ChanOps =
  co_inithandler :: "(nat \<Rightarrow> 's \<Rightarrow> (int \<times> 's) result) option"
  co_check_close :: "(nat \<Rightarrow> 's \<Rightarrow> bool result) option"
  co_reqhandler :: "(nat \<Rightarrow> 's \<Rightarrow> 's result) option"
  co_closehandler :: "(nat \<Rightarrow> 's \<Rightarrow> 's result) option"
  co_read_mangler :: "nat \<Rightarrow> bytes \<Rightarrow> 's \<Rightarrow> (bytes \<times> 's) result"

definition errfd_is_read :: "Channel \<Rightarrow> bool" where
  "errfd_is_read c \<longleftrightarrow> c_extrabuf c = None"

text \<open>Following the pointer to a channel, and an assignment to its fields.\<close>

definition chan_at :: "nat \<Rightarrow> 'a chansession_scheme \<Rightarrow> Channel result" where
  "chan_at i s =
     rbind (nth_or_ub (s_channels s) i) (\<lambda>c. case c of None \<Rightarrow> Inl UseAfterFree | Some c \<Rightarrow> Inr c)"

definition upd_chan :: "nat \<Rightarrow> (Channel \<Rightarrow> Channel) \<Rightarrow> 'a chansession_scheme \<Rightarrow> 'a chansession_scheme result" where
  "upd_chan i f s = rbind (chan_at i s) (\<lambda>c. Inr (s\<lparr>s_channels := (s_channels s)[i := Some (f c)]\<rparr>))"

subsection \<open>Set up\<close>

definition chaninitialise :: "ChanType list \<Rightarrow> 'a chansession_scheme \<Rightarrow> 'a chansession_scheme" where
  "chaninitialise chantypes s =
     listeners_initialise (s\<lparr>s_channels := [None], s_chansize := 1, s_chancount := 0, s_chantypes := chantypes\<rparr>)"

definition chan_initwritebuf :: "u32 \<Rightarrow> nat \<Rightarrow> 'a chansession_scheme \<Rightarrow> 'a chansession_scheme result" where
  "chan_initwritebuf W i s =
     rbind (chan_at i s) (\<lambda>c.
     rbind (deref (c_writebuf c)) (\<lambda>wb.
     rbind (require (cb_size wb = 0 \<and> c_recvwindow c = 0) (Assert ''channel->writebuf->size == 0'')) (\<lambda>_.
     rbind (cbuf_free wb) (\<lambda>_.
     rbind (cbuf_new W) (\<lambda>wb.
     upd_chan i (\<lambda>c. c\<lparr>c_writebuf := Some wb, c_recvwindow := W\<rparr>) s)))))"

definition newchannel ::
  "u32 \<Rightarrow> ChanType \<Rightarrow> u32 \<Rightarrow> u32 \<Rightarrow> 'a chansession_scheme \<Rightarrow> (nat option \<times> 'a chansession_scheme) result" where
  "newchannel remotechan type transwindow transmaxpacket s =
     rbind (free_slot (s_channels s) 0 (unat (s_chansize s))) (\<lambda>i.
     if i = unat (s_chansize s) \<and> s_chansize s \<ge> MAX_CHANNELS then Inr (None, s)
     else
       let s = (if i = unat (s_chansize s)
                then s\<lparr>s_channels := take i (s_channels s) @ replicate (unat CHAN_EXTEND_SIZE) None,
                       s_chansize := s_chansize s + CHAN_EXTEND_SIZE\<rparr>
                else s)
       in rbind (cbuf_new 0) (\<lambda>wb.
          let c = \<lparr>c_index = of_nat i, c_remotechan = remotechan, c_recvwindow = 0, c_transwindow = transwindow,
                   c_recvdonelen = 0, c_recvmaxpacket = RECV_MAX_PAYLOAD_LEN, c_transmaxpacket = transmaxpacket,
                   c_typedata = 0, c_writefd = FD_UNINIT, c_readfd = FD_UNINIT, c_errfd = FD_CLOSED,
                   c_writebuf = Some wb, c_extrabuf = None, c_sent_close = False, c_recv_close = False,
                   c_recv_eof = False, c_sent_eof = False, c_close_handler_done = False, c_initconn = False,
                   c_await_open = False, c_flushing = False, c_read_mangler = False, c_type = type\<rparr>
          in Inr (Some i, s\<lparr>s_channels := (s_channels s)[i := Some c], s_chancount := s_chancount s + 1\<rparr>)))"

text \<open>The result is the channel; the message of the exit depends on \<open>kind\<close>.\<close>

definition getchannel_msg :: "string option \<Rightarrow> 'a chansession_scheme \<Rightarrow> (nat \<times> 'a chansession_scheme) result" where
  "getchannel_msg kind s =
     rbind (deref (s_payload s)) (\<lambda>b.
     rbind (buf_getint b) (\<lambda>(chan, b).
     let s = s\<lparr>s_payload := Some b\<rparr>;
         unknown = Inl (Exit (case kind of Some k \<Rightarrow> k @ '' for unknown channel'' | None \<Rightarrow> ''Unknown channel''))
     in if chan \<ge> s_chansize s then unknown
        else rbind (nth_or_ub (s_channels s) (unat chan)) (\<lambda>c. case c of None \<Rightarrow> unknown | Some _ \<Rightarrow> Inr (unat chan, s))))"

definition getchannel :: "'a chansession_scheme \<Rightarrow> (nat \<times> 'a chansession_scheme) result" where
  "getchannel s = getchannel_msg None s"

subsection \<open>Messages\<close>

definition send_chan_byte ::
  "u8 \<Rightarrow> crypto \<Rightarrow> env \<Rightarrow> nat \<Rightarrow> nat \<Rightarrow> 'a chansession_scheme \<Rightarrow> 'a chansession_scheme result" where
  "send_chan_byte type cr env k i s =
     rbind (chan_at i s) (\<lambda>c.
     send_payload cr env k (\<lambda>b. rbind (buf_putbyte b type) (\<lambda>b. buf_putint b (c_remotechan c))) s)"

definition send_msg_channel_failure ::
  "crypto \<Rightarrow> env \<Rightarrow> nat \<Rightarrow> nat \<Rightarrow> 'a chansession_scheme \<Rightarrow> 'a chansession_scheme result" where
  "send_msg_channel_failure = send_chan_byte SSH_MSG_CHANNEL_FAILURE"

definition send_msg_channel_success ::
  "crypto \<Rightarrow> env \<Rightarrow> nat \<Rightarrow> nat \<Rightarrow> 'a chansession_scheme \<Rightarrow> 'a chansession_scheme result" where
  "send_msg_channel_success = send_chan_byte SSH_MSG_CHANNEL_SUCCESS"

definition send_msg_channel_eof ::
  "crypto \<Rightarrow> env \<Rightarrow> nat \<Rightarrow> nat \<Rightarrow> 'a chansession_scheme \<Rightarrow> 'a chansession_scheme result" where
  "send_msg_channel_eof cr env k i s =
     rbind (send_chan_byte SSH_MSG_CHANNEL_EOF cr env k i s) (upd_chan i (\<lambda>c. c\<lparr>c_sent_eof := True\<rparr>))"

definition send_msg_channel_window_adjust ::
  "crypto \<Rightarrow> env \<Rightarrow> nat \<Rightarrow> nat \<Rightarrow> u32 \<Rightarrow> 'a chansession_scheme \<Rightarrow> 'a chansession_scheme result" where
  "send_msg_channel_window_adjust cr env k i incr s =
     rbind (chan_at i s) (\<lambda>c.
     send_payload cr env k (\<lambda>b.
       rbind (buf_putbyte b SSH_MSG_CHANNEL_WINDOW_ADJUST) (\<lambda>b.
       rbind (buf_putint b (c_remotechan c)) (\<lambda>b. buf_putint b incr))) s)"

definition send_msg_channel_open_failure ::
  "crypto \<Rightarrow> env \<Rightarrow> nat \<Rightarrow> u32 \<Rightarrow> int \<Rightarrow> bytes \<Rightarrow> bytes \<Rightarrow> 'a sshsession_scheme \<Rightarrow> 'a sshsession_scheme result" where
  "send_msg_channel_open_failure cr env k remotechan reason text lang s =
     send_payload cr env k (\<lambda>b.
       rbind (buf_putbyte b SSH_MSG_CHANNEL_OPEN_FAILURE) (\<lambda>b.
       rbind (buf_putint b remotechan) (\<lambda>b.
       rbind (buf_putint b (of_int reason)) (\<lambda>b.
       rbind (buf_putstring b text (of_nat (strlen text))) (\<lambda>b.
       buf_putstring b lang (of_nat (strlen lang))))))) s"

definition send_msg_channel_open_confirmation ::
  "crypto \<Rightarrow> env \<Rightarrow> nat \<Rightarrow> nat \<Rightarrow> u32 \<Rightarrow> u32 \<Rightarrow> 'a chansession_scheme \<Rightarrow> 'a chansession_scheme result" where
  "send_msg_channel_open_confirmation cr env k i recvwindow recvmaxpacket s =
     rbind (chan_at i s) (\<lambda>c.
     send_payload cr env k (\<lambda>b.
       rbind (buf_putbyte b SSH_MSG_CHANNEL_OPEN_CONFIRMATION) (\<lambda>b.
       rbind (buf_putint b (c_remotechan c)) (\<lambda>b.
       rbind (buf_putint b (c_index c)) (\<lambda>b.
       rbind (buf_putint b recvwindow) (\<lambda>b.
       buf_putint b recvmaxpacket))))) s)"

subsection \<open>Closing\<close>

definition write_pending :: "Channel \<Rightarrow> bool result" where
  "write_pending c =
     rbind (if c_writefd c \<ge> 0 then rbind (deref (c_writebuf c)) (\<lambda>wb. Inr (cbuf_getused wb > 0)) else Inr False) (\<lambda>p.
     Inr (p \<or> (case c_extrabuf c of None \<Rightarrow> False | Some eb \<Rightarrow> c_errfd c \<ge> 0 \<and> cbuf_getused eb > 0)))"

text \<open>The descriptors of a channel that are given up when \<open>fd\<close> is closed for output, input or both.\<close>

definition drop_fd :: "bool \<Rightarrow> bool \<Rightarrow> int \<Rightarrow> Channel \<Rightarrow> Channel" where
  "drop_fd closeout closein fd c =
     (let c = (if closeout \<and> fd = c_readfd c then c\<lparr>c_readfd := FD_CLOSED\<rparr> else c);
          c = (if closeout \<and> errfd_is_read c \<and> fd = c_errfd c then c\<lparr>c_errfd := FD_CLOSED\<rparr> else c);
          c = (if closein \<and> fd = c_writefd c then c\<lparr>c_writefd := FD_CLOSED\<rparr> else c)
      in if closein \<and> \<not> errfd_is_read c \<and> fd = c_errfd c then c\<lparr>c_errfd := FD_CLOSED\<rparr> else c)"

definition close_chan_fd :: "nat \<Rightarrow> int \<Rightarrow> int \<Rightarrow> 'a chansession_scheme \<Rightarrow> 'a chansession_scheme result" where
  "close_chan_fd i fd how s =
     rbind (chan_at i s) (\<lambda>c.
     let sep = ct_sepfds (c_type c);
         s = (if sep then s\<lparr>s_shutdown := s_shutdown s @ [(fd, how)]\<rparr> else os_close fd s);
         c = drop_fd (\<not> sep \<or> how = 0) (\<not> sep \<or> how \<noteq> 0) fd c;
         s = s\<lparr>s_channels := (s_channels s)[i := Some c]\<rparr>
     in Inr (if sep \<and> c_readfd c = FD_CLOSED \<and> c_writefd c = FD_CLOSED \<and> c_errfd c = FD_CLOSED
             then os_close fd s else s))"

text \<open>The handler for closing runs once, from \<open>send_msg_channel_close\<close> or from \<open>remove_channel\<close>.\<close>

definition run_closehandler ::
  "(ChanType \<Rightarrow> 'a chansession_scheme ChanOps) \<Rightarrow> nat \<Rightarrow> 'a chansession_scheme \<Rightarrow> 'a chansession_scheme result" where
  "run_closehandler ops i s =
     rbind (chan_at i s) (\<lambda>c.
     case co_closehandler (ops (c_type c)) of
       None \<Rightarrow> Inr s
     | Some f \<Rightarrow>
         if c_close_handler_done c then Inr s
         else rbind (f i s) (upd_chan i (\<lambda>c. c\<lparr>c_close_handler_done := True\<rparr>)))"

definition send_msg_channel_close ::
  "(ChanType \<Rightarrow> 'a chansession_scheme ChanOps) \<Rightarrow> crypto \<Rightarrow> env \<Rightarrow> nat \<Rightarrow> nat \<Rightarrow>
     'a chansession_scheme \<Rightarrow> 'a chansession_scheme result" where
  "send_msg_channel_close ops cr env k i s =
     rbind (run_closehandler ops i s) (\<lambda>s.
     rbind (send_chan_byte SSH_MSG_CHANNEL_CLOSE cr env k i s) (\<lambda>s.
     rbind (upd_chan i (\<lambda>c. c\<lparr>c_sent_eof := True, c_sent_close := True\<rparr>) s) (\<lambda>s.
     rbind (chan_at i s) (\<lambda>c.
     rbind (close_chan_fd i (c_readfd c) SHUT_RD s) (\<lambda>s.
     rbind (chan_at i s) (\<lambda>c.
     rbind (close_chan_fd i (c_errfd c) SHUT_RDWR s) (\<lambda>s.
     rbind (chan_at i s) (\<lambda>c.
     close_chan_fd i (c_writefd c) SHUT_WR s))))))))"

definition remove_channel ::
  "(ChanType \<Rightarrow> 'a chansession_scheme ChanOps) \<Rightarrow> nat \<Rightarrow> 'a chansession_scheme \<Rightarrow> 'a chansession_scheme result" where
  "remove_channel ops i s =
     rbind (chan_at i s) (\<lambda>c.
     rbind (deref (c_writebuf c)) (\<lambda>wb.
     rbind (cbuf_free wb) (\<lambda>_.
     rbind (case c_extrabuf c of None \<Rightarrow> Inr [] | Some eb \<Rightarrow> cbuf_free eb) (\<lambda>_.
     rbind (upd_chan i (\<lambda>c. c\<lparr>c_writebuf := None, c_extrabuf := None\<rparr>) s) (\<lambda>s.
     rbind (run_closehandler ops i (os_close (c_errfd c) (os_close (c_readfd c) (os_close (c_writefd c) s)))) (\<lambda>s.
     rbind (chan_at i s) (\<lambda>c.
     rbind (nth_or_ub (s_channels s) (unat (c_index c))) (\<lambda>_.
     Inr (s\<lparr>s_channels := (s_channels s)[unat (c_index c) := None], s_chancount := s_chancount s - 1\<rparr>)))))))))"

fun cleanup_from ::
  "(ChanType \<Rightarrow> 'a chansession_scheme ChanOps) \<Rightarrow> nat \<Rightarrow> nat \<Rightarrow> 'a chansession_scheme \<Rightarrow> 'a chansession_scheme result" where
  "cleanup_from ops i 0 s = Inr s"
| "cleanup_from ops i (Suc n) s =
     rbind (nth_or_ub (s_channels s) i) (\<lambda>c.
     rbind (case c of None \<Rightarrow> Inr s | Some _ \<Rightarrow> remove_channel ops i s) (cleanup_from ops (Suc i) n))"

definition chancleanup ::
  "(ChanType \<Rightarrow> 'a chansession_scheme ChanOps) \<Rightarrow> 'a chansession_scheme \<Rightarrow> 'a chansession_scheme result" where
  "chancleanup ops s = rbind (cleanup_from ops 0 (unat (s_chansize s)) s) (\<lambda>s. Inr (s\<lparr>s_channels := []\<rparr>))"

subsection \<open>Data\<close>

definition put_data_header :: "bool \<Rightarrow> u32 \<Rightarrow> buffer \<Rightarrow> buffer result" where
  "put_data_header isextended remotechan b =
     rbind (buf_putbyte b (if isextended then SSH_MSG_CHANNEL_EXTENDED_DATA else SSH_MSG_CHANNEL_DATA)) (\<lambda>b.
     rbind (buf_putint b remotechan) (\<lambda>b.
     if isextended then buf_putint b SSH_EXTENDED_DATA_STDERR else Inr b))"

text \<open>
  The last part of \<open>send_msg_channel_data\<close>, when \<open>read\<close> has returned the bytes \<open>bs\<close>, not none;
  \<open>size_pos\<close> is where their number goes.
\<close>

definition finish_channel_data ::
  "crypto \<Rightarrow> env \<Rightarrow> nat \<Rightarrow> nat \<Rightarrow> int \<Rightarrow> u32 \<Rightarrow> u32 \<Rightarrow> bytes \<Rightarrow> 'a chansession_scheme \<Rightarrow> 'a chansession_scheme result" where
  "finish_channel_data cr env k i fd maxlen size_pos bs s =
     rbind (on_writepayload (\<lambda>b.
       rbind (buf_getwriteptr b (of_nat (length bs))) (\<lambda>p.
       rbind (mem_write (b_data b) p bs) (\<lambda>d.
       rbind (buf_incrwritepos (b\<lparr>b_data := d\<rparr>) (of_nat (length bs))) (\<lambda>b.
       rbind (buf_setpos b size_pos) (\<lambda>b.
       buf_putint b (of_nat (length bs))))))) s) (\<lambda>s.
     rbind (upd_chan i (\<lambda>c. c\<lparr>c_transwindow := c_transwindow c - of_nat (length bs)\<rparr>) s) (\<lambda>s.
     rbind (encrypt_packet cr (env_rnd env k) (env_mac env) s) (\<lambda>s.
     rbind (chan_at i s) (\<lambda>c.
     if c_flushing c \<and> length bs < unat maxlen then close_chan_fd i fd SHUT_RD s else Inr s))))"

definition send_msg_channel_data ::
  "(ChanType \<Rightarrow> 'a chansession_scheme ChanOps) \<Rightarrow> crypto \<Rightarrow> env \<Rightarrow> nat \<Rightarrow> sock_read \<Rightarrow> nat \<Rightarrow> bool \<Rightarrow>
     'a chansession_scheme \<Rightarrow> 'a chansession_scheme result" where
  "send_msg_channel_data ops cr env k rd i isextended s =
     rbind (chan_at i s) (\<lambda>c.
     rbind (require (\<not> c_sent_close c) (Assert ''!channel->sent_close'')) (\<lambda>_.
     let fd = (if isextended then c_errfd c else c_readfd c)
     in rbind (require (fd \<ge> 0) (Assert ''fd >= 0'')) (\<lambda>_.
        let maxlen = min (min (c_transwindow c) (c_transmaxpacket c))
              (b_size (s_writepayload s) - 1 - 4 - 4 - (if isextended then 4 else 0))
        in if maxlen = 0 then Inr s
        else
          rbind (on_writepayload (put_data_header isextended (c_remotechan c)) s) (\<lambda>s.
          let size_pos = b_pos (s_writepayload s)
          in rbind (on_writepayload (\<lambda>b. buf_putint b 0) s) (\<lambda>s.
             rbind (buf_getwriteptr (s_writepayload s) maxlen) (\<lambda>p.
             case os_read rd maxlen of
               Inl e \<Rightarrow> rbind (if e \<noteq> EINTR then close_chan_fd i fd SHUT_RD s else Inr s) clear_writepayload
             | Inr bs \<Rightarrow>
                 if bs = [] then rbind (close_chan_fd i fd SHUT_RD s) clear_writepayload
                 else
                   rbind (mem_write (b_data (s_writepayload s)) p bs) (\<lambda>d.
                   let s = s\<lparr>s_writepayload := (s_writepayload s)\<lparr>b_data := d\<rparr>\<rparr>
                   in if c_read_mangler c
                      then rbind (co_read_mangler (ops (c_type c)) i bs s) (\<lambda>(bs, s).
                           if bs = [] then clear_writepayload s
                           else finish_channel_data cr env k i fd maxlen size_pos bs s)
                      else finish_channel_data cr env k i fd maxlen size_pos bs s)))))))"

text \<open>
  The loop of \<open>common_recv_msg_channel_data\<close>. A round that copies nothing changes nothing, so it
  would be repeated forever.
\<close>

function recv_copy :: "u32 \<Rightarrow> buffer \<Rightarrow> circbuffer \<Rightarrow> (buffer \<times> circbuffer) result" where
  "recv_copy len payload cbuf =
     (if len = 0 then Inr (payload, cbuf)
      else
        rbind (cbuf_writelen cbuf) (\<lambda>n.
        let buflen = min n len
        in rbind (buf_getptr payload buflen) (\<lambda>p.
           rbind (mem_read (b_data payload) p (unat buflen)) (\<lambda>bs.
           rbind (cbuf_push bs cbuf) (\<lambda>cbuf.
           rbind (buf_incrpos payload buflen) (\<lambda>payload.
           if buflen = 0 then Inl Hang else recv_copy (len - buflen) payload cbuf))))))"
  by pat_completeness auto
termination
proof (relation "measure (\<lambda>(len, _). unat len)")
  fix len n buflen :: u32
  assume "len \<noteq> 0" "buflen = min n len" "buflen \<noteq> 0"
  then have "0 < unat buflen" "unat buflen \<le> unat len" by (simp_all add: word_le_nat_alt[symmetric] unat_gt_0)
  then show "((len - buflen, a), len, b) \<in> measure (\<lambda>(len, _). unat len)" for a b
    by (simp add: unat_sub_no_underflow)
qed simp

declare recv_copy.simps [simp del]

definition common_recv_msg_channel_data ::
  "u32 \<Rightarrow> nat \<Rightarrow> int \<Rightarrow> bool \<Rightarrow> 'a chansession_scheme \<Rightarrow> 'a chansession_scheme result" where
  "common_recv_msg_channel_data W i fd ext s =
     rbind (chan_at i s) (\<lambda>c.
     if c_recv_eof c then Inl (Exit ''Received data after eof'')
     else case (if ext then c_extrabuf c else c_writebuf c) of
       None \<Rightarrow> Inr s
     | Some cbuf \<Rightarrow>
         if fd < 0 then Inr s
         else
           rbind (deref (s_payload s)) (\<lambda>b.
           rbind (buf_getint b) (\<lambda>(datalen, b).
           if datalen > cbuf_getavail cbuf then Inl (Exit ''Oversized packet'')
           else
             rbind (recv_copy datalen b cbuf) (\<lambda>(b, cbuf).
             rbind (upd_chan i (if ext then (\<lambda>c. c\<lparr>c_extrabuf := Some cbuf\<rparr>) else (\<lambda>c. c\<lparr>c_writebuf := Some cbuf\<rparr>))
                      (s\<lparr>s_payload := Some b\<rparr>)) (\<lambda>s.
             rbind (require (c_recvwindow c \<ge> datalen) (Assert ''channel->recvwindow >= datalen'')) (\<lambda>_.
             rbind (require (c_recvwindow c - datalen \<le> W) (Assert ''channel->recvwindow <= opts.recv_window'')) (\<lambda>_.
             upd_chan i (\<lambda>c. c\<lparr>c_recvwindow := c_recvwindow c - datalen\<rparr>) s)))))))"

definition recv_msg_channel_data :: "u32 \<Rightarrow> 'a chansession_scheme \<Rightarrow> 'a chansession_scheme result" where
  "recv_msg_channel_data W s =
     rbind (getchannel s) (\<lambda>(i, s).
     rbind (chan_at i s) (\<lambda>c.
     common_recv_msg_channel_data W i (c_writefd c) False s))"

definition recv_msg_channel_window_adjust :: "'a chansession_scheme \<Rightarrow> 'a chansession_scheme result" where
  "recv_msg_channel_window_adjust s =
     rbind (getchannel s) (\<lambda>(i, s).
     rbind (deref (s_payload s)) (\<lambda>b.
     rbind (buf_getint b) (\<lambda>(incr, b).
     upd_chan i (\<lambda>c. c\<lparr>c_transwindow := min (c_transwindow c + min incr TRANS_MAX_WIN_INCR) TRANS_MAX_WINDOW\<rparr>)
       (s\<lparr>s_payload := Some b\<rparr>))))"

definition chan_buf :: "bool \<Rightarrow> Channel \<Rightarrow> circbuffer option" where
  "chan_buf ext c = (if ext then c_extrabuf c else c_writebuf c)"

definition writechannel ::
  "crypto \<Rightarrow> env \<Rightarrow> nat \<Rightarrow> u32 \<Rightarrow> sock_write \<Rightarrow> nat \<Rightarrow> int \<Rightarrow> bool \<Rightarrow> 'a chansession_scheme \<Rightarrow> 'a chansession_scheme result" where
  "writechannel cr env k W wr i fd ext s =
     rbind (chan_at i s) (\<lambda>c.
     rbind (deref (chan_buf ext c)) (\<lambda>cbuf.
     rbind (cbuf_readlen cbuf) (\<lambda>maxlen.
     rbind (cbuf_peek maxlen cbuf) (\<lambda>bs.
     case wr of
       WriteErr e \<Rightarrow> if e \<noteq> EINTR then close_chan_fd i fd SHUT_WR s else Inr s
     | WroteN n \<Rightarrow>
         let len = min n (length bs)
         in if len = 0 then Inr s
         else
           rbind (cbuf_incrread cbuf (of_nat len)) (\<lambda>cbuf.
           rbind (upd_chan i (\<lambda>c. (if ext then c\<lparr>c_extrabuf := Some cbuf\<rparr> else c\<lparr>c_writebuf := Some cbuf\<rparr>)
                                  \<lparr>c_recvdonelen := c_recvdonelen c + of_nat len\<rparr>)
                    (s\<lparr>s_output := s_output s @ [(fd, take len bs)]\<rparr>)) (\<lambda>s.
           rbind (chan_at i s) (\<lambda>c.
           rbind (if c_recvdonelen c \<ge> W div 3
                  then rbind (send_msg_channel_window_adjust cr env k i (c_recvdonelen c) s)
                         (upd_chan i (\<lambda>c. c\<lparr>c_recvwindow := c_recvwindow c + c_recvdonelen c, c_recvdonelen := 0\<rparr>))
                  else Inr s) (\<lambda>s.
           rbind (chan_at i s) (\<lambda>c.
           rbind (require (c_recvwindow c \<le> W) (Assert ''channel->recvwindow <= opts.recv_window'')) (\<lambda>_.
           rbind (deref (c_writebuf c)) (\<lambda>wb.
           rbind (require (c_recvwindow c \<le> cbuf_getavail wb) (Assert ''channel->recvwindow <= cbuf_getavail(channel->writebuf)'')) (\<lambda>_.
           rbind (require (case c_extrabuf c of None \<Rightarrow> True | Some eb \<Rightarrow> c_recvwindow c \<le> cbuf_getavail eb)
                    (Assert ''channel->recvwindow <= cbuf_getavail(channel->extrabuf)'')) (\<lambda>_.
           Inr s)))))))))))))"

subsection \<open>Closing down a channel in stages\<close>

definition type_check_close ::
  "(ChanType \<Rightarrow> 'a chansession_scheme ChanOps) \<Rightarrow> nat \<Rightarrow> 'a chansession_scheme \<Rightarrow> bool result" where
  "type_check_close ops i s =
     rbind (chan_at i s) (\<lambda>c. case co_check_close (ops (c_type c)) of None \<Rightarrow> Inr False | Some f \<Rightarrow> f i s)"

definition flush_channel ::
  "(ChanType \<Rightarrow> 'a chansession_scheme ChanOps) \<Rightarrow> crypto \<Rightarrow> env \<Rightarrow> sock_read \<Rightarrow> sock_read \<Rightarrow> nat \<Rightarrow>
     'a chansession_scheme \<Rightarrow> 'a chansession_scheme result" where
  "flush_channel ops cr env rd rderr i s =
     rbind (chan_at i s) (\<lambda>c.
     if \<not> c_flushing c then Inr s
     else
       rbind (if c_readfd c \<ge> 0 \<and> c_transwindow c > 0 then send_msg_channel_data ops cr env 5 rd i False s else Inr s) (\<lambda>s.
       rbind (chan_at i s) (\<lambda>c.
       if errfd_is_read c \<and> c_errfd c \<ge> 0 \<and> c_transwindow c > 0
       then send_msg_channel_data ops cr env 6 rderr i True s else Inr s)))"

text \<open>
  The channel may be gone afterwards. \<open>rd\<close> and \<open>rderr\<close> are what \<open>read\<close> returns
  when the channel is flushed.
\<close>

definition check_close ::
  "(ChanType \<Rightarrow> 'a chansession_scheme ChanOps) \<Rightarrow> crypto \<Rightarrow> env \<Rightarrow> sock_read \<Rightarrow> sock_read \<Rightarrow> nat \<Rightarrow>
     'a chansession_scheme \<Rightarrow> 'a chansession_scheme result" where
  "check_close ops cr env rd rderr i s =
     rbind (chan_at i s) (\<lambda>c.
     rbind (if \<not> c_flushing c \<and> \<not> c_close_handler_done c
            then rbind (type_check_close ops i s) (\<lambda>b. if b then upd_chan i (\<lambda>c. c\<lparr>c_flushing := True\<rparr>) s else Inr s)
            else Inr s) (\<lambda>s.
     rbind (if co_check_close (ops (c_type c)) = None \<or> c_close_handler_done c then Inr True
            else type_check_close ops i s) (\<lambda>close_allowed.
     rbind (chan_at i s) (\<lambda>c.
     rbind (if c_recv_close c then write_pending c else Inr False) (\<lambda>pending.
     if c_recv_close c \<and> \<not> pending \<and> close_allowed
     then rbind (if \<not> c_sent_close c then send_msg_channel_close ops cr env 4 i s else Inr s) (remove_channel ops i)
     else
       rbind (if c_recv_eof c then write_pending c else Inr False) (\<lambda>pending.
       rbind (if (c_recv_eof c \<and> \<not> pending) \<or> (co_check_close (ops (c_type c)) \<noteq> None \<and> close_allowed)
              then close_chan_fd i (c_writefd c) SHUT_WR s else Inr s) (\<lambda>s.
       rbind (flush_channel ops cr env rd rderr i s) (\<lambda>s.
       rbind (chan_at i s) (\<lambda>c.
       rbind (if \<not> c_sent_eof c \<and> c_readfd c = FD_CLOSED \<and> (\<not> errfd_is_read c \<or> c_errfd c = FD_CLOSED)
              then send_msg_channel_eof cr env 7 i s else Inr s) (\<lambda>s.
       rbind (chan_at i s) (\<lambda>c.
       rbind (if c_readfd c = FD_CLOSED \<and> c_writefd c = FD_CLOSED \<and> (\<not> errfd_is_read c \<or> c_errfd c = FD_CLOSED) \<and>
                 \<not> c_sent_close c \<and> close_allowed
              then write_pending c else Inr True) (\<lambda>pending.
       if \<not> pending then send_msg_channel_close ops cr env 8 i s else Inr s))))))))))))"

definition check_in_progress ::
  "(ChanType \<Rightarrow> 'a chansession_scheme ChanOps) \<Rightarrow> crypto \<Rightarrow> env \<Rightarrow> u32 \<Rightarrow> bool \<Rightarrow> nat \<Rightarrow>
     'a chansession_scheme \<Rightarrow> 'a chansession_scheme result" where
  "check_in_progress ops cr env W failed i s =
     rbind (chan_at i s) (\<lambda>c.
     if failed
     then rbind (send_msg_channel_open_failure cr env 0 (c_remotechan c) SSH_OPEN_CONNECT_FAILED [] [] s) (\<lambda>s.
          rbind (chan_at i s) (\<lambda>c. remove_channel ops i (os_close (c_writefd c) s)))
     else
       rbind (chan_initwritebuf W i s) (\<lambda>s.
       rbind (chan_at i s) (\<lambda>c.
       rbind (send_msg_channel_open_confirmation cr env 0 i (c_recvwindow c) (c_recvmaxpacket c) s)
         (upd_chan i (\<lambda>c. c\<lparr>c_readfd := c_writefd c, c_initconn := False\<rparr>)))))"

subsection \<open>The select loop\<close>

text \<open>What the operating system answers while the channel in a slot is served.\<close>

record chan_io =
  io_read :: sock_read
  io_readerr :: sock_read
  io_write :: sock_write
  io_writeerr :: sock_write
  io_connect_failed :: bool
  io_flush :: sock_read
  io_flusherr :: sock_read
  io_env :: env

definition fd_ready :: "int \<Rightarrow> fd_set \<Rightarrow> bool result" where
  "fd_ready fd fds = (if fd \<ge> 0 then FD_ISSET fd fds else Inr False)"

definition serve_channel ::
  "(ChanType \<Rightarrow> 'a chansession_scheme ChanOps) \<Rightarrow> crypto \<Rightarrow> u32 \<Rightarrow> chan_io \<Rightarrow> fd_set \<Rightarrow> fd_set \<Rightarrow> nat \<Rightarrow>
     'a chansession_scheme \<Rightarrow> 'a chansession_scheme result" where
  "serve_channel ops cr W io readfds writefds i s =
     rbind (chan_at i s) (\<lambda>c.
     rbind (fd_ready (c_readfd c) readfds) (\<lambda>ready.
     rbind (if ready then send_msg_channel_data ops cr (io_env io) 0 (io_read io) i False s else Inr s) (\<lambda>s.
     rbind (chan_at i s) (\<lambda>c.
     rbind (if errfd_is_read c then fd_ready (c_errfd c) readfds else Inr False) (\<lambda>ready.
     rbind (if ready then send_msg_channel_data ops cr (io_env io) 1 (io_readerr io) i True s else Inr s) (\<lambda>s.
     rbind (chan_at i s) (\<lambda>c.
     rbind (fd_ready (c_writefd c) writefds) (\<lambda>ready.
     if ready \<and> c_initconn c then check_in_progress ops cr (io_env io) W (io_connect_failed io) i s
     else
       rbind (if ready then writechannel cr (io_env io) 2 W (io_write io) i (c_writefd c) False s else Inr s) (\<lambda>s.
       rbind (chan_at i s) (\<lambda>c.
       rbind (if \<not> errfd_is_read c then fd_ready (c_errfd c) writefds else Inr False) (\<lambda>ready.
       rbind (if ready then writechannel cr (io_env io) 3 W (io_writeerr io) i (c_errfd c) True s else Inr s) (\<lambda>s.
       check_close ops cr (io_env io) (io_flush io) (io_flusherr io) i s))))))))))))"

function serve_from ::
  "(ChanType \<Rightarrow> 'a chansession_scheme ChanOps) \<Rightarrow> crypto \<Rightarrow> u32 \<Rightarrow> (nat \<Rightarrow> chan_io) \<Rightarrow> fd_set \<Rightarrow> fd_set \<Rightarrow> u32 \<Rightarrow>
     'a chansession_scheme \<Rightarrow> 'a chansession_scheme result" where
  "serve_from ops cr W io readfds writefds i s =
     (if i < s_chansize s then
        rbind (nth_or_ub (s_channels s) (unat i)) (\<lambda>c.
        rbind (case c of None \<Rightarrow> Inr s | Some _ \<Rightarrow> serve_channel ops cr W (io (unat i)) readfds writefds (unat i) s)
          (serve_from ops cr W io readfds writefds (i + 1)))
      else Inr s)"
  by pat_completeness auto
termination by (relation "measure (\<lambda>(_, _, _, _, _, _, i, _). 4294967296 - unat i)") (simp_all add: unat_next(2))

declare serve_from.simps [simp del]

definition channelio ::
  "(ChanType \<Rightarrow> 'a chansession_scheme ChanOps) \<Rightarrow> (string \<Rightarrow> nat \<Rightarrow> int \<Rightarrow> 'a chansession_scheme \<Rightarrow> 'a chansession_scheme result) \<Rightarrow>
     crypto \<Rightarrow> u32 \<Rightarrow> (nat \<Rightarrow> chan_io) \<Rightarrow> fd_set \<Rightarrow> fd_set \<Rightarrow> 'a chansession_scheme \<Rightarrow> 'a chansession_scheme result" where
  "channelio ops accept cr W io readfds writefds s =
     rbind (serve_from ops cr W io readfds writefds 0 s) (handle_listeners accept readfds)"

definition set_chan_fds :: "Channel \<Rightarrow> fd_set \<times> fd_set \<Rightarrow> (fd_set \<times> fd_set) result" where
  "set_chan_fds c fds =
     (let (readfds, writefds) = fds in
      rbind (if c_transwindow c > 0 \<and> c_readfd c \<ge> 0 then FD_SET (c_readfd c) readfds else Inr readfds) (\<lambda>readfds.
      rbind (if c_transwindow c > 0 \<and> errfd_is_read c \<and> c_errfd c \<ge> 0 then FD_SET (c_errfd c) readfds else Inr readfds) (\<lambda>readfds.
      rbind (if c_initconn c then Inr True
             else if c_writefd c \<ge> 0 then rbind (deref (c_writebuf c)) (\<lambda>wb. Inr (cbuf_getused wb > 0)) else Inr False) (\<lambda>w.
      rbind (if w then FD_SET (c_writefd c) writefds else Inr writefds) (\<lambda>writefds.
      rbind (case c_extrabuf c of
               None \<Rightarrow> Inr writefds
             | Some eb \<Rightarrow> if c_errfd c \<ge> 0 \<and> cbuf_getused eb > 0 then FD_SET (c_errfd c) writefds else Inr writefds) (\<lambda>writefds.
      Inr (readfds, writefds)))))))"

fun set_chans :: "Channel option list \<Rightarrow> nat \<Rightarrow> nat \<Rightarrow> fd_set \<times> fd_set \<Rightarrow> (fd_set \<times> fd_set) result" where
  "set_chans cs i 0 fds = Inr fds"
| "set_chans cs i (Suc n) fds =
     rbind (nth_or_ub cs i) (\<lambda>c.
     rbind (case c of None \<Rightarrow> Inr fds | Some c \<Rightarrow> set_chan_fds c fds) (set_chans cs (Suc i) n))"

definition setchannelfds :: "'a chansession_scheme \<Rightarrow> fd_set \<Rightarrow> fd_set \<Rightarrow> (fd_set \<times> fd_set) result" where
  "setchannelfds s readfds writefds =
     rbind (set_chans (s_channels s) 0 (unat (s_chansize s)) (readfds, writefds)) (\<lambda>(readfds, writefds).
     rbind (set_listener_fds s readfds) (\<lambda>readfds. Inr (readfds, writefds)))"

subsection \<open>Received messages\<close>

definition recv_msg_channel_eof ::
  "(ChanType \<Rightarrow> 'a chansession_scheme ChanOps) \<Rightarrow> crypto \<Rightarrow> chan_io \<Rightarrow> 'a chansession_scheme \<Rightarrow> 'a chansession_scheme result" where
  "recv_msg_channel_eof ops cr io s =
     rbind (getchannel_msg (Some ''EOF'') s) (\<lambda>(i, s).
     rbind (upd_chan i (\<lambda>c. c\<lparr>c_recv_eof := True\<rparr>) s)
       (check_close ops cr (io_env io) (io_flush io) (io_flusherr io) i))"

definition recv_msg_channel_close ::
  "(ChanType \<Rightarrow> 'a chansession_scheme ChanOps) \<Rightarrow> crypto \<Rightarrow> chan_io \<Rightarrow> 'a chansession_scheme \<Rightarrow> 'a chansession_scheme result" where
  "recv_msg_channel_close ops cr io s =
     rbind (getchannel_msg (Some ''Close'') s) (\<lambda>(i, s).
     rbind (upd_chan i (\<lambda>c. c\<lparr>c_recv_eof := True, c_recv_close := True\<rparr>) s)
       (check_close ops cr (io_env io) (io_flush io) (io_flusherr io) i))"

definition recv_msg_channel_request ::
  "(ChanType \<Rightarrow> 'a chansession_scheme ChanOps) \<Rightarrow> crypto \<Rightarrow> env \<Rightarrow> 'a chansession_scheme \<Rightarrow> 'a chansession_scheme result" where
  "recv_msg_channel_request ops cr env s =
     rbind (getchannel s) (\<lambda>(i, s).
     rbind (chan_at i s) (\<lambda>c.
     if c_sent_close c then Inr s
     else case co_reqhandler (ops (c_type c)) of
            Some f \<Rightarrow> if c_close_handler_done c then send_msg_channel_failure cr env 0 i s else f i s
          | None \<Rightarrow> send_msg_channel_failure cr env 0 i s))"

text \<open>
  \<open>strcmp\<close> of the type with the names of the table; the string is followed by a NUL, so it is
  compared up to the first zero byte.
\<close>

definition find_chantype :: "bytes \<Rightarrow> ChanType list \<Rightarrow> ChanType option" where
  "find_chantype type chantypes = List.find (\<lambda>t. takeWhile (\<lambda>c. c \<noteq> 0) type = ascii (ct_name t)) chantypes"

definition recv_msg_channel_open ::
  "(ChanType \<Rightarrow> 'a chansession_scheme ChanOps) \<Rightarrow> crypto \<Rightarrow> env \<Rightarrow> u32 \<Rightarrow> 'a chansession_scheme \<Rightarrow> 'a chansession_scheme result" where
  "recv_msg_channel_open ops cr env W s =
     rbind (deref (s_payload s)) (\<lambda>b.
     rbind (buf_getstring b) (\<lambda>(type, typelen, b).
     rbind (buf_getint b) (\<lambda>(remotechan, b).
     rbind (buf_getint b) (\<lambda>(transwindow, b).
     rbind (buf_getint b) (\<lambda>(transmaxpacket, b).
     let s = s\<lparr>s_payload := Some b\<rparr>;
         transwindow = min transwindow TRANS_MAX_WINDOW;
         transmaxpacket = min transmaxpacket TRANS_MAX_PAYLOAD_LEN;
         failure = (\<lambda>errtype s. send_msg_channel_open_failure cr env 0 remotechan errtype [] [] s)
     in if unat typelen > MAX_NAME_LEN then failure SSH_OPEN_UNKNOWN_CHANNEL_TYPE s
        else case find_chantype type (s_chantypes s) of
          None \<Rightarrow> failure SSH_OPEN_UNKNOWN_CHANNEL_TYPE s
        | Some chantype \<Rightarrow>
            rbind (newchannel remotechan chantype transwindow transmaxpacket s) (\<lambda>(new, s).
            case new of
              None \<Rightarrow> failure SSH_OPEN_UNKNOWN_CHANNEL_TYPE s
            | Some i \<Rightarrow>
                rbind (case co_inithandler (ops chantype) of None \<Rightarrow> Inr (0, s) | Some f \<Rightarrow> f i s) (\<lambda>(ret, s).
                if ret = SSH_OPEN_IN_PROGRESS then Inr s
                else if ret > 0 then rbind (remove_channel ops i s) (failure ret)
                else
                  rbind (chan_initwritebuf W i s) (\<lambda>s.
                  rbind (chan_at i s) (\<lambda>c.
                  send_msg_channel_open_confirmation cr env 0 i (c_recvwindow c) (c_recvmaxpacket c) s)))))))))"

text \<open>
  \<open>send_msg_channel_open_init\<close> leaves the message to be completed by its caller. The result tells
  whether there was a free channel.
\<close>

definition send_msg_channel_open_init ::
  "u32 \<Rightarrow> int \<Rightarrow> ChanType \<Rightarrow> 'a chansession_scheme \<Rightarrow> (bool \<times> 'a chansession_scheme) result" where
  "send_msg_channel_open_init W fd type s =
     rbind (newchannel 0 type 0 0 s) (\<lambda>(new, s).
     case new of
       None \<Rightarrow> Inr (False, s)
     | Some i \<Rightarrow>
         rbind (chan_initwritebuf W i s) (\<lambda>s.
         rbind (upd_chan i (\<lambda>c. c\<lparr>c_writefd := fd, c_readfd := fd, c_await_open := True\<rparr>) s) (\<lambda>s.
         rbind (chan_at i s) (\<lambda>c.
         rbind (on_writepayload (\<lambda>b.
           rbind (buf_putbyte b SSH_MSG_CHANNEL_OPEN) (\<lambda>b.
           rbind (buf_putstring b (ascii (ct_name type)) (of_nat (length (ct_name type)))) (\<lambda>b.
           rbind (buf_putint b (c_index c)) (\<lambda>b.
           rbind (buf_putint b W) (\<lambda>b.
           buf_putint b RECV_MAX_PAYLOAD_LEN)))))
           (s\<lparr>s_maxfd := max (s_maxfd s) fd\<rparr>)) (\<lambda>s. Inr (True, s))))))"

definition recv_msg_channel_open_confirmation ::
  "(ChanType \<Rightarrow> 'a chansession_scheme ChanOps) \<Rightarrow> 'a chansession_scheme \<Rightarrow> 'a chansession_scheme result" where
  "recv_msg_channel_open_confirmation ops s =
     rbind (getchannel s) (\<lambda>(i, s).
     rbind (chan_at i s) (\<lambda>c.
     if \<not> c_await_open c then Inl (Exit ''Unexpected channel reply'')
     else
       rbind (deref (s_payload s)) (\<lambda>b.
       rbind (buf_getint b) (\<lambda>(remotechan, b).
       rbind (buf_getint b) (\<lambda>(transwindow, b).
       rbind (buf_getint b) (\<lambda>(transmaxpacket, b).
       rbind (upd_chan i (\<lambda>c. c\<lparr>c_await_open := False, c_remotechan := remotechan, c_transwindow := transwindow,
                              c_transmaxpacket := transmaxpacket\<rparr>) (s\<lparr>s_payload := Some b\<rparr>)) (\<lambda>s.
       case co_inithandler (ops (c_type c)) of
         None \<Rightarrow> Inr s
       | Some f \<Rightarrow> rbind (f i s) (\<lambda>(ret, s). if ret > 0 then remove_channel ops i s else Inr s))))))))"

definition recv_msg_channel_open_failure ::
  "(ChanType \<Rightarrow> 'a chansession_scheme ChanOps) \<Rightarrow> 'a chansession_scheme \<Rightarrow> 'a chansession_scheme result" where
  "recv_msg_channel_open_failure ops s =
     rbind (getchannel s) (\<lambda>(i, s).
     rbind (chan_at i s) (\<lambda>c.
     if \<not> c_await_open c then Inl (Exit ''Unexpected channel reply'')
     else rbind (upd_chan i (\<lambda>c. c\<lparr>c_await_open := False\<rparr>) s) (remove_channel ops i)))"

subsection \<open>Agent forwarding (svr-agentfwd.c)\<close>

definition no_handlers :: "'s ChanOps" where
  "no_handlers = \<lparr>co_inithandler = None, co_check_close = None, co_reqhandler = None, co_closehandler = None,
     co_read_mangler = (\<lambda>i bs s. Inr (bs, s))\<rparr>"

definition chan_svr_agent :: ChanType where
  "chan_svr_agent = \<lparr>ct_sepfds = False, ct_name = ''auth-agent@openssh.com''\<rparr>"

definition send_msg_channel_open_agent ::
  "crypto \<Rightarrow> env \<Rightarrow> u32 \<Rightarrow> int \<Rightarrow> 'a chansession_scheme \<Rightarrow> (bool \<times> 'a chansession_scheme) result" where
  "send_msg_channel_open_agent cr env W fd s =
     rbind (send_msg_channel_open_init W fd chan_svr_agent s) (\<lambda>(ok, s).
     if ok then rbind (encrypt_packet cr (env_rnd env 0) (env_mac env) s) (\<lambda>s. Inr (True, s)) else Inr (False, s))"

text \<open>\<open>fd\<close> is what \<open>accept\<close> returns.\<close>

definition agentaccept ::
  "crypto \<Rightarrow> env \<Rightarrow> u32 \<Rightarrow> int \<Rightarrow> 'a chansession_scheme \<Rightarrow> 'a chansession_scheme result" where
  "agentaccept cr env W fd s =
     (if fd < 0 then Inr s
      else rbind (send_msg_channel_open_agent cr env W fd s) (\<lambda>(ok, s). Inr (if ok then s else os_close fd s)))"

end
