(* ===== verification/ChannelInv.thy ===== *)
theory ChannelInv
  imports Channel
begin

text \<open>
  The invariant of the channel layer and its preservation by every operation of
  \<^verbatim>\<open>src/reconos/dropbear/common-channel.c\<close>. The centre is flow control: the window the peer still has, the bytes
  that are buffered and those that are written but not yet announced add up to \<open>opts.recv_window\<close>.
\<close>

subsection \<open>The invariant\<close>

definition cb_unset :: "circbuffer \<Rightarrow> bool" where
  "cb_unset wb \<longleftrightarrow> cb_size wb = 0 \<and> cb_used wb = 0 \<and> cb_data wb = []"

definition buffered :: "circbuffer option \<Rightarrow> nat" where
  "buffered cb = (case cb of None \<Rightarrow> 0 | Some cb \<Rightarrow> unat (cb_used cb))"

definition window_ok :: "u32 \<Rightarrow> circbuffer \<Rightarrow> Channel \<Rightarrow> bool" where
  "window_ok W wb c \<longleftrightarrow>
     (if cb_size wb = 0
      then cb_unset wb \<and> c_recvwindow c = 0 \<and> c_recvdonelen c = 0 \<and> buffered (c_extrabuf c) = 0
      else cbuf_inv wb \<and> cb_size wb = W \<and>
        unat (c_recvwindow c) + unat (c_recvdonelen c) + unat (cb_used wb) + buffered (c_extrabuf c) = unat W)"

definition chan_flow :: "u32 \<Rightarrow> nat \<Rightarrow> Channel \<Rightarrow> bool" where
  "chan_flow W i c \<longleftrightarrow> unat (c_index c) = i \<and> (\<exists>wb. c_writebuf c = Some wb \<and> window_ok W wb c) \<and>
     (\<forall>eb. c_extrabuf c = Some eb \<longrightarrow> cbuf_inv eb \<and> cb_size eb = W)"

text \<open>
  The descriptors fit into an \<open>fd_set\<close>. A buffer that is not set up is never written to the local side,
  and a channel this side has asked for has its buffer.
\<close>

definition fds_ok :: "Channel \<Rightarrow> bool" where
  "fds_ok c \<longleftrightarrow> c_writefd c < FD_SETSIZE \<and> c_readfd c < FD_SETSIZE \<and> c_errfd c < FD_SETSIZE"

lemma fds_ok_upd [simp]:
  "fds_ok (c\<lparr>c_recvwindow := y0\<rparr>) = fds_ok c"
  "fds_ok (c\<lparr>c_recvdonelen := y1\<rparr>) = fds_ok c"
  "fds_ok (c\<lparr>c_writebuf := y2\<rparr>) = fds_ok c"
  "fds_ok (c\<lparr>c_extrabuf := y3\<rparr>) = fds_ok c"
  "fds_ok (c\<lparr>c_await_open := y4\<rparr>) = fds_ok c"
  "fds_ok (c\<lparr>c_initconn := y5\<rparr>) = fds_ok c"
  "fds_ok (c\<lparr>c_transwindow := y6\<rparr>) = fds_ok c"
  "fds_ok (c\<lparr>c_remotechan := y7\<rparr>) = fds_ok c"
  "fds_ok (c\<lparr>c_transmaxpacket := y8\<rparr>) = fds_ok c"
  by (simp_all add: fds_ok_def)

definition chan_quiet :: "Channel \<Rightarrow> bool" where
  "chan_quiet c \<longleftrightarrow> fds_ok c \<and> (\<forall>wb. c_writebuf c = Some wb \<longrightarrow> cb_size wb = 0 \<longrightarrow>
     (c_writefd c < 0 \<or> c_initconn c) \<and> \<not> c_await_open c)"

definition chan_ok :: "u32 \<Rightarrow> nat \<Rightarrow> Channel \<Rightarrow> bool" where
  "chan_ok W i c \<longleftrightarrow> chan_flow W i c \<and> chan_quiet c"

lemma chan_ok_flags [simp]:
  "chan_ok W i (c\<lparr>c_sent_eof := x0\<rparr>) = chan_ok W i c"
  "chan_ok W i (c\<lparr>c_sent_close := x1\<rparr>) = chan_ok W i c"
  "chan_ok W i (c\<lparr>c_recv_eof := x2\<rparr>) = chan_ok W i c"
  "chan_ok W i (c\<lparr>c_recv_close := x3\<rparr>) = chan_ok W i c"
  "chan_ok W i (c\<lparr>c_close_handler_done := x4\<rparr>) = chan_ok W i c"
  "chan_ok W i (c\<lparr>c_flushing := x5\<rparr>) = chan_ok W i c"
  "chan_ok W i (c\<lparr>c_transwindow := x6\<rparr>) = chan_ok W i c"
  "chan_ok W i (c\<lparr>c_remotechan := x7\<rparr>) = chan_ok W i c"
  "chan_ok W i (c\<lparr>c_transmaxpacket := x8\<rparr>) = chan_ok W i c"
  by (simp_all add: chan_ok_def chan_flow_def window_ok_def chan_quiet_def fds_ok_def)

definition slots_used :: "'b option list \<Rightarrow> nat" where
  "slots_used xs = length (filter (\<lambda>x. x \<noteq> None) xs)"

definition table_inv :: "'a chansession_scheme \<Rightarrow> bool" where
  "table_inv s \<longleftrightarrow> length (s_channels s) = unat (s_chansize s) \<and> unat (s_chansize s) \<le> 102 \<and>
     unat (s_chancount s) = slots_used (s_channels s)"

definition payload_inv :: "'a sshsession_scheme \<Rightarrow> bool" where
  "payload_inv s \<longleftrightarrow> (\<forall>b. s_payload s = Some b \<longrightarrow> buf_inv b)"

definition recv_window_ok :: "u32 \<Rightarrow> bool" where
  "recv_window_ok W \<longleftrightarrow> 0 < unat W \<and> unat W \<le> 1048576"

text \<open>The channel in slot \<open>i\<close> satisfies \<open>P\<close>, and all else is in order.\<close>

definition chan_frame :: "crypto \<Rightarrow> u32 \<Rightarrow> nat \<Rightarrow> (Channel \<Rightarrow> bool) \<Rightarrow> 'a chansession_scheme \<Rightarrow> bool" where
  "chan_frame cr W i P s \<longleftrightarrow> sender_ok cr s \<and> payload_inv s \<and> table_inv s \<and> i < length (s_channels s) \<and>
     (\<exists>c. s_channels s ! i = Some c \<and> P c) \<and>
     (\<forall>j c. j < length (s_channels s) \<longrightarrow> j \<noteq> i \<longrightarrow> s_channels s ! j = Some c \<longrightarrow> chan_ok W j c)"

definition chans_inv :: "crypto \<Rightarrow> u32 \<Rightarrow> 'a chansession_scheme \<Rightarrow> bool" where
  "chans_inv cr W s \<longleftrightarrow> sender_ok cr s \<and> payload_inv s \<and> table_inv s \<and>
     (\<forall>j c. j < length (s_channels s) \<longrightarrow> s_channels s ! j = Some c \<longrightarrow> chan_ok W j c)"

lemma chan_frameI:
  assumes "chans_inv cr W s" and "i < length (s_channels s)" and "s_channels s ! i = Some c"
  shows "chan_frame cr W i (chan_ok W i) s"
  using assms by (auto simp: chans_inv_def chan_frame_def)

lemma chan_frame_inv: "chan_frame cr W i (chan_ok W i) s \<Longrightarrow> chans_inv cr W s"
  unfolding chan_frame_def chans_inv_def by (elim conjE exE, intro conjI allI impI) (auto split: if_splits)

lemma chan_frame_mono: "chan_frame cr W i P s \<Longrightarrow> (\<And>c. P c \<Longrightarrow> Q c) \<Longrightarrow> chan_frame cr W i Q s"
  by (auto simp: chan_frame_def)

lemma slots_used_update:
  "i < length xs \<Longrightarrow> slots_used (xs[i := y]) + (if xs ! i = None then 0 else 1) = slots_used xs + (if y = None then 0 else 1)"
proof (induction xs arbitrary: i)
  case (Cons x xs)
  then show ?case
  proof (cases i)
    case (Suc n)
    then show ?thesis using Cons.IH[of n] Cons.prems by (simp add: slots_used_def split: if_splits)
  qed (simp add: slots_used_def)
qed simp

lemma chan_at_frame:
  assumes "chan_frame cr W i P s"
  shows "\<exists>c. chan_at i s = Inr c \<and> s_channels s ! i = Some c \<and> P c"
  using assms by (auto simp: chan_frame_def chan_at_def nth_or_ub_def)

lemma sat_chan_at:
  assumes "chan_frame cr W i P s" and "\<And>c. s_channels s ! i = Some c \<Longrightarrow> P c \<Longrightarrow> sat (f c) Q"
  shows "sat (rbind (chan_at i s) f) Q"
  using chan_at_frame[OF assms(1)] assms(2) by auto

text \<open>Changing the channel in the slot, and changing what is not part of the invariant.\<close>

lemma chan_frame_set:
  assumes "chan_frame cr W i P s" and "Q c"
  shows "chan_frame cr W i Q (s\<lparr>s_channels := (s_channels s)[i := Some c]\<rparr>)"
proof -
  obtain c0 where c0: "s_channels s ! i = Some c0" "i < length (s_channels s)" using assms(1) by (auto simp: chan_frame_def)
  have "slots_used ((s_channels s)[i := Some c]) = slots_used (s_channels s)"
    using slots_used_update[OF c0(2), of "Some c"] c0(1) by simp
  moreover have "sender_ok cr (s\<lparr>s_channels := (s_channels s)[i := Some c]\<rparr>) = sender_ok cr s"
    by (rule sender_ok_cong) simp_all
  ultimately show ?thesis
    using assms c0(2) by (auto simp: chan_frame_def table_inv_def payload_inv_def)
qed

lemma sat_upd_chan:
  assumes "chan_frame cr W i P s" and "\<And>c. P c \<Longrightarrow> Q (f c)"
  shows "sat (upd_chan i f s) (chan_frame cr W i Q)"
  unfolding upd_chan_def
  by (rule sat_chan_at[OF assms(1)]) (simp add: chan_frame_set[OF assms(1)] assms(2))

lemma chan_frame_cong:
  assumes "s_keys s' = s_keys s" and "s_transseq s' = s_transseq s" and "s_writequeue s' = s_writequeue s"
    and "s_writepayload s' = s_writepayload s" and "s_payload s' = s_payload s" and "s_channels s' = s_channels s"
    and "s_chansize s' = s_chansize s" and "s_chancount s' = s_chancount s"
  shows "chan_frame cr W i P s' = chan_frame cr W i P s"
  using assms sender_ok_cong[of s' s cr, OF assms(1-4)]
  by (simp add: chan_frame_def table_inv_def payload_inv_def)

lemma chan_frame_os_close [simp]: "chan_frame cr W i P (os_close fd s) = chan_frame cr W i P s"
  by (rule chan_frame_cong) (simp_all add: os_close_def)

lemma chan_frame_shutdown [simp]: "chan_frame cr W i P (s\<lparr>s_shutdown := x\<rparr>) = chan_frame cr W i P s"
  by (rule chan_frame_cong) simp_all

lemma chan_frame_output [simp]: "chan_frame cr W i P (s\<lparr>s_output := x\<rparr>) = chan_frame cr W i P s"
  by (rule chan_frame_cong) simp_all

subsection \<open>Sending\<close>

lemma chan_frame_sent:
  assumes "chan_frame cr W i P s" and "sender_ok cr s'" and "only_sent s s'"
  shows "chan_frame cr W i P s'"
proof -
  have m: "sshsession.more s' = sshsession.more s" "s_payload s' = s_payload s" using only_sentD[OF assms(3)] by simp_all
  have "s_channels s' = s_channels s" "s_chansize s' = s_chansize s" "s_chancount s' = s_chancount s"
    by (subst assms(3)[unfolded only_sent_def], simp)+
  then show ?thesis using assms(1,2) m(2) by (simp add: chan_frame_def table_inv_def payload_inv_def)
qed

lemma sat_send_payload:
  assumes "chan_frame cr W i P s" and "env_ok env" and "puts f bs" and "1 \<le> length bs" and "length bs \<le> 16384"
  shows "sat (send_payload cr env k f s) (chan_frame cr W i P)"
proof -
  have "sender_ok cr s" using assms(1) by (simp add: chan_frame_def)
  from send_payload_ok[OF this assms(2-5), of k] show ?thesis using chan_frame_sent[OF assms(1)] by auto
qed

lemma chans_inv_sent:
  assumes "chans_inv cr W s" and "sender_ok cr s'" and "only_sent s s'"
  shows "chans_inv cr W s'"
proof -
  have p: "s_payload s' = s_payload s" using only_sentD[OF assms(3)] by simp
  have "s_channels s' = s_channels s" "s_chansize s' = s_chansize s" "s_chancount s' = s_chancount s"
    by (subst assms(3)[unfolded only_sent_def], simp)+
  then show ?thesis using assms(1,2) p by (simp add: chans_inv_def table_inv_def payload_inv_def)
qed

lemma sat_send_chan_byte:
  assumes "chan_frame cr W i P s" and "env_ok env"
  shows "sat (send_chan_byte type cr env k i s) (chan_frame cr W i P)"
  unfolding send_chan_byte_def
  by (rule sat_chan_at[OF assms(1)], rule sat_send_payload[OF assms puts_seq[OF puts_byte puts_int]]) simp_all

lemma sat_window_adjust:
  assumes "chan_frame cr W i P s" and "env_ok env"
  shows "sat (send_msg_channel_window_adjust cr env k i incr s) (chan_frame cr W i P)"
  unfolding send_msg_channel_window_adjust_def
  by (rule sat_chan_at[OF assms(1)], rule sat_send_payload[OF assms puts_seq[OF puts_byte puts_seq[OF puts_int puts_int]]]) simp_all

lemma sat_open_confirmation:
  assumes "chan_frame cr W i P s" and "env_ok env"
  shows "sat (send_msg_channel_open_confirmation cr env k i w m s) (chan_frame cr W i P)"
  unfolding send_msg_channel_open_confirmation_def
  by (rule sat_chan_at[OF assms(1)],
      rule sat_send_payload[OF assms puts_seq[OF puts_byte puts_seq[OF puts_int puts_seq[OF puts_int puts_seq[OF puts_int puts_int]]]]])
     simp_all

lemma open_failure_ok:
  assumes "sender_ok cr s" and "env_ok env"
  shows "\<exists>s'. send_msg_channel_open_failure cr env k remotechan reason [] [] s = Inr s' \<and> sender_ok cr s' \<and> only_sent s s'"
proof -
  have p: "puts (\<lambda>b. buf_putstring b [] (of_nat (strlen []))) (store32h 0)"
    using puts_string[of 0 "[]"] by (simp add: strlen_def)
  show ?thesis
    unfolding send_msg_channel_open_failure_def
    by (rule send_payload_ok[OF assms puts_seq[OF puts_byte puts_seq[OF puts_int puts_seq[OF puts_int puts_seq[OF p p]]]]]) simp_all
qed

lemma sat_open_failure_frame:
  assumes "chan_frame cr W i P s" and "env_ok env"
  shows "sat (send_msg_channel_open_failure cr env k remotechan reason [] [] s) (chan_frame cr W i P)"
proof -
  have "sender_ok cr s" using assms(1) by (simp add: chan_frame_def)
  from open_failure_ok[OF this assms(2), of k remotechan reason] show ?thesis using chan_frame_sent[OF assms(1)] by auto
qed

lemma sat_open_failure:
  assumes "chans_inv cr W s" and "env_ok env"
  shows "sat (send_msg_channel_open_failure cr env k remotechan reason [] [] s) (chans_inv cr W)"
proof -
  have "sender_ok cr s" using assms(1) by (simp add: chans_inv_def)
  from open_failure_ok[OF this assms(2), of k remotechan reason] show ?thesis using chans_inv_sent[OF assms(1)] by auto
qed

subsection \<open>Closing\<close>

text \<open>The fields of a channel the invariant is about; descriptors may only be closed.\<close>

definition same_flow :: "Channel \<Rightarrow> Channel \<Rightarrow> bool" where
  "same_flow c c' \<longleftrightarrow> c_index c' = c_index c \<and> c_recvwindow c' = c_recvwindow c \<and> c_recvdonelen c' = c_recvdonelen c \<and>
     c_writebuf c' = c_writebuf c \<and> c_extrabuf c' = c_extrabuf c"

lemma chan_flow_same: "same_flow c c' \<Longrightarrow> chan_flow W i c \<Longrightarrow> chan_flow W i c'"
  by (auto simp: same_flow_def chan_flow_def window_ok_def)

lemma chan_ok_same:
  assumes "same_flow c c'" and "chan_ok W i c" and "chan_quiet c'"
  shows "chan_ok W i c'"
  using assms chan_flow_same by (simp add: chan_ok_def)

definition keeps_close :: "(Channel \<Rightarrow> bool) \<Rightarrow> bool" where
  "keeps_close P \<longleftrightarrow> (\<forall>c. P c \<longrightarrow> P (c\<lparr>c_readfd := FD_CLOSED\<rparr>) \<and> P (c\<lparr>c_writefd := FD_CLOSED\<rparr>) \<and> P (c\<lparr>c_errfd := FD_CLOSED\<rparr>))"

lemma keeps_close_ok: "keeps_close (chan_ok W i)"
  by (auto simp: keeps_close_def chan_ok_def chan_flow_def window_ok_def chan_quiet_def fds_ok_def FD_CLOSED_def FD_SETSIZE_def)

lemma drop_fd_keeps: "keeps_close P \<Longrightarrow> P c \<Longrightarrow> P (drop_fd closeout closein fd c)"
  by (simp add: drop_fd_def Let_def keeps_close_def)

lemma sat_close_chan_fd:
  assumes "chan_frame cr W i P s" and "keeps_close P"
  shows "sat (close_chan_fd i fd how s) (chan_frame cr W i P)"
  unfolding close_chan_fd_def
proof (rule sat_chan_at[OF assms(1)])
  fix c assume c: "P c"
  define d where "d = drop_fd (\<not> ct_sepfds (c_type c) \<or> how = 0) (\<not> ct_sepfds (c_type c) \<or> how \<noteq> 0) fd c"
  define s1 where "s1 = (if ct_sepfds (c_type c) then s\<lparr>s_shutdown := s_shutdown s @ [(fd, how)]\<rparr> else os_close fd s)"
  have "chan_frame cr W i P s1" using assms(1) by (simp add: s1_def)
  moreover have "P d" unfolding d_def by (rule drop_fd_keeps[OF assms(2) c])
  ultimately have "chan_frame cr W i P (s1\<lparr>s_channels := (s_channels s1)[i := Some d]\<rparr>)" by (rule chan_frame_set)
  then show "sat (let sep = ct_sepfds (c_type c);
         s = (if sep then s\<lparr>s_shutdown := s_shutdown s @ [(fd, how)]\<rparr> else os_close fd s);
         c = drop_fd (\<not> sep \<or> how = 0) (\<not> sep \<or> how \<noteq> 0) fd c;
         s = s\<lparr>s_channels := (s_channels s)[i := Some c]\<rparr>
     in Inr (if sep \<and> c_readfd c = FD_CLOSED \<and> c_writefd c = FD_CLOSED \<and> c_errfd c = FD_CLOSED
             then os_close fd s else s)) (chan_frame cr W i P)"
    unfolding Let_def d_def[symmetric] s1_def[symmetric] by simp
qed

subsection \<open>The contract of the handlers\<close>

text \<open>
  A handler of a channel type may send, change its own channel apart from the buffers and the
  windows, and change what the invariant does not mention (listeners, descriptors, processes).
\<close>

definition handler_pre :: "crypto \<Rightarrow> nat \<Rightarrow> 'a chansession_scheme \<Rightarrow> bool" where
  "handler_pre cr i s \<longleftrightarrow> sender_ok cr s \<and> payload_inv s \<and> i < length (s_channels s) \<and> s_channels s ! i \<noteq> None"

definition others_kept :: "crypto \<Rightarrow> nat \<Rightarrow> 'a chansession_scheme \<Rightarrow> 'a chansession_scheme \<Rightarrow> bool" where
  "others_kept cr i s s' \<longleftrightarrow> sender_ok cr s' \<and> payload_inv s' \<and> s_chansize s' = s_chansize s \<and> s_chancount s' = s_chancount s \<and>
     length (s_channels s') = length (s_channels s) \<and> (\<forall>j. j \<noteq> i \<longrightarrow> s_channels s' ! j = s_channels s ! j)"

definition handler_keeps :: "crypto \<Rightarrow> nat \<Rightarrow> 'a chansession_scheme \<Rightarrow> 'a chansession_scheme \<Rightarrow> bool" where
  "handler_keeps cr i s s' \<longleftrightarrow> others_kept cr i s s' \<and>
     (\<exists>c c'. s_channels s ! i = Some c \<and> s_channels s' ! i = Some c' \<and> same_flow c c' \<and> (chan_quiet c \<longrightarrow> chan_quiet c'))"

text \<open>The handler for a new channel may also set up the second buffer, and leave the first to its caller.\<close>

definition init_keeps :: "crypto \<Rightarrow> u32 \<Rightarrow> nat \<Rightarrow> 'a chansession_scheme \<Rightarrow> int \<times> 'a chansession_scheme \<Rightarrow> bool" where
  "init_keeps cr W i s r \<longleftrightarrow> (case r of (ret, s') \<Rightarrow> others_kept cr i s s' \<and>
     (\<exists>c c' eb. s_channels s ! i = Some c \<and> s_channels s' ! i = Some c' \<and> same_flow (c\<lparr>c_extrabuf := eb\<rparr>) c' \<and>
        (eb = c_extrabuf c \<or> (\<exists>b. c_extrabuf c = None \<and> eb = Some b \<and> cbuf_inv b \<and> cb_size b = W \<and> cb_used b = 0)) \<and>
        c_await_open c' = c_await_open c \<and> (fds_ok c \<longrightarrow> fds_ok c') \<and> (ret = SSH_OPEN_IN_PROGRESS \<longrightarrow> chan_quiet c \<longrightarrow> chan_quiet c')))"

definition ops_ok :: "crypto \<Rightarrow> u32 \<Rightarrow> (ChanType \<Rightarrow> 'a chansession_scheme ChanOps) \<Rightarrow> bool" where
  "ops_ok cr W ops \<longleftrightarrow> (\<forall>t i s. handler_pre cr i s \<longrightarrow>
     (\<forall>f. co_closehandler (ops t) = Some f \<longrightarrow> sat (f i s) (handler_keeps cr i s)) \<and>
     (\<forall>f. co_reqhandler (ops t) = Some f \<longrightarrow> sat (f i s) (handler_keeps cr i s)) \<and>
     (\<forall>f. co_check_close (ops t) = Some f \<longrightarrow> sat (f i s) (\<lambda>_. True)) \<and>
     (\<forall>f. co_inithandler (ops t) = Some f \<longrightarrow> sat (f i s) (init_keeps cr W i s))) \<and>
   (\<forall>t i bs s. sat (co_read_mangler (ops t) i bs s)
     (\<lambda>(bs', s'). length bs' \<le> length bs \<and> chansession.truncate s' = chansession.truncate s))"

definition flow_closed :: "(Channel \<Rightarrow> bool) \<Rightarrow> bool" where
  "flow_closed P \<longleftrightarrow> (\<forall>c c'. P c \<longrightarrow> same_flow c c' \<longrightarrow> (chan_quiet c \<longrightarrow> chan_quiet c') \<longrightarrow> P c')"

lemma flow_closed_ok: "flow_closed (chan_ok W i)"
  using chan_ok_same by (auto simp: flow_closed_def chan_ok_def intro: chan_flow_same)

lemma frame_pre: "chan_frame cr W i P s \<Longrightarrow> handler_pre cr i s"
  by (auto simp: chan_frame_def handler_pre_def)

lemma frame_others:
  assumes "chan_frame cr W i P s" and "others_kept cr i s s'" and "s_channels s' ! i = Some c" and "Q c"
  shows "chan_frame cr W i Q s'"
proof -
  obtain c0 where c0: "s_channels s ! i = Some c0" "i < length (s_channels s)" using assms(1) by (auto simp: chan_frame_def)
  have "s_channels s' = (s_channels s)[i := Some c]"
    using assms(2,3) c0(2) by (intro nth_equalityI) (auto simp: others_kept_def nth_list_update)
  then have "slots_used (s_channels s') = slots_used (s_channels s)"
    using slots_used_update[OF c0(2), of "Some c"] c0(1) by simp
  then show ?thesis using assms by (auto simp: chan_frame_def others_kept_def table_inv_def)
qed

lemma frame_handler:
  assumes "chan_frame cr W i P s" and "handler_keeps cr i s s'" and "flow_closed P"
  shows "chan_frame cr W i P s'"
proof -
  obtain c c' where c: "s_channels s ! i = Some c" "s_channels s' ! i = Some c'" "same_flow c c'" "chan_quiet c \<longrightarrow> chan_quiet c'"
    using assms(2) by (auto simp: handler_keeps_def)
  have "P c" using assms(1) c(1) by (auto simp: chan_frame_def)
  then have "P c'" using assms(3) c(3,4) by (auto simp: flow_closed_def)
  then show ?thesis using frame_others[OF assms(1) _ c(2)] assms(2) by (simp add: handler_keeps_def)
qed

lemma sat_closehandler:
  assumes "chan_frame cr W i P s" and "ops_ok cr W ops" and "flow_closed P"
    and "\<And>c. P c \<Longrightarrow> P (c\<lparr>c_close_handler_done := True\<rparr>)"
  shows "sat (run_closehandler ops i s) (chan_frame cr W i P)"
  unfolding run_closehandler_def
proof (rule sat_chan_at[OF assms(1)])
  fix c
  show "sat (case co_closehandler (ops (c_type c)) of
       None \<Rightarrow> Inr s
     | Some f \<Rightarrow>
         if c_close_handler_done c then Inr s
         else rbind (f i s) (upd_chan i (\<lambda>c. c\<lparr>c_close_handler_done := True\<rparr>))) (chan_frame cr W i P)"
  proof (cases "co_closehandler (ops (c_type c))")
    case (Some f)
    have "sat (f i s) (handler_keeps cr i s)" using assms(2) frame_pre[OF assms(1)] Some by (simp add: ops_ok_def)
    then have "sat (f i s) (chan_frame cr W i P)" by (rule sat_mono) (rule frame_handler[OF assms(1) _ assms(3)])
    then show ?thesis using assms(1) Some assms(4) by (auto intro!: sat_rbind sat_upd_chan)
  qed (use assms(1) in simp)
qed

lemma sat_channel_eof:
  assumes "chan_frame cr W i (chan_ok W i) s" and "env_ok env"
  shows "sat (send_msg_channel_eof cr env k i s) (chan_frame cr W i (chan_ok W i))"
  unfolding send_msg_channel_eof_def
  by (rule sat_rbind[OF sat_send_chan_byte[OF assms]], rule sat_upd_chan, assumption) simp

lemma sat_channel_close:
  assumes "chan_frame cr W i (chan_ok W i) s" and "env_ok env" and "ops_ok cr W ops"
  shows "sat (send_msg_channel_close ops cr env k i s) (chan_frame cr W i (chan_ok W i))"
  unfolding send_msg_channel_close_def
  apply (rule sat_rbind[OF sat_closehandler[OF assms(1,3) flow_closed_ok]], simp)
  apply (rule sat_rbind[OF sat_send_chan_byte[OF _ assms(2)]], assumption)
  apply (rule sat_rbind[OF sat_upd_chan[where Q = "chan_ok W i"]], assumption, simp)
  apply (rule sat_chan_at, assumption)
  apply (rule sat_rbind[OF sat_close_chan_fd[OF _ keeps_close_ok]], assumption)
  apply (rule sat_chan_at, assumption)
  apply (rule sat_rbind[OF sat_close_chan_fd[OF _ keeps_close_ok]], assumption)
  apply (rule sat_chan_at, assumption)
  apply (rule sat_close_chan_fd[OF _ keeps_close_ok], assumption)
  done

text \<open>Removal: the buffers are freed, the handler runs, the slot becomes free.\<close>

lemma cbuf_free_ok: "cbuf_inv cb \<or> cb_unset cb \<Longrightarrow> \<exists>d. cbuf_free cb = Inr d"
  by (auto simp: cbuf_free_def m_burn_def cbuf_inv_def cb_unset_def)

lemma chan_flow_bufs:
  assumes "chan_flow W i c"
  obtains wb where "c_writebuf c = Some wb" and "cbuf_inv wb \<or> cb_unset wb" and "\<forall>eb. c_extrabuf c = Some eb \<longrightarrow> cbuf_inv eb"
proof -
  obtain wb where "c_writebuf c = Some wb" "window_ok W wb c" using assms by (auto simp: chan_flow_def)
  moreover have "\<forall>eb. c_extrabuf c = Some eb \<longrightarrow> cbuf_inv eb" using assms by (simp add: chan_flow_def)
  ultimately show thesis using that[of wb] by (auto simp: window_ok_def split: if_splits)
qed

lemma frame_removed:
  assumes "chan_frame cr W i (\<lambda>c. unat (c_index c) = i) s"
  shows "chans_inv cr W (s\<lparr>s_channels := (s_channels s)[i := None], s_chancount := s_chancount s - 1\<rparr>)"
proof -
  let ?s = "s\<lparr>s_channels := (s_channels s)[i := None], s_chancount := s_chancount s - 1\<rparr>"
  obtain c0 where c0: "s_channels s ! i = Some c0" "i < length (s_channels s)" using assms by (auto simp: chan_frame_def)
  have n: "Suc (slots_used ((s_channels s)[i := None])) = slots_used (s_channels s)"
    using slots_used_update[OF c0(2), of None] c0(1) by simp
  have "unat (s_chancount s) = slots_used (s_channels s)" using assms by (simp add: chan_frame_def table_inv_def)
  then have "unat (s_chancount s - 1) = slots_used ((s_channels s)[i := None])"
    using n unat_sub_no_underflow[of 1 "s_chancount s"] by simp
  moreover have "sender_ok cr ?s = sender_ok cr s" by (rule sender_ok_cong) simp_all
  ultimately show ?thesis using assms
    by (auto simp: chan_frame_def chans_inv_def table_inv_def payload_inv_def nth_list_update split: if_splits)
qed

lemma sat_remove_channel:
  assumes "chan_frame cr W i (chan_flow W i) s" and "ops_ok cr W ops"
  shows "sat (remove_channel ops i s) (chans_inv cr W)"
  unfolding remove_channel_def
proof (rule sat_chan_at[OF assms(1)])
  fix c assume c: "s_channels s ! i = Some c" "chan_flow W i c"
  let ?P = "\<lambda>c. unat (c_index c) = i \<and> c_writebuf c = None"
  obtain wb where wb: "c_writebuf c = Some wb" "cbuf_inv wb \<or> cb_unset wb" "\<forall>eb. c_extrabuf c = Some eb \<longrightarrow> cbuf_inv eb"
    by (rule chan_flow_bufs[OF c(2)])
  obtain d where d: "cbuf_free wb = Inr d" using cbuf_free_ok[OF wb(2)] by blast
  obtain e where e: "(case c_extrabuf c of None \<Rightarrow> Inr [] | Some eb \<Rightarrow> cbuf_free eb) = Inr e"
    using cbuf_free_ok wb(3) by (cases "c_extrabuf c") auto
  have u: "sat (upd_chan i (\<lambda>c. c\<lparr>c_writebuf := None, c_extrabuf := None\<rparr>) s) (chan_frame cr W i ?P)"
    by (rule sat_upd_chan[OF assms(1)]) (simp add: chan_flow_def)
  have fc: "flow_closed ?P" by (auto simp: flow_closed_def same_flow_def)
  show "sat (rbind (deref (c_writebuf c)) (\<lambda>wb.
     rbind (cbuf_free wb) (\<lambda>_.
     rbind (case c_extrabuf c of None \<Rightarrow> Inr [] | Some eb \<Rightarrow> cbuf_free eb) (\<lambda>_.
     rbind (upd_chan i (\<lambda>c. c\<lparr>c_writebuf := None, c_extrabuf := None\<rparr>) s) (\<lambda>s.
     rbind (run_closehandler ops i (os_close (c_errfd c) (os_close (c_readfd c) (os_close (c_writefd c) s)))) (\<lambda>s.
     rbind (chan_at i s) (\<lambda>c.
     rbind (nth_or_ub (s_channels s) (unat (c_index c))) (\<lambda>_.
     Inr (s\<lparr>s_channels := (s_channels s)[unat (c_index c) := None], s_chancount := s_chancount s - 1\<rparr>)))))))))
     (chans_inv cr W)"
    unfolding wb(1) deref_simps rbind_simps d e
  proof (rule sat_rbind[OF u], rule sat_rbind[OF sat_closehandler[OF _ assms(2) fc]])
    fix s2 assume f: "chan_frame cr W i ?P s2"
    show "sat (rbind (chan_at i s2) (\<lambda>c. rbind (nth_or_ub (s_channels s2) (unat (c_index c))) (\<lambda>_.
       Inr (s2\<lparr>s_channels := (s_channels s2)[unat (c_index c) := None], s_chancount := s_chancount s2 - 1\<rparr>)))) (chans_inv cr W)"
    proof (rule sat_chan_at[OF f])
      fix c assume "s_channels s2 ! i = Some c" "?P c"
      moreover have "i < length (s_channels s2)" using f by (simp add: chan_frame_def)
      moreover have "chan_frame cr W i (\<lambda>c. unat (c_index c) = i) s2" by (rule chan_frame_mono[OF f]) simp
      ultimately show "sat (rbind (nth_or_ub (s_channels s2) (unat (c_index c))) (\<lambda>_.
         Inr (s2\<lparr>s_channels := (s_channels s2)[unat (c_index c) := None], s_chancount := s_chancount s2 - 1\<rparr>))) (chans_inv cr W)"
        using frame_removed[of cr W i s2] by (simp add: nth_or_ub_def)
    qed
  qed simp_all
qed

subsection \<open>New channels\<close>

lemma chans_inv_grow:
  assumes "chans_inv cr W s" and "s_chansize s < MAX_CHANNELS"
  shows "chans_inv cr W (s\<lparr>s_channels := s_channels s @ replicate (unat CHAN_EXTEND_SIZE) None,
    s_chansize := s_chansize s + CHAN_EXTEND_SIZE\<rparr>)" (is "chans_inv cr W ?s")
proof -
  have "unat (s_chansize s) < 100" using assms(2) by (simp add: MAX_CHANNELS_def word_less_nat_alt)
  then have "unat (s_chansize s + CHAN_EXTEND_SIZE) = unat (s_chansize s) + 3" "unat (s_chansize s) + 3 \<le> 102"
    using unat_add_no_overflow[of "s_chansize s" 3] by (simp_all add: CHAN_EXTEND_SIZE_def)
  moreover have "slots_used (s_channels s @ replicate 3 None) = slots_used (s_channels s)" by (simp add: slots_used_def)
  moreover have "sender_ok cr ?s = sender_ok cr s" by (rule sender_ok_cong) simp_all
  ultimately show ?thesis using assms(1)
    by (auto simp: chans_inv_def table_inv_def payload_inv_def CHAN_EXTEND_SIZE_def nth_append split: if_splits)
qed

lemma chans_inv_fill:
  assumes "chans_inv cr W s" and "i < length (s_channels s)" and "s_channels s ! i = None" and "P c"
  shows "chan_frame cr W i P (s\<lparr>s_channels := (s_channels s)[i := Some c], s_chancount := s_chancount s + 1\<rparr>)"
    (is "chan_frame cr W i P ?s")
proof -
  have t: "length (s_channels s) = unat (s_chansize s)" "unat (s_chansize s) \<le> 102" "unat (s_chancount s) = slots_used (s_channels s)"
    using assms(1) by (simp_all add: chans_inv_def table_inv_def)
  have "slots_used (s_channels s) \<le> length (s_channels s)" by (simp add: slots_used_def)
  then have "unat (s_chancount s + 1) = slots_used ((s_channels s)[i := Some c])"
    using slots_used_update[OF assms(2), of "Some c"] assms(3) t unat_add_no_overflow[of "s_chancount s" 1] by simp
  moreover have "sender_ok cr ?s = sender_ok cr s" by (rule sender_ok_cong) simp_all
  ultimately show ?thesis using assms t by (auto simp: chans_inv_def chan_frame_def table_inv_def payload_inv_def)
qed

definition chan_new :: "u32 \<Rightarrow> nat \<Rightarrow> Channel \<Rightarrow> bool" where
  "chan_new W i c \<longleftrightarrow> chan_ok W i c \<and> (\<exists>wb. c_writebuf c = Some wb \<and> cb_size wb = 0) \<and> \<not> c_await_open c"

lemma sat_newchannel:
  assumes "chans_inv cr W s"
  shows "sat (newchannel remotechan type transwindow transmaxpacket s)
    (\<lambda>(new, s'). case new of None \<Rightarrow> s' = s | Some i \<Rightarrow> chan_frame cr W i (chan_new W i) s')"
proof -
  let ?n = "unat (s_chansize s)"
  have t: "length (s_channels s) = ?n" "?n \<le> 102" using assms by (simp_all add: chans_inv_def table_inv_def)
  obtain i where i: "free_slot (s_channels s) 0 ?n = Inr i" "i \<le> ?n" "i < ?n \<longrightarrow> s_channels s ! i = None"
    using free_slot_spec[of 0 ?n "s_channels s"] t(1) by auto
  obtain wb where wb: "cbuf_new 0 = Inr wb" "cb_unset wb" by (simp add: cbuf_new_def cb_unset_def)
  show ?thesis
  proof (cases "i = ?n \<and> s_chansize s \<ge> MAX_CHANNELS")
    case True
    then show ?thesis unfolding newchannel_def i(1) by simp
  next
    case False
    define s1 where "s1 = (if i = ?n then s\<lparr>s_channels := take i (s_channels s) @ replicate (unat CHAN_EXTEND_SIZE) None,
                       s_chansize := s_chansize s + CHAN_EXTEND_SIZE\<rparr> else s)"
    have s1: "chans_inv cr W s1" "i < length (s_channels s1)" "s_channels s1 ! i = None"
      using chans_inv_grow[OF assms] False i(2,3) t(1) assms by (auto simp: s1_def not_le CHAN_EXTEND_SIZE_def nth_append)
    have "unat (of_nat i :: u32) = i" using i(2) t(2) by (intro unat_of_nat_u32) simp
    then show ?thesis
      unfolding newchannel_def i(1) rbind_simps if_not_P[OF False] s1_def[symmetric] Let_def wb(1)
      using wb(2) chans_inv_fill[OF s1]
      by (simp add: chan_new_def chan_ok_def chan_flow_def chan_quiet_def window_ok_def buffered_def cb_unset_def FD_UNINIT_def
        fds_ok_def FD_CLOSED_def FD_SETSIZE_def)
  qed
qed

text \<open>A channel whose buffer is set up.\<close>

definition chan_up :: "u32 \<Rightarrow> nat \<Rightarrow> Channel \<Rightarrow> bool" where
  "chan_up W i c \<longleftrightarrow> chan_ok W i c \<and> (\<forall>wb. c_writebuf c = Some wb \<longrightarrow> cb_size wb \<noteq> 0)"

lemma chan_up_ok:
  assumes "chan_up W i c" and "same_flow c c'" and "fds_ok c'"
  shows "chan_ok W i c'"
  using assms chan_flow_same[OF assms(2)] by (auto simp: chan_up_def chan_ok_def chan_quiet_def same_flow_def)

lemma sat_initwritebuf:
  assumes "chan_frame cr W i (\<lambda>c. chan_flow W i c \<and> fds_ok c) s" and "recv_window_ok W"
  shows "sat (chan_initwritebuf W i s) (chan_frame cr W i (chan_up W i))"
  unfolding chan_initwritebuf_def
proof (rule sat_chan_at[OF assms(1)])
  fix c assume c: "chan_flow W i c \<and> fds_ok c" "s_channels s ! i = Some c"
  then obtain wb where wb: "c_writebuf c = Some wb" "window_ok W wb c" by (auto simp: chan_flow_def)
  have W: "0 < unat W" "unat W \<le> 100000000" using assms(2) by (simp_all add: recv_window_ok_def)
  obtain nb where nb: "cbuf_new W = Inr nb" "cbuf_inv nb" "cb_size nb = W" "cb_used nb = 0"
    using W by (auto simp: cbuf_new_def cbuf_inv_def m_malloc_def MAX_CBUF_SIZE_def word_less_nat_alt)
  show "sat (rbind (deref (c_writebuf c)) (\<lambda>wb.
     rbind (require (cb_size wb = 0 \<and> c_recvwindow c = 0) (Assert ''channel->writebuf->size == 0'')) (\<lambda>_.
     rbind (cbuf_free wb) (\<lambda>_.
     rbind (cbuf_new W) (\<lambda>wb.
     upd_chan i (\<lambda>c. c\<lparr>c_writebuf := Some wb, c_recvwindow := W\<rparr>) s))))) (chan_frame cr W i (chan_up W i))"
  proof (cases "cb_size wb = 0")
    case True
    then have u: "cb_unset wb" "c_recvwindow c = 0" "c_recvdonelen c = 0" "buffered (c_extrabuf c) = 0"
      using wb(2) by (simp_all add: window_ok_def)
    have f: "cbuf_free wb = Inr []" using u(1) by (simp add: cbuf_free_def m_burn_def cb_unset_def)
    let ?c = "c\<lparr>c_writebuf := Some nb, c_recvwindow := W\<rparr>"
    have "chan_up W i ?c"
      using c(1) u nb(2-4) W(1) by (auto simp: chan_up_def chan_ok_def chan_flow_def chan_quiet_def window_ok_def fds_ok_def)
    then show ?thesis
      using True u(2) c(2) assms(1) chan_frame_set[OF assms(1), of "chan_up W i" ?c]
      by (simp add: wb(1) f nb(1) upd_chan_def chan_at_def nth_or_ub_def chan_frame_def[of cr W i "\<lambda>c. chan_flow W i c \<and> fds_ok c"])
  qed (simp add: wb(1))
qed

end
