(* ===== verification/ChannelFlow.thy ===== *)
theory ChannelFlow
  imports ChannelInv
begin

text \<open>
  Data on channels: what is received is stored in order, what is stored is written to the local
  side in order, and windows are respected in both directions.
\<close>

lemma u32_lt: "unat (w :: u32) < 2 ^ 32"
  by simp

subsection \<open>The copy into the circular buffer\<close>

lemma recv_copy_0: "recv_copy 0 b cb = Inr (b, cb)"
  by (simp add: recv_copy.simps)

lemma recv_copy_step:
  assumes "cbuf_inv cb" and "buf_inv b" and "len \<noteq> 0" and "unat len \<le> unat (cb_size cb) - unat (cb_used cb)"
  obtains n where "0 < unat n" and "unat n \<le> unat len" and "unat n \<le> length (unread b) \<Longrightarrow> \<exists>cb'. cbuf_inv cb' \<and> cb_size cb' = cb_size cb \<and>
      cbuf_list cb' = cbuf_list cb @ take (unat n) (unread b) \<and>
      recv_copy len b cb = recv_copy (len - n) (advance b (unat n)) cb'"
    and "length (unread b) < unat n \<Longrightarrow> recv_copy len b cb = Inl (Exit ''Bad buf_getptr'')"
proof -
  have len: "0 < unat len" using assms(3) by (simp add: unat_gt_0)
  obtain m where m: "cbuf_writelen cb = Inr m" "0 < unat m" "unat m \<le> unat (cb_size cb) - unat (cb_used cb)"
    using cbuf_writelen_bounds[OF assms(1)] assms(4) len by auto
  let ?n = "min m len"
  have n: "0 < unat ?n" "unat ?n \<le> unat len" "unat ?n \<le> unat m" using m(2) len by (auto simp: min_def word_le_nat_alt)
  have small: "unat ?n \<le> 3000000000" using n(2) assms(4) cbuf_invD(2)[OF assms(1)] by linarith
  show thesis
  proof (rule that[OF n(1,2)])
    assume l: "unat ?n \<le> length (unread b)"
    let ?bs = "take (unat ?n) (unread b)"
    have lb: "length ?bs \<le> unat m" using n(3) by simp
    obtain cb' where cb': "cbuf_push ?bs cb = Inr cb'" "cbuf_inv cb'" "cbuf_list cb' = cbuf_list cb @ ?bs" "cb_size cb' = cb_size cb"
      using cbuf_push_ok[OF assms(1) m(1) lb] by blast
    have "?n \<noteq> 0" using n(1) by (auto simp: unat_gt_0)
    then have "recv_copy len b cb = recv_copy (len - ?n) (advance b (unat ?n)) cb'"
      using assms(3) by (subst recv_copy.simps)
        (simp add: m(1) Let_def buf_getptr_ok[OF assms(2) l] take_unread[OF assms(2) l] cb'(1) buf_incrpos_forward[OF assms(2) l])
    then show "\<exists>cb'. cbuf_inv cb' \<and> cb_size cb' = cb_size cb \<and> cbuf_list cb' = cbuf_list cb @ take (unat ?n) (unread b) \<and>
      recv_copy len b cb = recv_copy (len - ?n) (advance b (unat ?n)) cb'" using cb'(2-4) by blast
  next
    assume "length (unread b) < unat ?n"
    then show "recv_copy len b cb = Inl (Exit ''Bad buf_getptr'')"
      using assms(3) by (subst recv_copy.simps) (simp add: m(1) Let_def buf_getptr_fail[OF assms(2) _ small])
  qed
qed

text \<open>The whole string is stored, in one piece or around the end of the buffer; the loop ends.\<close>

lemma recv_copy_ok:
  assumes "cbuf_inv cb" and "buf_inv b" and "unat len \<le> unat (cb_size cb) - unat (cb_used cb)" and "unat len \<le> length (unread b)"
  shows "\<exists>cb'. recv_copy len b cb = Inr (advance b (unat len), cb') \<and> cbuf_inv cb' \<and> cb_size cb' = cb_size cb \<and>
    cbuf_list cb' = cbuf_list cb @ take (unat len) (unread b)"
  using assms
proof (induction "unat len" arbitrary: len b cb rule: less_induct)
  case less
  show ?case
  proof (cases "len = 0")
    case True
    then show ?thesis using less.prems by (auto simp: recv_copy_0)
  next
    case False
    obtain n where n: "0 < unat n" "unat n \<le> unat len" "unat n \<le> length (unread b) \<Longrightarrow> \<exists>cb'. cbuf_inv cb' \<and> cb_size cb' = cb_size cb \<and>
      cbuf_list cb' = cbuf_list cb @ take (unat n) (unread b) \<and>
      recv_copy len b cb = recv_copy (len - n) (advance b (unat n)) cb'"
      by (rule recv_copy_step[OF less.prems(1,2) False less.prems(3)]) blast
    have nl: "unat n \<le> length (unread b)" using n(2) less.prems(4) by simp
    obtain cb1 where c: "cbuf_inv cb1" "cb_size cb1 = cb_size cb" "cbuf_list cb1 = cbuf_list cb @ take (unat n) (unread b)"
      "recv_copy len b cb = recv_copy (len - n) (advance b (unat n)) cb1"
      using n(3)[OF nl] by blast
    have u: "unat (cb_used cb1) = unat (cb_used cb) + unat n" using arg_cong[OF c(3), of length] nl by simp
    have m: "unat (len - n) = unat len - unat n" using n(2) by (rule unat_sub_no_underflow)
    have b: "buf_inv (advance b (unat n))" "unread (advance b (unat n)) = drop (unat n) (unread b)"
      using less.prems(2) nl by (simp_all add: advance_inv unread_advance)
    have "unat (len - n) < unat len" "unat (len - n) \<le> unat (cb_size cb1) - unat (cb_used cb1)"
      "unat (len - n) \<le> length (unread (advance b (unat n)))"
      using m u n(1,2) less.prems(3,4) b(2) c(2) by auto
    from less.hyps[OF this(1) c(1) b(1) this(2,3)] obtain cb' where
      i: "recv_copy (len - n) (advance b (unat n)) cb1 = Inr (advance (advance b (unat n)) (unat (len - n)), cb')" "cbuf_inv cb'"
      "cb_size cb' = cb_size cb1" "cbuf_list cb' = cbuf_list cb1 @ take (unat (len - n)) (unread (advance b (unat n)))"
      by blast
    have "take (unat n) (unread b) @ take (unat len - unat n) (drop (unat n) (unread b)) = take (unat len) (unread b)"
      using n(2) by (metis le_add_diff_inverse take_add)
    then show ?thesis using i c n(2) by (simp add: b(2) m advance_advance)
  qed
qed

lemma recv_copy_short:
  assumes "cbuf_inv cb" and "buf_inv b" and "unat len \<le> unat (cb_size cb) - unat (cb_used cb)" and "length (unread b) < unat len"
  shows "recv_copy len b cb = Inl (Exit ''Bad buf_getptr'')"
  using assms
proof (induction "unat len" arbitrary: len b cb rule: less_induct)
  case less
  have nz: "len \<noteq> 0" using less.prems(4) by auto
  obtain n where n: "0 < unat n" "unat n \<le> unat len" "unat n \<le> length (unread b) \<Longrightarrow> \<exists>cb'. cbuf_inv cb' \<and> cb_size cb' = cb_size cb \<and>
      cbuf_list cb' = cbuf_list cb @ take (unat n) (unread b) \<and>
      recv_copy len b cb = recv_copy (len - n) (advance b (unat n)) cb'"
      "length (unread b) < unat n \<Longrightarrow> recv_copy len b cb = Inl (Exit ''Bad buf_getptr'')"
    by (rule recv_copy_step[OF less.prems(1,2) nz less.prems(3)]) blast
  show ?case
  proof (cases "unat n \<le> length (unread b)")
    case True
    obtain cb1 where c: "cbuf_inv cb1" "cb_size cb1 = cb_size cb" "cbuf_list cb1 = cbuf_list cb @ take (unat n) (unread b)"
      "recv_copy len b cb = recv_copy (len - n) (advance b (unat n)) cb1"
      using n(3)[OF True] by blast
    have u: "unat (cb_used cb1) = unat (cb_used cb) + unat n" using arg_cong[OF c(3), of length] True by simp
    have m: "unat (len - n) = unat len - unat n" using n(2) by (rule unat_sub_no_underflow)
    have b: "buf_inv (advance b (unat n))" "unread (advance b (unat n)) = drop (unat n) (unread b)"
      using less.prems(2) True by (simp_all add: advance_inv unread_advance)
    have "unat (len - n) < unat len" "unat (len - n) \<le> unat (cb_size cb1) - unat (cb_used cb1)"
      "length (unread (advance b (unat n))) < unat (len - n)"
      using m u n(1,2) less.prems(3,4) b(2) c(2) True by auto
    from less.hyps[OF this(1) c(1) b(1) this(2,3)] show ?thesis using c(4) by simp
  next
    case False
    then show ?thesis using n(4) by simp
  qed
qed

subsection \<open>Receiving data\<close>

definition set_chan_buf :: "bool \<Rightarrow> circbuffer \<Rightarrow> Channel \<Rightarrow> Channel" where
  "set_chan_buf ext cb c = (if ext then c\<lparr>c_extrabuf := Some cb\<rparr> else c\<lparr>c_writebuf := Some cb\<rparr>)"

text \<open>The state of a buffer of a channel: not set up, or a circular buffer with at least the room of the window.\<close>

lemma chan_buf_cases:
  assumes "chan_ok W i c" and "chan_buf ext c = Some cb"
  shows "cb_unset cb \<and> \<not> ext \<and> c_recvwindow c = 0 \<or>
    cbuf_inv cb \<and> cb_size cb = W \<and> unat (c_recvwindow c) \<le> unat (cb_size cb) - unat (cb_used cb)"
proof -
  obtain wb where wb: "c_writebuf c = Some wb" "window_ok W wb c" using assms(1) by (auto simp: chan_ok_def chan_flow_def)
  show ?thesis
  proof (cases ext)
    case True
    then have "cbuf_inv cb" "cb_size cb = W" "c_extrabuf c = Some cb"
      using assms by (simp_all add: chan_ok_def chan_flow_def chan_buf_def)
    then show ?thesis using wb(2) by (auto simp: window_ok_def buffered_def split: if_splits)
  next
    case False
    then show ?thesis using wb assms(2) by (auto simp: window_ok_def chan_buf_def split: if_splits)
  qed
qed

lemma avail_eq:
  assumes "cbuf_inv cb"
  shows "unat (cbuf_getavail cb) = unat (cb_size cb) - unat (cb_used cb)"
  unfolding cbuf_getavail_def using cbuf_invD(3)[OF assms] by (rule unat_sub_no_underflow)

text \<open>Storing \<open>n\<close> more bytes takes them from the window.\<close>

lemma chan_ok_received:
  assumes "chan_ok W i c" and "chan_buf ext c = Some cb" and "cb_size cb \<noteq> 0" and "cbuf_inv cb'" and "cb_size cb' = cb_size cb"
    and "unat (cb_used cb') = unat (cb_used cb) + unat n" and "n \<le> c_recvwindow c"
  shows "chan_ok W i ((set_chan_buf ext cb' c)\<lparr>c_recvwindow := c_recvwindow c - n\<rparr>)"
proof -
  obtain wb where wb: "c_writebuf c = Some wb" "window_ok W wb c" using assms(1) by (auto simp: chan_ok_def chan_flow_def)
  have u: "unat (c_recvwindow c - n) = unat (c_recvwindow c) - unat n" "unat n \<le> unat (c_recvwindow c)"
    using assms(7) by (simp_all add: word_le_nat_alt unat_sub_no_underflow)
  have i: "unat (c_index c) = i" "\<forall>eb. c_extrabuf c = Some eb \<longrightarrow> cbuf_inv eb \<and> cb_size eb = W" "chan_quiet c"
    using assms(1) by (simp_all add: chan_ok_def chan_flow_def)
  show ?thesis
  proof (cases ext)
    case True
    then have "c_extrabuf c = Some cb" using assms(2) by (simp add: chan_buf_def)
    then show ?thesis using True wb i u assms(3-6)
      by (auto simp: set_chan_buf_def chan_ok_def chan_flow_def window_ok_def chan_quiet_def buffered_def unsigned_eq_0_iff)
  next
    case False
    then show ?thesis using wb i u assms(2-6)
      by (auto simp: set_chan_buf_def chan_buf_def chan_ok_def chan_flow_def window_ok_def chan_quiet_def buffered_def)
  qed
qed

text \<open>
  A string within the window is stored behind what is stored already; the window shrinks by its
  length. Nothing else of the channel changes.
\<close>

lemma common_recv_ok:
  assumes "chan_frame cr W i (chan_ok W i) s" and "s_channels s ! i = Some c" and "\<not> c_recv_eof c" and "chan_buf ext c = Some cb"
    and "cb_size cb \<noteq> 0" and "0 \<le> fd" and "s_payload s = Some b" and "buf_inv b" and "unread b = store32h n @ data @ rest"
    and "length data = unat n" and "n \<le> c_recvwindow c"
  shows "\<exists>cb'. common_recv_msg_channel_data W i fd ext s =
      Inr (s\<lparr>s_payload := Some (advance b (4 + length data)),
             s_channels := (s_channels s)[i := Some ((set_chan_buf ext cb' c)\<lparr>c_recvwindow := c_recvwindow c - n\<rparr>)]\<rparr>) \<and>
    cbuf_inv cb' \<and> cb_size cb' = cb_size cb \<and> cbuf_list cb' = cbuf_list cb @ data"
proof -
  have c: "chan_ok W i c" "i < length (s_channels s)" using assms(1,2) by (auto simp: chan_frame_def)
  have cb: "cbuf_inv cb" "cb_size cb = W" "unat (c_recvwindow c) \<le> unat (cb_size cb) - unat (cb_used cb)"
    using chan_buf_cases[OF c(1) assms(4)] assms(5) by (auto simp: cb_unset_def)
  have n: "unat n \<le> unat (c_recvwindow c)" using assms(11) by (simp add: word_le_nat_alt)
  let ?b = "advance b 4"
  have b: "buf_inv ?b" "unread ?b = data @ rest" using assms(8,9) by (simp_all add: advance_inv unread_advance)
  obtain cb' where cb': "recv_copy n ?b cb = Inr (advance ?b (unat n), cb')" "cbuf_inv cb'" "cb_size cb' = cb_size cb"
    "cbuf_list cb' = cbuf_list cb @ data"
    using recv_copy_ok[OF cb(1) b(1), of n] cb(3) n b(2) assms(10) by auto
  have av: "\<not> n > cbuf_getavail cb" using avail_eq[OF cb(1)] cb(3) n by (simp add: word_less_nat_alt)
  have W: "unat (c_recvwindow c - n) = unat (c_recvwindow c) - unat n" using n by (rule unat_sub_no_underflow)
  have w: "c_recvwindow c - n \<le> W" using W cb(2,3) by (simp add: word_le_nat_alt)
  have gi: "buf_getint b = Inr (n, ?b)" using gets_ok[OF gets_int assms(8,9)] by simp
  have e: "(if ext then c_extrabuf c else c_writebuf c) = Some cb" using assms(4) by (simp add: chan_buf_def)
  have "common_recv_msg_channel_data W i fd ext s =
      Inr (s\<lparr>s_payload := Some (advance b (4 + length data)),
             s_channels := (s_channels s)[i := Some ((set_chan_buf ext cb' c)\<lparr>c_recvwindow := c_recvwindow c - n\<rparr>)]\<rparr>)"
    using c(2) assms(2,3,6,7,10,11) av w cb'(1)
    by (auto simp: common_recv_msg_channel_data_def e gi chan_at_def nth_or_ub_def upd_chan_def set_chan_buf_def advance_advance)
  then show ?thesis using cb'(2-4) by blast
qed

lemma chan_frame_payload:
  assumes "chan_frame cr W i P s" and "buf_inv b"
  shows "chan_frame cr W i P (s\<lparr>s_payload := Some b\<rparr>)"
proof -
  have "sender_ok cr (s\<lparr>s_payload := Some b\<rparr>) = sender_ok cr s" by (rule sender_ok_cong) simp_all
  then show ?thesis using assms by (simp add: chan_frame_def table_inv_def payload_inv_def)
qed

lemma chan_frame_stored:
  assumes "chan_frame cr W i P s" and "buf_inv b" and "Q d"
  shows "chan_frame cr W i Q (s\<lparr>s_payload := Some b, s_channels := (s_channels s)[i := Some d]\<rparr>)"
  using chan_frame_set[OF chan_frame_payload[OF assms(1,2)], of Q d] assms(3) by simp

lemma sat_getint:
  assumes "buf_inv b" and "\<And>n. 4 \<le> length (unread b) \<Longrightarrow> sat (f (n, advance b 4)) Q"
  shows "sat (rbind (buf_getint b) f) Q"
proof (cases "4 \<le> length (unread b)")
  case True
  then obtain n where "load32h (take 4 (unread b)) = Inr n" using load32h_total[of "take 4 (unread b)"] by auto
  then show ?thesis using assms(2)[OF True] True by (simp add: buf_getint_ok[OF assms(1)] del: load32h.simps)
next
  case False
  then show ?thesis using assms(1) by (simp add: buf_getint_fail)
qed

text \<open>The end of \<open>common_recv_msg_channel_data\<close>, once the string is copied.\<close>

lemma sat_recv_account:
  assumes "chan_frame cr W i (chan_ok W i) s" and "s_channels s ! i = Some c" and "buf_inv b'"
    and "n \<le> c_recvwindow c \<Longrightarrow> chan_ok W i ((set_chan_buf ext cb' c)\<lparr>c_recvwindow := c_recvwindow c - n\<rparr>)"
  shows "sat (rbind (upd_chan i (if ext then (\<lambda>c. c\<lparr>c_extrabuf := Some cb'\<rparr>) else (\<lambda>c. c\<lparr>c_writebuf := Some cb'\<rparr>))
                      (s\<lparr>s_payload := Some b'\<rparr>)) (\<lambda>s.
             rbind (require (c_recvwindow c \<ge> n) (Assert ''channel->recvwindow >= datalen'')) (\<lambda>_.
             rbind (require (c_recvwindow c - n \<le> W) (Assert ''channel->recvwindow <= opts.recv_window'')) (\<lambda>_.
             upd_chan i (\<lambda>c. c\<lparr>c_recvwindow := c_recvwindow c - n\<rparr>) s)))) (chan_frame cr W i (chan_ok W i))"
proof (cases "n \<le> c_recvwindow c \<and> c_recvwindow c - n \<le> W")
  case True
  have l: "i < length (s_channels s)" using assms(1) by (simp add: chan_frame_def)
  show ?thesis using True l assms(2) chan_frame_stored[OF assms(1,3), of "chan_ok W i", OF assms(4)]
    by (simp add: upd_chan_def chan_at_def nth_or_ub_def set_chan_buf_def split: if_splits)
next
  case False
  have l: "i < length (s_channels s)" using assms(1) by (simp add: chan_frame_def)
  show ?thesis using False l assms(2)
    by (cases "n \<le> c_recvwindow c") (simp_all add: upd_chan_def chan_at_def nth_or_ub_def)
qed

lemma sat_common_recv:
  assumes "chan_frame cr W i (chan_ok W i) s" and "s_payload s = Some b"
  shows "sat (common_recv_msg_channel_data W i fd ext s) (chan_frame cr W i (chan_ok W i))"
  unfolding common_recv_msg_channel_data_def
proof (rule sat_chan_at[OF assms(1)])
  fix c assume c: "s_channels s ! i = Some c" "chan_ok W i c"
  let ?rest = "\<lambda>cbuf. rbind (deref (s_payload s)) (\<lambda>b.
           rbind (buf_getint b) (\<lambda>(datalen, b).
           if datalen > cbuf_getavail cbuf then Inl (Exit ''Oversized packet'')
           else
             rbind (recv_copy datalen b cbuf) (\<lambda>(b, cbuf).
             rbind (upd_chan i (if ext then (\<lambda>c. c\<lparr>c_extrabuf := Some cbuf\<rparr>) else (\<lambda>c. c\<lparr>c_writebuf := Some cbuf\<rparr>))
                      (s\<lparr>s_payload := Some b\<rparr>)) (\<lambda>s.
             rbind (require (c_recvwindow c \<ge> datalen) (Assert ''channel->recvwindow >= datalen'')) (\<lambda>_.
             rbind (require (c_recvwindow c - datalen \<le> W) (Assert ''channel->recvwindow <= opts.recv_window'')) (\<lambda>_.
             upd_chan i (\<lambda>c. c\<lparr>c_recvwindow := c_recvwindow c - datalen\<rparr>) s))))))"
  have b: "buf_inv b" using assms by (auto simp: chan_frame_def payload_inv_def)
  have main: "sat (?rest cb) (chan_frame cr W i (chan_ok W i))" if cb: "chan_buf ext c = Some cb" for cb
    unfolding assms(2) deref_simps rbind_simps
  proof (rule sat_getint[OF b], simp only: prod.case, rule sat_if)
    fix n assume l: "4 \<le> length (unread b)" and n: "\<not> n > cbuf_getavail cb"
    let ?b = "advance b 4"
    have ib: "buf_inv ?b" using b l by (simp add: advance_inv)
    consider "cb_unset cb" "\<not> ext" "c_recvwindow c = 0" | "cbuf_inv cb" "cb_size cb = W"
      using chan_buf_cases[OF c(2) cb] by blast
    then show "sat (rbind (recv_copy n ?b cb) (\<lambda>(b, cbuf).
             rbind (upd_chan i (if ext then (\<lambda>c. c\<lparr>c_extrabuf := Some cbuf\<rparr>) else (\<lambda>c. c\<lparr>c_writebuf := Some cbuf\<rparr>))
                      (s\<lparr>s_payload := Some b\<rparr>)) (\<lambda>s.
             rbind (require (c_recvwindow c \<ge> n) (Assert ''channel->recvwindow >= datalen'')) (\<lambda>_.
             rbind (require (c_recvwindow c - n \<le> W) (Assert ''channel->recvwindow <= opts.recv_window'')) (\<lambda>_.
             upd_chan i (\<lambda>c. c\<lparr>c_recvwindow := c_recvwindow c - n\<rparr>) s))))) (chan_frame cr W i (chan_ok W i))"
    proof cases
      case 1
      then have n0: "n = 0" using n by (simp add: cbuf_getavail_def cb_unset_def word_gt_0)
      have e: "(set_chan_buf ext cb c)\<lparr>c_recvwindow := c_recvwindow c - n\<rparr> = c"
        using 1(2) cb n0 by (simp add: set_chan_buf_def chan_buf_def)
      show ?thesis unfolding n0 recv_copy_0 rbind_simps prod.case
        by (rule sat_recv_account[OF assms(1) c(1) ib]) (use e c(2) n0 in simp)
    next
      case 2
      have nl: "unat n \<le> unat (cb_size cb) - unat (cb_used cb)"
        using n avail_eq[OF 2(1)] by (simp add: word_less_nat_alt)
      show ?thesis
      proof (cases "unat n \<le> length (unread ?b)")
        case True
        obtain cb' where cb': "recv_copy n ?b cb = Inr (advance ?b (unat n), cb')" "cbuf_inv cb'" "cb_size cb' = cb_size cb"
          "cbuf_list cb' = cbuf_list cb @ take (unat n) (unread ?b)"
          using recv_copy_ok[OF 2(1) ib nl True] by blast
        have u: "unat (cb_used cb') = unat (cb_used cb) + unat n" using arg_cong[OF cb'(4), of length] True by simp
        have z: "cb_size cb \<noteq> 0" using cbuf_invD(1)[OF 2(1)] by (auto simp: unat_gt_0)
        show ?thesis unfolding cb'(1) rbind_simps prod.case
          by (rule sat_recv_account[OF assms(1) c(1) advance_inv[OF ib True]]) (rule chan_ok_received[OF c(2) cb z cb'(2,3) u])
      next
        case False
        then show ?thesis using recv_copy_short[OF 2(1) ib nl] by simp
      qed
    qed
  qed simp
  show "sat (if c_recv_eof c then Inl (Exit ''Received data after eof'')
     else case (if ext then c_extrabuf c else c_writebuf c) of
       None \<Rightarrow> Inr s
     | Some cbuf \<Rightarrow> if fd < 0 then Inr s else ?rest cbuf) (chan_frame cr W i (chan_ok W i))"
    using assms(1) main unfolding chan_buf_def[symmetric]
    by (cases "c_recv_eof c"; cases "chan_buf ext c"; cases "fd < 0") simp_all
qed

subsection \<open>Writing to the local side\<close>

lemma window_adjust_runs:
  assumes "chan_frame cr W i P s" and "env_ok env"
  obtains s' where "send_msg_channel_window_adjust cr env k i incr s = Inr s'" and "chan_frame cr W i P s'"
    and "s_channels s' = s_channels s" and "s_output s' = s_output s"
proof -
  obtain c where c: "chan_at i s = Inr c" using chan_at_frame[OF assms(1)] by blast
  have so: "sender_ok cr s" using assms(1) by (simp add: chan_frame_def)
  obtain s' where s': "send_msg_channel_window_adjust cr env k i incr s = Inr s'" "sender_ok cr s'" "only_sent s s'"
    unfolding send_msg_channel_window_adjust_def c rbind_simps
    using send_payload_ok[OF so assms(2) puts_seq[OF puts_byte puts_seq[OF puts_int puts_int]],
        of SSH_MSG_CHANNEL_WINDOW_ADJUST "c_remotechan c" incr k] by auto
  have "s_channels s' = s_channels s" "s_output s' = s_output s"
    by (subst s'(3)[unfolded only_sent_def], simp)+
  then show thesis using that[OF s'(1) chan_frame_sent[OF assms(1) s'(2,3)]] by simp
qed

lemma chan_ok_asserts:
  assumes "chan_ok W i c" and "c_writebuf c = Some wb" and "cb_size wb \<noteq> 0"
  shows "c_recvwindow c \<le> W" and "c_recvwindow c \<le> cbuf_getavail wb"
    and "case c_extrabuf c of None \<Rightarrow> True | Some eb \<Rightarrow> c_recvwindow c \<le> cbuf_getavail eb"
proof -
  have f: "cbuf_inv wb" "cb_size wb = W"
    "unat (c_recvwindow c) + unat (c_recvdonelen c) + unat (cb_used wb) + buffered (c_extrabuf c) = unat W"
    "\<forall>eb. c_extrabuf c = Some eb \<longrightarrow> cbuf_inv eb \<and> cb_size eb = W"
    using assms by (auto simp: chan_ok_def chan_flow_def window_ok_def)
  show "c_recvwindow c \<le> W" using f(3) by (simp add: word_le_nat_alt)
  show "c_recvwindow c \<le> cbuf_getavail wb" using f(2,3) avail_eq[OF f(1)] by (simp add: word_le_nat_alt)
  show "case c_extrabuf c of None \<Rightarrow> True | Some eb \<Rightarrow> c_recvwindow c \<le> cbuf_getavail eb"
    using f(3,4) avail_eq by (auto simp: word_le_nat_alt buffered_def split: option.splits)
qed

text \<open>Taking \<open>n\<close> bytes out of a buffer, and announcing them.\<close>

lemma chan_ok_written:
  assumes "chan_ok W i c" and "chan_buf ext c = Some cb" and "cbuf_inv cb'" and "cb_size cb' = cb_size cb"
    and "unat (cb_used cb) = unat (cb_used cb') + n" and "0 < n" and "c_writebuf c = Some wb"
  shows "chan_ok W i ((set_chan_buf ext cb' c)\<lparr>c_recvdonelen := c_recvdonelen c + of_nat n\<rparr>)" and "cb_size wb \<noteq> 0"
proof -
  have w: "window_ok W wb c" using assms(1,7) by (auto simp: chan_ok_def chan_flow_def)
  show z: "cb_size wb \<noteq> 0"
    using w assms(2,5,6,7) by (cases ext) (auto simp: window_ok_def chan_buf_def buffered_def cb_unset_def)
  have f: "unat (c_recvwindow c) + unat (c_recvdonelen c) + unat (cb_used wb) + buffered (c_extrabuf c) = unat W"
    using w z by (simp add: window_ok_def)
  have n: "n \<le> unat W" using f assms(2,5,7) by (cases ext) (auto simp: chan_buf_def buffered_def)
  then have un: "unat (of_nat n :: u32) = n" using u32_lt[of W] by (intro unat_of_nat_u32) linarith
  have d: "unat (c_recvdonelen c) + n \<le> unat W" using f assms(2,5,7) by (cases ext) (auto simp: chan_buf_def buffered_def)
  have "unat (c_recvdonelen c) + n < 2 ^ 32" using d u32_lt[of W] by linarith
  then have dn: "unat (c_recvdonelen c + of_nat n) = unat (c_recvdonelen c) + n"
    using unat_add_no_overflow[of "c_recvdonelen c" "of_nat n"] un by simp
  have g: "unat (c_index c) = i" "chan_quiet c" "\<And>eb. c_extrabuf c = Some eb \<Longrightarrow> cbuf_inv eb \<and> cb_size eb = W" "cbuf_inv wb" "cb_size wb = W"
    using assms(1) w z by (simp_all add: chan_ok_def chan_flow_def window_ok_def)
  show "chan_ok W i ((set_chan_buf ext cb' c)\<lparr>c_recvdonelen := c_recvdonelen c + of_nat n\<rparr>)"
  proof (cases ext)
    case True
    then have "c_extrabuf c = Some cb" using assms(2) by (simp add: chan_buf_def)
    with True f g(1,2,4,5) g(3)[of cb] dn assms(3,4,5) z assms(7) show ?thesis
      by (simp add: set_chan_buf_def chan_ok_def chan_flow_def window_ok_def chan_quiet_def buffered_def)
  next
    case False
    then have "cb = wb" using assms(2,7) by (simp add: chan_buf_def)
    with False f g dn assms(3,4,5) z show ?thesis
      by (simp add: set_chan_buf_def chan_ok_def chan_flow_def window_ok_def chan_quiet_def)
  qed
qed

lemma chan_ok_announced:
  assumes "chan_ok W i c"
  shows "chan_ok W i (c\<lparr>c_recvwindow := c_recvwindow c + c_recvdonelen c, c_recvdonelen := 0\<rparr>)"
proof -
  obtain wb where wb: "c_writebuf c = Some wb" "window_ok W wb c" using assms by (auto simp: chan_ok_def chan_flow_def)
  have "unat (c_recvwindow c + c_recvdonelen c) = unat (c_recvwindow c) + unat (c_recvdonelen c)"
  proof (rule unat_add_no_overflow)
    have "unat (c_recvwindow c) + unat (c_recvdonelen c) \<le> unat W" using wb(2) by (auto simp: window_ok_def split: if_splits)
    then have "unat (c_recvwindow c) + unat (c_recvdonelen c) < 2 ^ 32" using u32_lt[of W] by linarith
    then show "unat (c_recvwindow c) + unat (c_recvdonelen c) < 2 ^ LENGTH(32)" by simp
  qed
  moreover have "unat (c_index c) = i" "chan_quiet c" "\<forall>eb. c_extrabuf c = Some eb \<longrightarrow> cbuf_inv eb \<and> cb_size eb = W"
    using assms by (simp_all add: chan_ok_def chan_flow_def)
  ultimately show ?thesis using wb
    by (cases "cb_size wb = 0") (simp_all add: chan_ok_def chan_flow_def window_ok_def chan_quiet_def)
qed

lemma drop_fd_bufs [simp]:
  "c_writebuf (drop_fd x y fd c) = c_writebuf c" "c_extrabuf (drop_fd x y fd c) = c_extrabuf c"
  "chan_buf ext (drop_fd x y fd c) = chan_buf ext c"
  by (simp_all add: drop_fd_def Let_def chan_buf_def)

lemma close_chan_fd_runs:
  assumes "chan_frame cr W i (chan_ok W i) s" and "s_channels s ! i = Some c"
  obtains s' c' where "close_chan_fd i fd how s = Inr s'" and "chan_frame cr W i (chan_ok W i) s'" and "s_channels s' ! i = Some c'"
    and "chan_buf ext c' = chan_buf ext c" and "s_output s' = s_output s" and "s_writepayload s' = s_writepayload s"
proof -
  have l: "i < length (s_channels s)" using assms(1) by (simp add: chan_frame_def)
  let ?d = "drop_fd (\<not> ct_sepfds (c_type c) \<or> how = 0) (\<not> ct_sepfds (c_type c) \<or> how \<noteq> 0) fd c"
  have "\<exists>s'. close_chan_fd i fd how s = Inr s' \<and> s_channels s' ! i = Some ?d \<and> s_output s' = s_output s \<and>
    s_writepayload s' = s_writepayload s"
    using l assms(2) by (auto simp: close_chan_fd_def chan_at_def nth_or_ub_def Let_def os_close_def)
  then obtain s' where s': "close_chan_fd i fd how s = Inr s'" "s_channels s' ! i = Some ?d" "s_output s' = s_output s"
    "s_writepayload s' = s_writepayload s" by blast
  have "chan_frame cr W i (chan_ok W i) s'"
    using satD[OF sat_close_chan_fd[OF assms(1) keeps_close_ok] s'(1)] .
  then show thesis using that[OF s'(1) _ s'(2)] s'(3,4) by simp
qed

text \<open>
  \<open>writechannel\<close> never fails: its assertions hold. What it writes are the first bytes of the buffer;
  the rest stays, in order.
\<close>

lemma writechannel_runs:
  assumes "chan_frame cr W i (chan_ok W i) s" and "s_channels s ! i = Some c" and "chan_buf ext c = Some cb" and "cbuf_inv cb"
    and "env_ok env"
  shows "\<exists>s' c' cb' bs. writechannel cr env k W wr i fd ext s = Inr s' \<and> chan_frame cr W i (chan_ok W i) s' \<and>
    s_channels s' ! i = Some c' \<and> chan_buf ext c' = Some cb' \<and> cbuf_list cb = bs @ cbuf_list cb' \<and>
    s_output s' = s_output s @ (if bs = [] then [] else [(fd, bs)])"

proof -
  have l: "i < length (s_channels s)" "chan_ok W i c" using assms(1,2) by (auto simp: chan_frame_def)
  obtain m where m: "cbuf_readlen cb = Inr m" using cbuf_readlen_total[OF assms(4)] by blast
  define bs0 where "bs0 = take (unat m) (cbuf_list cb)"
  have pk: "cbuf_peek m cb = Inr bs0" unfolding bs0_def by (rule cbuf_peek_ok[OF assms(4) m order_refl])
  note start = writechannel_def chan_at_def nth_or_ub_def
  show ?thesis
  proof (cases wr)
    case (WriteErr e)
    show ?thesis
    proof (cases "e = EINTR")
      case True
      then show ?thesis using WriteErr assms l m pk
        by (intro exI[of _ s] exI[of _ c] exI[of _ cb] exI[of _ "[]"]) (simp add: start)
    next
      case False
      obtain s' c' where s': "close_chan_fd i fd SHUT_WR s = Inr s'" "chan_frame cr W i (chan_ok W i) s'" "s_channels s' ! i = Some c'"
        "chan_buf ext c' = chan_buf ext c" "s_output s' = s_output s"
        by (rule close_chan_fd_runs[OF assms(1,2)])
      then show ?thesis using False WriteErr assms l m pk
        by (intro exI[of _ s'] exI[of _ c'] exI[of _ cb] exI[of _ "[]"]) (simp add: start)
    qed
  next
    case (WroteN n)
    let ?len = "min n (length bs0)"
    show ?thesis
    proof (cases "?len = 0")
      case True
      then show ?thesis using WroteN assms l m pk
        by (intro exI[of _ s] exI[of _ c] exI[of _ cb] exI[of _ "[]"]) (auto simp: start)
    next
      case False
      have lb: "length bs0 \<le> unat m" "length bs0 \<le> unat (cb_used cb)" by (simp_all add: bs0_def)
      have ul: "unat (of_nat ?len :: u32) = ?len" using lb(1) u32_lt[of m] by (intro unat_of_nat_u32) linarith
      have lm: "of_nat ?len \<le> m" using ul lb(1) by (simp add: word_le_nat_alt del: of_nat_min)
      obtain cb' where cb': "cbuf_incrread cb (of_nat ?len) = Inr cb'" "cbuf_inv cb'"
        "cbuf_list cb' = drop ?len (cbuf_list cb)" "cb_size cb' = cb_size cb"
        using cbuf_incrread_ok[OF assms(4) m lm] ul by auto
      have used: "unat (cb_used cb) = unat (cb_used cb') + ?len" using arg_cong[OF cb'(3), of length] lb(2) by simp
      have tk: "take ?len bs0 = take ?len (cbuf_list cb)" by (simp add: bs0_def min_def)
      obtain wb where wb: "c_writebuf c = Some wb" using l(2) by (auto simp: chan_ok_def chan_flow_def)
      let ?c1 = "(set_chan_buf ext cb' c)\<lparr>c_recvdonelen := c_recvdonelen c + of_nat ?len\<rparr>"
      note w = chan_ok_written[OF l(2) assms(3) cb'(2,4) used _ wb]
      have c1: "chan_ok W i ?c1" "cb_size wb \<noteq> 0" using w False by simp_all
      define s1 where "s1 = s\<lparr>s_output := s_output s @ [(fd, take ?len bs0)], s_channels := (s_channels s)[i := Some ?c1]\<rparr>"
      have f1: "chan_frame cr W i (chan_ok W i) s1"
        unfolding s1_def using chan_frame_set[of cr W i "chan_ok W i" "s\<lparr>s_output := s_output s @ [(fd, take ?len bs0)]\<rparr>"] assms(1) c1(1)
        by simp
      have ex: "\<exists>s2 c2. (if c_recvdonelen ?c1 \<ge> W div 3
                  then rbind (send_msg_channel_window_adjust cr env k i (c_recvdonelen ?c1) s1)
                         (upd_chan i (\<lambda>c. c\<lparr>c_recvwindow := c_recvwindow c + c_recvdonelen c, c_recvdonelen := 0\<rparr>))
                  else Inr s1) = Inr s2 \<and> chan_frame cr W i (chan_ok W i) s2 \<and> s_channels s2 ! i = Some c2 \<and>
           chan_buf ext c2 = Some cb' \<and> c_writebuf c2 = c_writebuf ?c1 \<and> s_output s2 = s_output s @ [(fd, take ?len bs0)]"
      proof (cases "c_recvdonelen ?c1 \<ge> W div 3")
        case True
        obtain s2 where s2: "send_msg_channel_window_adjust cr env k i (c_recvdonelen ?c1) s1 = Inr s2"
          "chan_frame cr W i (chan_ok W i) s2" "s_channels s2 = s_channels s1" "s_output s2 = s_output s1"
          by (rule window_adjust_runs[OF f1 assms(5)])
        let ?c2 = "?c1\<lparr>c_recvwindow := c_recvwindow ?c1 + c_recvdonelen ?c1, c_recvdonelen := 0\<rparr>"
        have "chan_frame cr W i (chan_ok W i) (s2\<lparr>s_channels := (s_channels s2)[i := Some ?c2]\<rparr>)"
          by (rule chan_frame_set[OF s2(2)]) (rule chan_ok_announced[OF c1(1)])
        moreover have "upd_chan i (\<lambda>c. c\<lparr>c_recvwindow := c_recvwindow c + c_recvdonelen c, c_recvdonelen := 0\<rparr>) s2 =
            Inr (s2\<lparr>s_channels := (s_channels s2)[i := Some ?c2]\<rparr>)"
          using l(1) by (simp add: upd_chan_def chan_at_def nth_or_ub_def s2(3) s1_def)
        ultimately show ?thesis using True s2 l(1)
          by (intro exI[of _ "s2\<lparr>s_channels := (s_channels s2)[i := Some ?c2]\<rparr>"] exI[of _ ?c2])
            (simp add: s1_def chan_buf_def set_chan_buf_def)
      next
        case False
        then show ?thesis using f1 l(1) by (intro exI[of _ s1] exI[of _ ?c1]) (simp add: s1_def chan_buf_def set_chan_buf_def)
      qed
      then obtain s2 c2 where s2: "(if c_recvdonelen ?c1 \<ge> W div 3
                  then rbind (send_msg_channel_window_adjust cr env k i (c_recvdonelen ?c1) s1)
                         (upd_chan i (\<lambda>c. c\<lparr>c_recvwindow := c_recvwindow c + c_recvdonelen c, c_recvdonelen := 0\<rparr>))
                  else Inr s1) = Inr s2" "chan_frame cr W i (chan_ok W i) s2" "s_channels s2 ! i = Some c2"
          "chan_buf ext c2 = Some cb'" "c_writebuf c2 = c_writebuf ?c1" "s_output s2 = s_output s @ [(fd, take ?len bs0)]" by blast
      have c2: "chan_ok W i c2" "i < length (s_channels s2)" using s2(2,3) by (auto simp: chan_frame_def)
      obtain wb2 where wb2: "c_writebuf c2 = Some wb2" "cb_size wb2 \<noteq> 0"
        using s2(5) wb c1(2) cb'(4) assms(3) by (cases ext) (auto simp: set_chan_buf_def chan_buf_def)
      note as = chan_ok_asserts[OF c2(1) wb2]
      have u1: "upd_chan i (\<lambda>c. (if ext then c\<lparr>c_extrabuf := Some cb'\<rparr> else c\<lparr>c_writebuf := Some cb'\<rparr>)
                                  \<lparr>c_recvdonelen := c_recvdonelen c + of_nat ?len\<rparr>)
                    (s\<lparr>s_output := s_output s @ [(fd, take ?len bs0)]\<rparr>) = Inr s1"
        using l(1) assms(2) by (simp add: upd_chan_def chan_at_def nth_or_ub_def s1_def set_chan_buf_def)
      have a: "chan_at i s = Inr c" "chan_at i s1 = Inr ?c1" "chan_at i s2 = Inr c2"
        using l(1) assms(2) c2(2) s2(3) by (simp_all add: chan_at_def nth_or_ub_def s1_def)
      have "writechannel cr env k W wr i fd ext s = Inr s2"
        unfolding writechannel_def a(1) rbind_simps assms(3) deref_simps m pk WroteN sock_write.case Let_def if_not_P[OF False] cb'(1) u1
          a(2) s2(1) a(3) wb2(1)
        using as by simp
      moreover have "cbuf_list cb = take ?len bs0 @ cbuf_list cb'" using cb'(3) tk by simp
      moreover have "take ?len bs0 \<noteq> []" using False by auto
      ultimately show ?thesis using s2
        by (intro exI[of _ s2] exI[of _ c2] exI[of _ cb'] exI[of _ "take ?len bs0"]) simp
    qed
  qed
qed

subsection \<open>Sending data\<close>

lemma close_chan_fd_wp:
  "close_chan_fd i fd how (s\<lparr>s_writepayload := w\<rparr>) = rbind (close_chan_fd i fd how s) (\<lambda>s'. Inr (s'\<lparr>s_writepayload := w\<rparr>))"
  by (auto simp: close_chan_fd_def chan_at_def nth_or_ub_def os_close_def Let_def split: option.splits)

lemma only_sent_wp: "only_sent (s\<lparr>s_writepayload := w\<rparr>) s' = only_sent s s'"
  by (simp add: only_sent_def)

lemma finish_buffer:
  assumes "mk_ok d p p z" and "p = h + 4" and "p + length bs \<le> z" and "n = of_nat (length bs)"
  shows "\<exists>d'. rbind (buf_getwriteptr (mkbuf d p p z) n) (\<lambda>q.
       rbind (mem_write (b_data (mkbuf d p p z)) q bs) (\<lambda>d.
       rbind (buf_incrwritepos ((mkbuf d p p z)\<lparr>b_data := d\<rparr>) n) (\<lambda>b.
       rbind (buf_setpos b (of_nat h)) (\<lambda>b.
       buf_putint b n)))) = Inr (mkbuf d' (p + length bs) p z) \<and>
     take (p + length bs) d' = take h d @ store32h n @ bs \<and> length d' = length d"
proof -
  note m = mk_okD[OF assms(1)]
  have n: "unat n = length bs" unfolding assms(4) using assms(3) m by (intro unat_of_nat_u32) simp
  have h: "unat (of_nat h :: u32) = h" using assms(2) m by (intro unat_of_nat_u32) simp
  let ?d = "patch d p bs"
  have ok1: "mk_ok ?d p p z" and ok2: "mk_ok ?d (p + length bs) (p + length bs) z" and ok3: "mk_ok ?d (p + length bs) h z"
    using m assms(2,3) by (simp_all add: mk_ok_def)
  have mw: "mem_write d p bs = Inr ?d" using m assms(3) by (intro mem_write_patch) simp
  have mx: "max p (p + length bs) = p + length bs" "max (h + 4) (p + length bs) = p + length bs" using assms(2) by simp_all
  let ?d' = "patch ?d h (store32h n)"
  have g: "buf_getwriteptr (mkbuf d p p z) n = Inr p" using mk_getwriteptr[OF assms(1), of n] n assms(3) by simp
  have i: "buf_incrwritepos (mkbuf ?d p p z) n = Inr (mkbuf ?d (p + length bs) (p + length bs) z)"
    using mk_incrwritepos[OF ok1, of n] n assms(3) mx(1) by simp
  have st: "buf_setpos (mkbuf ?d (p + length bs) (p + length bs) z) (of_nat h) = Inr (mkbuf ?d (p + length bs) h z)"
    using mk_setpos[OF ok2, of "of_nat h"] h assms(2) by simp
  have q: "buf_putint (mkbuf ?d (p + length bs) h z) n = Inr (mkbuf ?d' (p + length bs) p z)"
    using mk_putint[OF ok3, of n] assms(2,3) mx(2) by simp
  have "rbind (buf_getwriteptr (mkbuf d p p z) n) (\<lambda>q.
       rbind (mem_write (b_data (mkbuf d p p z)) q bs) (\<lambda>d.
       rbind (buf_incrwritepos ((mkbuf d p p z)\<lparr>b_data := d\<rparr>) n) (\<lambda>b.
       rbind (buf_setpos b (of_nat h)) (\<lambda>b.
       buf_putint b n)))) = Inr (mkbuf ?d' (p + length bs) p z)"
    by (simp only: g mkbuf_fields mw i st q rbind_simps)
  moreover have "take (p + length bs) ?d' = take h d @ store32h n @ bs" "length ?d' = length d"
    using m assms(2,3) by (simp_all add: patch_def min_def)
  ultimately show ?thesis by blast
qed

text \<open>A session while a message is being written: \<open>hdr\<close> and an empty length field are in the payload.\<close>

definition mid_send :: "crypto \<Rightarrow> u32 \<Rightarrow> nat \<Rightarrow> bytes \<Rightarrow> 'a chansession_scheme \<Rightarrow> bool" where
  "mid_send cr W i hdr s \<longleftrightarrow> (\<exists>d w. s_writepayload s = mkbuf d (length hdr + 4) (length hdr + 4) 16384 \<and>
     mk_ok d (length hdr + 4) (length hdr + 4) 16384 \<and> take (length hdr) d = hdr \<and>
     chan_frame cr W i (chan_ok W i) (s\<lparr>s_writepayload := w\<rparr>))"

lemma finish_channel_data_eq:
  assumes "mid_send cr W i hdr s" and "s_channels s ! i = Some c" and "bs \<noteq> []" and "length hdr + 4 + length bs \<le> 16384"
    and "env_ok env"
  defines "s1 wp \<equiv> s\<lparr>s_writepayload := wp,
    s_channels := (s_channels s)[i := Some (c\<lparr>c_transwindow := c_transwindow c - of_nat (length bs)\<rparr>)]\<rparr>"
  shows "\<exists>wp s2. contents wp = hdr @ store32h (of_nat (length bs)) @ bs \<and>
    encrypt_packet cr (env_rnd env k) (env_mac env) (s1 wp) = Inr s2 \<and> chan_frame cr W i (chan_ok W i) s2 \<and>
    s_channels s2 ! i = Some (c\<lparr>c_transwindow := c_transwindow c - of_nat (length bs)\<rparr>) \<and>
    finish_channel_data cr env k i fd maxlen (of_nat (length hdr)) bs s =
      (if c_flushing c \<and> length bs < unat maxlen then close_chan_fd i fd SHUT_RD s2 else Inr s2)"
proof -
  let ?h = "length hdr" and ?n = "length bs"
  let ?c = "c\<lparr>c_transwindow := c_transwindow c - of_nat ?n\<rparr>"
  obtain d w where d: "s_writepayload s = mkbuf d (?h + 4) (?h + 4) 16384" "mk_ok d (?h + 4) (?h + 4) 16384" "take ?h d = hdr"
    "chan_frame cr W i (chan_ok W i) (s\<lparr>s_writepayload := w\<rparr>)"
    using assms(1) by (auto simp: mid_send_def)
  have c: "chan_ok W i c" "i < length (s_channels s)" using d(4) assms(2) by (auto simp: chan_frame_def)
  obtain d' where d': "on_writepayload (\<lambda>b.
       rbind (buf_getwriteptr b (of_nat ?n)) (\<lambda>p.
       rbind (mem_write (b_data b) p bs) (\<lambda>d.
       rbind (buf_incrwritepos (b\<lparr>b_data := d\<rparr>) (of_nat ?n)) (\<lambda>b.
       rbind (buf_setpos b (of_nat ?h)) (\<lambda>b.
       buf_putint b (of_nat ?n)))))) s = Inr (s\<lparr>s_writepayload := mkbuf d' (?h + 4 + ?n) (?h + 4) 16384\<rparr>)"
    "take (?h + 4 + ?n) d' = hdr @ store32h (of_nat ?n) @ bs" "length d' = length d"
    using finish_buffer[OF d(2) refl assms(4) refl] unfolding on_writepayload_def d(1,3) by auto
  let ?wp = "mkbuf d' (?h + 4 + ?n) (?h + 4) 16384"
  have ok: "mk_ok d' (?h + 4 + ?n) (?h + 4) 16384" using d(2) d'(3) assms(4) by (simp add: mk_ok_def)
  have cont: "contents ?wp = hdr @ store32h (of_nat ?n) @ bs" using contents_mk[OF ok] d'(2) by simp
  have pay: "payload_ok ?wp" "length (contents ?wp) \<le> 16384" "b_size ?wp = TRANS_MAX_PAYLOAD_LEN"
    using mk_inv[OF ok] mk_okD(2)[OF ok] assms(3,4) cont by (simp_all add: payload_ok_def TRANS_MAX_PAYLOAD_LEN_def)
  have sw: "s\<lparr>s_writepayload := w, s_channels := (s_channels s)[i := Some ?c]\<rparr> =
      s\<lparr>s_channels := (s_channels s)[i := Some ?c], s_writepayload := w\<rparr>" by simp
  have "chan_frame cr W i (chan_ok W i) (s\<lparr>s_writepayload := w, s_channels := (s_channels s)[i := Some ?c]\<rparr>)"
    using chan_frame_set[OF d(4), of "chan_ok W i" ?c] c(1) by simp
  then have fr: "chan_frame cr W i (chan_ok W i) (s\<lparr>s_channels := (s_channels s)[i := Some ?c], s_writepayload := w\<rparr>)"
    by (simp only: sw)
  let ?s0 = "s\<lparr>s_channels := (s_channels s)[i := Some ?c]\<rparr>"
  have "sender_ok cr (?s0\<lparr>s_writepayload := w\<rparr>)" using fr by (simp add: chan_frame_def)
  from encrypt_sender_ok[OF this pay, of "env_mac env" "env_rnd env k"] assms(5)
  obtain s2 where s2: "encrypt_packet cr (env_rnd env k) (env_mac env) (?s0\<lparr>s_writepayload := ?wp\<rparr>) = Inr s2"
    "sender_ok cr s2" "only_sent ?s0 s2" by (auto simp: env_ok_def)
  have e: "s1 ?wp = ?s0\<lparr>s_writepayload := ?wp\<rparr>" by (simp add: s1_def)
  have "only_sent (?s0\<lparr>s_writepayload := w\<rparr>) s2" using s2(3) by (simp add: only_sent_wp)
  then have f2: "chan_frame cr W i (chan_ok W i) s2" using chan_frame_sent[OF _ s2(2)] fr by auto
  have c2: "s_channels s2 ! i = Some ?c" using c(2) by (subst s2(3)[unfolded only_sent_def]) simp
  have l2: "i < length (s_channels s2)" using f2 by (simp add: chan_frame_def)
  have "finish_channel_data cr env k i fd maxlen (of_nat ?h) bs s =
      (if c_flushing c \<and> ?n < unat maxlen then close_chan_fd i fd SHUT_RD s2 else Inr s2)"
    unfolding finish_channel_data_def d'(1) rbind_simps using c(2) assms(2) s2(1)[folded e, unfolded s1_def] c2 l2
    by (simp add: upd_chan_def chan_at_def nth_or_ub_def)
  then show ?thesis using cont s2(1) f2 c2 unfolding e[symmetric] by blast
qed

lemma sat_finish:
  assumes "mid_send cr W i hdr s" and "bs \<noteq> []" and "length hdr + 4 + length bs \<le> 16384" and "env_ok env"
  shows "sat (finish_channel_data cr env k i fd maxlen (of_nat (length hdr)) bs s) (chan_frame cr W i (chan_ok W i))"
proof -
  obtain c where c: "s_channels s ! i = Some c" using assms(1) by (auto simp: mid_send_def chan_frame_def)
  obtain s2 where "chan_frame cr W i (chan_ok W i) s2" "finish_channel_data cr env k i fd maxlen (of_nat (length hdr)) bs s =
      (if c_flushing c \<and> length bs < unat maxlen then close_chan_fd i fd SHUT_RD s2 else Inr s2)"
    using finish_channel_data_eq[OF assms(1) c assms(2-4), of k fd maxlen] by blast
  moreover from this have "sat (close_chan_fd i fd SHUT_RD s2) (chan_frame cr W i (chan_ok W i))"
    using sat_close_chan_fd[OF _ keeps_close_ok] by blast
  ultimately show ?thesis by simp
qed

lemma sat_clear:
  assumes "mid_send cr W i hdr s"
  shows "sat (clear_writepayload s) (chan_frame cr W i (chan_ok W i))"
proof -
  let ?p = "length hdr + 4"
  obtain d w where d: "s_writepayload s = mkbuf d ?p ?p 16384" "mk_ok d ?p ?p 16384"
    "chan_frame cr W i (chan_ok W i) (s\<lparr>s_writepayload := w\<rparr>)"
    using assms by (auto simp: mid_send_def)
  have ok: "mk_ok d ?p 0 16384" "mk_ok d 0 0 16384" using d(2) by (simp_all add: mk_ok_def)
  have "clear_writepayload s = Inr (s\<lparr>s_writepayload := mkbuf d 0 0 16384\<rparr>)"
    using mk_setpos[OF d(2), of 0] mk_setlen[OF ok(1), of 0] by (simp add: clear_writepayload_def d(1))
  moreover have "chan_frame cr W i (chan_ok W i) (s\<lparr>s_writepayload := mkbuf d 0 0 16384\<rparr>)"
    using d(3) mk_inv[OF ok(2)]
    by (auto simp: chan_frame_def sender_ok_def in_step_def fresh_payload_def TRANS_MAX_PAYLOAD_LEN_def table_inv_def payload_inv_def)
  ultimately show ?thesis by simp
qed

lemma sat_mid_close:
  assumes "mid_send cr W i hdr s"
  shows "sat (close_chan_fd i fd how s) (mid_send cr W i hdr)"
proof -
  obtain d w where d: "s_writepayload s = mkbuf d (length hdr + 4) (length hdr + 4) 16384"
    "mk_ok d (length hdr + 4) (length hdr + 4) 16384" "take (length hdr) d = hdr"
    "chan_frame cr W i (chan_ok W i) (s\<lparr>s_writepayload := w\<rparr>)"
    using assms by (auto simp: mid_send_def)
  obtain c where "s_channels (s\<lparr>s_writepayload := w\<rparr>) ! i = Some c" using d(4) by (auto simp: chan_frame_def)
  then obtain s' where s': "close_chan_fd i fd how (s\<lparr>s_writepayload := w\<rparr>) = Inr s'" "chan_frame cr W i (chan_ok W i) s'"
    "s_writepayload s' = w"
    by (rule close_chan_fd_runs[OF d(4), of c fd how]) simp
  have "close_chan_fd i fd how s = Inr (s'\<lparr>s_writepayload := s_writepayload s\<rparr>)"
    using close_chan_fd_wp[of i fd how "s_writepayload s" "s\<lparr>s_writepayload := w\<rparr>"] s'(1) by simp
  moreover have "s'\<lparr>s_writepayload := w\<rparr> = s'" using s'(3) by simp
  ultimately show ?thesis using d s'(2) by (simp add: mid_send_def) (metis d(2,3))
qed

definition data_header :: "bool \<Rightarrow> u32 \<Rightarrow> bytes" where
  "data_header isextended remotechan =
     (if isextended then [SSH_MSG_CHANNEL_EXTENDED_DATA] @ store32h remotechan @ store32h SSH_EXTENDED_DATA_STDERR
      else [SSH_MSG_CHANNEL_DATA] @ store32h remotechan)"

lemma length_data_header: "length (data_header ext r) = (if ext then 9 else 5)"
  by (simp add: data_header_def)

lemma puts_data_header: "puts (put_data_header ext r) (data_header ext r)"
proof (cases ext)
  case True
  then show ?thesis using puts_seq[OF puts_byte puts_seq[OF puts_int puts_int]]
    unfolding put_data_header_def data_header_def by simp
next
  case False
  have "(\<lambda>b. rbind (buf_putint b r) Inr) = (\<lambda>b. buf_putint b r)" by (simp add: rbind_def fun_eq_iff split: sum.splits)
  then show ?thesis using False puts_seq[OF puts_byte puts_int] unfolding put_data_header_def data_header_def by simp
qed

text \<open>What may be sent at most: the window, the largest packet of the peer, and the payload buffer.\<close>

definition data_limit :: "Channel \<Rightarrow> bool \<Rightarrow> u32" where
  "data_limit c ext = min (min (c_transwindow c) (c_transmaxpacket c)) (16384 - 1 - 4 - 4 - (if ext then 4 else 0))"

lemma data_limit_le:
  "unat (data_limit c ext) \<le> unat (c_transwindow c)" "unat (data_limit c ext) \<le> unat (c_transmaxpacket c)"
  "length (data_header ext r) + 4 + unat (data_limit c ext) \<le> 16384"
  unfolding length_data_header data_limit_def by (auto simp: word_le_nat_alt min_def)

text \<open>The start of \<open>send_msg_channel_data\<close>, up to the call of \<open>read\<close>.\<close>

lemma send_data_start:
  assumes "chan_frame cr W i (chan_ok W i) s" and "s_channels s ! i = Some c" and "\<not> c_sent_close c"
    and "0 \<le> (if ext then c_errfd c else c_readfd c)" and "data_limit c ext \<noteq> 0"
  defines "hdr \<equiv> data_header ext (c_remotechan c)" and "fd \<equiv> if ext then c_errfd c else c_readfd c"
  obtains d where "mk_ok d (length hdr + 4) (length hdr + 4) 16384" and "take (length hdr) d = hdr"
    and "send_msg_channel_data ops cr env k rd i ext s =
     (let s = s\<lparr>s_writepayload := mkbuf d (length hdr + 4) (length hdr + 4) 16384\<rparr> in
      case os_read rd (data_limit c ext) of
        Inl e \<Rightarrow> rbind (if e \<noteq> EINTR then close_chan_fd i fd SHUT_RD s else Inr s) clear_writepayload
      | Inr bs \<Rightarrow>
          if bs = [] then rbind (close_chan_fd i fd SHUT_RD s) clear_writepayload
          else
            let s = s\<lparr>s_writepayload := mkbuf (patch d (length hdr + 4) bs) (length hdr + 4) (length hdr + 4) 16384\<rparr>
            in if c_read_mangler c
               then rbind (co_read_mangler (ops (c_type c)) i bs s) (\<lambda>(bs, s).
                    if bs = [] then clear_writepayload s
                    else finish_channel_data cr env k i fd (data_limit c ext) (of_nat (length hdr)) bs s)
               else finish_channel_data cr env k i fd (data_limit c ext) (of_nat (length hdr)) bs s)"
proof -
  have so: "sender_ok cr s" "i < length (s_channels s)" using assms(1) by (simp_all add: chan_frame_def)
  note wp = sender_okD[OF so(1)]
  let ?w = "s_writepayload s" and ?h = "length hdr"
  define d0 where "d0 = b_data ?w"
  have w: "?w = mkbuf d0 0 0 16384" "mk_ok d0 0 0 16384"
    using buf_inv_mkbuf[OF wp(1)] wp(2-4) by (simp_all add: d0_def)
  have h: "?h = (if ext then 9 else 5)" by (simp add: hdr_def length_data_header)
  have l: "?h \<le> room ?w" using h wp(5) by simp
  define d1 where "d1 = patch d0 0 hdr"
  have ok1: "mk_ok d1 ?h ?h 16384" using w(2) h by (simp add: mk_ok_def d1_def)
  have 1: "put_data_header ext (c_remotechan c) ?w = Inr (mkbuf d1 ?h ?h 16384)"
    using puts_ok[OF puts_data_header wp(1), of ext "c_remotechan c"] l overwrite_mk[OF w(2), of hdr]
    unfolding hdr_def d1_def w(1) by simp
  define d where "d = patch d1 ?h (store32h 0)"
  have ok2: "mk_ok d (?h + 4) (?h + 4) 16384" using ok1 h by (simp add: mk_ok_def d_def)
  have 2: "buf_putint (mkbuf d1 ?h ?h 16384) 0 = Inr (mkbuf d (?h + 4) (?h + 4) 16384)"
    using mk_putint[OF ok1, of 0] h by (simp add: d_def)
  have td: "take ?h d = hdr" using ok1 h by (simp add: d_def d1_def patch_def mk_ok_def)
  have lim: "unat (data_limit c ext) + ?h + 4 \<le> 16384" using data_limit_le(3)[where r = "c_remotechan c"] by (simp add: hdr_def add.commute add.left_commute)
  have gw: "buf_getwriteptr (mkbuf d (?h + 4) (?h + 4) 16384) (data_limit c ext) = Inr (?h + 4)"
    using mk_getwriteptr[OF ok2, of "data_limit c ext"] lim by simp
  have mw: "mem_write d (?h + 4) bs = Inr (patch d (?h + 4) bs)" if "os_read rd (data_limit c ext) = Inr bs" for bs
    using that lim mk_okD(6)[OF ok2] by (intro mem_write_patch) (auto simp: os_read_def split: sock_read.splits)
  have sz: "b_size ?w = 16384" using wp(4) .
  have a: "chan_at i s = Inr c" using so(2) assms(2) by (simp add: chan_at_def nth_or_ub_def)
  have fdn: "0 \<le> fd" using assms(4) by (simp add: fd_def)
  have "send_msg_channel_data ops cr env k rd i ext s =
     (let s = s\<lparr>s_writepayload := mkbuf d (?h + 4) (?h + 4) 16384\<rparr> in
      case os_read rd (data_limit c ext) of
        Inl e \<Rightarrow> rbind (if e \<noteq> EINTR then close_chan_fd i fd SHUT_RD s else Inr s) clear_writepayload
      | Inr bs \<Rightarrow>
          if bs = [] then rbind (close_chan_fd i fd SHUT_RD s) clear_writepayload
          else
            let s = s\<lparr>s_writepayload := mkbuf (patch d (?h + 4) bs) (?h + 4) (?h + 4) 16384\<rparr>
            in if c_read_mangler c
               then rbind (co_read_mangler (ops (c_type c)) i bs s) (\<lambda>(bs, s).
                    if bs = [] then clear_writepayload s
                    else finish_channel_data cr env k i fd (data_limit c ext) (of_nat ?h) bs s)
               else finish_channel_data cr env k i fd (data_limit c ext) (of_nat ?h) bs s)"
    unfolding send_msg_channel_data_def a rbind_simps Let_def sz data_limit_def[symmetric] fd_def[symmetric]
    using assms(3,5) fdn by (cases "os_read rd (data_limit c ext)") (simp_all add: on_writepayload_def 1 2 gw mw case_prod_beta' cong: if_cong del: mem_write_ok)
  then show thesis using that[OF ok2 td] by blast
qed

lemma mid_sendI:
  assumes "chan_frame cr W i (chan_ok W i) s" and "mk_ok d (length hdr + 4) (length hdr + 4) 16384" and "take (length hdr) d = hdr"
  shows "mid_send cr W i hdr (s\<lparr>s_writepayload := mkbuf d (length hdr + 4) (length hdr + 4) 16384\<rparr>)"
  using assms unfolding mid_send_def
  by (intro exI[of _ d] exI[of _ "s_writepayload s"]) simp

lemma mid_send_truncate:
  assumes "mid_send cr W i hdr s" and "chansession.truncate s' = chansession.truncate s"
  shows "mid_send cr W i hdr s'"
proof -
  have f: "s_keys s' = s_keys s" "s_transseq s' = s_transseq s" "s_writequeue s' = s_writequeue s"
    "s_writepayload s' = s_writepayload s" "s_payload s' = s_payload s" "s_channels s' = s_channels s"
    "s_chansize s' = s_chansize s" "s_chancount s' = s_chancount s"
    using arg_cong[OF assms(2), of s_keys] arg_cong[OF assms(2), of s_transseq] arg_cong[OF assms(2), of s_writequeue]
      arg_cong[OF assms(2), of s_writepayload] arg_cong[OF assms(2), of s_payload] arg_cong[OF assms(2), of s_channels]
      arg_cong[OF assms(2), of s_chansize] arg_cong[OF assms(2), of s_chancount]
    by (simp_all add: chansession.defs)
  have "chan_frame cr W i (chan_ok W i) (s'\<lparr>s_writepayload := w\<rparr>) = chan_frame cr W i (chan_ok W i) (s\<lparr>s_writepayload := w\<rparr>)" for w
    by (rule chan_frame_cong) (simp_all add: f)
  then show ?thesis using assms(1) f(4) by (simp add: mid_send_def)
qed

lemma ops_ok_mangler:
  assumes "ops_ok cr W ops"
  shows "sat (co_read_mangler (ops ty) i bs s) (\<lambda>(bs', s'). length bs' \<le> length bs \<and> chansession.truncate s' = chansession.truncate s)"
  using assms by (simp add: ops_ok_def)

lemma sat_send_data:
  assumes "chan_frame cr W i (chan_ok W i) s" and "env_ok env" and "ops_ok cr W ops"
  shows "sat (send_msg_channel_data ops cr env k rd i ext s) (chan_frame cr W i (chan_ok W i))"
proof -
  obtain c where c: "s_channels s ! i = Some c" "i < length (s_channels s)" "sender_ok cr s" using assms(1) by (auto simp: chan_frame_def)
  let ?fd = "if ext then c_errfd c else c_readfd c" and ?hdr = "data_header ext (c_remotechan c)"
  let ?M = "data_limit c ext"
  have a: "chan_at i s = Inr c" using c by (simp add: chan_at_def nth_or_ub_def)
  show ?thesis
  proof (cases "c_sent_close c \<or> ?fd < 0 \<or> ?M = 0")
    case True
    have z: "b_size (s_writepayload s) = 16384" using sender_okD[OF c(3)] by simp
    have "send_msg_channel_data ops cr env k rd i ext s = Inr s \<or>
        (\<exists>m. send_msg_channel_data ops cr env k rd i ext s = Inl (Assert m))"
      using True unfolding send_msg_channel_data_def a rbind_simps Let_def z data_limit_def[symmetric]
      by (cases "c_sent_close c"; cases "?fd < 0") (simp_all add: not_le)
    then show ?thesis using assms(1) by auto
  next
    case False
    let ?h = "length ?hdr"
    obtain d where d: "mk_ok d (?h + 4) (?h + 4) 16384" "take ?h d = ?hdr"
      "send_msg_channel_data ops cr env k rd i ext s =
     (let s = s\<lparr>s_writepayload := mkbuf d (?h + 4) (?h + 4) 16384\<rparr> in
      case os_read rd ?M of
        Inl e \<Rightarrow> rbind (if e \<noteq> EINTR then close_chan_fd i ?fd SHUT_RD s else Inr s) clear_writepayload
      | Inr bs \<Rightarrow>
          if bs = [] then rbind (close_chan_fd i ?fd SHUT_RD s) clear_writepayload
          else
            let s = s\<lparr>s_writepayload := mkbuf (patch d (?h + 4) bs) (?h + 4) (?h + 4) 16384\<rparr>
            in if c_read_mangler c
               then rbind (co_read_mangler (ops (c_type c)) i bs s) (\<lambda>(bs, s).
                    if bs = [] then clear_writepayload s
                    else finish_channel_data cr env k i ?fd ?M (of_nat ?h) bs s)
               else finish_channel_data cr env k i ?fd ?M (of_nat ?h) bs s)"
      by (rule send_data_start[OF assms(1) c(1), of ext ops env k rd]) (use False in auto)
    define s1 where "s1 = s\<lparr>s_writepayload := mkbuf d (?h + 4) (?h + 4) 16384\<rparr>"
    have m1: "mid_send cr W i ?hdr s1" unfolding s1_def by (rule mid_sendI[OF assms(1) d(1,2)])
    have cl: "sat (rbind (close_chan_fd i ?fd SHUT_RD s1) clear_writepayload) (chan_frame cr W i (chan_ok W i))"
      by (rule sat_rbind[OF sat_mid_close[OF m1] sat_clear])
    show ?thesis
    proof (cases "os_read rd ?M")
      case (Inl e)
      then show ?thesis unfolding d(3) s1_def[symmetric] Let_def Inl using cl sat_clear[OF m1] by (cases "e = EINTR") simp_all
    next
      case (Inr bs)
      have lb: "length bs \<le> unat ?M" using Inr by (auto simp: os_read_def split: sock_read.splits)
      have lim: "?h + 4 + unat ?M \<le> 16384" by (rule data_limit_le(3))
      let ?d = "patch d (?h + 4) bs"
      have ok: "mk_ok ?d (?h + 4) (?h + 4) 16384" and tk: "take ?h ?d = ?hdr"
        using d(1,2) lb lim by (simp_all add: mk_ok_def) (simp add: patch_def min_def)
      have m2: "mid_send cr W i ?hdr (s1\<lparr>s_writepayload := mkbuf ?d (?h + 4) (?h + 4) 16384\<rparr>)"
        using mid_sendI[OF assms(1) ok tk] by (simp add: s1_def)
      have mg: "sat (co_read_mangler (ops (c_type c)) i bs (s1\<lparr>s_writepayload := mkbuf ?d (?h + 4) (?h + 4) 16384\<rparr>))
          (\<lambda>(bs', s'). length bs' \<le> length bs \<and> mid_send cr W i ?hdr s')"
        by (rule sat_mono[OF ops_ok_mangler[OF assms(3)]]) (auto dest: mid_send_truncate[OF m2])
      have fin: "sat (finish_channel_data cr env k i ?fd ?M (of_nat ?h) bs' s') (chan_frame cr W i (chan_ok W i))"
        if "bs' \<noteq> []" "length bs' \<le> length bs" "mid_send cr W i ?hdr s'" for bs' s'
        using that lb lim by (intro sat_finish[OF _ _ _ assms(2)]) simp_all
      have step: "sat (if bs' = [] then clear_writepayload s' else finish_channel_data cr env k i ?fd ?M (of_nat ?h) bs' s')
          (chan_frame cr W i (chan_ok W i))" if "length bs' \<le> length bs" "mid_send cr W i ?hdr s'" for bs' s'
        using that fin[of bs' s'] sat_clear[of cr W i ?hdr s'] by (cases "bs' = []") simp_all
      have rest: "sat (rbind (co_read_mangler (ops (c_type c)) i bs (s1\<lparr>s_writepayload := mkbuf ?d (?h + 4) (?h + 4) 16384\<rparr>)) (\<lambda>(bs, s).
                    if bs = [] then clear_writepayload s
                    else finish_channel_data cr env k i ?fd ?M (of_nat ?h) bs s)) (chan_frame cr W i (chan_ok W i))"
        by (rule sat_rbind_pair[OF mg], elim conjE) (rule step)
      show ?thesis unfolding d(3) s1_def[symmetric] Let_def Inr sum.case
        using cl rest fin[of bs, OF _ _ m2] by simp
    qed
  qed
qed

end
