(* ===== verification/ChannelRun.thy ===== *)
theory ChannelRun
  imports ChannelFlow
begin

text \<open>
  Every operation of \<^verbatim>\<open>src/reconos/dropbear/common-channel.c\<close> keeps the invariant of the table of channels and has
  no undefined behaviour, whatever the peer sends, whatever the operating system answers and in whatever order the
  operations are called. The operations that may free the channel they work on end in \<open>chans_inv\<close>, the others
  keep \<open>chan_held\<close>, the frame of a channel that is still there.
\<close>

abbreviation chan_held :: "crypto \<Rightarrow> u32 \<Rightarrow> nat \<Rightarrow> 'a chansession_scheme \<Rightarrow> bool" where
  "chan_held cr W i \<equiv> chan_frame cr W i (chan_ok W i)"

subsection \<open>Closing down\<close>

lemma sat_held_inv: "sat m (chan_held cr W i) \<Longrightarrow> sat m (chans_inv cr W)"
  by (erule sat_mono) (rule chan_frame_inv)

lemma write_pending_total: "chan_ok W i c \<Longrightarrow> \<exists>p. write_pending c = Inr p"
  by (auto simp: write_pending_def chan_ok_def chan_flow_def)

lemma sat_pending:
  assumes "chan_ok W i c" and "\<And>p. sat (f p) Q"
  shows "sat (rbind (if x then write_pending c else Inr y) f) Q"
  using write_pending_total[OF assms(1)] assms(2) by auto

lemma sat_type_check_close:
  assumes "chan_frame cr W i P s" and "ops_ok cr W ops"
  shows "sat (type_check_close ops i s) (\<lambda>_. True)"
  unfolding type_check_close_def
proof (rule sat_chan_at[OF assms(1)])
  fix c
  show "sat (case co_check_close (ops (c_type c)) of None \<Rightarrow> Inr False | Some f \<Rightarrow> f i s) (\<lambda>_. True)"
    using assms(2) frame_pre[OF assms(1)] by (cases "co_check_close (ops (c_type c))") (auto simp: ops_ok_def sat_def)
qed

lemma sat_flush:
  assumes "chan_held cr W i s" and "env_ok env" and "ops_ok cr W ops"
  shows "sat (flush_channel ops cr env rd rderr i s) (chan_held cr W i)"
  unfolding flush_channel_def
  apply (rule sat_chan_at[OF assms(1)])
  apply (rule sat_if, simp add: assms(1))
  apply (rule sat_rbind[where P = "chan_held cr W i"])
   apply (rule sat_keep[OF sat_send_data[OF assms] assms(1)])
  apply (rule sat_chan_at, assumption)
  apply (rule sat_keep[OF sat_send_data[OF _ assms(2,3)]], assumption+)
  done

text \<open>The part of \<open>check_close\<close> after the test whether the channel can be removed.\<close>

lemma sat_check_close_open:
  assumes "chan_held cr W i s" and "env_ok env" and "ops_ok cr W ops" and "chan_ok W i c"
  shows "sat (rbind (if c_recv_eof c then write_pending c else Inr False) (\<lambda>pending.
       rbind (if (c_recv_eof c \<and> \<not> pending) \<or> (co_check_close (ops (c_type c)) \<noteq> None \<and> close_allowed)
              then close_chan_fd i (c_writefd c) SHUT_WR s else Inr s) (\<lambda>s.
       rbind (flush_channel ops cr env rd rderr i s) (\<lambda>s.
       rbind (chan_at i s) (\<lambda>c.
       rbind (if \<not> c_sent_eof c \<and> c_readfd c = FD_CLOSED \<and> (\<not> errfd_is_read c \<or> c_errfd c = FD_CLOSED)
              then send_msg_channel_eof cr env 7 i s else Inr s) (\<lambda>s.
       rbind (chan_at i s) (\<lambda>c.
       rbind (if c_readfd c = FD_CLOSED \<and> c_writefd c = FD_CLOSED \<and> (\<not> errfd_is_read c \<or> c_errfd c = FD_CLOSED) \<and>
                 \<not> c_sent_close c \<and> close_allowed
              then write_pending c else Inr True) (\<lambda>pending.
       if \<not> pending then send_msg_channel_close ops cr env 8 i s else Inr s))))))))
    (chan_held cr W i)"
  apply (rule sat_pending[OF assms(4)])
  apply (rule sat_rbind[where P = "chan_held cr W i"])
   apply (rule sat_keep[OF sat_close_chan_fd[OF assms(1) keeps_close_ok] assms(1)])
  apply (rule sat_rbind[OF sat_flush[OF _ assms(2,3)]], assumption)
  apply (rule sat_chan_at, assumption)
  apply (rule sat_rbind[where P = "chan_held cr W i"])
   apply (rule sat_keep[OF sat_channel_eof[OF _ assms(2)]], assumption+)
  apply (rule sat_chan_at, assumption)
  apply (rule sat_pending, assumption)
  apply (rule sat_keep[OF sat_channel_close[OF _ assms(2,3)]], assumption+)
  done

lemma chan_ok_flow: "chan_frame cr W i (chan_ok W i) s \<Longrightarrow> chan_frame cr W i (chan_flow W i) s"
  by (erule chan_frame_mono) (simp add: chan_ok_def)

lemma sat_remove_held:
  assumes "chan_held cr W i s" and "ops_ok cr W ops"
  shows "sat (remove_channel ops i s) (chans_inv cr W)"
  by (rule sat_remove_channel[OF chan_ok_flow[OF assms(1)] assms(2)])

lemma sat_check_close:
  fixes s :: "'a chansession_scheme"
  assumes "chan_held cr W i s" and "env_ok env" and "ops_ok cr W ops"
  shows "sat (check_close ops cr env rd rderr i s) (chans_inv cr W)"
  unfolding check_close_def
proof (rule sat_chan_at[OF assms(1)], rule sat_rbind[where P = "chan_held cr W i"])
  fix c
  have u: "sat (upd_chan i (\<lambda>c. c\<lparr>c_flushing := True\<rparr>) s) (chan_held cr W i)"
    by (rule sat_upd_chan[OF assms(1)]) simp
  show "sat (if \<not> c_flushing c \<and> \<not> c_close_handler_done c
            then rbind (type_check_close ops i s) (\<lambda>b. if b then upd_chan i (\<lambda>c. c\<lparr>c_flushing := True\<rparr>) s else Inr s)
            else Inr s) (chan_held cr W i)"
    by (rule sat_keep[OF sat_rbind[OF sat_type_check_close[OF assms(1,3)]]]) (rule sat_keep[OF u assms(1)], rule assms(1))
next
  fix c and s :: "'a chansession_scheme" assume s: "chan_held cr W i s"
  show "sat (rbind (if co_check_close (ops (c_type c)) = None \<or> c_close_handler_done c then Inr True
            else type_check_close ops i s) (\<lambda>close_allowed.
     rbind (chan_at i s) (\<lambda>c.
     rbind (if c_recv_close c then write_pending c else Inr False) (\<lambda>pending.
     if c_recv_close c \<and> \<not> pending \<and> close_allowed
     then rbind (if \<not> c_sent_close c then send_msg_channel_close ops cr env 4 i s else Inr s) (remove_channel ops i)
     else
       rbind (if c_recv_eof c then write_pending c else Inr False) (\<lambda>pending.
       rbind (if (c_recv_eof c \<and> \<not> pending) \<or> (co_check_close (ops (c_type c)) \<noteq> None \<and> close_allowed)
              then close_chan_fd i (c_writefd c) SHUT_WR s else Inr s) (\<lambda>s.
       rbind (flush_channel ops cr env rd rderr i s) (\<lambda>s.
       rbind (chan_at i s) (\<lambda>c.
       rbind (if \<not> c_sent_eof c \<and> c_readfd c = FD_CLOSED \<and> (\<not> errfd_is_read c \<or> c_errfd c = FD_CLOSED)
              then send_msg_channel_eof cr env 7 i s else Inr s) (\<lambda>s.
       rbind (chan_at i s) (\<lambda>c.
       rbind (if c_readfd c = FD_CLOSED \<and> c_writefd c = FD_CLOSED \<and> (\<not> errfd_is_read c \<or> c_errfd c = FD_CLOSED) \<and>
                 \<not> c_sent_close c \<and> close_allowed
              then write_pending c else Inr True) (\<lambda>pending.
       if \<not> pending then send_msg_channel_close ops cr env 8 i s else Inr s))))))))))) (chans_inv cr W)"
    apply (rule sat_rbind[where P = "\<lambda>_. True"])
     apply (rule sat_if, simp, rule sat_type_check_close[OF s assms(3)])
    apply (rule sat_chan_at[OF s])
    apply (rule sat_pending, assumption)
    apply (rule sat_if)
     apply (rule sat_rbind[where P = "chan_held cr W i"])
      apply (rule sat_keep[OF sat_channel_close[OF s assms(2,3)] s])
     apply (rule sat_remove_held[OF _ assms(3)], assumption)
    apply (rule sat_held_inv[OF sat_check_close_open[OF s assms(2,3)]], assumption)
    done
qed

subsection \<open>Serving the channels\<close>

lemma sat_check_in_progress:
  assumes "chan_held cr W i s" and "env_ok env" and "ops_ok cr W ops" and "recv_window_ok W"
  shows "sat (check_in_progress ops cr env W failed i s) (chans_inv cr W)"
  unfolding check_in_progress_def
proof (rule sat_chan_at[OF assms(1)], rule sat_if)
  fix c
  show "sat (rbind (send_msg_channel_open_failure cr env 0 (c_remotechan c) SSH_OPEN_CONNECT_FAILED [] [] s) (\<lambda>s.
          rbind (chan_at i s) (\<lambda>c. remove_channel ops i (os_close (c_writefd c) s)))) (chans_inv cr W)"
    by (rule sat_rbind[OF sat_open_failure_frame[OF assms(1,2)]], rule sat_chan_at, assumption,
        rule sat_remove_held[OF _ assms(3)], simp)
  have f: "chan_frame cr W i (\<lambda>c. chan_flow W i c \<and> fds_ok c) s"
    by (rule chan_frame_mono[OF assms(1)]) (simp add: chan_ok_def chan_quiet_def)
  have q: "chan_ok W i (c\<lparr>c_readfd := c_writefd c, c_initconn := False\<rparr>)" if "chan_up W i c" for c
    by (rule chan_up_ok[OF that])
       (use that in \<open>simp_all add: same_flow_def chan_up_def chan_ok_def chan_quiet_def fds_ok_def\<close>)
  show "sat (rbind (chan_initwritebuf W i s) (\<lambda>s.
       rbind (chan_at i s) (\<lambda>c.
       rbind (send_msg_channel_open_confirmation cr env 0 i (c_recvwindow c) (c_recvmaxpacket c) s)
         (upd_chan i (\<lambda>c. c\<lparr>c_readfd := c_writefd c, c_initconn := False\<rparr>))))) (chans_inv cr W)"
    apply (rule sat_rbind[OF sat_initwritebuf[OF f assms(4)]])
    apply (rule sat_chan_at, assumption)
    apply (rule sat_rbind[OF sat_open_confirmation[OF _ assms(2)]], assumption)
    apply (rule sat_held_inv, rule sat_upd_chan, assumption, erule q)
    done
qed

lemma sat_fd_ready:
  assumes "fd < FD_SETSIZE" and "\<And>b. b \<longrightarrow> 0 \<le> fd \<Longrightarrow> sat (f b) Q"
  shows "sat (rbind (fd_ready fd fds) f) Q"
  using assms by (auto simp: fd_ready_def FD_ISSET_def)

lemma sat_fd_ready_if:
  assumes "fd < FD_SETSIZE" and "\<And>b. b \<longrightarrow> x \<and> 0 \<le> fd \<Longrightarrow> sat (f b) Q"
  shows "sat (rbind (if x then fd_ready fd fds else Inr False) f) Q"
  using assms by (auto simp: fd_ready_def FD_ISSET_def)

lemma chan_ok_fds:
  assumes "chan_ok W i c"
  shows "c_writefd c < FD_SETSIZE" "c_readfd c < FD_SETSIZE" "c_errfd c < FD_SETSIZE"
  using assms by (simp_all add: chan_ok_def chan_quiet_def fds_ok_def)

lemma sat_writechannel:
  assumes "chan_held cr W i s" and "s_channels s ! i = Some c" and "chan_buf ext c = Some cb" and "cbuf_inv cb" and "env_ok env"
  shows "sat (writechannel cr env k W wr i fd ext s) (chan_held cr W i)"
  using writechannel_runs[OF assms, of k wr fd] by auto

text \<open>A channel that is written to has its buffer.\<close>

lemma chan_ok_writable:
  assumes "chan_ok W i c" and "0 \<le> c_writefd c" and "\<not> c_initconn c"
  shows "\<exists>cb. chan_buf False c = Some cb \<and> cbuf_inv cb"
  using assms by (auto simp: chan_ok_def chan_flow_def chan_quiet_def chan_buf_def window_ok_def split: if_splits)

lemma chan_ok_extra:
  assumes "chan_ok W i c" and "\<not> errfd_is_read c"
  shows "\<exists>cb. chan_buf True c = Some cb \<and> cbuf_inv cb"
  using assms by (auto simp: chan_ok_def chan_flow_def chan_buf_def errfd_is_read_def)

lemma sat_serve_write:
  fixes s :: "'a chansession_scheme"
  assumes "chan_held cr W i s" and "env_ok (io_env io)" and "ops_ok cr W ops"
    and "s_channels s ! i = Some c" and "chan_ok W i c" and "ready \<longrightarrow> 0 \<le> c_writefd c" and "\<not> (ready \<and> c_initconn c)"
  shows "sat (rbind (if ready then writechannel cr (io_env io) 2 W (io_write io) i (c_writefd c) False s else Inr s) (\<lambda>s.
       rbind (chan_at i s) (\<lambda>c.
       rbind (if \<not> errfd_is_read c then fd_ready (c_errfd c) writefds else Inr False) (\<lambda>ready.
       rbind (if ready then writechannel cr (io_env io) 3 W (io_writeerr io) i (c_errfd c) True s else Inr s) (\<lambda>s.
       check_close ops cr (io_env io) (io_flush io) (io_flusherr io) i s))))) (chans_inv cr W)"
proof (rule sat_rbind[where P = "chan_held cr W i"])
  show "sat (if ready then writechannel cr (io_env io) 2 W (io_write io) i (c_writefd c) False s else Inr s) (chan_held cr W i)"
    using chan_ok_writable[OF assms(5)] assms(6,7) sat_writechannel[OF assms(1,4) _ _ assms(2)] assms(1) by auto
next
  fix s :: "'a chansession_scheme" assume s: "chan_held cr W i s"
  show "sat (rbind (chan_at i s) (\<lambda>c.
       rbind (if \<not> errfd_is_read c then fd_ready (c_errfd c) writefds else Inr False) (\<lambda>ready.
       rbind (if ready then writechannel cr (io_env io) 3 W (io_writeerr io) i (c_errfd c) True s else Inr s) (\<lambda>s.
       check_close ops cr (io_env io) (io_flush io) (io_flusherr io) i s)))) (chans_inv cr W)"
  proof (rule sat_chan_at[OF s], rule sat_fd_ready_if)
    fix c ready assume c: "s_channels s ! i = Some c" "chan_ok W i c" "ready \<longrightarrow> \<not> errfd_is_read c \<and> 0 \<le> c_errfd c"
    have "sat (if ready then writechannel cr (io_env io) 3 W (io_writeerr io) i (c_errfd c) True s else Inr s) (chan_held cr W i)"
      using chan_ok_extra[OF c(2)] c(3) sat_writechannel[OF s c(1) _ _ assms(2)] s by auto
    then show "sat (rbind (if ready then writechannel cr (io_env io) 3 W (io_writeerr io) i (c_errfd c) True s else Inr s) (\<lambda>s.
       check_close ops cr (io_env io) (io_flush io) (io_flusherr io) i s)) (chans_inv cr W)"
      by (rule sat_rbind) (rule sat_check_close[OF _ assms(2,3)])
  qed (rule chan_ok_fds)
qed

lemma sat_serve_channel:
  assumes "chan_held cr W i s" and "env_ok (io_env io)" and "ops_ok cr W ops" and "recv_window_ok W"
  shows "sat (serve_channel ops cr W io readfds writefds i s) (chans_inv cr W)"
  unfolding serve_channel_def
  apply (rule sat_chan_at[OF assms(1)], rule sat_fd_ready, erule chan_ok_fds)
  apply (rule sat_rbind[where P = "chan_held cr W i"])
   apply (rule sat_keep[OF sat_send_data[OF assms(1-3)] assms(1)])
  apply (rule sat_chan_at, assumption, rule sat_fd_ready_if, erule chan_ok_fds)
  apply (rule sat_rbind[where P = "chan_held cr W i"])
   apply (rule sat_keep[OF sat_send_data[OF _ assms(2,3)]], assumption+)
  apply (rule sat_chan_at, assumption, rule sat_fd_ready, erule chan_ok_fds)
  apply (rule sat_if)
   apply (rule sat_check_in_progress[OF _ assms(2-4)], assumption)
  apply (rule sat_serve_write[OF _ assms(2,3)], assumption+)
  done

lemma sat_serve_from:
  assumes "chans_inv cr W s" and "\<And>i. env_ok (io_env (io i))" and "ops_ok cr W ops" and "recv_window_ok W"
  shows "sat (serve_from ops cr W io readfds writefds i s) (chans_inv cr W)"
  using assms(1)
proof (induction "4294967296 - unat i" arbitrary: i s rule: less_induct)
  case less
  show ?case
  proof (cases "i < s_chansize s")
    case True
    then have l: "unat i < length (s_channels s)"
      using less.prems by (simp add: chans_inv_def table_inv_def word_less_nat_alt)
    have "sat (case s_channels s ! unat i of None \<Rightarrow> Inr s
        | Some _ \<Rightarrow> serve_channel ops cr W (io (unat i)) readfds writefds (unat i) s) (chans_inv cr W)"
    proof (cases "s_channels s ! unat i")
      case (Some c)
      then show ?thesis using sat_serve_channel[OF chan_frameI[OF less.prems l Some] assms(2-4)] by simp
    qed (use less.prems in simp)
    then have "sat (rbind (case s_channels s ! unat i of None \<Rightarrow> Inr s
        | Some _ \<Rightarrow> serve_channel ops cr W (io (unat i)) readfds writefds (unat i) s)
          (serve_from ops cr W io readfds writefds (i + 1))) (chans_inv cr W)"
      by (rule sat_rbind) (rule less.hyps[OF unat_next(2)[OF True]])
    then show ?thesis using True l by (subst serve_from.simps) (simp add: nth_or_ub_def)
  qed (use less.prems in \<open>subst serve_from.simps; simp\<close>)
qed

subsection \<open>Received messages\<close>

lemma sat_getstring:
  assumes "buf_inv b" and "\<And>str n b'. buf_inv b' \<Longrightarrow> sat (f (str, n, b')) Q"
  shows "sat (rbind (buf_getstring b) f) Q"
proof (cases "4 \<le> length (unread b)")
  case True
  then obtain m where m: "load32h (take 4 (unread b)) = Inr m" using load32h_total[of "take 4 (unread b)"] by auto
  show ?thesis using assms(2)[OF advance_inv[OF assms(1), of "4 + unat m"]] True unfolding buf_getstring_eq[OF assms(1) True m] by auto
next
  case False
  then show ?thesis using buf_getint_fail[OF assms(1)] by (simp add: buf_getstring_def)
qed

lemma sat_getint_inv:
  assumes "buf_inv b" and "\<And>n b'. buf_inv b' \<Longrightarrow> sat (f (n, b')) Q"
  shows "sat (rbind (buf_getint b) f) Q"
  by (rule sat_getint[OF assms(1)]) (rule assms(2)[OF advance_inv[OF assms(1)]])

lemma chans_inv_payload:
  assumes "chans_inv cr W s" and "buf_inv b"
  shows "chans_inv cr W (s\<lparr>s_payload := Some b\<rparr>)"
proof -
  have "sender_ok cr (s\<lparr>s_payload := Some b\<rparr>) = sender_ok cr s" by (rule sender_ok_cong) simp_all
  then show ?thesis using assms by (simp add: chans_inv_def table_inv_def payload_inv_def)
qed

text \<open>A message is delivered to a channel that exists, or the session ends.\<close>

lemma sat_getchannel_msg:
  assumes "chans_inv cr W s" and "s_payload s = Some b"
  shows "sat (getchannel_msg kind s) (\<lambda>(i, s'). chan_held cr W i s' \<and> (\<exists>b. s_payload s' = Some b \<and> buf_inv b))"
  unfolding getchannel_msg_def assms(2) deref_simps rbind_simps
proof (rule sat_getint)
  show b: "buf_inv b" using assms by (simp add: chans_inv_def payload_inv_def)
  fix n assume l: "4 \<le> length (unread b)"
  let ?s = "s\<lparr>s_payload := Some (advance b 4)\<rparr>"
  have i: "buf_inv (advance b 4)" by (rule advance_inv[OF b l])
  have t: "chans_inv cr W ?s" by (rule chans_inv_payload[OF assms(1) i])
  have "length (s_channels s) = unat (s_chansize s)" using assms(1) by (simp add: chans_inv_def table_inv_def)
  then have k: "sat (if s_chansize s \<le> n then Inl (Exit m)
      else rbind (nth_or_ub (s_channels s) (unat n)) (\<lambda>c. case c of None \<Rightarrow> Inl (Exit m) | Some _ \<Rightarrow> Inr (unat n, ?s)))
      (\<lambda>(i, s'). chan_held cr W i s' \<and> (\<exists>b. s_payload s' = Some b \<and> buf_inv b))" for m
    using chan_frameI[OF t, of "unat n"] i by (auto simp: nth_or_ub_def word_less_nat_alt not_le split: option.splits)
  show "sat (case (n, advance b 4) of (chan, b) \<Rightarrow>
       let s = s\<lparr>s_payload := Some b\<rparr>;
         unknown = Inl (Exit (case kind of Some k \<Rightarrow> k @ '' for unknown channel'' | None \<Rightarrow> ''Unknown channel''))
       in if chan \<ge> s_chansize s then unknown
          else rbind (nth_or_ub (s_channels s) (unat chan)) (\<lambda>c. case c of None \<Rightarrow> unknown | Some _ \<Rightarrow> Inr (unat chan, s)))
      (\<lambda>(i, s'). chan_held cr W i s' \<and> (\<exists>b. s_payload s' = Some b \<and> buf_inv b))"
    using k[of "case kind of Some k \<Rightarrow> k @ '' for unknown channel'' | None \<Rightarrow> ''Unknown channel''"]
    by (cases "s_chansize s \<le> n") (simp_all add: Let_def)
qed

lemmas sat_getchannel = sat_getchannel_msg[where kind = None, folded getchannel_def]

lemma sat_recv_data:
  assumes "chans_inv cr W s" and "s_payload s = Some b"
  shows "sat (recv_msg_channel_data W s) (chans_inv cr W)"
  unfolding recv_msg_channel_data_def
  apply (rule sat_rbind_pair[OF sat_getchannel[OF assms]], elim conjE exE)
  apply (rule sat_chan_at, assumption)
  apply (rule sat_held_inv[OF sat_common_recv], assumption+)
  done

lemma sat_recv_window_adjust:
  assumes "chans_inv cr W s" and "s_payload s = Some b"
  shows "sat (recv_msg_channel_window_adjust s) (chans_inv cr W)"
  unfolding recv_msg_channel_window_adjust_def
proof (rule sat_rbind_pair[OF sat_getchannel[OF assms]], elim conjE exE)
  fix i s' b' assume s': "chan_held cr W i s'" "s_payload s' = Some b'" "buf_inv b'"
  have "sat (upd_chan i (\<lambda>c. c\<lparr>c_transwindow := g c\<rparr>) (s'\<lparr>s_payload := Some (advance b' 4)\<rparr>)) (chans_inv cr W)"
    if "4 \<le> length (unread b')" for g
    by (rule sat_held_inv, rule sat_upd_chan[OF chan_frame_payload[OF s'(1) advance_inv[OF s'(3) that]]]) simp
  then show "sat (rbind (deref (s_payload s')) (\<lambda>b. rbind (buf_getint b) (\<lambda>(incr, b).
      upd_chan i (\<lambda>c. c\<lparr>c_transwindow := min (c_transwindow c + min incr TRANS_MAX_WIN_INCR) TRANS_MAX_WINDOW\<rparr>)
       (s'\<lparr>s_payload := Some b\<rparr>)))) (chans_inv cr W)"
    unfolding s'(2) deref_simps rbind_simps by (intro sat_getint[OF s'(3)]) simp
qed

lemma sat_recv_eof:
  assumes "chans_inv cr W s" and "s_payload s = Some b" and "env_ok (io_env io)" and "ops_ok cr W ops"
  shows "sat (recv_msg_channel_eof ops cr io s) (chans_inv cr W)"
  unfolding recv_msg_channel_eof_def
  apply (rule sat_rbind_pair[OF sat_getchannel_msg[OF assms(1,2)]], elim conjE exE)
  apply (rule sat_rbind[OF sat_upd_chan[where Q = "chan_ok W i" for i]], assumption, simp)
  apply (rule sat_check_close[OF _ assms(3,4)], assumption)
  done

lemma sat_recv_close:
  assumes "chans_inv cr W s" and "s_payload s = Some b" and "env_ok (io_env io)" and "ops_ok cr W ops"
  shows "sat (recv_msg_channel_close ops cr io s) (chans_inv cr W)"
  unfolding recv_msg_channel_close_def
  apply (rule sat_rbind_pair[OF sat_getchannel_msg[OF assms(1,2)]], elim conjE exE)
  apply (rule sat_rbind[OF sat_upd_chan[where Q = "chan_ok W i" for i]], assumption, simp)
  apply (rule sat_check_close[OF _ assms(3,4)], assumption)
  done

lemma sat_recv_request:
  fixes s :: "'a chansession_scheme"
  assumes "chans_inv cr W s" and "s_payload s = Some b" and "env_ok env" and "ops_ok cr W ops"
  shows "sat (recv_msg_channel_request ops cr env s) (chans_inv cr W)"
  unfolding recv_msg_channel_request_def
proof (rule sat_rbind_pair[OF sat_getchannel[OF assms(1,2)]], elim conjE exE)
  fix i b' and s' :: "'a chansession_scheme" assume s': "chan_held cr W i s'"
  have f: "sat (send_msg_channel_failure cr env 0 i s') (chans_inv cr W)"
    unfolding send_msg_channel_failure_def by (rule sat_held_inv[OF sat_send_chan_byte[OF s' assms(3)]])
  have h: "sat (f i s') (chans_inv cr W)" if "co_reqhandler (ops t) = Some f" for t f
  proof -
    have "sat (f i s') (handler_keeps cr i s')" using assms(4) frame_pre[OF s'] that by (simp add: ops_ok_def)
    then show ?thesis by (rule sat_mono) (rule chan_frame_inv[OF frame_handler[OF s' _ flow_closed_ok]])
  qed
  show "sat (rbind (chan_at i s') (\<lambda>c. if c_sent_close c then Inr s'
     else case co_reqhandler (ops (c_type c)) of
            Some f \<Rightarrow> if c_close_handler_done c then send_msg_channel_failure cr env 0 i s' else f i s'
          | None \<Rightarrow> send_msg_channel_failure cr env 0 i s')) (chans_inv cr W)"
    by (rule sat_chan_at[OF s']) (auto simp: f h chan_frame_inv[OF s'] split: option.splits)
qed

subsection \<open>Opening a channel\<close>

text \<open>What the handler for a new channel leaves behind.\<close>

lemma init_flow:
  assumes "chan_ok W i c" and "same_flow (c\<lparr>c_extrabuf := eb\<rparr>) c'"
    and "eb = c_extrabuf c \<or> (\<exists>b. c_extrabuf c = None \<and> eb = Some b \<and> cbuf_inv b \<and> cb_size b = W \<and> cb_used b = 0)"
  shows "chan_flow W i c'"
proof (rule chan_flow_same[OF assms(2)])
  show "chan_flow W i (c\<lparr>c_extrabuf := eb\<rparr>)"
    using assms(1,3) by (auto simp: chan_ok_def chan_flow_def window_ok_def buffered_def)
qed

definition init_done :: "u32 \<Rightarrow> nat \<Rightarrow> int \<Rightarrow> Channel \<Rightarrow> bool" where
  "init_done W i ret c \<longleftrightarrow> chan_flow W i c \<and> fds_ok c \<and> (ret = SSH_OPEN_IN_PROGRESS \<longrightarrow> chan_ok W i c)"

lemma init_keepsE:
  assumes "chan_frame cr W i P s" and "init_keeps cr W i s (ret, s')" and "\<And>c. P c \<Longrightarrow> chan_ok W i c"
  obtains c c' where "P c" and "s_channels s' ! i = Some c'" and "chan_flow W i c'" and "fds_ok c'" and "c_writebuf c' = c_writebuf c"
    and "ret = SSH_OPEN_IN_PROGRESS \<longrightarrow> chan_quiet c'"
proof -
  obtain c c' eb where c: "s_channels s ! i = Some c" "s_channels s' ! i = Some c'" "same_flow (c\<lparr>c_extrabuf := eb\<rparr>) c'"
    "eb = c_extrabuf c \<or> (\<exists>b. c_extrabuf c = None \<and> eb = Some b \<and> cbuf_inv b \<and> cb_size b = W \<and> cb_used b = 0)"
    "fds_ok c \<longrightarrow> fds_ok c'" "ret = SSH_OPEN_IN_PROGRESS \<longrightarrow> chan_quiet c \<longrightarrow> chan_quiet c'"
    using assms(2) by (auto simp: init_keeps_def)
  have P: "P c" using assms(1) c(1) by (auto simp: chan_frame_def)
  from assms(3)[OF P] have "chan_quiet c" "fds_ok c" by (simp_all add: chan_ok_def chan_quiet_def)
  then show thesis using that[OF P c(2) init_flow[OF assms(3)[OF P] c(3,4)]] c(3,5,6) by (simp add: same_flow_def)
qed

lemma init_frame:
  assumes "chan_frame cr W i P s" and "init_keeps cr W i s (ret, s')" and "\<And>c. P c \<Longrightarrow> chan_ok W i c"
  shows "chan_frame cr W i (init_done W i ret) s'"
proof -
  obtain c' where c': "s_channels s' ! i = Some c'" "init_done W i ret c'"
    by (rule init_keepsE[OF assms]) (auto simp: init_done_def chan_ok_def)
  then show ?thesis using frame_others[OF assms(1) _ c'(1), of "init_done W i ret"] assms(2) by (simp add: init_keeps_def)
qed

lemma init_frame_up:
  assumes "chan_frame cr W i (chan_up W i) s" and "init_keeps cr W i s (ret, s')"
  shows "chan_frame cr W i (chan_up W i) s'"
proof -
  have "\<And>c. chan_up W i c \<Longrightarrow> chan_ok W i c" by (simp add: chan_up_def)
  then obtain c c' where c: "chan_up W i c" "s_channels s' ! i = Some c'" "chan_flow W i c'" "fds_ok c'" "c_writebuf c' = c_writebuf c"
    by (rule init_keepsE[OF assms])
  then have "chan_up W i c'" by (simp add: chan_up_def chan_ok_def chan_quiet_def)
  then show ?thesis using frame_others[OF assms(1) _ c(2), of "chan_up W i"] assms(2) by (simp add: init_keeps_def)
qed

lemma sat_inithandler:
  assumes "chan_frame cr W i P s" and "ops_ok cr W ops" and "\<And>c. P c \<Longrightarrow> chan_ok W i c"
  shows "sat (case co_inithandler (ops t) of None \<Rightarrow> Inr (0, s) | Some f \<Rightarrow> f i s)
    (\<lambda>(ret, s'). chan_frame cr W i (init_done W i ret) s')"
proof (cases "co_inithandler (ops t)")
  case None
  have "chan_frame cr W i (init_done W i 0) s"
    by (rule chan_frame_mono[OF assms(1)]) (use assms(3) in \<open>auto simp: init_done_def chan_ok_def chan_quiet_def\<close>)
  then show ?thesis by (simp add: None)
next
  case (Some f)
  have "sat (f i s) (init_keeps cr W i s)" using assms(2) frame_pre[OF assms(1)] Some by (simp add: ops_ok_def)
  then have "sat (f i s) (\<lambda>(ret, s'). chan_frame cr W i (init_done W i ret) s')"
    by (rule sat_mono) (auto dest: init_frame[OF assms(1) _ assms(3)])
  then show ?thesis by (simp add: Some)
qed

text \<open>The end of \<open>recv_msg_channel_open\<close>, after the handler.\<close>

lemma sat_opened:
  assumes "chan_frame cr W i (init_done W i ret) s" and "env_ok env" and "ops_ok cr W ops" and "recv_window_ok W"
  shows "sat (if ret = SSH_OPEN_IN_PROGRESS then Inr s
     else if ret > 0 then rbind (remove_channel ops i s) (\<lambda>s. send_msg_channel_open_failure cr env 0 remotechan ret [] [] s)
     else rbind (chan_initwritebuf W i s) (\<lambda>s.
          rbind (chan_at i s) (\<lambda>c.
          send_msg_channel_open_confirmation cr env 0 i (c_recvwindow c) (c_recvmaxpacket c) s))) (chans_inv cr W)"
proof -
  have r: "sat (remove_channel ops i s) (chans_inv cr W)"
    by (rule sat_remove_channel[OF chan_frame_mono[OF assms(1)] assms(3)]) (simp add: init_done_def)
  have f: "sat (rbind (remove_channel ops i s) (\<lambda>s. send_msg_channel_open_failure cr env 0 remotechan ret [] [] s)) (chans_inv cr W)"
    by (rule sat_rbind[OF r]) (rule sat_open_failure[OF _ assms(2)])
  have i: "chan_frame cr W i (\<lambda>c. chan_flow W i c \<and> fds_ok c) s"
    by (rule chan_frame_mono[OF assms(1)]) (simp add: init_done_def)
  have "sat (rbind (chan_initwritebuf W i s) (\<lambda>s. rbind (chan_at i s) (\<lambda>c.
      send_msg_channel_open_confirmation cr env 0 i (c_recvwindow c) (c_recvmaxpacket c) s))) (chan_frame cr W i (chan_up W i))"
    by (rule sat_rbind[OF sat_initwritebuf[OF i assms(4)]], rule sat_chan_at, assumption)
       (rule sat_open_confirmation[OF _ assms(2)])
  then have o: "sat (rbind (chan_initwritebuf W i s) (\<lambda>s. rbind (chan_at i s) (\<lambda>c.
      send_msg_channel_open_confirmation cr env 0 i (c_recvwindow c) (c_recvmaxpacket c) s))) (chans_inv cr W)"
    by (rule sat_mono) (rule chan_frame_inv, erule chan_frame_mono, simp add: chan_up_def)
  have "chans_inv cr W s" if "ret = SSH_OPEN_IN_PROGRESS"
    by (rule chan_frame_inv, rule chan_frame_mono[OF assms(1)]) (use that in \<open>simp add: init_done_def\<close>)
  then show ?thesis using f o by auto
qed

lemma sat_recv_open:
  fixes s :: "'a chansession_scheme"
  assumes "chans_inv cr W s" and "s_payload s = Some b" and "env_ok env" and "ops_ok cr W ops" and "recv_window_ok W"
  shows "sat (recv_msg_channel_open ops cr env W s) (chans_inv cr W)"
proof -
  have b: "buf_inv b" using assms(1,2) by (simp add: chans_inv_def payload_inv_def)
  have fl: "sat (send_msg_channel_open_failure cr env 0 remotechan e [] [] s') (chans_inv cr W)"
    if "chans_inv cr W s'" for remotechan e and s' :: "'a chansession_scheme"
    by (rule sat_open_failure[OF that assms(3)])
  have new: "sat (rbind (newchannel remotechan ct tw tm s') (\<lambda>(new, s).
            case new of
              None \<Rightarrow> send_msg_channel_open_failure cr env 0 remotechan SSH_OPEN_UNKNOWN_CHANNEL_TYPE [] [] s
            | Some i \<Rightarrow>
                rbind (case co_inithandler (ops ct) of None \<Rightarrow> Inr (0, s) | Some f \<Rightarrow> f i s) (\<lambda>(ret, s).
                if ret = SSH_OPEN_IN_PROGRESS then Inr s
                else if ret > 0 then rbind (remove_channel ops i s) (\<lambda>s. send_msg_channel_open_failure cr env 0 remotechan ret [] [] s)
                else
                  rbind (chan_initwritebuf W i s) (\<lambda>s.
                  rbind (chan_at i s) (\<lambda>c.
                  send_msg_channel_open_confirmation cr env 0 i (c_recvwindow c) (c_recvmaxpacket c) s))))) (chans_inv cr W)"
    if s': "chans_inv cr W s'" for remotechan ct tw tm and s' :: "'a chansession_scheme"
  proof (rule sat_rbind_pair[OF sat_newchannel[OF s']])
    fix new and s2 :: "'a chansession_scheme"
    assume n: "case new of None \<Rightarrow> s2 = s' | Some i \<Rightarrow> chan_frame cr W i (chan_new W i) s2"
    show "sat (case new of
              None \<Rightarrow> send_msg_channel_open_failure cr env 0 remotechan SSH_OPEN_UNKNOWN_CHANNEL_TYPE [] [] s2
            | Some i \<Rightarrow>
                rbind (case co_inithandler (ops ct) of None \<Rightarrow> Inr (0, s2) | Some f \<Rightarrow> f i s2) (\<lambda>(ret, s).
                if ret = SSH_OPEN_IN_PROGRESS then Inr s
                else if ret > 0 then rbind (remove_channel ops i s) (\<lambda>s. send_msg_channel_open_failure cr env 0 remotechan ret [] [] s)
                else
                  rbind (chan_initwritebuf W i s) (\<lambda>s.
                  rbind (chan_at i s) (\<lambda>c.
                  send_msg_channel_open_confirmation cr env 0 i (c_recvwindow c) (c_recvmaxpacket c) s)))) (chans_inv cr W)"
    proof (cases new)
      case (Some i)
      then have f: "chan_frame cr W i (chan_new W i) s2" using n by simp
      have h: "sat (case co_inithandler (ops ct) of None \<Rightarrow> Inr (0, s2) | Some f \<Rightarrow> f i s2)
          (\<lambda>(ret, s'). chan_frame cr W i (init_done W i ret) s')"
        by (rule sat_inithandler[OF f assms(4)]) (simp add: chan_new_def)
      show ?thesis unfolding Some option.case by (rule sat_rbind_pair[OF h]) (rule sat_opened[OF _ assms(3-5)])
    qed (use n fl[OF s'] in simp)
  qed
  show ?thesis
    unfolding recv_msg_channel_open_def assms(2) deref_simps rbind_simps
    apply (rule sat_getstring[OF b], unfold prod.case)
    apply (rule sat_getint_inv, assumption, unfold prod.case)+
    apply (unfold Let_def, rule sat_if, rule fl, rule chans_inv_payload[OF assms(1)], assumption)
    apply (simp only: split: option.split, intro conjI allI impI)
     apply (rule fl, rule chans_inv_payload[OF assms(1)], assumption)
    apply (rule new, rule chans_inv_payload[OF assms(1)], assumption)
    done
qed

text \<open>The answer to a request of this side.\<close>

lemma sat_recv_open_confirmation:
  fixes s :: "'a chansession_scheme"
  assumes "chans_inv cr W s" and "s_payload s = Some b" and "ops_ok cr W ops"
  shows "sat (recv_msg_channel_open_confirmation ops s) (chans_inv cr W)"
  unfolding recv_msg_channel_open_confirmation_def
proof (rule sat_rbind_pair[OF sat_getchannel[OF assms(1,2)]], elim conjE exE)
  fix i b' and s' :: "'a chansession_scheme"
  assume s': "chan_held cr W i s'" "s_payload s' = Some b'" "buf_inv b'"
  let ?f = "\<lambda>rc tw tm c. c\<lparr>c_await_open := False, c_remotechan := rc, c_transwindow := tw, c_transmaxpacket := tm\<rparr>"
  have rest: "sat (rbind (upd_chan i (?f rc tw tm) (s'\<lparr>s_payload := Some b\<rparr>)) (\<lambda>s.
       case co_inithandler (ops t) of
         None \<Rightarrow> Inr s
       | Some f \<Rightarrow> rbind (f i s) (\<lambda>(ret, s). if ret > 0 then remove_channel ops i s else Inr s))) (chans_inv cr W)"
    if b: "buf_inv b" and a: "s_channels s' ! i = Some c" "c_await_open c" for rc tw tm t b c
  proof (rule sat_rbind)
    have f: "chan_frame cr W i (\<lambda>c. chan_ok W i c \<and> c_await_open c) (s'\<lparr>s_payload := Some b\<rparr>)"
      using chan_frame_payload[OF s'(1) b] a by (simp add: chan_frame_def)
    have u: "chan_up W i (?f rc tw tm c)" if "chan_ok W i c \<and> c_await_open c" for c
      using that by (auto simp: chan_up_def chan_ok_def chan_flow_def chan_quiet_def window_ok_def fds_ok_def)
    show "sat (upd_chan i (?f rc tw tm) (s'\<lparr>s_payload := Some b\<rparr>)) (chan_frame cr W i (chan_up W i))"
      by (rule sat_upd_chan[OF f]) (rule u)
  next
    fix s2 :: "'a chansession_scheme" assume s2: "chan_frame cr W i (chan_up W i) s2"
    show "sat (case co_inithandler (ops t) of
         None \<Rightarrow> Inr s2
       | Some f \<Rightarrow> rbind (f i s2) (\<lambda>(ret, s). if ret > 0 then remove_channel ops i s else Inr s)) (chans_inv cr W)"
    proof (cases "co_inithandler (ops t)")
      case None
      have "chans_inv cr W s2" by (rule chan_frame_inv, rule chan_frame_mono[OF s2]) (simp add: chan_up_def)
      then show ?thesis by (simp add: None)
    next
      case (Some f)
      have "sat (f i s2) (init_keeps cr W i s2)" using assms(3) frame_pre[OF s2] Some by (simp add: ops_ok_def)
      then have h: "sat (f i s2) (\<lambda>(ret, s'). chan_frame cr W i (chan_up W i) s')"
        by (rule sat_mono) (auto dest: init_frame_up[OF s2])
      show ?thesis unfolding Some option.case
      proof (rule sat_rbind_pair[OF h])
        fix ret and s3 :: "'a chansession_scheme" assume s3: "chan_frame cr W i (chan_up W i) s3"
        have "chans_inv cr W s3" by (rule chan_frame_inv, rule chan_frame_mono[OF s3]) (simp add: chan_up_def)
        moreover have "sat (remove_channel ops i s3) (chans_inv cr W)"
          by (rule sat_remove_channel[OF chan_frame_mono[OF s3] assms(3)]) (simp add: chan_up_def chan_ok_def)
        ultimately show "sat (if ret > 0 then remove_channel ops i s3 else Inr s3) (chans_inv cr W)" by simp
      qed
    qed
  qed
  show "sat (rbind (chan_at i s') (\<lambda>c.
     if \<not> c_await_open c then Inl (Exit ''Unexpected channel reply'')
     else
       rbind (deref (s_payload s')) (\<lambda>b.
       rbind (buf_getint b) (\<lambda>(remotechan, b).
       rbind (buf_getint b) (\<lambda>(transwindow, b).
       rbind (buf_getint b) (\<lambda>(transmaxpacket, b).
       rbind (upd_chan i (?f remotechan transwindow transmaxpacket) (s'\<lparr>s_payload := Some b\<rparr>)) (\<lambda>s.
       case co_inithandler (ops (c_type c)) of
         None \<Rightarrow> Inr s
       | Some f \<Rightarrow> rbind (f i s) (\<lambda>(ret, s). if ret > 0 then remove_channel ops i s else Inr s)))))))) (chans_inv cr W)"
    apply (rule sat_chan_at[OF s'(1)], rule sat_if, simp)
    apply (unfold s'(2) deref_simps rbind_simps, insert s'(3))
    apply (rule sat_getint_inv, assumption, unfold prod.case)+
    apply (rule rest, assumption+, simp)
    done
qed

lemma sat_recv_open_failure:
  fixes s :: "'a chansession_scheme"
  assumes "chans_inv cr W s" and "s_payload s = Some b" and "ops_ok cr W ops"
  shows "sat (recv_msg_channel_open_failure ops s) (chans_inv cr W)"
  unfolding recv_msg_channel_open_failure_def
proof (rule sat_rbind_pair[OF sat_getchannel[OF assms(1,2)]], elim conjE exE)
  fix i and s' :: "'a chansession_scheme" assume s': "chan_held cr W i s'"
  have u: "sat (upd_chan i (\<lambda>c. c\<lparr>c_await_open := False\<rparr>) s') (chan_held cr W i)"
    by (rule sat_upd_chan[OF s']) (auto simp: chan_ok_def chan_flow_def chan_quiet_def window_ok_def)
  show "sat (rbind (chan_at i s') (\<lambda>c.
     if \<not> c_await_open c then Inl (Exit ''Unexpected channel reply'')
     else rbind (upd_chan i (\<lambda>c. c\<lparr>c_await_open := False\<rparr>) s') (remove_channel ops i))) (chans_inv cr W)"
    by (rule sat_chan_at[OF s'], rule sat_if, simp) (rule sat_rbind[OF u], rule sat_remove_held[OF _ assms(3)])
qed

end
