(* ===== verification/ChannelProps.thy ===== *)
theory ChannelProps
  imports ChannelRun
begin

text \<open>
  The channel layer as a machine. A call is a message of the peer handed to its handler, a round of the
  select loop over all channels, or a connection that is accepted for agent forwarding; the interpretation
  \<open>chans\<close> shows that every sequence of calls keeps the invariant. Then the properties of the data that pass
  through a channel.
\<close>

subsection \<open>Opening from this side\<close>

lemma sat_open_agent:
  fixes s :: "'a chansession_scheme"
  assumes "chans_inv cr W s" and "recv_window_ok W" and "fd < FD_SETSIZE" and "env_ok env"
  shows "sat (send_msg_channel_open_agent cr env W fd s) (\<lambda>(ok, s'). chans_inv cr W s')"
proof -
  have name: "puts (\<lambda>b. buf_putstring b (ascii (ct_name chan_svr_agent)) (of_nat (length (ct_name chan_svr_agent))))
      (store32h 22 @ ascii (ct_name chan_svr_agent))"
    using puts_string[of 22 "ascii (ct_name chan_svr_agent)"] by (simp add: chan_svr_agent_def ascii_def)
  have l: "length (ct_name chan_svr_agent) = 22" by (simp add: chan_svr_agent_def)
  note put = puts_seq[OF puts_byte puts_seq[OF name puts_seq[OF puts_int puts_seq[OF puts_int puts_int]]]]
  have up: "chan_ok W i (c\<lparr>c_writefd := fd, c_readfd := fd, c_await_open := True\<rparr>)" if "chan_up W i c" for i c
    by (rule chan_up_ok[OF that]) (use that assms(3) in \<open>simp_all add: same_flow_def chan_up_def chan_ok_def chan_quiet_def fds_ok_def\<close>)
  have snd: "sat (rbind (on_writepayload (\<lambda>b.
           rbind (buf_putbyte b SSH_MSG_CHANNEL_OPEN) (\<lambda>b.
           rbind (buf_putstring b (ascii (ct_name chan_svr_agent)) (of_nat (length (ct_name chan_svr_agent)))) (\<lambda>b.
           rbind (buf_putint b n) (\<lambda>b.
           rbind (buf_putint b W) (\<lambda>b.
           buf_putint b RECV_MAX_PAYLOAD_LEN))))) (s\<lparr>s_maxfd := max (s_maxfd s) fd\<rparr>)) (\<lambda>s.
       rbind (encrypt_packet cr (env_rnd env 0) (env_mac env) s) (\<lambda>s. Inr (True, s)))) (\<lambda>(ok, s'). chans_inv cr W s')"
    if s: "chan_held cr W i s" for i n and s :: "'a chansession_scheme"
  proof -
    have "chan_held cr W i (s\<lparr>s_maxfd := max (s_maxfd s) fd\<rparr>) = chan_held cr W i s" by (rule chan_frame_cong) simp_all
    then have "sat (send_payload cr env 0 (\<lambda>b.
           rbind (buf_putbyte b SSH_MSG_CHANNEL_OPEN) (\<lambda>b.
           rbind (buf_putstring b (ascii (ct_name chan_svr_agent)) (of_nat (length (ct_name chan_svr_agent)))) (\<lambda>b.
           rbind (buf_putint b n) (\<lambda>b.
           rbind (buf_putint b W) (\<lambda>b.
           buf_putint b RECV_MAX_PAYLOAD_LEN))))) (s\<lparr>s_maxfd := max (s_maxfd s) fd\<rparr>)) (chan_held cr W i)"
      using s by (intro sat_send_payload[OF _ assms(4) put]) (simp_all add: l ascii_def)
    then show ?thesis
      unfolding rbind_assoc[symmetric] send_payload_def[symmetric] by (rule sat_rbind) (simp add: chan_frame_inv)
  qed
  show ?thesis
    unfolding send_msg_channel_open_agent_def send_msg_channel_open_init_def rbind_assoc
  proof (rule sat_rbind[OF sat_newchannel[OF assms(1)]], clarify)
    fix new and s2 :: "'a chansession_scheme"
    assume n: "case new of None \<Rightarrow> s2 = s | Some i \<Rightarrow> chan_frame cr W i (chan_new W i) s2"
    show "sat (rbind (case new of
       None \<Rightarrow> Inr (False, s2)
     | Some i \<Rightarrow>
         rbind (chan_initwritebuf W i s2) (\<lambda>s.
         rbind (upd_chan i (\<lambda>c. c\<lparr>c_writefd := fd, c_readfd := fd, c_await_open := True\<rparr>) s) (\<lambda>s.
         rbind (chan_at i s) (\<lambda>c.
         rbind (on_writepayload (\<lambda>b.
           rbind (buf_putbyte b SSH_MSG_CHANNEL_OPEN) (\<lambda>b.
           rbind (buf_putstring b (ascii (ct_name chan_svr_agent)) (of_nat (length (ct_name chan_svr_agent)))) (\<lambda>b.
           rbind (buf_putint b (c_index c)) (\<lambda>b.
           rbind (buf_putint b W) (\<lambda>b.
           buf_putint b RECV_MAX_PAYLOAD_LEN)))))
           (s\<lparr>s_maxfd := max (s_maxfd s) fd\<rparr>)) (\<lambda>s. Inr (True, s))))))
       (\<lambda>(ok, s). if ok then rbind (encrypt_packet cr (env_rnd env 0) (env_mac env) s) (\<lambda>s. Inr (True, s)) else Inr (False, s)))
       (\<lambda>(ok, s'). chans_inv cr W s')"
    proof (cases new)
      case (Some i)
      have f: "chan_frame cr W i (\<lambda>c. chan_flow W i c \<and> fds_ok c) s2"
        using n unfolding Some by (auto elim!: chan_frame_mono simp: chan_new_def chan_ok_def chan_quiet_def)
      show ?thesis
        unfolding Some option.case rbind_assoc rbind_simps prod.case if_True
        by (rule sat_rbind[OF sat_initwritebuf[OF f assms(2)]],
            rule sat_rbind[OF sat_upd_chan[where Q = "chan_ok W i"]], assumption, erule up, rule sat_chan_at, assumption)
           (rule snd)
    qed (use n assms(1) in simp)
  qed
qed

lemma sat_agentaccept:
  assumes "chans_inv cr W s" and "recv_window_ok W" and "fd < FD_SETSIZE" and "env_ok env"
  shows "sat (agentaccept cr env W fd s) (chans_inv cr W)"
proof -
  have c: "chans_inv cr W (os_close fd s') = chans_inv cr W s'" for s'
    using sender_ok_cong[of "os_close fd s'" s' cr]
    by (simp add: chans_inv_def table_inv_def payload_inv_def os_close_def)
  show ?thesis unfolding agentaccept_def
    by (rule sat_if, simp add: assms(1), rule sat_rbind_pair[OF sat_open_agent[OF assms]]) (simp add: c)
qed

subsection \<open>Every sequence of calls\<close>

datatype chan_msg =
    MsgOpen env | MsgData | MsgWindowAdjust | MsgEof chan_io | MsgClose chan_io | MsgRequest env
  | MsgOpenConfirmation | MsgOpenFailure

datatype chan_call = Receive buffer chan_msg | Serve "nat \<Rightarrow> chan_io" fd_set fd_set | AgentAccept env int

definition handle_msg ::
  "(ChanType \<Rightarrow> 'a chansession_scheme ChanOps) \<Rightarrow> crypto \<Rightarrow> u32 \<Rightarrow> chan_msg \<Rightarrow>
     'a chansession_scheme \<Rightarrow> 'a chansession_scheme result" where
  "handle_msg ops cr W m s =
     (case m of
        MsgOpen env \<Rightarrow> recv_msg_channel_open ops cr env W s
      | MsgData \<Rightarrow> recv_msg_channel_data W s
      | MsgWindowAdjust \<Rightarrow> recv_msg_channel_window_adjust s
      | MsgEof io \<Rightarrow> recv_msg_channel_eof ops cr io s
      | MsgClose io \<Rightarrow> recv_msg_channel_close ops cr io s
      | MsgRequest env \<Rightarrow> recv_msg_channel_request ops cr env s
      | MsgOpenConfirmation \<Rightarrow> recv_msg_channel_open_confirmation ops s
      | MsgOpenFailure \<Rightarrow> recv_msg_channel_open_failure ops s)"

definition chan_step ::
  "(ChanType \<Rightarrow> 'a chansession_scheme ChanOps) \<Rightarrow> crypto \<Rightarrow> u32 \<Rightarrow> chan_call \<Rightarrow>
     'a chansession_scheme \<Rightarrow> 'a chansession_scheme result" where
  "chan_step ops cr W call s =
     (case call of
        Receive b m \<Rightarrow> handle_msg ops cr W m (s\<lparr>s_payload := Some b\<rparr>)
      | Serve io readfds writefds \<Rightarrow> serve_from ops cr W io readfds writefds 0 s
      | AgentAccept env fd \<Rightarrow> agentaccept cr env W fd s)"

text \<open>The buffers of the model are those the packet layer hands over, and a descriptor fits into an \<open>fd_set\<close>.\<close>

definition msg_ok :: "chan_msg \<Rightarrow> bool" where
  "msg_ok m \<longleftrightarrow> (case m of MsgOpen env \<Rightarrow> env_ok env | MsgEof io \<Rightarrow> env_ok (io_env io) | MsgClose io \<Rightarrow> env_ok (io_env io)
     | MsgRequest env \<Rightarrow> env_ok env | _ \<Rightarrow> True)"

definition call_ok :: "chan_call \<Rightarrow> bool" where
  "call_ok call \<longleftrightarrow> (case call of Receive b m \<Rightarrow> buf_inv b \<and> msg_ok m | Serve io _ _ \<Rightarrow> (\<forall>i. env_ok (io_env (io i)))
     | AgentAccept env fd \<Rightarrow> env_ok env \<and> fd < FD_SETSIZE)"

lemma sat_handle_msg:
  assumes "chans_inv cr W s" and "s_payload s = Some b" and "ops_ok cr W ops" and "recv_window_ok W" and "msg_ok m"
  shows "sat (handle_msg ops cr W m s) (chans_inv cr W)"
  using assms(5) sat_recv_open[OF assms(1,2) _ assms(3,4)] sat_recv_data[OF assms(1,2)] sat_recv_window_adjust[OF assms(1,2)]
    sat_recv_eof[OF assms(1,2) _ assms(3)] sat_recv_close[OF assms(1,2) _ assms(3)] sat_recv_request[OF assms(1,2) _ assms(3)]
    sat_recv_open_confirmation[OF assms(1-3)] sat_recv_open_failure[OF assms(1-3)]
  by (cases m) (simp_all add: handle_msg_def msg_ok_def)

lemma sat_chan_step:
  assumes "chans_inv cr W s" and "ops_ok cr W ops" and "recv_window_ok W" and "call_ok call"
  shows "sat (chan_step ops cr W call s) (chans_inv cr W)"
proof (cases call)
  case (Receive b m)
  have "sat (handle_msg ops cr W m (s\<lparr>s_payload := Some b\<rparr>)) (chans_inv cr W)"
    using assms(4) Receive by (intro sat_handle_msg[OF chans_inv_payload[OF assms(1)] _ assms(2,3)]) (simp_all add: call_ok_def)
  then show ?thesis by (simp add: chan_step_def Receive)
next
  case (Serve io readfds writefds)
  then show ?thesis using assms(4) sat_serve_from[OF assms(1) _ assms(2,3)] by (simp add: chan_step_def call_ok_def)
next
  case (AgentAccept env fd)
  then show ?thesis using assms(4) sat_agentaccept[OF assms(1,3)] by (simp add: chan_step_def call_ok_def)
qed

interpretation chans: terminating_machine "chan_step ops cr W" "\<lambda>call s. call_ok call \<and> ops_ok cr W ops \<and> recv_window_ok W" "chans_inv cr W"
  for ops cr W
  by (rule terminating_machineI) (simp add: sat_chan_step)

lemma pre_calls_all: "(\<And>c s. c \<in> set cs \<Longrightarrow> pre c s) \<Longrightarrow> pre_calls step pre cs s"
  by (induction cs arbitrary: s) (auto split: sum.splits)

lemma chaninitialise_inv:
  assumes "sender_ok cr s" and "payload_inv s"
  shows "chans_inv cr W (chaninitialise chantypes s)"
proof -
  have "sender_ok cr (chaninitialise chantypes s) = sender_ok cr s"
    by (rule sender_ok_cong) (simp_all add: chaninitialise_def listeners_initialise_def)
  then show ?thesis using assms
    by (simp add: chans_inv_def table_inv_def payload_inv_def chaninitialise_def listeners_initialise_def slots_used_def)
qed

subsection \<open>Waiting for the next event\<close>

lemma set_chan_fds_result:
  assumes "chan_ok W i c"
  shows "(\<exists>fds'. set_chan_fds c fds = Inr fds') \<or> set_chan_fds c fds = Inl OutOfBounds"
proof -
  obtain wb where wb: "c_writebuf c = Some wb" using assms by (auto simp: chan_ok_def chan_flow_def)
  show ?thesis by (auto simp: set_chan_fds_def FD_SET_def wb split: prod.splits option.splits)
qed

lemma set_chan_fds_connecting:
  assumes "chan_ok W i c" and "c_initconn c" and "c_writefd c < 0"
  shows "set_chan_fds c fds = Inl OutOfBounds"
  using assms by (auto simp: set_chan_fds_def FD_SET_def chan_ok_def chan_quiet_def fds_ok_def split: prod.splits)

lemma set_chans_connecting:
  assumes "k \<le> i" and "i < k + n" and "length cs = k + n" and "cs ! i = Some c" and "c_initconn c" and "c_writefd c < 0"
    and "\<And>j c. j < length cs \<Longrightarrow> cs ! j = Some c \<Longrightarrow> chan_ok W j c"
  shows "set_chans cs k n fds = Inl OutOfBounds"
  using assms
proof (induction n arbitrary: k fds)
  case (Suc n)
  have ck: "k < length cs" using Suc.prems(2,3) by simp
  show ?case
  proof (cases "k = i")
    case True
    then show ?thesis using set_chan_fds_connecting[OF Suc.prems(7)[of i c]] Suc.prems ck by (simp add: nth_or_ub_def)
  next
    case False
    have IH: "set_chans cs (Suc k) n fds' = Inl OutOfBounds" for fds'
      by (rule Suc.IH) (use Suc.prems False in auto)
    show ?thesis
    proof (cases "cs ! k")
      case (Some d)
      then show ?thesis using set_chan_fds_result[OF Suc.prems(7)[OF ck Some], of fds] IH ck by (auto simp: nth_or_ub_def)
    qed (use IH ck in \<open>simp add: nth_or_ub_def\<close>)
  qed
qed simp

text \<open>What \<open>check_close\<close> does to a channel that is still connecting when the peer has sent its EOF.\<close>

definition connecting :: "Channel \<Rightarrow> bool" where
  "connecting c \<longleftrightarrow> c_initconn c \<and> 0 \<le> c_writefd c \<and> c_readfd c = FD_UNINIT \<and> c_errfd c = FD_CLOSED \<and> c_extrabuf c = None \<and>
     ct_sepfds (c_type c) \<and> \<not> c_recv_close c \<and> \<not> c_flushing c \<and> (\<forall>wb. c_writebuf c = Some wb \<longrightarrow> cb_size wb = 0)"

lemma check_close_connecting:
  assumes "i < length (s_channels s)" and "s_channels s ! i = Some c" and "chan_ok W i c" and "connecting c" and "c_recv_eof c"
    and "co_check_close (ops (c_type c)) = None"
  shows "check_close ops cr env rd rderr i s =
    Inr (s\<lparr>s_shutdown := s_shutdown s @ [(c_writefd c, SHUT_WR)], s_channels := (s_channels s)[i := Some (c\<lparr>c_writefd := FD_CLOSED\<rparr>)]\<rparr>)"
proof -
  obtain wb where wb: "c_writebuf c = Some wb" "cb_used wb = 0"
    using assms(3,4) by (auto simp: chan_ok_def chan_flow_def connecting_def window_ok_def cb_unset_def)
  let ?c = "c\<lparr>c_writefd := FD_CLOSED\<rparr>"
  let ?s = "s\<lparr>s_shutdown := s_shutdown s @ [(c_writefd c, SHUT_WR)], s_channels := (s_channels s)[i := Some ?c]\<rparr>"
  have a: "chan_at i s = Inr c" "chan_at i ?s = Inr ?c" using assms(1,2) by (simp_all add: chan_at_def nth_or_ub_def)
  have p: "write_pending c = Inr False" using wb assms(4) by (simp add: write_pending_def connecting_def cbuf_getused_def)
  have d: "close_chan_fd i (c_writefd c) SHUT_WR s = Inr ?s"
    using assms(4) by (simp add: close_chan_fd_def a connecting_def drop_fd_def Let_def SHUT_WR_def FD_UNINIT_def FD_CLOSED_def errfd_is_read_def)
  have f: "flush_channel ops cr env rd rderr i ?s = Inr ?s" using assms(4) by (simp add: flush_channel_def a connecting_def)
  have c: "c_recv_eof c" "\<not> c_recv_close c" "c_readfd c \<noteq> FD_CLOSED" "\<not> c_flushing c"
    using assms(4,5) by (simp_all add: connecting_def FD_UNINIT_def FD_CLOSED_def)
  have t: "type_check_close ops i s = Inr False" using assms(6) by (simp add: type_check_close_def a)
  show ?thesis
    unfolding check_close_def a rbind_simps t using c assms(6) by (simp add: a p d f)
qed

subsection \<open>Properties\<close>


text \<open>C13: A channel is a queue of bytes. Data that fits into the window is appended to what waits in the channel's
  buffer, the window shrinks by its length and the other channels are not touched; \<open>writechannel\<close> then hands
  a prefix of the buffer to the descriptor and keeps the rest, whatever \<open>write\<close> returns, and none of the assertions
  of the code fails.\<close>

theorem channel_is_a_queue:
  assumes "chans_inv cr W s" and "s_payload s = Some b" and "unread b = store32h (of_nat i) @ store32h n @ data @ rest"
    and "i < length (s_channels s)" and "s_channels s ! i = Some c" and "\<not> c_recv_eof c" and "0 \<le> c_writefd c"
    and "c_writebuf c = Some cb" and "cb_size cb \<noteq> 0" and "length data = unat n" and "n \<le> c_recvwindow c"
  shows "\<exists>s' c' cb'. recv_msg_channel_data W s = Inr s' \<and> chans_inv cr W s' \<and> s_channels s' = (s_channels s)[i := Some c'] \<and>
    c_recvwindow c' = c_recvwindow c - n \<and> c_writebuf c' = Some cb' \<and> cbuf_list cb' = cbuf_list cb @ data \<and>
    (\<forall>env k wr. env_ok env \<longrightarrow> (\<exists>s2 c2 cb2 out. writechannel cr env k W wr i (c_writefd c) False s' = Inr s2 \<and> chans_inv cr W s2 \<and>
       s_channels s2 ! i = Some c2 \<and> c_writebuf c2 = Some cb2 \<and> cbuf_list cb @ data = out @ cbuf_list cb2 \<and>
       s_output s2 = s_output s @ (if out = [] then [] else [(c_writefd c, out)])))"
proof -
  have b: "buf_inv b" using assms(1,2) by (simp add: chans_inv_def payload_inv_def)
  have t: "length (s_channels s) = unat (s_chansize s)" "unat (s_chansize s) \<le> 102"
    using assms(1) by (simp_all add: chans_inv_def table_inv_def)
  have ui: "unat (of_nat i :: u32) = i" using assms(4) t by (intro unat_of_nat_u32) simp
  have lb: "4 \<le> length (unread b)" by (simp add: assms(3))
  let ?s = "s\<lparr>s_payload := Some (advance b 4)\<rparr>"
  have b4: "buf_inv (advance b 4)" "unread (advance b 4) = store32h n @ data @ rest"
    using advance_inv[OF b lb] unread_advance[OF b lb] by (simp_all add: assms(3))
  have g: "getchannel s = Inr (i, ?s)"
    using assms(2,4,5) ui t lb
    by (simp add: getchannel_def getchannel_msg_def buf_getint_ok[OF b lb] assms(3) nth_or_ub_def Let_def word_le_nat_alt)
  have f: "chan_held cr W i ?s" using chan_frameI[OF chans_inv_payload[OF assms(1) b4(1)], of i c] assms(4,5) by simp
  have cb: "chan_buf False c = Some cb" using assms(8) by (simp add: chan_buf_def)
  have sc: "s_channels ?s ! i = Some c" "s_payload ?s = Some (advance b 4)" using assms(5) by simp_all
  obtain cb' where cb': "common_recv_msg_channel_data W i (c_writefd c) False ?s =
      Inr (?s\<lparr>s_payload := Some (advance (advance b 4) (4 + length data)),
             s_channels := (s_channels ?s)[i := Some ((set_chan_buf False cb' c)\<lparr>c_recvwindow := c_recvwindow c - n\<rparr>)]\<rparr>)"
    "cbuf_inv cb'" "cb_size cb' = cb_size cb" "cbuf_list cb' = cbuf_list cb @ data"
    using common_recv_ok[OF f sc(1) assms(6) cb assms(9,7) sc(2) b4 assms(10,11)] by blast
  define c' where "c' = (set_chan_buf False cb' c)\<lparr>c_recvwindow := c_recvwindow c - n\<rparr>"
  define s' where "s' = ?s\<lparr>s_payload := Some (advance (advance b 4) (4 + length data)), s_channels := (s_channels ?s)[i := Some c']\<rparr>"
  have e: "common_recv_msg_channel_data W i (c_writefd c) False ?s = Inr s'" unfolding s'_def c'_def by (rule cb'(1))
  have r: "recv_msg_channel_data W s = Inr s'"
    using g e assms(4,5) by (simp add: recv_msg_channel_data_def chan_at_def nth_or_ub_def)
  have h: "chan_held cr W i s'" using satD[OF sat_common_recv[OF f sc(2)] e] .
  have cc: "chan_buf False c' = Some cb'" "c_writebuf c' = Some cb'" "c_recvwindow c' = c_recvwindow c - n"
    by (simp_all add: c'_def set_chan_buf_def chan_buf_def)
  have sl: "s_channels s' ! i = Some c'" using assms(4) by (simp add: s'_def)
  have o: "s_output s' = s_output s" "s_channels s' = (s_channels s)[i := Some c']" by (simp_all add: s'_def)
  have w: "\<exists>s2 c2 cb2 out. writechannel cr env k W wr i (c_writefd c) False s' = Inr s2 \<and> chans_inv cr W s2 \<and>
       s_channels s2 ! i = Some c2 \<and> c_writebuf c2 = Some cb2 \<and> cbuf_list cb @ data = out @ cbuf_list cb2 \<and>
       s_output s2 = s_output s @ (if out = [] then [] else [(c_writefd c, out)])" if "env_ok env" for env k wr
    using writechannel_runs[OF h sl cc(1) cb'(2) that, of k wr "c_writefd c"] chan_frame_inv cb'(4) o(1)
    by (fastforce simp: chan_buf_def)
  show ?thesis
    using r chan_frame_inv[OF h] o(2) cc(2,3) cb'(4) w by blast
qed

text \<open>C14: Sending data respects the peer. When \<open>read\<close> delivers bytes, \<open>send_msg_channel_data\<close> encrypts one message:
  the header of a (plain or extended) data message for the peer's channel, the number of bytes and the bytes. Their number
  exceeds neither the peer's window nor its largest packet nor the payload buffer, and the window shrinks by exactly that
  number, without wrapping around. If the channel is being flushed and \<open>read\<close> was short, the descriptor is closed.\<close>

theorem sent_data_fits_the_window:
  assumes "chans_inv cr W s" and "i < length (s_channels s)" and "s_channels s ! i = Some c" and "\<not> c_sent_close c"
    and "0 \<le> (if ext then c_errfd c else c_readfd c)" and "\<not> c_read_mangler c" and "data_limit c ext \<noteq> 0" and "env_ok env"
    and "os_read rd (data_limit c ext) = Inr bs" and "bs \<noteq> []"
  shows "\<exists>s1 s2 w. contents (s_writepayload s1) = data_header ext (c_remotechan c) @ store32h (of_nat (length bs)) @ bs \<and>
    encrypt_packet cr (env_rnd env k) (env_mac env) s1 = Inr s2 \<and>
    send_msg_channel_data ops cr env k rd i ext s =
      (if c_flushing c \<and> length bs < unat (data_limit c ext)
       then close_chan_fd i (if ext then c_errfd c else c_readfd c) SHUT_RD s2 else Inr s2) \<and>
    length bs \<le> unat (c_transwindow c) \<and> length bs \<le> unat (c_transmaxpacket c) \<and> length (contents (s_writepayload s1)) \<le> 16384 \<and>
    s_channels s2 ! i = Some (c\<lparr>c_transwindow := w\<rparr>) \<and> unat w + length bs = unat (c_transwindow c) \<and> chans_inv cr W s2"
proof -
  let ?hdr = "data_header ext (c_remotechan c)" and ?fd = "if ext then c_errfd c else c_readfd c" and ?M = "data_limit c ext"
  let ?h = "length ?hdr" and ?w = "c_transwindow c - of_nat (length bs)"
  have f: "chan_held cr W i s" by (rule chan_frameI[OF assms(1-3)])
  have lb: "length bs \<le> unat ?M" using assms(9) by (auto simp: os_read_def split: sock_read.splits)
  have lim: "unat ?M \<le> unat (c_transwindow c)" "unat ?M \<le> unat (c_transmaxpacket c)" "?h + 4 + unat ?M \<le> 16384"
    by (rule data_limit_le)+
  obtain d where d: "mk_ok d (?h + 4) (?h + 4) 16384" "take ?h d = ?hdr"
    "send_msg_channel_data ops cr env k rd i ext s =
     (let s = s\<lparr>s_writepayload := mkbuf d (?h + 4) (?h + 4) 16384\<rparr> in
      case os_read rd ?M of
        Inl e \<Rightarrow> rbind (if e \<noteq> EINTR then close_chan_fd i ?fd SHUT_RD s else Inr s) clear_writepayload
      | Inr bs \<Rightarrow>
          if bs = [] then rbind (close_chan_fd i ?fd SHUT_RD s) clear_writepayload
          else
            let s = s\<lparr>s_writepayload := mkbuf (patch d (?h + 4) bs) (?h + 4) (?h + 4) 16384\<rparr>
            in if c_read_mangler c
               then rbind (co_read_mangler (ops (c_type c)) i bs s) (\<lambda>(bs, s).
                    if bs = [] then clear_writepayload s
                    else finish_channel_data cr env k i ?fd ?M (of_nat ?h) bs s)
               else finish_channel_data cr env k i ?fd ?M (of_nat ?h) bs s)"
    by (rule send_data_start[OF f assms(3-5,7), of ops env k rd])
  let ?d = "patch d (?h + 4) bs"
  have ok: "mk_ok ?d (?h + 4) (?h + 4) 16384" and tk: "take ?h ?d = ?hdr"
    using d(1,2) lb lim(3) by (simp_all add: mk_ok_def) (simp add: patch_def min_def)
  define s' where "s' = s\<lparr>s_writepayload := mkbuf ?d (?h + 4) (?h + 4) 16384\<rparr>"
  have m: "mid_send cr W i ?hdr s'" unfolding s'_def by (rule mid_sendI[OF f ok tk])
  have c: "s_channels s' ! i = Some c" using assms(3) by (simp add: s'_def)
  have l: "?h + 4 + length bs \<le> 16384" using lb lim(3) by simp
  obtain wp s2 where w: "contents wp = ?hdr @ store32h (of_nat (length bs)) @ bs"
    "encrypt_packet cr (env_rnd env k) (env_mac env) (s'\<lparr>s_writepayload := wp,
      s_channels := (s_channels s')[i := Some (c\<lparr>c_transwindow := ?w\<rparr>)]\<rparr>) = Inr s2"
    "chan_held cr W i s2" "s_channels s2 ! i = Some (c\<lparr>c_transwindow := ?w\<rparr>)"
    "finish_channel_data cr env k i ?fd ?M (of_nat ?h) bs s' =
      (if c_flushing c \<and> length bs < unat ?M then close_chan_fd i ?fd SHUT_RD s2 else Inr s2)"
    using finish_channel_data_eq[OF m c assms(10) l assms(8), of k ?fd ?M] by blast
  have e: "send_msg_channel_data ops cr env k rd i ext s = finish_channel_data cr env k i ?fd ?M (of_nat ?h) bs s'"
    unfolding d(3) assms(9) Let_def sum.case s'_def using assms(6,10) by simp
  have wl: "length bs \<le> unat (c_transwindow c)" "length bs \<le> unat (c_transmaxpacket c)" using lb lim(1,2) by simp_all
  have "unat (of_nat (length bs) :: u32) = length bs" using l by (intro unat_of_nat_u32) simp
  then have u: "unat ?w + length bs = unat (c_transwindow c)" using wl(1) by (simp add: unat_sub_no_underflow)
  have lc: "length (contents wp) \<le> 16384" using w(1) l by simp
  show ?thesis
    by (rule exI[of _ "s'\<lparr>s_writepayload := wp, s_channels := (s_channels s')[i := Some (c\<lparr>c_transwindow := ?w\<rparr>)]\<rparr>"],
        rule exI[of _ s2], rule exI[of _ ?w])
       (use w(1,2,4) e w(5) wl u lc chan_frame_inv[OF w(3)] in simp)
qed

text \<open>C17: An EOF for a connection that is still being set up makes the next round of the select loop undefined. For a
  channel whose \<open>connect\<close> is in progress (\<open>direct-tcpip\<close>: separate directions, no other descriptor, no buffer yet),
  \<open>recv_msg_channel_eof\<close> returns normally but has set \<open>writefd\<close> to -1 and left \<open>initconn\<close> set; \<open>setchannelfds\<close> then does
  \<open>FD_SET (-1, writefds)\<close>, a write outside the set.\<close>

theorem eof_while_connecting:
  assumes "chans_inv cr W s" and "s_payload s = Some b" and "unread b = store32h (of_nat i) @ rest"
    and "i < length (s_channels s)" and "s_channels s ! i = Some c" and "connecting c" and "co_check_close (ops (c_type c)) = None"
  shows "\<exists>s' c'. recv_msg_channel_eof ops cr io s = Inr s' \<and> chans_inv cr W s' \<and> s_channels s' ! i = Some c' \<and>
    c_initconn c' \<and> c_writefd c' = FD_CLOSED \<and> setchannelfds s' readfds writefds = Inl OutOfBounds"
proof -
  have b: "buf_inv b" using assms(1,2) by (simp add: chans_inv_def payload_inv_def)
  have t: "length (s_channels s) = unat (s_chansize s)" "unat (s_chansize s) \<le> 102"
    using assms(1) by (simp_all add: chans_inv_def table_inv_def)
  have ui: "unat (of_nat i :: u32) = i" using assms(4) t by (intro unat_of_nat_u32) simp
  have lb: "4 \<le> length (unread b)" by (simp add: assms(3))
  let ?s = "s\<lparr>s_payload := Some (advance b 4)\<rparr>" and ?c = "c\<lparr>c_recv_eof := True\<rparr>"
  define s1 where "s1 = ?s\<lparr>s_channels := (s_channels s)[i := Some ?c]\<rparr>"
  have g: "getchannel_msg (Some ''EOF'') s = Inr (i, ?s)"
    using assms(2,4,5) ui t lb by (simp add: getchannel_msg_def buf_getint_ok[OF b lb] assms(3) nth_or_ub_def Let_def word_le_nat_alt)
  have f: "chan_held cr W i ?s"
    using chan_frameI[OF chans_inv_payload[OF assms(1) advance_inv[OF b lb]], of i c] assms(4,5) by simp
  have c: "chan_ok W i c" using assms(1,4,5) by (simp add: chans_inv_def)
  have f1: "chan_held cr W i s1"
    using chan_frame_set[OF f, of "chan_ok W i" ?c] c by (simp add: s1_def)
  have cn: "connecting ?c" "c_recv_eof ?c" using assms(6) by (simp_all add: connecting_def)
  define s2 where "s2 = s1\<lparr>s_shutdown := s_shutdown s1 @ [(c_writefd c, SHUT_WR)],
      s_channels := (s_channels s1)[i := Some (?c\<lparr>c_writefd := FD_CLOSED\<rparr>)]\<rparr>"
  have cc: "check_close ops cr (io_env io) (io_flush io) (io_flusherr io) i s1 = Inr s2"
    using check_close_connecting[of i s1 ?c W ops cr "io_env io" "io_flush io" "io_flusherr io"] cn assms(4,7) c
    by (simp add: s1_def s2_def)
  have e: "recv_msg_channel_eof ops cr io s = Inr s2"
    using g cc assms(4,5) by (simp add: recv_msg_channel_eof_def upd_chan_def chan_at_def nth_or_ub_def s1_def)
  have "chan_ok W i (?c\<lparr>c_writefd := FD_CLOSED\<rparr>)" using keeps_close_ok[of W i] c by (simp add: keeps_close_def)
  moreover have "chan_held cr W i (s1\<lparr>s_shutdown := s_shutdown s1 @ [(c_writefd c, SHUT_WR)]\<rparr>)" using f1 by simp
  ultimately have i2: "chan_held cr W i s2"
    unfolding s2_def using chan_frame_set[of cr W i "chan_ok W i" "s1\<lparr>s_shutdown := s_shutdown s1 @ [(c_writefd c, SHUT_WR)]\<rparr>"] by simp
  have v: "chans_inv cr W s2" by (rule chan_frame_inv[OF i2])
  have s2: "s_channels s2 ! i = Some (?c\<lparr>c_writefd := FD_CLOSED\<rparr>)" "i < length (s_channels s2)" using assms(4) by (simp_all add: s2_def s1_def)
  have "set_chans (s_channels s2) 0 (unat (s_chansize s2)) (readfds, writefds) = Inl OutOfBounds"
    by (rule set_chans_connecting[where i = i and W = W and c = "?c\<lparr>c_writefd := FD_CLOSED\<rparr>"])
       (use v s2 assms(6) in \<open>auto simp: chans_inv_def table_inv_def connecting_def FD_CLOSED_def\<close>)
  then have "setchannelfds s2 readfds writefds = Inl OutOfBounds" by (simp add: setchannelfds_def)
  then show ?thesis using e v s2(1) assms(6) by (simp add: connecting_def)
qed

subsection \<open>Evaluation\<close>

definition sample_chan :: "circbuffer \<Rightarrow> u32 \<Rightarrow> int \<Rightarrow> bool \<Rightarrow> Channel" where
  "sample_chan cb win fd init = \<lparr>c_index = 0, c_remotechan = 7, c_recvwindow = win, c_transwindow = 3, c_recvdonelen = 0,
     c_recvmaxpacket = RECV_MAX_PAYLOAD_LEN, c_transmaxpacket = 32768, c_typedata = 0, c_writefd = fd,
     c_readfd = (if init then FD_UNINIT else fd), c_errfd = FD_CLOSED,
     c_writebuf = Some cb, c_extrabuf = None, c_sent_close = False, c_recv_close = False,
     c_recv_eof = False, c_sent_eof = False, c_close_handler_done = False, c_initconn = init,
     c_await_open = False, c_flushing = False, c_read_mangler = False, c_type = \<lparr>ct_sepfds = True, ct_name = ''direct-tcpip''\<rparr>\<rparr>"

definition sample_cbuf :: "nat \<Rightarrow> circbuffer" where
  "sample_cbuf n = \<lparr>cb_size = of_nat n, cb_readpos = 0, cb_writepos = 0, cb_used = 0, cb_data = replicate n 0\<rparr>"

definition sample_chansession :: "Channel option \<Rightarrow> buffer option \<Rightarrow> chansession" where
  "sample_chansession c b = listensession.extend
     (sshsession.extend ((sample_session (mkbuf (replicate 16384 0) 0 0 16384))\<lparr>s_payload := b\<rparr>) (listensession.fields [None] 1 0 [] []))
     (chansession.fields [c] 1 (if c = None then 0 else 1) [] [])"

abbreviation data_message :: buffer where
  "data_message \<equiv> \<lparr>b_data = [94, 0, 0, 0, 0, 0, 0, 0, 2, 65, 66, 0], b_len = 11, b_pos = 1, b_size = 12\<rparr>"

lemma sample_chansession_simps [simp]:
  "s_channels (sample_chansession c b) = [c]" "s_payload (sample_chansession c b) = b" "s_chansize (sample_chansession c b) = 1"
  "s_chancount (sample_chansession c b) = (if c = None then 0 else 1)" "s_output (sample_chansession c b) = []"
  by (simp_all add: sample_chansession_def sshsession.defs listensession.defs chansession.defs)

lemma sample_sender_ok: "sender_ok toy_crypto (sample_chansession c b)"
  using sender_ok_cong[of "sample_chansession c b" "sample_session (mkbuf (replicate 16384 0) 0 0 16384)" toy_crypto] sample_sender
  by (simp add: sample_chansession_def sshsession.defs listensession.defs sample_session_def)

lemma sample_chan_ok:
  "chan_ok 100 0 (sample_chan (sample_cbuf 100) 100 5 False)" "chan_ok 100 0 (sample_chan (sample_cbuf 0) 0 5 True)"
  by (simp_all add: sample_chan_def sample_cbuf_def chan_ok_def chan_flow_def chan_quiet_def fds_ok_def window_ok_def
      cbuf_inv_def cb_unset_def buffered_def FD_UNINIT_def FD_CLOSED_def FD_SETSIZE_def)

lemma sample_chans_inv:
  assumes "chan_ok 100 0 c" and "buf_inv b"
  shows "chans_inv toy_crypto 100 (sample_chansession (Some c) (Some b))"
  using assms sample_sender_ok by (simp add: chans_inv_def table_inv_def slots_used_def payload_inv_def)

lemma data_message_inv: "buf_inv data_message" "unread data_message = store32h (of_nat 0) @ store32h 2 @ [65, 66] @ []"
  by (simp_all add: buf_inv_def unread_def store32h_def)

lemma no_handlers_ok: "ops_ok cr W (\<lambda>t. no_handlers)"
  by (simp add: ops_ok_def no_handlers_def)

abbreviation sample_io :: chan_io where
  "sample_io \<equiv> \<lparr>io_read = SockData [1, 2, 3, 4], io_readerr = SockErr EINTR, io_write = WroteN 1, io_writeerr = WroteN 0,
     io_connect_failed = False, io_flush = SockData [], io_flusherr = SockData [], io_env = sample_env\<rparr>"


theorem channel_is_a_queue_witness:
  "let s = sample_chansession (Some (sample_chan (sample_cbuf 100) 100 5 False)) (Some data_message)
   in \<exists>s' s2 out. recv_msg_channel_data 100 s = Inr s' \<and> writechannel toy_crypto sample_env 0 100 (WroteN 1) 0 5 False s' = Inr s2 \<and>
     s_output s2 = (if out = [] then [] else [(5, out)]) \<and> length out \<le> 2"
proof -
  let ?c = "sample_chan (sample_cbuf 100) 100 5 False"
  have c: "\<not> c_recv_eof ?c" "0 \<le> c_writefd ?c" "c_writebuf ?c = Some (sample_cbuf 100)" "cb_size (sample_cbuf 100) \<noteq> 0"
    "(2 :: u32) \<le> c_recvwindow ?c" "c_writefd ?c = 5" "cbuf_list (sample_cbuf 100) = []"
    by (simp_all add: sample_chan_def sample_cbuf_def cbuf_list_def)
  from channel_is_a_queue[OF sample_chans_inv[OF sample_chan_ok(1) data_message_inv(1)] _ data_message_inv(2) _ _ c(1-4) _ c(5)]
  obtain s' c' cb' where s': "recv_msg_channel_data 100 (sample_chansession (Some ?c) (Some data_message)) = Inr s'"
    "\<forall>env k wr. env_ok env \<longrightarrow> (\<exists>s2 c2 cb2 out. writechannel toy_crypto env k 100 wr 0 (c_writefd ?c) False s' = Inr s2 \<and>
       chans_inv toy_crypto 100 s2 \<and> s_channels s2 ! 0 = Some c2 \<and> c_writebuf c2 = Some cb2 \<and>
       cbuf_list (sample_cbuf 100) @ [65, 66] = out @ cbuf_list cb2 \<and>
       s_output s2 = s_output (sample_chansession (Some ?c) (Some data_message)) @ (if out = [] then [] else [(c_writefd ?c, out)]))"
    by auto
  from s'(2)[rule_format, OF sample_env_ok, of 0 "WroteN 1"] obtain s2 cb2 out where w:
    "writechannel toy_crypto sample_env 0 100 (WroteN 1) 0 5 False s' = Inr s2" "[65, 66] = out @ cbuf_list cb2"
    "s_output s2 = (if out = [] then [] else [(5, out)])" using c(6,7) by auto
  have "length out \<le> 2" using arg_cong[OF w(2), of length] by simp
  then show ?thesis using s'(1) w(1,3) unfolding Let_def by blast
qed

theorem sent_data_fits_the_window_witness:
  "let s = sample_chansession (Some (sample_chan (sample_cbuf 100) 100 5 False)) (Some data_message)
   in \<exists>s1 s2. contents (s_writepayload s1) = [94, 0, 0, 0, 7, 0, 0, 0, 3, 1, 2, 3] \<and>
     encrypt_packet toy_crypto (env_rnd sample_env 0) (env_mac sample_env) s1 = Inr s2 \<and>
     send_msg_channel_data (\<lambda>t. no_handlers) toy_crypto sample_env 0 (SockData [1, 2, 3, 4]) 0 False s = Inr s2 \<and>
     map_option c_transwindow (s_channels s2 ! 0) = Some 0"
proof -
  let ?c = "sample_chan (sample_cbuf 100) 100 5 False"
  have l: "data_limit ?c False = 3" by (simp add: data_limit_def sample_chan_def min_def)
  have r: "os_read (SockData [1, 2, 3, 4]) (data_limit ?c False) = Inr [1, 2, 3]" by (simp add: os_read_def l)
  have c: "\<not> c_sent_close ?c" "0 \<le> (if False then c_errfd ?c else c_readfd ?c)" "\<not> c_read_mangler ?c" "data_limit ?c False \<noteq> 0"
    unfolding l by (simp_all add: sample_chan_def)
  have h: "data_header False (c_remotechan ?c) @ store32h (of_nat (length [1, 2, 3 :: u8])) @ [1, 2, 3] = [94, 0, 0, 0, 7, 0, 0, 0, 3, 1, 2, 3]"
    by (simp add: data_header_def store32h_def sample_chan_def channel_msg_defs)
  have fl: "\<not> c_flushing ?c" "c_transwindow ?c = 3" by (simp_all add: sample_chan_def)
  from sent_data_fits_the_window[OF sample_chans_inv[OF sample_chan_ok(1) data_message_inv(1)] _ _ c sample_env_ok r,
      where i = 0 and k = 0 and ops = "\<lambda>t. no_handlers"]
  obtain s1 s2 w where s: "contents (s_writepayload s1) = [94, 0, 0, 0, 7, 0, 0, 0, 3, 1, 2, 3]"
    "encrypt_packet toy_crypto (env_rnd sample_env 0) (env_mac sample_env) s1 = Inr s2"
    "send_msg_channel_data (\<lambda>t. no_handlers) toy_crypto sample_env 0 (SockData [1, 2, 3, 4]) 0 False (sample_chansession (Some ?c) (Some data_message)) = Inr s2"
    "s_channels s2 ! 0 = Some (?c\<lparr>c_transwindow := w\<rparr>)" "unat w + 3 = unat (3 :: u32)"
    unfolding h fl(2) using fl(1) by auto
  from s(5) have "w = 0" by (simp add: unat_eq_0)
  then show ?thesis using s unfolding Let_def by auto
qed

theorem eof_while_connecting_witness:
  "let s = sample_chansession (Some (sample_chan (sample_cbuf 0) 0 5 True)) (Some data_message)
   in \<exists>s'. recv_msg_channel_eof (\<lambda>t. no_handlers) toy_crypto sample_io s = Inr s' \<and> setchannelfds s' [] [] = Inl OutOfBounds"
proof -
  let ?c = "sample_chan (sample_cbuf 0) 0 5 True"
  have c: "connecting ?c" by (simp add: connecting_def sample_chan_def sample_cbuf_def)
  have o: "co_check_close ((\<lambda>t. no_handlers) (c_type ?c)) = None" by (simp add: no_handlers_def)
  from eof_while_connecting[OF sample_chans_inv[OF sample_chan_ok(2) data_message_inv(1)] _ data_message_inv(2) _ _ c o,
      where io = sample_io and readfds = "[]" and writefds = "[]"]
  show ?thesis unfolding Let_def by auto
qed

end
