(* ===== verification/Base64.thy ===== *)
theory Base64
  imports Algo
begin

text \<open>
  Base64, \<^verbatim>\<open>src/reconos/dropbear/libtomcrypt/src/misc/base64\<close>: the decoder as the loop of the code, with its three counters, and
  the encoder. Decoding stays within an array of the size the callers give it, and inverts encoding.
\<close>

definition b64_chars :: bytes where
  "b64_chars = ascii ''ABCDEFGHIJKLMNOPQRSTUVWXYZabcdefghijklmnopqrstuvwxyz0123456789+/''"

text \<open>The table \<open>map\<close>: 255 for bytes to be skipped, 254 for the padding.\<close>

definition b64_map :: "u8 \<Rightarrow> u8" where
  "b64_map c = (if c = 61 then 254 else if c \<in> set b64_chars
     then of_nat (length (takeWhile (\<lambda>x. x \<noteq> c) b64_chars)) else 255)"

text \<open>
  A round of the loop of \<open>base64_decode\<close>. The state holds the variables \<open>g\<close>, \<open>y\<close> and \<open>t\<close> and the bytes written so far
  (\<open>z\<close> is their number); \<open>cap\<close> is \<open>*outlen\<close>. \<open>None\<close> is an error code. A byte written beyond \<open>cap\<close> is
  outside the array.
\<close>

record b64_state =
  d_g :: int
  d_y :: nat
  d_t :: u32
  d_out :: bytes

definition b64_flush :: "nat \<Rightarrow> b64_state \<Rightarrow> b64_state option result" where
  "b64_flush cap st =
     (if int (length (d_out st)) + d_g st > int cap then Inr None
      else
        let out = d_out st @ [ucast (drop_bit 16 (d_t st) AND 255)] @ (if d_g st > 1 then [ucast (drop_bit 8 (d_t st) AND 255)] else []) @
                  (if d_g st > 2 then [ucast (d_t st AND 255)] else [])
        in if length out > cap then Inl OutOfBounds else Inr (Some (st\<lparr>d_y := 0, d_t := 0, d_out := out\<rparr>)))"

definition b64_step :: "nat \<Rightarrow> u8 \<Rightarrow> b64_state \<Rightarrow> b64_state option result" where
  "b64_step cap i st =
     (let c = b64_map i in
      if c = 255 then Inr (Some st)
      else if c = 254 \<and> d_g st - 1 < 0 \<or> c \<noteq> 254 \<and> d_g st \<noteq> 3 then Inr None
      else
        let st = st\<lparr>d_g := (if c = 254 then d_g st - 1 else d_g st),
                    d_t := push_bit 6 (d_t st) OR ucast (if c = 254 then 0 else c), d_y := d_y st + 1\<rparr>
        in if d_y st = 4 then b64_flush cap st else Inr (Some st))"

fun b64_loop :: "nat \<Rightarrow> bytes \<Rightarrow> b64_state \<Rightarrow> bytes option result" where
  "b64_loop cap [] st = Inr (if d_y st \<noteq> 0 then None else Some (d_out st))"
| "b64_loop cap (i # is) st = rbind (b64_step cap i st) (\<lambda>r. case r of None \<Rightarrow> Inr None | Some st \<Rightarrow> b64_loop cap is st)"

definition base64_decode :: "bytes \<Rightarrow> nat \<Rightarrow> bytes option result" where
  "base64_decode inp cap = b64_loop cap inp \<lparr>d_g = 3, d_y = 0, d_t = 0, d_out = []\<rparr>"

definition b64_code :: "u8 \<Rightarrow> u8" where
  "b64_code x = b64_chars ! unat (x AND 63)"

fun b64_enc :: "bytes \<Rightarrow> bytes" where
  "b64_enc (a # b # c # r) =
     [b64_code (drop_bit 2 a), b64_code (push_bit 4 (a AND 3) + drop_bit 4 b),
      b64_code (push_bit 2 (b AND 15) + drop_bit 6 c), b64_code (c AND 63)] @ b64_enc r"
| "b64_enc [a, b] =
     [b64_code (drop_bit 2 a), b64_code (push_bit 4 (a AND 3) + drop_bit 4 b), b64_code (push_bit 2 (b AND 15)), 61]"
| "b64_enc [a] = [b64_code (drop_bit 2 a), b64_code (push_bit 4 (a AND 3)), 61, 61]"
| "b64_enc [] = []"

definition base64_encode :: "bytes \<Rightarrow> nat \<Rightarrow> bytes option" where
  "base64_encode inp cap = (if cap < 4 * ((length inp + 2) div 3) + 1 then None else Some (b64_enc inp))"

subsection \<open>Staying within the array\<close>

text \<open>Every byte written is paid for by a byte read.\<close>

definition b64_inv :: "nat \<Rightarrow> b64_state \<Rightarrow> bool" where
  "b64_inv n st \<longleftrightarrow> length (d_out st) + d_y st \<le> n \<and> d_y st < 4 \<and> 0 \<le> d_g st \<and> d_g st \<le> 3"

lemma b64_step_ok:
  assumes "b64_inv n st" and "Suc n \<le> cap"
  shows "\<exists>r. b64_step cap i st = Inr r \<and> (\<forall>st'. r = Some st' \<longrightarrow> b64_inv (Suc n) st')"
  using assms unfolding b64_step_def b64_inv_def b64_flush_def Let_def by auto

lemma b64_loop_ok:
  assumes "b64_inv n st" and "n + length inp \<le> cap"
  shows "\<exists>r. b64_loop cap inp st = Inr r \<and> (\<forall>out. r = Some out \<longrightarrow> length out \<le> n + length inp)"
  using assms
proof (induction inp arbitrary: n st)
  case (Cons i inp)
  obtain r where r: "b64_step cap i st = Inr r" "\<forall>st'. r = Some st' \<longrightarrow> b64_inv (Suc n) st'"
    using b64_step_ok[OF Cons.prems(1), of cap i] Cons.prems(2) by auto
  show ?case
  proof (cases r)
    case (Some st')
    then show ?thesis using Cons.IH[of "Suc n" st'] r Cons.prems(2) by simp
  qed (simp add: r(1))
qed (auto simp: b64_inv_def)

lemma base64_decode_ok:
  assumes "length inp \<le> cap"
  shows "\<exists>r. base64_decode inp cap = Inr r \<and> (\<forall>out. r = Some out \<longrightarrow> length out \<le> length inp)"
  unfolding base64_decode_def using b64_loop_ok[of 0 "\<lparr>d_g = 3, d_y = 0, d_t = 0, d_out = []\<rparr>" inp cap] assms
  by (simp add: b64_inv_def)

subsection \<open>Round trip\<close>

lemma length_b64_chars: "length b64_chars = 64"
  by (simp add: b64_chars_def ascii_def)

lemma b64_chars_distinct: "distinct b64_chars" "61 \<notin> set b64_chars"
  by (simp_all add: b64_chars_def ascii_def)

lemma takeWhile_nth_distinct: "distinct xs \<Longrightarrow> n < length xs \<Longrightarrow> takeWhile (\<lambda>x. x \<noteq> xs ! n) xs = take n xs"
proof (induction xs arbitrary: n)
  case (Cons x xs)
  then show ?case by (cases n) auto
qed simp

lemma b64_map_char: "n < 64 \<Longrightarrow> b64_map (b64_chars ! n) = of_nat n"
proof -
  assume n: "n < 64"
  then have m: "b64_chars ! n \<in> set b64_chars" by (simp add: length_b64_chars)
  have "takeWhile (\<lambda>x. x \<noteq> b64_chars ! n) b64_chars = take n b64_chars"
    using n by (intro takeWhile_nth_distinct) (simp_all add: b64_chars_distinct length_b64_chars)
  moreover have "b64_chars ! n \<noteq> 61" using m b64_chars_distinct(2) by auto
  ultimately show ?thesis using m n by (simp add: b64_map_def length_b64_chars)
qed

text \<open>A character of the code stands for six bits.\<close>

lemma b64_map_code: "b64_map (b64_code x) = x AND 63" and b64_map_pad: "b64_map 61 = 254"
proof -
  have "x AND 63 = take_bit 6 x" by (simp add: take_bit_eq_mask mask_eq_exp_minus_1)
  then have "unat (x AND 63) < 64" using take_bit_nat_less_exp[of 6 "unat x"] by (simp add: unsigned_take_bit_eq)
  then show "b64_map (b64_code x) = x AND 63" unfolding b64_code_def by (simp add: b64_map_char)
qed (simp add: b64_map_def)

text \<open>The 24 bits of a group.\<close>

definition b64_word :: "u8 \<Rightarrow> u8 \<Rightarrow> u8 \<Rightarrow> u8 \<Rightarrow> u32" where
  "b64_word v0 v1 v2 v3 = push_bit 6 (push_bit 6 (push_bit 6 (ucast v0) OR ucast v1) OR ucast v2) OR ucast v3"

lemma u8_high_bit [simp]: "8 \<le> n \<Longrightarrow> \<not> bit (x :: u8) n"
  using bit_imp_le_length[of x n] by auto

lemma b64_digit1: "push_bit 4 (a AND 3) + drop_bit 4 b = (push_bit 4 (a AND 3) OR drop_bit 4 b :: u8)"
  and b64_digit2: "push_bit 2 (b AND 15) + drop_bit 6 c = (push_bit 2 (b AND 15) OR drop_bit 6 c :: u8)"
proof -
  have m: "(3 :: u8) = mask 2" "(15 :: u8) = mask 4" by (simp_all add: mask_eq_exp_minus_1)
  show "push_bit 4 (a AND 3) + drop_bit 4 b = (push_bit 4 (a AND 3) OR drop_bit 4 b :: u8)"
    by (rule disjunctive_add) (auto simp: m bit_simps)
  show "push_bit 2 (b AND 15) + drop_bit 6 c = (push_bit 2 (b AND 15) OR drop_bit 6 c :: u8)"
    by (rule disjunctive_add) (auto simp: m bit_simps)
qed

lemma b64_group_bytes:
  fixes a b c :: u8
  defines "t \<equiv> b64_word (drop_bit 2 a AND 63) ((push_bit 4 (a AND 3) OR drop_bit 4 b) AND 63)
     ((push_bit 2 (b AND 15) OR drop_bit 6 c) AND 63) (c AND 63)"
  shows "ucast (drop_bit 16 t AND 255) = a" and "ucast (drop_bit 8 t AND 255) = b" and "ucast (t AND 255) = c"
proof -
  have m: "(3 :: u8) = mask 2" "(15 :: u8) = mask 4" "(63 :: u8) = mask 6" "(255 :: u32) = mask 8"
    by (simp_all add: mask_eq_exp_minus_1)
  have f: "Suc (Suc (Suc (Suc 0))) = 4" by simp
  show "ucast (drop_bit 16 t AND 255) = a"
  proof (rule bit_word_eqI)
    fix n assume "n < LENGTH(8)"
    then have "n = 0 \<or> n = 1 \<or> n = 2 \<or> n = 3 \<or> n = 4 \<or> n = 5 \<or> n = 6 \<or> n = 7" by auto
    then show "bit (ucast (drop_bit 16 t AND 255) :: u8) n = bit a n"
      by (elim disjE; hypsubst) (simp_all add: t_def b64_word_def m bit_simps numeral_2_eq_2 numeral_3_eq_3 f)
  qed
  show "ucast (drop_bit 8 t AND 255) = b"
  proof (rule bit_word_eqI)
    fix n assume "n < LENGTH(8)"
    then have "n = 0 \<or> n = 1 \<or> n = 2 \<or> n = 3 \<or> n = 4 \<or> n = 5 \<or> n = 6 \<or> n = 7" by auto
    then show "bit (ucast (drop_bit 8 t AND 255) :: u8) n = bit b n"
      by (elim disjE; hypsubst) (simp_all add: t_def b64_word_def m bit_simps)
  qed
  show "ucast (t AND 255) = c"
  proof (rule bit_word_eqI)
    fix n assume "n < LENGTH(8)"
    then have "n = 0 \<or> n = 1 \<or> n = 2 \<or> n = 3 \<or> n = 4 \<or> n = 5 \<or> n = 6 \<or> n = 7" by auto
    then show "bit (ucast (t AND 255) :: u8) n = bit c n"
      by (elim disjE; hypsubst) (simp_all add: t_def b64_word_def m bit_simps)
  qed
qed

text \<open>One group of four characters, the last ones perhaps padding.\<close>

lemma u8_and_63_small: "(x :: u8) AND 63 \<noteq> 255" "(x :: u8) AND 63 \<noteq> 254"
proof -
  have "x AND 63 \<le> 63" by (rule word_and_le1)
  then show "x AND 63 \<noteq> 255" "x AND 63 \<noteq> 254" by (auto simp: word_le_nat_alt)
qed

lemma and_63_63: "((x :: u8) AND 63) AND 63 = x AND 63"
  by (simp add: and.assoc)

lemma b64_step_code:
  assumes "d_g st = 3" and "d_y st < 3"
  shows "b64_step cap (b64_code x) st = Inr (Some (st\<lparr>d_t := push_bit 6 (d_t st) OR ucast (x AND 63), d_y := d_y st + 1\<rparr>))"
  using assms by (simp add: b64_step_def b64_map_code u8_and_63_small Let_def)

lemma b64_group:
  assumes "length out + 3 \<le> cap"
  shows "b64_loop cap (b64_code v0 # b64_code v1 # b64_code v2 # b64_code v3 # rest) \<lparr>d_g = 3, d_y = 0, d_t = 0, d_out = out\<rparr> =
    (let t = b64_word (v0 AND 63) (v1 AND 63) (v2 AND 63) (v3 AND 63)
     in b64_loop cap rest \<lparr>d_g = 3, d_y = 0, d_t = 0,
          d_out = out @ [ucast (drop_bit 16 t AND 255), ucast (drop_bit 8 t AND 255), ucast (t AND 255)]\<rparr>)"
  using assms by (simp add: b64_step_def b64_flush_def b64_map_code u8_and_63_small Let_def b64_word_def)

lemma b64_group2:
  assumes "length out + 2 \<le> cap"
  shows "b64_loop cap [b64_code v0, b64_code v1, b64_code v2, 61] \<lparr>d_g = 3, d_y = 0, d_t = 0, d_out = out\<rparr> =
    (let t = b64_word (v0 AND 63) (v1 AND 63) (v2 AND 63) 0 in Inr (Some (out @ [ucast (drop_bit 16 t AND 255), ucast (drop_bit 8 t AND 255)])))"
  using assms by (simp add: b64_step_def b64_flush_def b64_map_code b64_map_pad u8_and_63_small Let_def b64_word_def)

lemma b64_group1:
  assumes "length out + 1 \<le> cap"
  shows "b64_loop cap [b64_code v0, b64_code v1, 61, 61] \<lparr>d_g = 3, d_y = 0, d_t = 0, d_out = out\<rparr> =
    (let t = b64_word (v0 AND 63) (v1 AND 63) 0 0 in Inr (Some (out @ [ucast (drop_bit 16 t AND 255)])))"
  using assms by (simp add: b64_step_def b64_flush_def b64_map_code b64_map_pad u8_and_63_small Let_def b64_word_def)

lemma b64_loop_enc:
  assumes "length out + length xs \<le> cap"
  shows "b64_loop cap (b64_enc xs) \<lparr>d_g = 3, d_y = 0, d_t = 0, d_out = out\<rparr> = Inr (Some (out @ xs))"
  using assms
proof (induction xs arbitrary: out rule: b64_enc.induct)
  case (1 a b c r)
  have "b64_loop cap (b64_enc r) \<lparr>d_g = 3, d_y = 0, d_t = 0, d_out = out @ [a, b, c]\<rparr> = Inr (Some ((out @ [a, b, c]) @ r))"
    by (rule "1.IH") (use "1.prems" in simp)
  moreover have "length out + 3 \<le> cap" using "1.prems" by simp
  ultimately show ?case
    unfolding b64_enc.simps append_Cons append_Nil b64_digit1 b64_digit2 b64_group[OF \<open>length out + 3 \<le> cap\<close>] Let_def
      and_63_63 b64_group_bytes append_assoc by simp
next
  case (2 a b)
  have "length out + 2 \<le> cap" using 2 by simp
  then show ?case using b64_group_bytes(1,2)[of a b 0]
    unfolding b64_enc.simps b64_digit1 b64_group2[OF \<open>length out + 2 \<le> cap\<close>] Let_def
    by (simp only: drop_bit_of_0 or.right_neutral and.left_neutral bit.conj_zero_left)
next
  case (3 a)
  have "length out + 1 \<le> cap" using 3 by simp
  then show ?case using b64_group_bytes(1)[of a 0 0]
    unfolding b64_enc.simps b64_group1[OF \<open>length out + 1 \<le> cap\<close>] Let_def
    by (simp only: drop_bit_of_0 push_bit_of_0 or.right_neutral bit.conj_zero_left)
qed simp

subsection \<open>Properties\<close>

text \<open>
  C38: Base64 decoding inverts encoding: what \<open>base64_encode\<close> writes for a byte string, \<open>base64_decode\<close> turns back into
  exactly that string, into any array that has room for it.
\<close>

theorem base64_roundtrip:
  assumes "base64_encode xs n = Some enc" and "length xs \<le> cap"
  shows "base64_decode enc cap = Inr (Some xs)"
  using assms b64_loop_enc[of "[]" xs cap] by (simp add: base64_decode_def base64_encode_def split: if_splits)

theorem base64_roundtrip_witness:
  "base64_encode [0, 255, 17, 3] 9 = Some (ascii ''AP8RAw=='') \<and> base64_decode (ascii ''AP8RAw=='') 4 = Inr (Some [0, 255, 17, 3])"
proof -
  have "base64_encode [0, 255, 17, 3] 9 = Some (ascii ''AP8RAw=='')" by code_simp
  then show ?thesis using base64_roundtrip[of "[0, 255, 17, 3]" 9 "ascii ''AP8RAw==''" 4] by simp
qed

text \<open>
  Decoding never writes outside an array that is at least as long as the text, whatever the text; it ends with the decoded
  bytes, which are no more than the text, or with an error.
\<close>

theorem base64_decode_stays_inside:
  assumes "length inp \<le> cap"
  shows "base64_decode inp cap = Inr None \<or> (\<exists>out. base64_decode inp cap = Inr (Some out) \<and> length out \<le> length inp)"
  using base64_decode_ok[OF assms] by (metis not_Some_eq)

theorem base64_decode_stays_inside_witness:
  "length (ascii ''=A=='') \<le> 4 \<and> base64_decode (ascii ''=A=='') 4 = Inr None"
proof -
  have "is_ok (base64_decode (ascii ''=A=='') 4)" "\<not> (case base64_decode (ascii ''=A=='') 4 of Inr (Some out) \<Rightarrow> True | _ \<Rightarrow> False)"
    by code_simp+
  then show ?thesis using base64_decode_stays_inside[of "ascii ''=A==''" 4] by (auto simp: ascii_def)
qed

end
