(* ===== verification/AuthKeys.thy ===== *)
theory AuthKeys
  imports Sender Base64
begin

text \<open>
  The keys a user accepts: the lines of \<open>authorized_keys\<close> (\<open>buf_getline\<close> of \<^verbatim>\<open>dbutil.c\<close>), \<open>cmp_base64_key\<close> of \<^verbatim>\<open>signkey.c\<close>, the options of a key (\<^verbatim>\<open>svr-authpubkeyoptions.c\<close>), and
  \<open>checkpubkey\<close> of \<^verbatim>\<open>svr-authpubkey.c\<close> with the state it keeps in \<open>ses.authstate\<close> (\<^verbatim>\<open>auth.h\<close>).
\<close>

subsection \<open>Strings\<close>

text \<open>The C string at the start of an array, and comparisons of two arrays as strings of at most \<open>n\<close> bytes.\<close>

definition cstr :: "bytes \<Rightarrow> bytes" where
  "cstr mem = takeWhile (\<lambda>c. c \<noteq> 0) mem"

fun strn_eq :: "(u8 \<Rightarrow> u8) \<Rightarrow> nat \<Rightarrow> bytes \<Rightarrow> bytes \<Rightarrow> bool result" where
  "strn_eq f 0 a b = Inr True"
| "strn_eq f (Suc n) (x # a) (y # b) = (if f x \<noteq> f y then Inr False else if x = 0 then Inr True else strn_eq f n a b)"
| "strn_eq f (Suc n) _ _ = Inl OutOfBounds"

definition to_lower :: "u8 \<Rightarrow> u8" where
  "to_lower c = (if 65 \<le> c \<and> c \<le> 90 then c + 32 else c)"

subsection \<open>The state of the authentication\<close>

record PubKeyOptions =
  po_no_port_forwarding :: bool
  po_no_agent_forwarding :: bool
  po_no_x11_forwarding :: bool
  po_no_pty :: bool
  po_forced_command :: "bytes option"

text \<open>Strings are without their NUL; \<open>None\<close> is a null pointer. The flag \<open>authdone\<close> is in \<open>sshsession\<close>.\<close>

record AuthState =
  as_username :: "bytes option"
  as_authtypes :: u8
  as_failcount :: u32
  as_perm_warn :: bool
  as_pw_uid :: u32
  as_pw_gid :: u32
  as_pw_dir :: "bytes option"
  as_pw_shell :: "bytes option"
  as_pw_name :: "bytes option"
  as_pw_passwd :: "bytes option"
  as_pubkey_options :: "PubKeyOptions option"

text \<open>What is zero after \<open>memset\<close>.\<close>

definition zero_AuthState :: AuthState where
  "zero_AuthState = \<lparr>as_username = None, as_authtypes = 0, as_failcount = 0, as_perm_warn = False, as_pw_uid = 0, as_pw_gid = 0,
     as_pw_dir = None, as_pw_shell = None, as_pw_name = None, as_pw_passwd = None, as_pubkey_options = None\<rparr>"

subsection \<open>Lines of a file\<close>

text \<open>
  \<open>file\<close> is what \<open>fgetc\<close> still returns. The loop of \<open>buf_getline\<close> ends at the end of the file (the first result), at
  the end of a line, or when the buffer is full.
\<close>

fun getline_loop :: "bytes \<Rightarrow> buffer \<Rightarrow> (bool \<times> buffer \<times> bytes) result" where
  "getline_loop [] line = (if b_pos line < b_size line then Inr (True, line, []) else rbind (buf_setlen line 0) (\<lambda>line. Inr (False, line, [])))"
| "getline_loop (c # file) line =
     (if b_pos line < b_size line
      then if c = 10 \<or> c = 13 then Inr (False, line, file) else rbind (buf_putbyte line c) (getline_loop file)
      else rbind (buf_setlen line 0) (\<lambda>line. Inr (False, line, c # file)))"

definition buf_getline :: "buffer \<Rightarrow> bytes \<Rightarrow> (bool \<times> buffer \<times> bytes) result" where
  "buf_getline line file =
     rbind (buf_setpos line 0) (\<lambda>line.
     rbind (buf_setlen line 0) (\<lambda>line.
     rbind (getline_loop file line) (\<lambda>(eof, line, file).
     if eof \<and> b_pos line = 0 then Inr (False, line, file)
     else rbind (buf_setpos line 0) (\<lambda>line. Inr (True, line, file)))))"

subsection \<open>Options of a key\<close>

definition match_option :: "buffer \<Rightarrow> string \<Rightarrow> (bool \<times> buffer) result" where
  "match_option options_buf opt_name =
     (let len = of_nat (length opt_name) in
      if b_len options_buf - b_pos options_buf < len then Inr (False, options_buf)
      else
        rbind (buf_getptr options_buf len) (\<lambda>p.
        rbind (strn_eq to_lower (unat len) (drop p (b_data options_buf)) (ascii opt_name)) (\<lambda>eq.
        if eq then rbind (buf_incrpos options_buf len) (\<lambda>b. Inr (True, b)) else Inr (False, options_buf))))"

text \<open>The search for the end of the command; \<open>n\<close> is the number of bytes that are left. \<open>False\<close> when there is no end.\<close>

fun command_end :: "nat \<Rightarrow> bool \<Rightarrow> buffer \<Rightarrow> (bool \<times> buffer) result" where
  "command_end 0 escaped b = Inr (False, b)"
| "command_end (Suc n) escaped b =
     rbind (buf_getbyte b) (\<lambda>(c, b).
     if \<not> escaped \<and> c = 34 then Inr (True, b) else command_end n (\<not> escaped \<and> c = 92) b)"

text \<open>
  One option. The result is \<open>None\<close> for a bad option, else the buffer after it and the options. An option that is not
  known is left to the check for the comma.
\<close>

definition parse_option :: "buffer \<Rightarrow> PubKeyOptions \<Rightarrow> (buffer \<times> PubKeyOptions) option result" where
  "parse_option b o1 =
     rbind (match_option b ''no-port-forwarding'') (\<lambda>(m, b).
     if m then Inr (Some (b, o1\<lparr>po_no_port_forwarding := True\<rparr>))
     else rbind (match_option b ''no-agent-forwarding'') (\<lambda>(m, b).
     if m then Inr (Some (b, o1\<lparr>po_no_agent_forwarding := True\<rparr>))
     else rbind (match_option b ''no-X11-forwarding'') (\<lambda>(m, b).
     if m then Inr (Some (b, o1\<lparr>po_no_x11_forwarding := True\<rparr>))
     else rbind (match_option b ''no-pty'') (\<lambda>(m, b).
     if m then Inr (Some (b, o1\<lparr>po_no_pty := True\<rparr>))
     else rbind (match_option b (''command='' @ [CHR 0x22])) (\<lambda>(m, b).
     if m then
       rbind (buf_getptr b 0) (\<lambda>command_start.
       rbind (command_end (unat (b_len b - b_pos b)) False b) (\<lambda>(found, b).
       if \<not> found then Inr None
       else
         rbind (buf_getptr b 0) (\<lambda>e.
         rbind (m_malloc (e - command_start)) (\<lambda>_.
         rbind (mem_read (b_data b) command_start (e - command_start - 1)) (\<lambda>cmd.
         Inr (Some (b, o1\<lparr>po_forced_command := Some (cstr cmd)\<rparr>)))))))
     else Inr (Some (b, o1)))))))"

text \<open>
  The loop of \<open>svr_add_pubkey_options\<close>. Every round reads a byte, so as many rounds as there are bytes are
  enough; \<open>Hang\<close> would mean they are not.
\<close>

fun options_loop :: "nat \<Rightarrow> buffer \<Rightarrow> PubKeyOptions \<Rightarrow> PubKeyOptions option result" where
  "options_loop 0 b o1 = (if b_pos b < b_len b then Inl Hang else Inr (Some o1))"
| "options_loop (Suc n) b o1 =
     (if b_pos b < b_len b then
        rbind (parse_option b o1) (\<lambda>r.
        case r of
          None \<Rightarrow> Inr None
        | Some (b, o1) \<Rightarrow>
            if b_pos b < b_len b
            then rbind (buf_getbyte b) (\<lambda>(c, b). if c \<noteq> 44 then Inr None else options_loop n b o1)
            else options_loop n b o1)
      else Inr (Some o1))"

definition svr_add_pubkey_options :: "buffer \<Rightarrow> AuthState \<Rightarrow> (bool \<times> AuthState) result" where
  "svr_add_pubkey_options options_buf a =
     rbind (buf_setpos options_buf 0) (\<lambda>b.
     rbind (options_loop (unat (b_len b)) b \<lparr>po_no_port_forwarding = False, po_no_agent_forwarding = False,
              po_no_x11_forwarding = False, po_no_pty = False, po_forced_command = None\<rparr>) (\<lambda>r.
     Inr (r \<noteq> None, a\<lparr>as_pubkey_options := r\<rparr>)))"

definition svr_pubkey_allows_agentfwd :: "AuthState \<Rightarrow> bool" where
  "svr_pubkey_allows_agentfwd a = (case as_pubkey_options a of None \<Rightarrow> True | Some x \<Rightarrow> \<not> po_no_agent_forwarding x)"

definition svr_pubkey_allows_tcpfwd :: "AuthState \<Rightarrow> bool" where
  "svr_pubkey_allows_tcpfwd a = (case as_pubkey_options a of None \<Rightarrow> True | Some x \<Rightarrow> \<not> po_no_port_forwarding x)"

definition svr_pubkey_allows_x11fwd :: "AuthState \<Rightarrow> bool" where
  "svr_pubkey_allows_x11fwd a = (case as_pubkey_options a of None \<Rightarrow> True | Some x \<Rightarrow> \<not> po_no_x11_forwarding x)"

definition svr_pubkey_allows_pty :: "AuthState \<Rightarrow> bool" where
  "svr_pubkey_allows_pty a = (case as_pubkey_options a of None \<Rightarrow> True | Some x \<Rightarrow> \<not> po_no_pty x)"

text \<open>
  \<open>cmd\<close> is \<open>chansess->cmd\<close>; the result is the new \<open>cmd\<close> and \<open>original_command\<close>. \<open>m_strdup\<close> reads the string
  it is given.
\<close>

definition m_strdup :: "bytes option \<Rightarrow> bytes result" where
  "m_strdup str = deref str"

definition svr_pubkey_set_forced_command :: "AuthState \<Rightarrow> bytes option \<Rightarrow> bytes option \<Rightarrow> (bytes option \<times> bytes option) result" where
  "svr_pubkey_set_forced_command a cmd original_command =
     (case as_pubkey_options a of
        None \<Rightarrow> Inr (cmd, original_command)
      | Some x \<Rightarrow>
          rbind (m_strdup (po_forced_command x)) (\<lambda>forced.
          Inr (Some forced, Some (case cmd of Some c \<Rightarrow> c | None \<Rightarrow> []))))"

definition svr_pubkey_options_cleanup :: "AuthState \<Rightarrow> AuthState" where
  "svr_pubkey_options_cleanup a = a\<lparr>as_pubkey_options := None\<rparr>"

subsection \<open>Comparing with a line\<close>

text \<open>\<open>keyblob\<close> is the memory from the pointer on; its first \<open>keybloblen\<close> bytes are read once the lengths agree.\<close>

definition cmp_base64_key :: "bytes \<Rightarrow> u32 \<Rightarrow> bytes \<Rightarrow> nat \<Rightarrow> buffer \<Rightarrow> bool result" where
  "cmp_base64_key keyblob keybloblen algoname algolen line =
     (let len = b_len line - b_pos line; decodekeylen = len * 2 in
      rbind (buf_new decodekeylen) (\<lambda>decodekey.
      rbind (buf_getptr line len) (\<lambda>p.
      rbind (mem_read (b_data line) p (unat len)) (\<lambda>inp.
      rbind (buf_getwriteptr decodekey (b_size decodekey)) (\<lambda>q.
      rbind (base64_decode inp (unat decodekeylen)) (\<lambda>r.
      case r of
        None \<Rightarrow> Inr False
      | Some out \<Rightarrow>
          rbind (mem_write (b_data decodekey) q out) (\<lambda>d.
          rbind (buf_incrlen (decodekey\<lparr>b_data := d\<rparr>) (of_nat (length out))) (\<lambda>decodekey.
          if length out \<noteq> unat keybloblen then Inr False
          else
            rbind (buf_getptr decodekey (b_len decodekey)) (\<lambda>p.
            rbind (mem_read (b_data decodekey) p (unat (b_len decodekey))) (\<lambda>key.
            rbind (mem_read keyblob 0 (unat keybloblen)) (\<lambda>blob.
            if key \<noteq> blob then Inr False
            else
              rbind (buf_getint decodekey) (\<lambda>(filealgolen, decodekey).
              rbind (buf_getptr decodekey filealgolen) (\<lambda>p.
              if unat filealgolen \<noteq> algolen then Inr False
              else
                rbind (mem_read (b_data decodekey) p algolen) (\<lambda>x.
                rbind (mem_read algoname 0 algolen) (\<lambda>y.
                Inr (x = y))))))))))))))))"

text \<open>White space and comments before the options; \<open>n\<close> is the number of bytes that are left. \<open>True\<close> for a comment.\<close>

fun skip_blank :: "nat \<Rightarrow> buffer \<Rightarrow> (bool \<times> buffer) result" where
  "skip_blank 0 line = Inr (False, line)"
| "skip_blank (Suc n) line =
     rbind (buf_getbyte line) (\<lambda>(c, line).
     if c = 32 \<or> c = 9 then skip_blank n line
     else if c = 35 then Inr (True, line)
     else rbind (buf_incrpos line (- 1)) (\<lambda>line. Inr (False, line)))"

text \<open>The end of the options, a blank that is not quoted; the result is their length.\<close>

fun options_end :: "nat \<Rightarrow> bool \<Rightarrow> bool \<Rightarrow> nat \<Rightarrow> buffer \<Rightarrow> (nat \<times> buffer) result" where
  "options_end 0 quoted escape len line = Inr (len, line)"
| "options_end (Suc n) quoted escape len line =
     rbind (buf_getbyte line) (\<lambda>(c, line).
     if \<not> quoted \<and> (c = 32 \<or> c = 9) then Inr (len, line)
     else
       let escape = (\<not> escape \<and> c = 92);
           quoted = (if \<not> escape \<and> c = 34 then \<not> quoted else quoted)
       in options_end n quoted escape (Suc len) line)"

text \<open>The end of the base64 data, a space or the end of the line; the result is their length.\<close>

fun base64_span :: "nat \<Rightarrow> u32 \<Rightarrow> buffer \<Rightarrow> (u32 \<times> buffer) result" where
  "base64_span 0 len line = Inr (len, line)"
| "base64_span (Suc n) len line = rbind (buf_getbyte line) (\<lambda>(c, line). if c = 32 then Inr (len, line) else base64_span n (len + 1) line)"

text \<open>The options are copied, and the algorithm is looked for after them.\<close>

definition key_after_options :: "bytes \<Rightarrow> u32 \<Rightarrow> nat \<Rightarrow> nat \<Rightarrow> buffer \<Rightarrow> (buffer option \<times> buffer) option result" where
  "key_after_options algo algolen options_start options_len line =
     rbind (buf_new (of_nat options_len)) (\<lambda>options_buf.
     rbind (mem_read (b_data line) options_start options_len) (\<lambda>bs.
     rbind (buf_putbytes options_buf bs (of_nat options_len)) (\<lambda>options_buf.
     if b_pos line + algolen > b_len line then Inr None
     else
       rbind (buf_getptr line algolen) (\<lambda>p.
       rbind (strn_eq id (unat algolen) (drop p (b_data line)) algo) (\<lambda>eq.
       Inr (if eq then Some (Some options_buf, line) else None))))))"

text \<open>The part of a line before the key: \<open>None\<close> if the line is skipped, else the options, if there are any.\<close>

definition line_options :: "bytes \<Rightarrow> u32 \<Rightarrow> buffer \<Rightarrow> (buffer option \<times> buffer) option result" where
  "line_options algo algolen line =
     rbind (buf_getptr line algolen) (\<lambda>p.
     rbind (strn_eq id (unat algolen) (drop p (b_data line)) algo) (\<lambda>eq.
     if eq then Inr (Some (None, line))
     else
       rbind (skip_blank (unat (b_len line - b_pos line)) line) (\<lambda>(is_comment, line).
       if is_comment then Inr None
       else
         rbind (buf_getptr line 1) (\<lambda>options_start.
         rbind (options_end (unat (b_len line - b_pos line)) False False 0 line) (\<lambda>(options_len, line).
         key_after_options algo algolen options_start options_len line)))))"

text \<open>The key itself: the line is cut at the space after the base64 data, and these are compared.\<close>

definition key_data :: "bytes \<Rightarrow> u32 \<Rightarrow> bytes \<Rightarrow> u32 \<Rightarrow> buffer \<Rightarrow> bool result" where
  "key_data algo algolen keyblob keybloblen line =
     rbind (base64_span (unat (b_len line - b_pos line)) 0 line) (\<lambda>(len, line').
     rbind (buf_setpos line' (b_pos line)) (\<lambda>line'.
     rbind (buf_setlen line' (b_pos line' + len)) (\<lambda>line'.
     cmp_base64_key keyblob keybloblen algo (unat algolen) line')))"

definition check_key :: "bytes \<Rightarrow> u32 \<Rightarrow> bytes \<Rightarrow> u32 \<Rightarrow> buffer option \<Rightarrow> buffer \<Rightarrow> AuthState \<Rightarrow> (bool \<times> AuthState) result" where
  "check_key algo algolen keyblob keybloblen options_buf line a =
     rbind (buf_incrpos line algolen) (\<lambda>line.
     rbind (buf_getbyte line) (\<lambda>(c, line).
     if c \<noteq> 32 then Inr (False, a)
     else
       rbind (key_data algo algolen keyblob keybloblen line) (\<lambda>ok.
       case options_buf of
         None \<Rightarrow> Inr (ok, a)
       | Some b \<Rightarrow> if ok then svr_add_pubkey_options b a else Inr (False, a))))"

text \<open>One line: whether its key is the one that is asked for and its options are good.\<close>

definition check_line :: "bytes \<Rightarrow> u32 \<Rightarrow> bytes \<Rightarrow> u32 \<Rightarrow> buffer \<Rightarrow> AuthState \<Rightarrow> (bool \<times> AuthState) result" where
  "check_line algo algolen keyblob keybloblen line a =
     (if b_len line < 10 then Inr (False, a)
      else
        rbind (line_options algo algolen line) (\<lambda>r.
        case r of
          None \<Rightarrow> Inr (False, a)
        | Some (options_buf, line) \<Rightarrow> check_key algo algolen keyblob keybloblen options_buf line a))"

text \<open>The lines of the file. Every line read takes a byte from it, so that \<open>n\<close>, more than its length, is enough.\<close>

fun check_lines :: "nat \<Rightarrow> bytes \<Rightarrow> u32 \<Rightarrow> bytes \<Rightarrow> u32 \<Rightarrow> buffer \<Rightarrow> bytes \<Rightarrow> AuthState \<Rightarrow> (bool \<times> AuthState) result" where
  "check_lines 0 algo algolen keyblob keybloblen line file a = Inl Hang"
| "check_lines (Suc n) algo algolen keyblob keybloblen line file a =
     rbind (buf_getline line file) (\<lambda>(ok, line, file).
     if \<not> ok then Inr (False, a)
     else
       rbind (check_line algo algolen keyblob keybloblen line a) (\<lambda>(ok, a).
       if ok then Inr (True, a) else check_lines n algo algolen keyblob keybloblen line file a))"

subsection \<open>Permissions and the file\<close>

text \<open>
  The operating system as the authentication sees it: \<open>w_stat\<close> gives the owner and the mode of a file, \<open>w_file\<close> its contents
  if it can be opened. 18 is \<open>S_IWGRP | S_IWOTH\<close>.
\<close>

record passwd =
  pwd_name :: bytes
  pwd_uid :: u32
  pwd_gid :: u32
  pwd_dir :: bytes
  pwd_shell :: bytes
  pwd_passwd :: "bytes option"

record auth_world =
  w_getpwnam :: "bytes \<Rightarrow> passwd option"
  w_getspnam :: "bytes \<Rightarrow> bytes option"
  w_crypt :: "bytes \<Rightarrow> bytes \<Rightarrow> bytes option"
  w_geteuid :: u32
  w_shells :: "bytes list"
  w_stat :: "bytes \<Rightarrow> (u32 \<times> u32) option"
  w_file :: "bytes \<Rightarrow> bytes option"

definition checkfileperm :: "auth_world \<Rightarrow> bytes \<Rightarrow> AuthState \<Rightarrow> bool \<times> AuthState" where
  "checkfileperm w filename a =
     (case w_stat w filename of
        None \<Rightarrow> (False, a)
      | Some (uid, mode) \<Rightarrow>
          if uid \<noteq> as_pw_uid a \<and> uid \<noteq> 0 \<or> mode AND 18 \<noteq> 0 then (False, a\<lparr>as_perm_warn := True\<rparr>) else (True, a))"

definition checkpubkeyperms :: "auth_world \<Rightarrow> AuthState \<Rightarrow> bool \<times> AuthState" where
  "checkpubkeyperms w a =
     (case as_pw_dir a of
        None \<Rightarrow> (False, a)
      | Some dir \<Rightarrow>
          if dir = [] then (False, a)
          else
            let (ok, a) = checkfileperm w dir a in
            if \<not> ok then (False, a)
            else
              let (ok, a) = checkfileperm w (dir @ ascii ''/.ssh'') a in
              if \<not> ok then (False, a) else checkfileperm w (dir @ ascii ''/.ssh/authorized_keys'') a)"

definition MAX_AUTHKEYS_LINE :: u32 where "MAX_AUTHKEYS_LINE = 4200"

definition checkpubkey :: "auth_world \<Rightarrow> bytes \<Rightarrow> u32 \<Rightarrow> bytes \<Rightarrow> u32 \<Rightarrow> AuthState \<Rightarrow> (bool \<times> AuthState) result" where
  "checkpubkey w algo algolen keyblob keybloblen a =
     rbind (have_algo algo (unat algolen) sshhostkey) (\<lambda>known.
     if \<not> known then Inr (False, a)
     else
       let (ok, a) = checkpubkeyperms w a in
       if \<not> ok then Inr (False, a)
       else
         rbind (deref (as_pw_dir a)) (\<lambda>dir.
         case w_file w (dir @ ascii ''/.ssh/authorized_keys'') of
           None \<Rightarrow> Inr (False, a)
         | Some file \<Rightarrow>
             rbind (buf_new MAX_AUTHKEYS_LINE) (\<lambda>line.
             check_lines (Suc (length file)) algo algolen keyblob keybloblen line file a)))"

subsection \<open>Reading a line\<close>

text \<open>A buffer that has been read from: only its position has moved on.\<close>

definition moved :: "buffer \<Rightarrow> buffer \<Rightarrow> bool" where
  "moved b b' \<longleftrightarrow> (\<exists>n \<le> length (unread b). b' = advance b n)"

lemma movedI: "n \<le> length (unread b) \<Longrightarrow> moved b (advance b n)"
  by (auto simp: moved_def)

lemma moved_refl [simp]: "moved b b"
  using movedI[of 0 b] by simp

lemma moved_trans:
  assumes "buf_inv a" and "moved a b" and "moved b c"
  shows "moved a c"
proof -
  obtain m where m: "m \<le> length (unread a)" "b = advance a m" using assms(2) by (auto simp: moved_def)
  obtain n where n: "n \<le> length (unread b)" "c = advance b n" using assms(3) by (auto simp: moved_def)
  have "m + n \<le> length (unread a)" using m n assms(1) by (simp add: unread_advance)
  then show ?thesis using m(2) n(2) by (simp add: advance_advance movedI)
qed

lemma movedD:
  assumes "moved b b'" and "buf_inv b"
  shows "buf_inv b'" "b_data b' = b_data b" "b_len b' = b_len b" "b_size b' = b_size b"
    "\<exists>pre. unread b = pre @ unread b'"
proof -
  obtain n where n: "n \<le> length (unread b)" "b' = advance b n" using assms(1) by (auto simp: moved_def)
  then show "buf_inv b'" "b_data b' = b_data b" "b_len b' = b_len b" "b_size b' = b_size b"
    using assms(2) by (simp_all add: advance_inv)
  have "unread b = take n (unread b) @ unread b'" using n assms(2) by (simp add: unread_advance)
  then show "\<exists>pre. unread b = pre @ unread b'" by blast
qed

lemma getbyte_rule:
  assumes "buf_inv b"
    and "\<And>c b'. unread b = c # unread b' \<Longrightarrow> moved b b' \<Longrightarrow> buf_inv b' \<Longrightarrow> b' = advance b 1 \<Longrightarrow> sat (f c b') Q"
  shows "sat (rbind (buf_getbyte b) (\<lambda>(c, b'). f c b')) Q"
proof (cases "unread b")
  case (Cons c rest)
  then have "moved b (advance b 1)" by (intro movedI) simp
  then show ?thesis using assms Cons by (simp add: buf_getbyte_ok unread_advance advance_inv)
qed (simp add: assms buf_getbyte_fail)

lemma incrpos_back:
  assumes "buf_inv b" and "1 \<le> length (unread b)"
  shows "buf_incrpos (advance b 1) (- 1) = Inr b"
proof -
  have i: "buf_inv (advance b 1)" using assms by (simp add: advance_inv)
  have u: "unat (b_pos (advance b 1)) = unat (b_pos b) + 1" by (rule advance_pos[OF assms])
  then have v: "uint (b_pos (advance b 1)) = uint (b_pos b) + 1" by (simp only: uint_nat of_nat_add of_nat_1)
  have "b_pos (advance b 1) - 1 = b_pos b" by (simp add: advance_def)
  moreover have "\<not> b_len b < b_pos b" using buf_invD[OF assms(1)] by (simp add: word_nat)
  moreover have "(uint (b_pos b) < - 2147483648) = False" using uint_ge_0[of "b_pos b"] by arith
  ultimately show ?thesis using pos_sint[OF i] v
    by (simp add: buf_incrpos_def sint_BUF_MAX_INCR advance_def)
qed

lemma skip_blank_sat:
  assumes "buf_inv b"
  shows "sat (skip_blank n b) (\<lambda>(c, b'). moved b b')"
  using assms
proof (induction n arbitrary: b)
  case (Suc n)
  show ?case unfolding skip_blank.simps
  proof (rule getbyte_rule[OF Suc.prems])
    fix c b' assume b': "unread b = c # unread b'" "moved b b'" "buf_inv b'" "b' = advance b 1"
    have "sat (skip_blank n b') (\<lambda>(c, b''). moved b b'')"
      by (rule sat_mono[OF Suc.IH[OF b'(3)]]) (auto intro: moved_trans[OF Suc.prems b'(2)])
    moreover have "buf_incrpos b' (- 1) = Inr b" unfolding b'(4) by (rule incrpos_back) (use Suc.prems b'(1) in simp_all)
    ultimately show "sat (if c = 32 \<or> c = 9 then skip_blank n b' else if c = 35 then Inr (True, b')
        else rbind (buf_incrpos b' (- 1)) (\<lambda>line. Inr (False, line))) (\<lambda>(c, b'). moved b b')" using b'(2) by simp
  qed
qed simp

text \<open>The options end at the end of the line or at a blank.\<close>

definition after_blank :: "bytes \<Rightarrow> bytes \<Rightarrow> bool" where
  "after_blank text rest \<longleftrightarrow> (\<exists>pre c. text = pre @ c # rest \<and> (c = 32 \<or> c = 9))"

lemma after_blank_append: "after_blank text rest \<Longrightarrow> after_blank (xs @ text) rest"
  unfolding after_blank_def by (metis append.assoc)

lemma options_end_sat:
  assumes "buf_inv b" and "n = length (unread b)"
  shows "sat (options_end n q e len b)
    (\<lambda>(len', b'). moved b b' \<and> len' \<le> len + length (unread b) \<and> (unread b' = [] \<or> after_blank (unread b) (unread b')))"
  using assms
proof (induction n arbitrary: b q e len)
  case (Suc n)
  let ?Q = "\<lambda>(len', b'). moved b b' \<and> len' \<le> len + length (unread b) \<and> (unread b' = [] \<or> after_blank (unread b) (unread b'))"
  show ?case unfolding options_end.simps
  proof (rule getbyte_rule[OF Suc.prems(1)])
    fix c b' assume b': "unread b = c # unread b'" "moved b b'" "buf_inv b'"
    have n: "n = length (unread b')" using b'(1) Suc.prems(2) by simp
    have "after_blank (unread b) rest" if "after_blank (unread b') rest" for rest
      using after_blank_append[OF that, of "[c]"] b'(1) by simp
    then have "sat (options_end n q' e' (Suc len) b') ?Q" for q' e'
      by (intro sat_mono[OF Suc.IH[OF b'(3) n]]) (use b' in \<open>auto intro: moved_trans[OF Suc.prems(1) b'(2)]\<close>)
    moreover have "after_blank (unread b) (unread b')" if "c = 32 \<or> c = 9"
      using b'(1) that unfolding after_blank_def by fastforce
    ultimately show "sat (if \<not> q \<and> (c = 32 \<or> c = 9) then Inr (len, b')
        else let escape = \<not> e \<and> c = 92; quoted = if \<not> escape \<and> c = 34 then \<not> q else q in options_end n quoted escape (Suc len) b') ?Q"
      using b'(2) by (simp add: Let_def)
  qed
qed simp

text \<open>The base64 data end before the first space.\<close>

lemma base64_span_sat:
  assumes "buf_inv b" and "n = length (unread b)"
  shows "sat (base64_span n len b) (\<lambda>(len', b'). moved b b' \<and> len' = len + of_nat (length (takeWhile (\<lambda>c. c \<noteq> 32) (unread b))))"
  using assms
proof (induction n arbitrary: b len)
  case (Suc n)
  show ?case unfolding base64_span.simps
  proof (rule getbyte_rule[OF Suc.prems(1)])
    fix c b' assume b': "unread b = c # unread b'" "moved b b'" "buf_inv b'"
    have n: "n = length (unread b')" using b'(1) Suc.prems(2) by simp
    have "sat (base64_span n (len + 1) b')
        (\<lambda>(len', b''). moved b b'' \<and> len' = len + of_nat (length (takeWhile (\<lambda>c. c \<noteq> 32) (unread b))))" if "c \<noteq> 32"
      by (rule sat_mono[OF Suc.IH[OF b'(3) n]]) (use b' that in \<open>auto intro: moved_trans[OF Suc.prems(1) b'(2)]\<close>)
    then show "sat (if c = 32 then Inr (len, b') else base64_span n (len + 1) b')
        (\<lambda>(len', b''). moved b b'' \<and> len' = len + of_nat (length (takeWhile (\<lambda>c. c \<noteq> 32) (unread b))))"
      using b'(1,2) by simp
  qed
qed simp

subsection \<open>Options\<close>

lemma strn_eq_sat:
  assumes "n \<le> length a" and "n \<le> length b" and "0 \<notin> set (take n b)"
  shows "sat (strn_eq f n a b) (\<lambda>eq. eq \<longrightarrow> map f (take n a) = map f (take n b) \<or> 0 \<in> set (take n a))"
  using assms
proof (induction f n a b rule: strn_eq.induct)
  case (2 f n x a y b)
  then show ?case by (auto elim!: sat_mono)
qed auto

lemma strn_eq_id:
  assumes "n \<le> length a" and "n \<le> length b" and "0 \<notin> set (take n b)"
  shows "strn_eq id n a b = Inr (take n a = take n b)"
  using assms
proof (induction n arbitrary: a b)
  case (Suc n)
  then show ?case by (cases a; cases b) auto
qed simp

lemma unread_data: "buf_inv b \<Longrightarrow> n \<le> length (unread b) \<Longrightarrow> take n (drop (unat (b_pos b)) (b_data b)) = take n (unread b)"
  using length_unread[of b] buf_invD[of b] by (simp add: unread_def drop_take)

lemma unread_left: "buf_inv b \<Longrightarrow> unat (b_len b - b_pos b) = length (unread b)"
  using buf_invD[of b] length_unread[of b] by (simp add: word_nat)

lemma match_option_sat:
  assumes "buf_inv b" and "length name \<le> 100" and "0 \<notin> set (ascii name)"
  shows "sat (match_option b name) (\<lambda>(m, b'). moved b b')"
proof -
  have l: "unat (of_nat (length name) :: u32) = length name" using assms(2) by (simp add: unat_of_nat_u32)
  show ?thesis
  proof (cases "length name \<le> length (unread b)")
    case True
    have d: "length (unread b) \<le> length (drop (unat (b_pos b)) (b_data b))"
      using length_unread[OF assms(1)] buf_invD[OF assms(1)] by simp
    have "0 \<notin> set (take (length name) (ascii name))" using assms(3) by (auto dest: in_set_takeD)
    then have "sat (strn_eq to_lower (length name) (drop (unat (b_pos b)) (b_data b)) (ascii name)) (\<lambda>_. True)"
      using True d by (intro sat_mono[OF strn_eq_sat]) (simp_all add: ascii_def)
    then show ?thesis
      using assms(1) True l unread_left[OF assms(1)]
      by (auto simp: match_option_def Let_def word_nat buf_getptr_ok buf_incrpos_forward movedI
          intro!: sat_rbind[where P="\<lambda>_. True"])
  qed (simp add: match_option_def Let_def word_nat l unread_left[OF assms(1)])
qed

lemma command_end_sat:
  assumes "buf_inv b"
  shows "sat (command_end n e b) (\<lambda>(ok, b'). moved b b' \<and> (ok \<longrightarrow> unread b' \<noteq> unread b))"
  using assms
proof (induction n arbitrary: b e)
  case (Suc n)
  show ?case unfolding command_end.simps
  proof (rule getbyte_rule[OF Suc.prems])
    fix c b' assume b': "unread b = c # unread b'" "moved b b'" "buf_inv b'"
    have "unread b'' \<noteq> unread b" if m: "moved b' b''" for b''
    proof
      assume "unread b'' = unread b"
      moreover obtain pre where "unread b' = pre @ unread b''" using movedD(5)[OF m b'(3)] by blast
      ultimately show False using b'(1) arg_cong[of "unread b'" "pre @ unread b''" length] by simp
    qed
    then have "sat (command_end n e' b') (\<lambda>(ok, b''). moved b b'' \<and> (ok \<longrightarrow> unread b'' \<noteq> unread b))" for e'
      by (intro sat_mono[OF Suc.IH[OF b'(3)]]) (use b' in \<open>auto intro: moved_trans[OF Suc.prems b'(2)]\<close>)
    then show "sat (if \<not> e \<and> c = 34 then Inr (True, b') else command_end n (\<not> e \<and> c = 92) b')
        (\<lambda>(ok, b'). moved b b' \<and> (ok \<longrightarrow> unread b' \<noteq> unread b))"
      using b'(1,2) by simp
  qed
qed simp

text \<open>The command is the text between its quotes.\<close>

lemma forced_command_sat:
  assumes "buf_inv b" and "buf_inv b0" and "moved b0 b"
  shows "sat (rbind (buf_getptr b 0) (\<lambda>command_start.
       rbind (command_end n False b) (\<lambda>(found, b).
       if \<not> found then Inr None
       else
         rbind (buf_getptr b 0) (\<lambda>e.
         rbind (m_malloc (e - command_start)) (\<lambda>_.
         rbind (mem_read (b_data b) command_start (e - command_start - 1)) (\<lambda>cmd.
         Inr (Some (b, o1\<lparr>po_forced_command := Some (cstr cmd)\<rparr>))))))))
    (\<lambda>r. case r of None \<Rightarrow> True | Some (b', _) \<Rightarrow> moved b0 b')"
proof -
  have p: "buf_getptr b 0 = Inr (unat (b_pos b))" if "buf_inv b" for b using that by (simp add: buf_getptr_ok)
  have *: "sat (if \<not> found then Inr None
       else
         rbind (buf_getptr b' 0) (\<lambda>e.
         rbind (m_malloc (e - unat (b_pos b))) (\<lambda>_.
         rbind (mem_read (b_data b') (unat (b_pos b)) (e - unat (b_pos b) - 1)) (\<lambda>cmd.
         Inr (Some (b', o1\<lparr>po_forced_command := Some (cstr cmd)\<rparr>)))))) (\<lambda>r. case r of None \<Rightarrow> True | Some (b', _) \<Rightarrow> moved b0 b')"
    if m: "moved b b'" and f: "found \<longrightarrow> unread b' \<noteq> unread b" for found b'
  proof (cases found)
    case True
    obtain k where k: "k \<le> length (unread b)" "b' = advance b k" using m by (auto simp: moved_def)
    then have "k \<noteq> 0" using f True by (cases k) auto
    then show ?thesis
      using True p[OF movedD(1)[OF m assms(1)]] moved_trans[OF assms(2,3) m] k advance_pos[OF assms(1) k(1)] buf_invD[OF movedD(1)[OF m assms(1)]]
      by (simp add: m_malloc_def)
  qed simp
  show ?thesis unfolding p[OF assms(1)] rbind_simps
    by (rule sat_rbind_pair[where P="\<lambda>ok b'. moved b b' \<and> (ok \<longrightarrow> unread b' \<noteq> unread b)"])
      (use command_end_sat[OF assms(1)] * in simp_all)
qed

text \<open>One option after another is tried.\<close>

lemma match_rule:
  assumes "buf_inv b0" and "moved b0 b" and "length name \<le> 100" and "0 \<notin> set (ascii name)"
    and "\<And>m b'. moved b0 b' \<Longrightarrow> sat (f m b') Q"
  shows "sat (rbind (match_option b name) (\<lambda>(m, b'). f m b')) Q"
  by (rule sat_rbind_pair[where P="\<lambda>m b'. moved b0 b'"])
    (auto intro!: sat_mono[OF match_option_sat[OF movedD(1)[OF assms(2,1)] assms(3,4)]] assms(5) moved_trans[OF assms(1,2)])

lemma flag_rule:
  assumes "buf_inv b0" and "moved b0 b" and "length name \<le> 100 \<and> 0 \<notin> set (ascii name)"
    and "\<And>b'. moved b0 b' \<Longrightarrow> sat (f b') (\<lambda>r. case r of None \<Rightarrow> True | Some (b', _) \<Rightarrow> moved b0 b')"
  shows "sat (rbind (match_option b name) (\<lambda>(m, b'). if m then Inr (Some (b', x)) else f b'))
    (\<lambda>r. case r of None \<Rightarrow> True | Some (b', _) \<Rightarrow> moved b0 b')"
  by (rule match_rule[OF assms(1,2)]) (use assms(3,4) in auto)

lemma parse_option_sat:
  assumes "buf_inv b"
  shows "sat (parse_option b o1) (\<lambda>r. case r of None \<Rightarrow> True | Some (b', _) \<Rightarrow> moved b b')"
  unfolding parse_option_def
  apply (rule flag_rule[OF assms moved_refl], simp add: ascii_def)
  apply (rule flag_rule[OF assms], assumption, simp add: ascii_def)+
  apply (rule match_rule[OF assms], assumption, simp, simp add: ascii_def)
  apply (rule sat_if)
  subgoal by (rule forced_command_sat) (auto intro: assms movedD(1))
  subgoal by simp
  done

lemma options_loop_sat:
  assumes "buf_inv b" and "length (unread b) \<le> n"
  shows "sat (options_loop n b o1) (\<lambda>_. True)"
  using assms
proof (induction n arbitrary: b o1)
  case 0
  then show ?case using length_unread[of b] by (simp add: word_nat)
next
  case (Suc n)
  have "sat (case r of None \<Rightarrow> Inr None
        | Some (b, o1) \<Rightarrow>
            if b_pos b < b_len b
            then rbind (buf_getbyte b) (\<lambda>(c, b). if c \<noteq> 44 then Inr None else options_loop n b o1)
            else options_loop n b o1) (\<lambda>_. True)"
    if r: "case r of None \<Rightarrow> True | Some (b', _) \<Rightarrow> moved b b'" for r
  proof (cases r)
    case (Some x)
    obtain b' o' where x: "x = (b', o')" by fastforce
    have m: "moved b b'" using r Some x by simp
    note i = movedD[OF m Suc.prems(1)]
    obtain pre where pre: "unread b = pre @ unread b'" using i(5) by blast
    show ?thesis
    proof (cases "b_pos b' < b_len b'")
      case True
      have "sat (rbind (buf_getbyte b') (\<lambda>(c, b). if c \<noteq> 44 then Inr None else options_loop n b o')) (\<lambda>_. True)"
        by (rule getbyte_rule[OF i(1)]) (use pre Suc in \<open>auto intro!: Suc.IH\<close>)
      then show ?thesis using True Some x by simp
    next
      case False
      then have "unread b' = []" using length_unread[OF i(1)] by (simp add: word_nat)
      then show ?thesis using False Some x i(1) by (simp add: Suc.IH)
    qed
  qed simp
  then show ?case by (auto intro!: sat_rbind[OF parse_option_sat[OF Suc.prems(1)]])
qed

lemma svr_add_pubkey_options_sat:
  assumes "buf_inv b"
  shows "sat (svr_add_pubkey_options b a) (\<lambda>(ok, a'). \<exists>r. a' = a\<lparr>as_pubkey_options := r\<rparr> \<and> ok = (r \<noteq> None))"
proof -
  obtain b0 where b0: "buf_setpos b 0 = Inr b0" by (simp add: buf_setpos_def)
  have i: "buf_inv b0" by (rule buf_setpos_inv[OF assms b0])
  have "length (unread b0) \<le> unat (b_len b0)" using length_unread[OF i] by simp
  then show ?thesis using b0 unfolding svr_add_pubkey_options_def
    by (auto intro!: sat_rbind[OF options_loop_sat[OF i]])
qed

subsection \<open>A key of a line\<close>

text \<open>The algorithm name inside the key that has been decoded.\<close>

lemma key_algo_sat:
  assumes "buf_inv b" and "algolen \<le> 1400" and "algolen \<le> length algo"
  shows "sat (rbind (buf_getint b) (\<lambda>(filealgolen, decodekey).
              rbind (buf_getptr decodekey filealgolen) (\<lambda>p.
              if unat filealgolen \<noteq> algolen then Inr False
              else
                rbind (mem_read (b_data decodekey) p algolen) (\<lambda>x.
                rbind (mem_read algo 0 algolen) (\<lambda>y.
                Inr (x = y)))))) (\<lambda>_. True)"
proof (cases "buf_getint b")
  case (Inl e)
  then show ?thesis using buf_getint_safe[OF assms(1)] load32h_total[of "take 4 (unread b)"]
    by (cases "4 \<le> length (unread b)") (auto simp: buf_getint_ok[OF assms(1)] buf_getint_fail[OF assms(1)])
next
  case (Inr x)
  obtain n b' where x: "x = (n, b')" by fastforce
  have i: "buf_inv b'" using buf_getint_inv[OF assms(1)] Inr x by simp
  show ?thesis
  proof (cases "unat n \<noteq> algolen")
    case True
    then show ?thesis using Inr x by (simp add: buf_getptr_def)
  next
    case False
    then show ?thesis
      using Inr x i assms(2,3) buf_getptr_ok[OF i, of n] buf_getptr_fail[OF i, of n] length_unread[OF i] buf_invD[OF i]
      by (cases "unat n \<le> length (unread b')") auto
  qed
qed

lemma cmp_base64_key_sat:
  assumes "buf_inv line" and "algolen \<le> 1400" and "algolen \<le> length algo" and "unat m \<le> length keyblob \<or> 1000000000 < unat m"
  shows "sat (cmp_base64_key keyblob m algo algolen line)
    (\<lambda>ok. ok \<longrightarrow> base64_decode (unread line) (2 * length (unread line)) = Inr (Some (take (unat m) keyblob)) \<and> unat m \<le> 1000000000)"
proof -
  let ?n = "length (unread line)"
  have u: "unat (b_len line - b_pos line) = ?n" by (rule unread_left[OF assms(1)])
  have u2: "unat ((b_len line - b_pos line) * 2) = 2 * ?n"
    using unread_le[OF assms(1)] u by (subst unat_mult_lem[THEN iffD1]) simp_all
  show ?thesis
  proof (cases "2 * ?n \<le> 1000000000")
    case False
    then have "buf_new ((b_len line - b_pos line) * 2) = Inl (Exit ''buf->size too big'')"
      using u2 by (simp add: buf_new_def BUF_MAX_SIZE_def word_nat)
    then show ?thesis by (simp add: cmp_base64_key_def Let_def)
  next
    case True
    have n: "buf_new ((b_len line - b_pos line) * 2) = Inr (mkbuf (replicate (2 * ?n) 0) 0 0 (2 * ?n))"
      using mk_new[of "(b_len line - b_pos line) * 2"] u2 True by simp
    have m: "mk_ok (replicate (2 * ?n) 0) 0 0 (2 * ?n)" using True by (simp add: mk_ok_def)
    obtain r where r: "base64_decode (unread line) (2 * ?n) = Inr r" "\<forall>out. r = Some out \<longrightarrow> length out \<le> ?n"
      using base64_decode_ok[of "unread line" "2 * ?n"] by auto
    show ?thesis
    proof (cases r)
      case None
      then show ?thesis using n m r u u2 assms(1) mk_okD(3)[OF m]
        by (simp add: cmp_base64_key_def Let_def buf_getptr_ok take_unread mk_getwriteptr)
    next
      case (Some out)
      let ?d = "patch (replicate (2 * ?n) 0) 0 out"
      have l: "length out \<le> ?n" using r Some by simp
      have lo: "unat (of_nat (length out) :: u32) = length out" using l True by (intro unat_of_nat_u32) simp
      have m1: "mk_ok ?d 0 0 (2 * ?n)" "mk_ok ?d (length out) 0 (2 * ?n)" using l True by (simp_all add: mk_ok_def)
      have d: "take (length out) ?d = out" by (simp add: patch_def)
      have g: "buf_getptr (mkbuf ?d (length out) 0 (2 * ?n)) (of_nat (length out)) = Inr 0"
        using mk_getptr[OF m1(2)] lo by simp
      have w: "mem_write (replicate (2 * ?n) 0) 0 out = Inr ?d" using l by (intro mem_write_patch) simp
      have inc: "buf_incrlen (mkbuf ?d 0 0 (2 * ?n)) (of_nat (length out)) = Inr (mkbuf ?d (length out) 0 (2 * ?n))"
        using mk_incrlen[OF m1(1), of "of_nat (length out)"] lo l by simp
      have rd: "mem_read ?d 0 (length out) = Inr out" using d l by simp
      show ?thesis
        using n m r u u2 assms(1) mk_okD(3)[OF m] Some w inc g rd lo l True assms(4)
          sat_mono[OF key_algo_sat[OF mk_inv[OF m1(2)] assms(2,3)]]
        by (auto simp: cmp_base64_key_def Let_def buf_getptr_ok take_unread mk_getwriteptr)
    qed
  qed
qed

text \<open>Looking for the name of the algorithm at the position of the line.\<close>

lemma algo_rule:
  assumes "buf_inv line" and "unat n \<le> 1400" and "unat n \<le> length algo" and "0 \<notin> set (take (unat n) algo)"
    and "unat n \<le> length (unread line) \<Longrightarrow> sat (f (take (unat n) (unread line) = take (unat n) algo)) Q"
  shows "sat (rbind (buf_getptr line n) (\<lambda>p. rbind (strn_eq id (unat n) (drop p (b_data line)) algo) f)) Q"
proof (cases "unat n \<le> length (unread line)")
  case True
  have "unat n \<le> length (drop (unat (b_pos line)) (b_data line))"
    using True length_unread[OF assms(1)] buf_invD[OF assms(1)] by simp
  then show ?thesis using True assms by (simp add: buf_getptr_ok strn_eq_id unread_data)
next
  case False
  then show ?thesis using assms by (simp add: buf_getptr_fail)
qed

definition key_at :: "bytes \<Rightarrow> buffer \<Rightarrow> (buffer option \<times> buffer) option \<Rightarrow> bool" where
  "key_at name line r \<longleftrightarrow> (case r of None \<Rightarrow> True | Some (options_buf, line') \<Rightarrow>
     moved line line' \<and> take (length name) (unread line') = name \<and> (line' = line \<or> after_blank (unread line) (unread line')) \<and> (\<forall>b. options_buf = Some b \<longrightarrow> buf_inv b))"

lemma options_copy_sat:
  assumes "buf_inv line" and "len \<le> length (unread line)"
  shows "sat (rbind (buf_new (of_nat len)) (\<lambda>options_buf.
         rbind (mem_read (b_data line) (unat (b_pos line)) len) (\<lambda>bs.
         buf_putbytes options_buf bs (of_nat len)))) buf_inv"
proof -
  have l: "len \<le> 1000000000" using assms unread_le[OF assms(1)] by simp
  have u: "unat (of_nat len :: u32) = len" using l by (intro unat_of_nat_u32) simp
  have m: "mk_ok (replicate len 0) 0 0 len" using l by (simp add: mk_ok_def)
  have "mk_ok (patch (replicate len 0) 0 (take len (unread line))) len len len" using l assms(2) by (simp add: mk_ok_def)
  then show ?thesis
    using assms l u take_unread[OF assms] mk_putbytes[OF m, of "of_nat len" "take len (unread line)"] mk_new[of "of_nat len"]
    by (simp add: mk_inv)
qed

lemma key_after_options_sat:
  assumes "buf_inv line" and "moved line b" and "moved b b'" and "len \<le> length (unread b)"
    and "unat n \<le> 1400" and "unat n \<le> length algo" and "0 \<notin> set (take (unat n) algo)"
    and "n \<noteq> 0" and "unread b' = [] \<or> after_blank (unread b) (unread b')"
  shows "sat (key_after_options algo n (unat (b_pos b)) len b') (key_at (take (unat n) algo) line)"
proof -
  have l: "length (take (unat n) algo) = unat n" using assms(6) by simp
  have b: "buf_inv b" by (rule movedD(1)[OF assms(2,1)])
  note b' = movedD[OF assms(3) b]
  obtain pre where "unread line = pre @ unread b" using movedD(5)[OF assms(2,1)] by blast
  then have a: "unread b' = [] \<or> after_blank (unread line) (unread b')" using assms(9) by (auto intro: after_blank_append)
  have z: "0 < unat n" using assms(8) by (simp add: unat_gt_0)
  define F where "F = (\<lambda>options_buf :: buffer. if b_pos b' + n > b_len b' then Inr None
       else
         rbind (buf_getptr b' n) (\<lambda>p.
         rbind (strn_eq id (unat n) (drop p (b_data b')) algo) (\<lambda>eq.
         Inr (if eq then Some (Some options_buf, b') else None))))"
  have "sat (F options_buf) (key_at (take (unat n) algo) line)" if "buf_inv options_buf" for options_buf
    unfolding F_def by (rule sat_if, simp add: key_at_def, rule algo_rule[OF b'(1) assms(5-7)])
      (use that moved_trans[OF assms(1-3)] l a z in \<open>auto simp: key_at_def\<close>)
  then show ?thesis using sat_rbind[OF options_copy_sat[OF b assms(4)], of F] b'(2)
    by (simp add: key_after_options_def rbind_assoc F_def)
qed

lemma line_options_sat:
  assumes "buf_inv line" and "unat n \<le> 1400" and "unat n \<le> length algo" and "0 \<notin> set (take (unat n) algo)" and "n \<noteq> 0"
  shows "sat (line_options algo n line) (key_at (take (unat n) algo) line)"
  unfolding line_options_def
proof (rule algo_rule[OF assms(1-4)], rule sat_if)
  assume "take (unat n) (unread line) = take (unat n) algo"
  then show "sat (Inr (Some (None, line))) (key_at (take (unat n) algo) line)" using assms(3) by (simp add: key_at_def)
next
  let ?K = "key_at (take (unat n) algo) line"
  show "sat (rbind (skip_blank (unat (b_len line - b_pos line)) line) (\<lambda>(is_comment, line).
       if is_comment then Inr None
       else
         rbind (buf_getptr line 1) (\<lambda>options_start.
         rbind (options_end (unat (b_len line - b_pos line)) False False 0 line) (\<lambda>(options_len, line).
         key_after_options algo n options_start options_len line)))) ?K"
  proof (rule sat_rbind_pair[OF skip_blank_sat[OF assms(1)]], rule sat_if)
    show "sat (Inr None) ?K" by (simp add: key_at_def)
    fix b assume m: "moved line b"
    have i: "buf_inv b" by (rule movedD(1)[OF m assms(1)])
    have "sat (rbind (options_end (unat (b_len b - b_pos b)) False False 0 b) (\<lambda>(options_len, line).
         key_after_options algo n (unat (b_pos b)) options_len line)) ?K"
      by (rule sat_rbind_pair[OF options_end_sat[OF i unread_left[OF i]]]) (auto intro!: key_after_options_sat[OF assms(1) m _ _ assms(2-5)])
    then show "sat (rbind (buf_getptr b 1) (\<lambda>options_start.
         rbind (options_end (unat (b_len b - b_pos b)) False False 0 b) (\<lambda>(options_len, line).
         key_after_options algo n options_start options_len line))) ?K"
      using buf_getptr_ok[OF i, of 1] buf_getptr_fail[OF i, of 1] by (cases "unread b") simp_all
  qed
qed

text \<open>
  What \<open>authorized_keys\<close> means by a line for a key: after options, if there are any, the name of the algorithm and the key in
  base64, up to a space or the end of the line.
\<close>

definition key_line :: "bytes \<Rightarrow> bytes \<Rightarrow> bytes \<Rightarrow> bool" where
  "key_line name keyblob text \<longleftrightarrow> (\<exists>rest. (rest = text \<or> after_blank text rest) \<and>
     (\<exists>b64 post. rest = name @ [32] @ b64 @ post \<and> 32 \<notin> set b64 \<and> (post = [] \<or> hd post = 32) \<and>
       base64_decode b64 (2 * length b64) = Inr (Some keyblob)))"

lemma key_line_nonempty: "key_line name keyblob [] \<Longrightarrow> False"
  by (auto simp: key_line_def after_blank_def)

definition only_options :: "AuthState \<Rightarrow> AuthState \<Rightarrow> bool" where
  "only_options a a' \<longleftrightarrow> (\<exists>r. a' = a\<lparr>as_pubkey_options := r\<rparr>)"

lemma only_options_refl [simp]: "only_options a a"
  unfolding only_options_def by (metis AuthState.surjective AuthState.update_convs(11))

lemma only_options_trans: "only_options a b \<Longrightarrow> only_options b c \<Longrightarrow> only_options a c"
  by (auto simp: only_options_def)

text \<open>The data of a line from the position of the base64 text on.\<close>

lemma space_split:
  fixes xs :: bytes
  defines "a \<equiv> takeWhile (\<lambda>c. c \<noteq> 32) xs" and "b \<equiv> dropWhile (\<lambda>c. c \<noteq> 32) xs"
  shows "xs = a @ b \<and> 32 \<notin> set a \<and> (b = [] \<or> hd b = 32)"
  using hd_dropWhile[of "\<lambda>c. c \<noteq> 32" xs] unfolding a_def b_def by (auto dest: set_takeWhileD)

lemma key_data_sat:
  assumes "buf_inv line" and "unat algolen \<le> 1400" and "unat algolen \<le> length algo" and "unat m \<le> length keyblob \<or> 1000000000 < unat m"
  shows "sat (key_data algo algolen keyblob m line)
    (\<lambda>ok. ok \<longrightarrow> (\<exists>b64 post. unread line = b64 @ post \<and> 32 \<notin> set b64 \<and> (post = [] \<or> hd post = 32) \<and>
       base64_decode b64 (2 * length b64) = Inr (Some (take (unat m) keyblob)) \<and> unat m \<le> 1000000000))"
proof -
  let ?b64 = "takeWhile (\<lambda>c. c \<noteq> 32) (unread line)"
  let ?l = "length ?b64"
  have l: "?l \<le> length (unread line)" by (rule length_takeWhile_le)
  have u: "unat (of_nat ?l :: u32) = ?l" using l unread_le[OF assms(1)] by (intro unat_of_nat_u32) simp
  have p: "unat (b_pos line + of_nat ?l) = unat (b_pos line) + ?l" "unat (b_pos line) + ?l \<le> unat (b_len line)"
    using l u length_unread[OF assms(1)] buf_invD[OF assms(1)] by (auto simp: word_nat intro!: unat_add_no_overflow)
  let ?line = "line\<lparr>b_len := b_pos line + of_nat ?l\<rparr>"
  have i: "buf_inv ?line" using assms(1) p by (simp add: buf_inv_def)
  have un: "unread ?line = ?b64"
  proof -
    have "unread ?line = take ?l (unread line)" using p unread_data[OF assms(1) l] by (simp add: unread_def[of ?line] drop_take)
    then show ?thesis by (simp only: takeWhile_eq_take[symmetric])
  qed
  have c: "sat (cmp_base64_key keyblob m algo (unat algolen) ?line)
    (\<lambda>ok. ok \<longrightarrow> (\<exists>b64 post. unread line = b64 @ post \<and> 32 \<notin> set b64 \<and> (post = [] \<or> hd post = 32) \<and>
       base64_decode b64 (2 * length b64) = Inr (Some (take (unat m) keyblob)) \<and> unat m \<le> 1000000000))"
    by (rule sat_mono[OF cmp_base64_key_sat[OF i assms(2-4)]]) (use un space_split[of "unread line"] in metis)
  show ?thesis unfolding key_data_def
  proof (rule sat_rbind_pair[OF base64_span_sat[OF assms(1) unread_left[OF assms(1)]]])
    fix len :: u32 and line' assume s: "moved line line' \<and> len = 0 + of_nat ?l"
    obtain k where k: "line' = advance line k" using s by (auto simp: moved_def)
    have "buf_setpos line' (b_pos line) = Inr line"
      using k buf_invD[OF assms(1)] by (simp add: buf_setpos_def word_nat advance_def)
    moreover have "buf_setlen line (b_pos line + len) = Inr ?line"
      using s p buf_invD[OF assms(1)] by (simp add: buf_setlen_def word_nat)
    ultimately show "sat (rbind (buf_setpos line' (b_pos line)) (\<lambda>line'. rbind (buf_setlen line' (b_pos line' + len)) (\<lambda>line'.
          cmp_base64_key keyblob m algo (unat algolen) line')))
      (\<lambda>ok. ok \<longrightarrow> (\<exists>b64 post. unread line = b64 @ post \<and> 32 \<notin> set b64 \<and> (post = [] \<or> hd post = 32) \<and>
         base64_decode b64 (2 * length b64) = Inr (Some (take (unat m) keyblob)) \<and> unat m \<le> 1000000000))" using c by simp
  qed
qed

lemma options_tail_sat:
  assumes "ok \<longrightarrow> P" and "\<forall>b. options_buf = Some b \<longrightarrow> buf_inv b"
  shows "sat (case options_buf of None \<Rightarrow> Inr (ok, a) | Some b \<Rightarrow> if ok then svr_add_pubkey_options b a else Inr (False, a))
    (\<lambda>(ok, a'). only_options a a' \<and> (ok \<longrightarrow> P))"
proof (cases options_buf)
  case (Some b)
  have "sat (svr_add_pubkey_options b a) (\<lambda>(ok, a'). only_options a a' \<and> (ok \<longrightarrow> P))" if ok
    by (rule sat_mono[OF svr_add_pubkey_options_sat]) (use assms that Some in \<open>auto simp: only_options_def\<close>)
  then show ?thesis using Some by simp
qed (use assms in simp)

lemma check_key_sat:
  assumes "buf_inv line" and "unat n \<le> 1400" and "unat n \<le> length algo" and "unat m \<le> length keyblob \<or> 1000000000 < unat m"
    and "key_at (take (unat n) algo) line (Some (options_buf, b))"
  shows "sat (check_key algo n keyblob m options_buf b a)
    (\<lambda>(ok, a'). only_options a a' \<and> (ok \<longrightarrow> key_line (take (unat n) algo) (take (unat m) keyblob) (unread line) \<and> unat m \<le> 1000000000))"
proof -
  let ?name = "take (unat n) algo"
  have k: "moved line b" "take (unat n) (unread b) = ?name" "b = line \<or> after_blank (unread line) (unread b)"
    "\<forall>o1. options_buf = Some o1 \<longrightarrow> buf_inv o1"
    using assms(3,5) by (simp_all add: key_at_def)
  note i = movedD[OF k(1) assms(1)]
  have l: "unat n \<le> length (unread b)" using arg_cong[OF k(2), of length] assms(3) by simp
  have b1: "buf_inv (advance b (unat n))" "unread b = ?name @ unread (advance b (unat n))"
    using i(1) l k(2) append_take_drop_id[of "unat n" "unread b"] by (simp_all add: advance_inv unread_advance)
  show ?thesis unfolding check_key_def buf_incrpos_forward[OF i(1) l] rbind_simps
  proof (rule getbyte_rule[OF b1(1)], rule sat_if)
    fix c b2 assume b2: "unread (advance b (unat n)) = c # unread b2" "buf_inv b2" "\<not> c \<noteq> 32"
    have kl: "key_line ?name (take (unat m) keyblob) (unread line) \<and> unat m \<le> 1000000000"
      if "\<exists>b64 post. unread b2 = b64 @ post \<and> 32 \<notin> set b64 \<and> (post = [] \<or> hd post = 32) \<and>
        base64_decode b64 (2 * length b64) = Inr (Some (take (unat m) keyblob)) \<and> unat m \<le> 1000000000"
      unfolding key_line_def using that b2(1,3) b1(2) k(3) by - (rule conjI, rule exI[of _ "unread b"], auto)
    show "sat (rbind (key_data algo n keyblob m b2) (\<lambda>ok. case options_buf of None \<Rightarrow> Inr (ok, a)
          | Some b \<Rightarrow> if ok then svr_add_pubkey_options b a else Inr (False, a)))
        (\<lambda>(ok, a'). only_options a a' \<and> (ok \<longrightarrow> key_line ?name (take (unat m) keyblob) (unread line) \<and> unat m \<le> 1000000000))"
      by (rule sat_rbind[OF key_data_sat[OF b2(2) assms(2-4)]], rule options_tail_sat[OF _ k(4)]) (use kl in blast)
  qed simp
qed

lemma check_line_sat:
  assumes "buf_inv line" and "unat n \<le> 1400" and "unat n \<le> length algo" and "0 \<notin> set (take (unat n) algo)" and "n \<noteq> 0"
    and "unat m \<le> length keyblob \<or> 1000000000 < unat m"
  shows "sat (check_line algo n keyblob m line a) (\<lambda>(ok, a'). only_options a a' \<and> (ok \<longrightarrow> key_line (take (unat n) algo) (take (unat m) keyblob) (unread line) \<and> unat m \<le> 1000000000))"
  unfolding check_line_def
  by (rule sat_if, simp, rule sat_rbind[OF line_options_sat[OF assms(1-5)]])
    (auto split: option.split intro!: check_key_sat[OF assms(1-3,6)])

subsection \<open>Lines of the file\<close>

definition no_eol :: "bytes \<Rightarrow> bool" where
  "no_eol xs \<longleftrightarrow> 10 \<notin> set xs \<and> 13 \<notin> set xs"

lemma no_eol_simps [simp]: "no_eol []" "no_eol (c # xs) \<longleftrightarrow> c \<noteq> 10 \<and> c \<noteq> 13 \<and> no_eol xs"
  by (auto simp: no_eol_def)

text \<open>What the loop of \<open>buf_getline\<close> leaves, starting with a line of \<open>p\<close> bytes: the end of the file or of a line, or a full buffer.\<close>

definition line_so_far :: "nat \<Rightarrow> bytes \<Rightarrow> bytes \<Rightarrow> bool \<times> buffer \<times> bytes \<Rightarrow> bool" where
  "line_so_far z old file r \<longleftrightarrow> (case r of (eof, line, file') \<Rightarrow> \<exists>text d p. no_eol text \<and> z \<le> length d \<and>
     (line = mkbuf d p p z \<and> p \<le> z \<and> take p d = old @ text \<and>
        (eof \<and> file = text \<and> file' = [] \<or> \<not> eof \<and> (\<exists>c. (c = 10 \<or> c = 13) \<and> file = text @ c # file')) \<or>
      \<not> eof \<and> line = mkbuf d 0 z z \<and> length old + length text = z \<and> file = text @ file'))"

lemma line_so_farI:
  assumes "z \<le> length d" and "p \<le> z"
  shows "line_so_far z (take p d) [] (True, mkbuf d p p z, [])"
    and "c = 10 \<or> c = 13 \<Longrightarrow> line_so_far z (take p d) (c # fs) (False, mkbuf d p p z, fs)"
    and "line_so_far z (take z d) fs (False, mkbuf d 0 z z, fs)"
  unfolding line_so_far_def prod.case using assms
  by (intro exI[of _ "[]"] exI[of _ d] exI[of _ p]; auto)+

lemma line_so_farE:
  assumes "line_so_far z old fs (eof, line, fs')"
  obtains (line) tx d p where "no_eol tx" "z \<le> length d" "line = mkbuf d p p z" "p \<le> z" "take p d = old @ tx"
      "eof \<and> fs = tx \<and> fs' = [] \<or> \<not> eof \<and> (\<exists>c. (c = 10 \<or> c = 13) \<and> fs = tx @ c # fs')"
  | (full) tx d where "no_eol tx" "z \<le> length d" "\<not> eof" "line = mkbuf d 0 z z" "length old + length tx = z" "fs = tx @ fs'"
  using assms unfolding line_so_far_def prod.case by metis

lemma line_so_far_Cons:
  assumes "line_so_far z (old @ [c]) fs r" and "c \<noteq> 10" and "c \<noteq> 13"
  shows "line_so_far z old (c # fs) r"
proof -
  obtain eof line fs' where r: "r = (eof, line, fs')" by (metis prod_cases3)
  have "line_so_far z old (c # fs) (eof, line, fs')" using assms(1)[unfolded r]
  proof (cases rule: line_so_farE)
    case (line tx d p)
    then show ?thesis using assms(2,3) unfolding line_so_far_def prod.case
      by (intro exI[of _ "c # tx"] exI[of _ d] exI[of _ p]) fastforce
  next
    case (full tx d)
    then show ?thesis using assms(2,3) unfolding line_so_far_def prod.case
      by (intro exI[of _ "c # tx"] exI[of _ d]) fastforce
  qed
  then show ?thesis unfolding r .
qed

lemma getline_loop_sat:
  assumes "mk_ok d p p z"
  shows "sat (getline_loop fs (mkbuf d p p z)) (line_so_far z (take p d) fs)"
  using assms
proof (induction fs arbitrary: d p)
  case Nil
  note m = mk_okD[OF Nil]
  show ?case using m mk_setlen[OF Nil, of 0] line_so_farI[OF m(6), of p] by (cases "p = z") (auto simp: word_nat)
next
  case (Cons c fs)
  note m = mk_okD[OF Cons.prems]
  consider "p < z" "c = 10 \<or> c = 13" | "p < z" "c \<noteq> 10" "c \<noteq> 13" | "p = z" using m(4,5) by fastforce
  then show ?case
  proof cases
    case 1
    then show ?thesis using m line_so_farI(2)[OF m(6), of p c fs] by (auto simp: word_nat)
  next
    case 2
    have m1: "mk_ok (patch d p [c]) (p + 1) (p + 1) z" using 2 m by (simp add: mk_ok_def)
    have t: "take (p + 1) (patch d p [c]) = take p d @ [c]" using take_patch[of p "[c]" d] 2 m by simp
    have "sat (getline_loop fs (mkbuf (patch d p [c]) (p + 1) (p + 1) z)) (line_so_far z (take p d) (c # fs))"
      by (rule sat_mono[OF Cons.IH[OF m1]]) (use t line_so_far_Cons 2 in auto)
    then show ?thesis using 2 m mk_putbyte[OF Cons.prems, of c] by (simp add: word_nat)
  next
    case 3
    then show ?thesis using m mk_setlen[OF Cons.prems, of 0] line_so_farI(3)[OF m(6), of p "c # fs"] by (auto simp: word_nat)
  qed
qed

text \<open>A line that has been read, \<open>used\<close> being the bytes of the file it took.\<close>

definition line_read :: "nat \<Rightarrow> bytes \<Rightarrow> bytes \<Rightarrow> bytes \<Rightarrow> bool" where
  "line_read z used rest tx \<longleftrightarrow>
     tx = [] \<and> no_eol used \<and> length used = z \<or>
     no_eol tx \<and> (used = tx \<and> rest = [] \<or> (\<exists>c. (c = 10 \<or> c = 13) \<and> used = tx @ [c]))"

definition line_result :: "nat \<Rightarrow> bytes \<Rightarrow> bool \<times> buffer \<times> bytes \<Rightarrow> bool" where
  "line_result z fs r \<longleftrightarrow> (case r of (ok, line, fs') \<Rightarrow> buf_inv line \<and> b_size line = of_nat z \<and>
     (ok \<longrightarrow> (\<exists>used. fs = used @ fs' \<and> used \<noteq> [] \<and> line_read z used fs' (unread line))))"

lemma getline_end_sat:
  assumes "line_so_far z [] fs (eof, b, fs')" and "0 < z" and "z \<le> 1000000000"
  shows "sat (if eof \<and> b_pos b = 0 then Inr (False, b, fs') else rbind (buf_setpos b 0) (\<lambda>line. Inr (True, line, fs'))) (line_result z fs)"
  using assms(1)
proof (cases rule: line_so_farE)
  case (line tx d p)
  have m: "mk_ok d p p z" "mk_ok d p 0 z" using line(2,4) assms(3) by (simp_all add: mk_ok_def)
  have p: "buf_setpos b 0 = Inr (mkbuf d p 0 z)" using mk_setpos[OF m(1), of 0] line(3) by simp
  have u: "unread (mkbuf d p 0 z) = tx" using unread_mk[OF m(2)] line(5) by simp
  have "\<exists>used. fs = used @ fs' \<and> used \<noteq> [] \<and> line_read z used fs' tx" if n: "\<not> (eof \<and> b_pos b = 0)"
  proof (cases eof)
    case True
    then have "p \<noteq> 0" using n line(3) by (cases p) auto
    then have "tx \<noteq> []" using line(2,4,5) assms(2) by auto
    then show ?thesis using True line(1,6) by (simp add: line_read_def)
  next
    case False
    then obtain c where "c = 10 \<or> c = 13" "fs = tx @ c # fs'" using line(6) by auto
    then show ?thesis using line(1) by (intro exI[of _ "tx @ [c]"]) (auto simp: line_read_def)
  qed
  then show ?thesis using p u mk_inv[OF m(1)] mk_inv[OF m(2)] line(3) by (auto simp: line_result_def)
next
  case (full tx d)
  have "buf_setpos b 0 = Inr (mkbuf d 0 0 z)" using full(4) by (simp add: buf_setpos_def mkbuf_def)
  moreover have m: "mk_ok d 0 0 z" using full(2) assms(3) by (simp add: mk_ok_def)
  moreover have "tx \<noteq> []" "line_read z tx fs' []" using full(1,5) assms(2) by (auto simp: line_read_def)
  ultimately show ?thesis using full mk_inv[OF m] unread_mk[OF m] by (auto simp: line_result_def)
qed

lemma buf_getline_sat:
  assumes "buf_inv line" and "b_size line = of_nat z" and "0 < z" and "z \<le> 1000000000"
  shows "sat (buf_getline line fs) (line_result z fs)"
proof -
  have z: "unat (of_nat z :: u32) = z" using assms(4) by (intro unat_of_nat_u32) simp
  let ?d = "b_data line"
  have m0: "mk_ok ?d 0 0 z" using buf_invD[OF assms(1)] assms(2,4) z by (simp add: mk_ok_def)
  have l: "buf_setpos line 0 = Inr (line\<lparr>b_pos := 0\<rparr>)" "buf_setlen (line\<lparr>b_pos := 0\<rparr>) 0 = Inr (mkbuf ?d 0 0 z)"
    using assms(2) by (simp_all add: buf_setpos_def buf_setlen_def mkbuf_def)
  have "sat (getline_loop fs (mkbuf ?d 0 0 z)) (line_so_far z [] fs)" using getline_loop_sat[OF m0, of fs] by simp
  then have "sat (rbind (getline_loop fs (mkbuf ?d 0 0 z)) (\<lambda>(eof, line, fs'). if eof \<and> b_pos line = 0 then Inr (False, line, fs')
     else rbind (buf_setpos line 0) (\<lambda>line. Inr (True, line, fs')))) (line_result z fs)"
    by (rule sat_rbind) (use getline_end_sat[OF _ assms(3,4)] in auto)
  then show ?thesis by (simp add: buf_getline_def l)
qed

text \<open>
  A line of the file: it begins at the beginning of the file, after the end of a line, or where the buffer was full, 4200 bytes
  after that, and it ends at the end of a line or of the file.
\<close>

definition line_start :: "bytes \<Rightarrow> bool" where
  "line_start u \<longleftrightarrow> u = [] \<or> last u = 10 \<or> last u = 13 \<or> (\<exists>x y. u = x @ y \<and> no_eol y \<and> length y = 4200)"

definition line_of :: "bytes \<Rightarrow> bytes \<Rightarrow> bool" where
  "line_of fs tx \<longleftrightarrow> (\<exists>u v. fs = u @ tx @ v \<and> line_start u \<and> no_eol tx \<and> (v = [] \<or> hd v = 10 \<or> hd v = 13))"

definition authorized :: "bytes \<Rightarrow> bytes \<Rightarrow> bytes \<Rightarrow> bool" where
  "authorized name keyblob fs \<longleftrightarrow> (\<exists>tx. line_of fs tx \<and> key_line name keyblob tx)"

lemma line_read_start:
  assumes "line_read 4200 used rest tx" and "line_start u" and "rest \<noteq> []"
  shows "line_start (u @ used)"
  using assms unfolding line_read_def line_start_def by auto

lemma line_read_line:
  assumes "line_read 4200 used rest tx" and "line_start u" and "tx \<noteq> []"
  shows "line_of (u @ used @ rest) tx"
  using assms unfolding line_read_def line_of_def by fastforce

lemma check_lines_sat:
  assumes "unat n \<le> 1400" and "unat n \<le> length algo" and "0 \<notin> set (take (unat n) algo)" and "n \<noteq> 0"
    and "unat m \<le> length keyblob \<or> 1000000000 < unat m"
    and "buf_inv line" and "b_size line = 4200" and "length fs < k" and "line_start u \<or> fs = []"
  shows "sat (check_lines k algo n keyblob m line fs a)
    (\<lambda>(ok, a'). only_options a a' \<and> (ok \<longrightarrow> authorized (take (unat n) algo) (take (unat m) keyblob) (u @ fs) \<and> unat m \<le> 1000000000))"
  using assms(6-9)
proof (induction k arbitrary: line fs u a)
  case (Suc k)
  let ?Q = "\<lambda>(ok, a'). only_options a a' \<and> (ok \<longrightarrow> authorized (take (unat n) algo) (take (unat m) keyblob) (u @ fs) \<and> unat m \<le> 1000000000)"
  have "sat (case x of (ok, line, fs') \<Rightarrow> if \<not> ok then Inr (False, a)
     else
       rbind (check_line algo n keyblob m line a) (\<lambda>(ok, a).
       if ok then Inr (True, a) else check_lines k algo n keyblob m line fs' a)) ?Q" if r: "line_result 4200 fs x" for x
  proof -
    obtain ok b fs' where x: "x = (ok, b, fs')" by (metis prod_cases3)
    have b: "buf_inv b" "b_size b = 4200" using r x by (simp_all add: line_result_def)
    show ?thesis
    proof (cases ok)
      case True
      then obtain used where used: "fs = used @ fs'" "used \<noteq> []" "line_read 4200 used fs' (unread b)"
        using r x by (auto simp: line_result_def)
      have u: "line_start u" using Suc.prems(4) used(1,2) by auto
      have au: "authorized (take (unat n) algo) (take (unat m) keyblob) (u @ fs) \<and> unat m \<le> 1000000000" if "key_line (take (unat n) algo) (take (unat m) keyblob) (unread b) \<and> unat m \<le> 1000000000"
        unfolding authorized_def used(1) using line_read_line[OF used(3) u] key_line_nonempty that by metis
      have "sat (check_line algo n keyblob m b a) (\<lambda>(ok, a'). only_options a a' \<and> (ok \<longrightarrow> authorized (take (unat n) algo) (take (unat m) keyblob) (u @ fs) \<and> unat m \<le> 1000000000))"
        by (rule sat_mono[OF check_line_sat[OF b(1) assms(1-5)]])
          (use au in auto)
      then have "sat (rbind (check_line algo n keyblob m b a) (\<lambda>(ok, a).
         if ok then Inr (True, a) else check_lines k algo n keyblob m b fs' a)) ?Q"
      proof (rule sat_rbind_pair)
        fix ok a1 assume a1: "only_options a a1 \<and> (ok \<longrightarrow> authorized (take (unat n) algo) (take (unat m) keyblob) (u @ fs) \<and> unat m \<le> 1000000000)"
        have "length fs' < k" using Suc.prems(3) used(1,2) by (cases used) auto
        then have "sat (check_lines k algo n keyblob m b fs' a1)
            (\<lambda>(ok, a'). only_options a1 a' \<and> (ok \<longrightarrow> authorized (take (unat n) algo) (take (unat m) keyblob) ((u @ used) @ fs') \<and> unat m \<le> 1000000000))"
          by (rule Suc.IH[OF b]) (use line_read_start[OF used(3) u] in auto)
        then have "sat (check_lines k algo n keyblob m b fs' a1) ?Q"
          by (rule sat_mono) (use a1 used(1) only_options_trans in auto)
        then show "sat (if ok then Inr (True, a1) else check_lines k algo n keyblob m b fs' a1) ?Q" using a1 by simp
      qed
      then show ?thesis using True x by simp
    qed (simp add: x)
  qed
  moreover have "sat (buf_getline line fs) (line_result 4200 fs)" by (rule buf_getline_sat) (use Suc.prems in simp_all)
  ultimately show ?case unfolding check_lines.simps by (intro sat_rbind)
qed simp

subsection \<open>The file and its permissions\<close>

lemma strncmp_eq_take: "length cs \<le> length mem \<Longrightarrow> strncmp_eq cs mem = Inr (take (length cs) mem = cs)"
  by (induction cs mem rule: strncmp_eq.induct) auto

definition key_algos :: "bytes list" where
  "key_algos = [ascii ''ssh-rsa'', ascii ''ssh-dss'']"

lemma have_algo_hostkey:
  assumes "n < length algo"
  shows "have_algo algo n sshhostkey = Inr (take n algo \<in> set key_algos)"
proof -
  have "length (ascii ''ssh-rsa'') = 7" "length (ascii ''ssh-dss'') = 7" by (simp_all add: ascii_def)
  then show ?thesis using assms strncmp_eq_take[of "ascii ''ssh-rsa''" algo] strncmp_eq_take[of "ascii ''ssh-dss''" algo]
    by (auto simp: sshhostkey_def algo_plain_def algo_end_def key_algos_def dest: arg_cong[where f=length])
qed

text \<open>A file that only its owner, the user or root, can write.\<close>

definition private_file :: "auth_world \<Rightarrow> u32 \<Rightarrow> bytes \<Rightarrow> bool" where
  "private_file w uid name \<longleftrightarrow> (\<exists>owner mode. w_stat w name = Some (owner, mode) \<and> (owner = uid \<or> owner = 0) \<and> mode AND 18 = 0)"

text \<open>The keys a user has authorised.\<close>

definition user_key :: "auth_world \<Rightarrow> u32 \<Rightarrow> bytes \<Rightarrow> bytes \<Rightarrow> bytes \<Rightarrow> bool" where
  "user_key w uid dir name keyblob \<longleftrightarrow> dir \<noteq> [] \<and> name \<in> set key_algos \<and>
     (\<forall>path \<in> {dir, dir @ ascii ''/.ssh'', dir @ ascii ''/.ssh/authorized_keys''}. private_file w uid path) \<and>
     (\<exists>fs. w_file w (dir @ ascii ''/.ssh/authorized_keys'') = Some fs \<and> authorized name keyblob fs)"

definition keeps_user :: "AuthState \<Rightarrow> AuthState \<Rightarrow> bool" where
  "keeps_user a a' \<longleftrightarrow> (\<exists>pw r. a' = a\<lparr>as_perm_warn := pw, as_pubkey_options := r\<rparr>)"

lemma keeps_user_refl: "keeps_user a a" and keeps_user_warn: "keeps_user a (a\<lparr>as_perm_warn := True\<rparr>)"
  unfolding keeps_user_def
  by (intro exI[of _ "as_perm_warn a"] exI[of _ "as_pubkey_options a"], simp)
    (intro exI[of _ True] exI[of _ "as_pubkey_options a"], simp)

lemma only_options_keeps: "only_options a a' \<Longrightarrow> keeps_user a a'"
  unfolding only_options_def keeps_user_def by (metis AuthState.surjective AuthState.update_convs(4))

lemma checkfileperm_result:
  "checkfileperm w f a = (private_file w (as_pw_uid a) f, snd (checkfileperm w f a))"
  "private_file w (as_pw_uid a) f \<Longrightarrow> snd (checkfileperm w f a) = a" "keeps_user a (snd (checkfileperm w f a))"
  using keeps_user_refl[of a] keeps_user_warn[of a] by (auto simp: checkfileperm_def private_file_def split: option.splits)

lemma checkpubkeyperms_result:
  assumes "checkpubkeyperms w a = (ok, a')"
  shows "keeps_user a a'" and "ok \<Longrightarrow> a' = a \<and> (\<exists>dir. as_pw_dir a = Some dir \<and> dir \<noteq> [] \<and>
    (\<forall>path \<in> {dir, dir @ ascii ''/.ssh'', dir @ ascii ''/.ssh/authorized_keys''}. private_file w (as_pw_uid a) path))"
  using assms checkfileperm_result[where w=w and a=a] keeps_user_refl[of a]
  by (auto simp: checkpubkeyperms_def Let_def split: option.splits if_splits prod.splits) (metis fst_conv snd_conv)+

lemma key_algos_ok: "name \<in> set key_algos \<Longrightarrow> length name = 7 \<and> 0 \<notin> set name"
  by (auto simp: key_algos_def ascii_def)

lemma checkpubkey_sat:
  assumes "unat n < length algo" and "unat m \<le> length keyblob \<or> 1000000000 < unat m"
  shows "sat (checkpubkey w algo n keyblob m a) (\<lambda>(ok, a'). keeps_user a a' \<and>
    (ok \<longrightarrow> (\<exists>dir. as_pw_dir a = Some dir \<and> user_key w (as_pw_uid a) dir (take (unat n) algo) (take (unat m) keyblob) \<and> unat m \<le> 1000000000)))"
proof (cases "take (unat n) algo \<in> set key_algos")
  case True
  have n: "unat n = 7" "0 \<notin> set (take (unat n) algo)" using key_algos_ok[OF True] assms by (simp, blast)
  then have n0: "n \<noteq> 0" by auto
  obtain ok a1 where p: "checkpubkeyperms w a = (ok, a1)" by fastforce
  note r = checkpubkeyperms_result[OF p]
  show ?thesis
  proof (cases ok)
    case t: True
    then obtain dir where d: "a1 = a" "as_pw_dir a = Some dir" "dir \<noteq> []"
      "\<forall>path \<in> {dir, dir @ ascii ''/.ssh'', dir @ ascii ''/.ssh/authorized_keys''}. private_file w (as_pw_uid a) path" using r(2) by blast
    have i: "buf_inv (mkbuf (replicate 4200 0) 0 0 4200)" by (simp add: mk_inv mk_ok_def)
    have "sat (check_lines (Suc (length fs)) algo n keyblob m (mkbuf (replicate 4200 0) 0 0 4200) fs a) (\<lambda>(ok, a'). keeps_user a a' \<and>
        (ok \<longrightarrow> (\<exists>dir. as_pw_dir a = Some dir \<and> user_key w (as_pw_uid a) dir (take (unat n) algo) (take (unat m) keyblob) \<and> unat m \<le> 1000000000)))"
      if "w_file w (dir @ ascii ''/.ssh/authorized_keys'') = Some fs" for fs
      by (rule sat_mono[OF check_lines_sat[where u="[]", OF _ _ n(2) n0 assms(2) i]])
        (use assms n d that True in \<open>auto simp: line_start_def user_key_def intro: only_options_keeps\<close>)
    then show ?thesis using True t p d assms mk_new[of 4200] keeps_user_refl
      by (simp add: checkpubkey_def have_algo_hostkey MAX_AUTHKEYS_LINE_def split: option.split)
  qed (use True assms p r in \<open>simp add: checkpubkey_def have_algo_hostkey\<close>)
qed (use assms keeps_user_refl in \<open>simp add: checkpubkey_def have_algo_hostkey\<close>)

end
