(* ===== verification/AuthAccept.thy ===== *)
theory AuthAccept
  imports AuthKeys
begin

text \<open>
  The other direction for \<open>authorized_keys\<close>: a key that the first line of the file lists, as \<open>ssh-keygen\<close> writes it, is accepted. With
  the results of \<open>AuthKeys\<close> this makes the check exact on such files.
\<close>

subsection \<open>The line\<close>

lemma getline_loop_text:
  assumes "mk_ok d p p z" and "no_eol tx" and "p + length tx < z"
  shows "\<exists>d'. getline_loop (tx @ 10 # rest) (mkbuf d p p z) = Inr (False, mkbuf d' (p + length tx) (p + length tx) z, rest) \<and>
    length d' = length d \<and> take (p + length tx) d' = take p d @ tx"
  using assms
proof (induction tx arbitrary: d p)
  case Nil
  then show ?case using mk_okD[OF Nil(1)] by (auto simp: word_nat)
next
  case (Cons c tx)
  note m = mk_okD[OF Cons.prems(1)]
  have m1: "mk_ok (patch d p [c]) (p + 1) (p + 1) z" using Cons.prems m by (simp add: mk_ok_def)
  have t: "take (p + 1) (patch d p [c]) = take p d @ [c]" using take_patch[of p "[c]" d] Cons.prems m by simp
  obtain d' where d': "getline_loop (tx @ 10 # rest) (mkbuf (patch d p [c]) (p + 1) (p + 1) z) =
      Inr (False, mkbuf d' (p + 1 + length tx) (p + 1 + length tx) z, rest)"
    "length d' = length (patch d p [c])" "take (p + 1 + length tx) d' = take (p + 1) (patch d p [c]) @ tx"
    using Cons.IH[OF m1] Cons.prems by auto
  have "buf_putbyte (mkbuf d p p z) c = Inr (mkbuf (patch d p [c]) (p + 1) (p + 1) z)"
    using mk_putbyte[OF Cons.prems(1), of c] Cons.prems(3) by simp
  then show ?case using d' t m Cons.prems by (intro exI[of _ d']) (simp add: word_nat)
qed

lemma buf_getline_text:
  assumes "mk_ok d 0 0 z" and "no_eol tx" and "length tx < z"
  shows "\<exists>d'. buf_getline (mkbuf d 0 0 z) (tx @ 10 # rest) = Inr (True, mkbuf d' (length tx) 0 z, rest) \<and> mk_ok d' (length tx) 0 z \<and>
    unread (mkbuf d' (length tx) 0 z) = tx"
proof -
  obtain d' where d': "getline_loop (tx @ 10 # rest) (mkbuf d 0 0 z) = Inr (False, mkbuf d' (length tx) (length tx) z, rest)"
    "length d' = length d" "take (length tx) d' = tx" using getline_loop_text[OF assms(1,2), of rest] assms(3) by auto
  have m: "mk_ok d' (length tx) (length tx) z" "mk_ok d' (length tx) 0 z" using d'(2) assms(1,3) by (simp_all add: mk_ok_def)
  have "buf_setpos (mkbuf d 0 0 z) 0 = Inr (mkbuf d 0 0 z)" "buf_setlen (mkbuf d 0 0 z) 0 = Inr (mkbuf d 0 0 z)"
    using mk_setpos[OF assms(1), of 0] mk_setlen[OF assms(1), of 0] by simp_all
  then have "buf_getline (mkbuf d 0 0 z) (tx @ 10 # rest) = Inr (True, mkbuf d' (length tx) 0 z, rest)"
    using d'(1) mk_setpos[OF m(1), of 0] by (simp add: buf_getline_def)
  then show ?thesis using m(2) unread_mk[OF m(2)] d'(3) by auto
qed

subsection \<open>The key\<close>

lemma base64_span_total:
  assumes "buf_inv b" and "n = length (unread b)"
  shows "\<exists>r. base64_span n len b = Inr r"
  using assms
proof (induction n arbitrary: b len)
  case (Suc n)
  then obtain c rest where c: "unread b = c # rest" by (cases "unread b") auto
  have "buf_inv (advance b 1)" "n = length (unread (advance b 1))" using Suc.prems c by (simp_all add: advance_inv unread_advance)
  then show ?case using Suc.IH[of "advance b 1"] buf_getbyte_ok[OF Suc.prems(1) c] by auto
qed simp

lemma b64_enc_text:
  shows "length (b64_enc xs) = 4 * ((length xs + 2) div 3)" and "32 \<notin> set (b64_enc xs)" and "no_eol (b64_enc xs)"
proof -
  have c: "b64_code x \<in> set b64_chars" for x
  proof -
    have "x AND 63 \<le> 63" by (rule word_and_le1)
    then have "unat (x AND 63) < length b64_chars" by (simp add: word_le_nat_alt length_b64_chars)
    then show ?thesis by (simp add: b64_code_def)
  qed
  have "set (b64_enc xs) \<subseteq> insert 61 (set b64_chars)" using c by (induction xs rule: b64_enc.induct) auto
  moreover have "10 \<notin> set b64_chars" "13 \<notin> set b64_chars" "32 \<notin> set b64_chars" by (simp_all add: b64_chars_def ascii_def)
  ultimately show "32 \<notin> set (b64_enc xs)" "no_eol (b64_enc xs)" by (auto simp: no_eol_def)
  show "length (b64_enc xs) = 4 * ((length xs + 2) div 3)" by (induction xs rule: b64_enc.induct) (auto, presburger)
qed

lemma cmp_base64_key_accepts:
  assumes "buf_inv line" and "unread line = b64_enc blob" and "blob = store32h 7 @ name @ rest" and "length name = 7"
    and "2 * length (unread line) \<le> 1000000000"
  shows "cmp_base64_key (blob @ tail) (of_nat (length blob)) (name @ [0]) 7 line = Inr True"
proof -
  let ?n = "length (unread line)"
  have lb: "length blob \<le> ?n" using assms(2) b64_enc_text(1)[of blob] by simp
  have u: "unat (b_len line - b_pos line) = ?n" by (rule unread_left[OF assms(1)])
  have u2: "unat ((b_len line - b_pos line) * 2) = 2 * ?n"
    using unread_le[OF assms(1)] u by (subst unat_mult_lem[THEN iffD1]) simp_all
  have ul: "unat (of_nat (length blob) :: u32) = length blob" using lb assms(5) by (intro unat_of_nat_u32) simp
  let ?d = "patch (replicate (2 * ?n) 0) 0 blob"
  have m: "mk_ok (replicate (2 * ?n) 0) 0 0 (2 * ?n)" "mk_ok ?d 0 0 (2 * ?n)" "mk_ok ?d (length blob) 0 (2 * ?n)"
    using assms(5) lb by (simp_all add: mk_ok_def)
  have dec: "base64_decode (unread line) (2 * ?n) = Inr (Some blob)"
    using b64_loop_enc[of "[]" blob "2 * ?n"] lb assms(2) by (simp add: base64_decode_def)
  let ?k = "mkbuf ?d (length blob) 0 (2 * ?n)"
  have uk: "unread ?k = blob" using unread_mk[OF m(3)] by (simp add: patch_def)
  have g: "buf_getint ?k = Inr (7, advance ?k 4)"
    using buf_getint_ok[OF mk_inv[OF m(3)]] uk assms(3) by simp
  have k4: "buf_inv (advance ?k 4)" "unread (advance ?k 4) = name @ rest"
    using uk assms(3) mk_inv[OF m(3)] by (simp_all add: advance_inv unread_advance)
  have p4: "buf_getptr (advance ?k 4) 7 = Inr 4"
    using buf_getptr_ok[OF k4(1), of 7] k4(2) assms(4) advance_pos[OF mk_inv[OF m(3)], of 4] uk assms(3) by simp
  have r4: "mem_read (b_data (advance ?k 4)) 4 7 = Inr name"
    using take_unread[OF k4(1), of 7] k4(2) assms(4) advance_pos[OF mk_inv[OF m(3)], of 4] uk assms(3) by simp
  have w: "mem_write (replicate (2 * ?n) 0) 0 blob = Inr ?d" using lb by (intro mem_write_patch) simp
  have inc: "buf_incrlen (mkbuf ?d 0 0 (2 * ?n)) (of_nat (length blob)) = Inr ?k"
    using mk_incrlen[OF m(2), of "of_nat (length blob)"] ul lb by simp
  have gp: "buf_getptr ?k (of_nat (length blob)) = Inr 0" using mk_getptr[OF m(3)] ul by simp
  have rd: "mem_read ?d 0 (length blob) = Inr blob" using lb by (simp add: patch_def)
  have n: "buf_new ((b_len line - b_pos line) * 2) = Inr (mkbuf (replicate (2 * ?n) 0) 0 0 (2 * ?n))"
    using mk_new[of "(b_len line - b_pos line) * 2"] u2 assms(5) by simp
  show ?thesis
    using n m u u2 assms(1,4) mk_okD(3)[OF m(1)] dec w inc gp rd ul g p4 r4
    by (simp add: cmp_base64_key_def Let_def buf_getptr_ok take_unread mk_getwriteptr)
qed

lemma key_data_accepts:
  assumes "buf_inv b" and "unread b = b64_enc blob" and "blob = store32h 7 @ name @ rest" and "length name = 7" and "2 * length (unread b) \<le> 1000000000"
  shows "key_data (name @ [0]) 7 (blob @ tail) (of_nat (length blob)) b = Inr True"
proof -
  have t: "takeWhile (\<lambda>c. c \<noteq> 32) (unread b) = unread b" unfolding takeWhile_eq_all_conv assms(2) using b64_enc_text(2)[of blob] by blast
  obtain len b' where s: "base64_span (length (unread b)) 0 b = Inr (len, b')" using base64_span_total[OF assms(1) refl, of 0] by auto
  have m: "moved b b'" "len = of_nat (length (unread b))" using satD[OF base64_span_sat[OF assms(1) refl] s] unfolding t by auto
  obtain k where k: "b' = advance b k" using m by (auto simp: moved_def)
  have "buf_setpos b' (b_pos b) = Inr b" using k buf_invD[OF assms(1)] by (simp add: buf_setpos_def word_nat advance_def)
  moreover have "b_pos b + len = b_len b"
  proof -
    have "len = b_len b - b_pos b" unfolding m(2) unread_left[OF assms(1), symmetric] by simp
    then show ?thesis by simp
  qed
  then have "buf_setlen b (b_pos b + len) = Inr b" using buf_invD[OF assms(1)] by (simp add: buf_setlen_def word_nat)
  ultimately show ?thesis
    using s cmp_base64_key_accepts[OF assms, of tail] unread_left[OF assms(1)] by (simp add: key_data_def)
qed

lemma check_line_accepts:
  assumes "buf_inv b" and "unread b = name @ [32] @ b64_enc blob" and "blob = store32h 7 @ name @ rest" and "length name = 7" and "0 \<notin> set name"
    and "length (unread b) \<le> 4200" and "b_pos b = 0"
  shows "check_line (name @ [0]) 7 (blob @ tail) (of_nat (length blob)) b a = Inr (True, a)"
proof -
  have l: "unat (b_len b) = length (unread b)" using length_unread[OF assms(1)] assms(7) by simp
  have lb: "11 \<le> length blob" using assms(3,4) by simp
  have lu: "18 \<le> length (unread b)" using assms(2,4) lb b64_enc_text(1)[of blob] by simp
  have n: "\<not> b_len b < 10" using l lu by (simp add: word_nat)
  have d: "7 \<le> length (drop (unat (b_pos b)) (b_data b))" using l lu buf_invD[OF assms(1)] assms(7) by simp
  have e: "strn_eq id 7 (drop (unat (b_pos b)) (b_data b)) (name @ [0]) = Inr True"
    using strn_eq_id[OF d, of "name @ [0]"] assms(2,4,5) unread_data[OF assms(1), of 7] lu by simp
  have o: "line_options (name @ [0]) 7 b = Inr (Some (None, b))"
    using buf_getptr_ok[OF assms(1), of 7] lu e by (simp add: line_options_def)
  have b1: "buf_inv (advance b 7)" "unread (advance b 7) = 32 # b64_enc blob"
    using assms(1,2,4) lu by (simp_all add: advance_inv unread_advance)
  have b2: "buf_getbyte (advance b 7) = Inr (32, advance (advance b 7) 1)" "buf_inv (advance (advance b 7) 1)" "unread (advance (advance b 7) 1) = b64_enc blob"
    using buf_getbyte_ok[OF b1] b1 by (simp_all add: advance_inv unread_advance)
  have "key_data (name @ [0]) 7 (blob @ tail) (of_nat (length blob)) (advance (advance b 7) 1) = Inr True"
    by (rule key_data_accepts[OF b2(2,3) assms(3,4)]) (use b2(3) assms(2,6) in simp)
  then show ?thesis using n o b2(1) buf_incrpos_forward[OF assms(1), of 7] lu by (simp add: check_line_def check_key_def)
qed

lemma checkpubkeyperms_ok:
  assumes "as_pw_dir a = Some dir" and "dir \<noteq> []"
    and "\<forall>path \<in> {dir, dir @ ascii ''/.ssh'', dir @ ascii ''/.ssh/authorized_keys''}. private_file w (as_pw_uid a) path"
  shows "checkpubkeyperms w a = (True, a)"
proof -
  have "checkfileperm w path a = (True, a)" if "private_file w (as_pw_uid a) path" for path
    using checkfileperm_result(1)[of w path a] checkfileperm_result(2)[OF that] that by simp
  then show ?thesis using assms by (simp add: checkpubkeyperms_def)
qed

lemma listed_key_accepted:
  assumes "name \<in> set key_algos" and "blob = store32h 7 @ name @ rest" and "length (name @ [32] @ b64_enc blob) < 4200"
    and "as_pw_dir a = Some dir" and "dir \<noteq> []"
    and "\<forall>path \<in> {dir, dir @ ascii ''/.ssh'', dir @ ascii ''/.ssh/authorized_keys''}. private_file w (as_pw_uid a) path"
    and "w_file w (dir @ ascii ''/.ssh/authorized_keys'') = Some (name @ [32] @ b64_enc blob @ [10] @ others)"
  shows "checkpubkey w (name @ [0]) 7 (blob @ tail) (of_nat (length blob)) a = Inr (True, a)"
proof -
  have n: "length name = 7" "0 \<notin> set name" using key_algos_ok[OF assms(1)] by simp_all
  let ?tx = "name @ [32] @ b64_enc blob"
  let ?f = "name @ [32] @ b64_enc blob @ [10] @ others"
  have e: "no_eol ?tx" using assms(1) b64_enc_text(3)[of blob] by (auto simp: no_eol_def key_algos_def ascii_def)
  have m: "mk_ok (replicate 4200 0) 0 0 4200" by (simp add: mk_ok_def)
  obtain d where d: "buf_getline (mkbuf (replicate 4200 0) 0 0 4200) (?tx @ 10 # others) = Inr (True, mkbuf d (length ?tx) 0 4200, others)"
    "mk_ok d (length ?tx) 0 4200" "unread (mkbuf d (length ?tx) 0 4200) = ?tx"
    using buf_getline_text[OF m e assms(3), of others] by blast
  have "check_line (name @ [0]) 7 (blob @ tail) (of_nat (length blob)) (mkbuf d (length ?tx) 0 4200) a = Inr (True, a)"
    by (rule check_line_accepts[OF mk_inv[OF d(2)] d(3) assms(2) n]) (use d(3) assms(3) in simp_all)
  then have "check_lines (Suc (length ?f)) (name @ [0]) 7 (blob @ tail) (of_nat (length blob)) (mkbuf (replicate 4200 0) 0 0 4200) ?f a = Inr (True, a)"
    using d(1) by simp
  then show ?thesis
    using have_algo_hostkey[of 7 "name @ [0]"] n assms(1,4,7) checkpubkeyperms_ok[OF assms(4-6)] mk_new[of 4200]
    by (simp add: checkpubkey_def MAX_AUTHKEYS_LINE_def)
qed

end
