(* ===== verification/Auth.thy ===== *)
theory Auth
  imports AuthKeys
begin

text \<open>
  User authentication on the server: \<^verbatim>\<open>svr-auth.c\<close>, \<^verbatim>\<open>svr-authpasswd.c\<close>, \<open>svr_auth_pubkey\<close> of \<^verbatim>\<open>svr-authpubkey.c\<close>,
  \<^verbatim>\<open>svr-service.c\<close> and \<open>fill_passwd\<close> of \<^verbatim>\<open>common-session.c\<close>. The record \<open>authsession\<close> adds \<open>ses.authstate\<close> and what the handlers change
  besides it to the session. Delays and log messages are left out.
\<close>

subsection \<open>State and limits\<close>

record authsession = sshsession +
  s_authstate :: AuthState
  s_connect_time :: int
  s_allowprivport :: bool
  s_childpipe :: int
  s_pipes_closed :: "int list"
  s_banner :: "buffer option"

record svr_runopts =
  o_noauthpass :: bool
  o_norootpass :: bool
  o_norootlogin :: bool
  o_allowblankpass :: bool

definition MAX_AUTH_TRIES :: u32 where "MAX_AUTH_TRIES = 10"
definition MAX_USERNAME_LEN :: u32 where "MAX_USERNAME_LEN = 25"
definition AUTH_TYPE_PUBKEY :: u8 where "AUTH_TYPE_PUBKEY = 2"
definition AUTH_TYPE_PASSWORD :: u8 where "AUTH_TYPE_PASSWORD = 4"
definition SSH_MSG_USERAUTH_FAILURE :: u8 where "SSH_MSG_USERAUTH_FAILURE = 51"
definition SSH_MSG_USERAUTH_SUCCESS :: u8 where "SSH_MSG_USERAUTH_SUCCESS = 52"
definition SSH_MSG_USERAUTH_BANNER :: u8 where "SSH_MSG_USERAUTH_BANNER = 53"

definition set_auth :: "(AuthState \<Rightarrow> AuthState) \<Rightarrow> 'a authsession_scheme \<Rightarrow> 'a authsession_scheme" where
  "set_auth f s = s\<lparr>s_authstate := f (s_authstate s)\<rparr>"

definition authclear :: "svr_runopts \<Rightarrow> AuthState" where
  "authclear opts =
     zero_AuthState\<lparr>as_authtypes := AUTH_TYPE_PUBKEY OR (if o_noauthpass opts then 0 else AUTH_TYPE_PASSWORD)\<rparr>"

definition svr_authinitialise :: "svr_runopts \<Rightarrow> 'a authsession_scheme \<Rightarrow> 'a authsession_scheme" where
  "svr_authinitialise opts s = s\<lparr>s_authstate := authclear opts, s_authdone := False\<rparr>"

text \<open>\<open>getspnam\<close> is \<open>None\<close> without a shadow entry for the user.\<close>

definition fill_passwd :: "auth_world \<Rightarrow> bytes \<Rightarrow> AuthState \<Rightarrow> AuthState" where
  "fill_passwd w username a =
     (let a = a\<lparr>as_pw_name := None, as_pw_dir := None, as_pw_shell := None, as_pw_passwd := None\<rparr> in
      case w_getpwnam w username of
        None \<Rightarrow> a
      | Some pw \<Rightarrow>
          let crypt = (case w_getspnam w (pwd_name pw) of Some x \<Rightarrow> Some x | None \<Rightarrow> pwd_passwd pw)
          in a\<lparr>as_pw_uid := pwd_uid pw, as_pw_gid := pwd_gid pw, as_pw_name := Some (pwd_name pw), as_pw_dir := Some (pwd_dir pw),
               as_pw_shell := Some (pwd_shell pw), as_pw_passwd := Some (case crypt of Some x \<Rightarrow> x | None \<Rightarrow> ascii ''!!'')\<rparr>)"

subsection \<open>Answers\<close>

definition send_msg_userauth_banner ::
  "crypto \<Rightarrow> env \<Rightarrow> nat \<Rightarrow> buffer \<Rightarrow> 'a sshsession_scheme \<Rightarrow> 'a sshsession_scheme result" where
  "send_msg_userauth_banner cr env k banner s =
     send_payload cr env k (\<lambda>b.
       rbind (buf_putbyte b SSH_MSG_USERAUTH_BANNER) (\<lambda>b.
       rbind (buf_getptr banner (b_len banner)) (\<lambda>p.
       rbind (mem_read (b_data banner) p (unat (b_len banner))) (\<lambda>bs.
       rbind (buf_putstring b bs (b_len banner)) (\<lambda>b.
       buf_putstring b (ascii ''en'') 2))))) s"

definition auth_types_string :: "u8 \<Rightarrow> buffer result" where
  "auth_types_string authtypes =
     rbind (buf_new 30) (\<lambda>b.
     rbind (if authtypes AND AUTH_TYPE_PUBKEY \<noteq> 0
            then rbind (buf_putbytes b (ascii ''publickey'') 9) (\<lambda>b.
                 if authtypes AND AUTH_TYPE_PASSWORD \<noteq> 0 then buf_putbyte b 44 else Inr b)
            else Inr b) (\<lambda>b.
     rbind (if authtypes AND AUTH_TYPE_PASSWORD \<noteq> 0 then buf_putbytes b (ascii ''password'') 8 else Inr b) (\<lambda>b.
     buf_setpos b 0)))"

definition send_msg_userauth_failure ::
  "crypto \<Rightarrow> env \<Rightarrow> nat \<Rightarrow> bool \<Rightarrow> bool \<Rightarrow> 'a authsession_scheme \<Rightarrow> 'a authsession_scheme result" where
  "send_msg_userauth_failure cr env k partial incrfail s =
     rbind (send_payload cr env k (\<lambda>b.
       rbind (buf_putbyte b SSH_MSG_USERAUTH_FAILURE) (\<lambda>b.
       rbind (auth_types_string (as_authtypes (s_authstate s))) (\<lambda>typebuf.
       rbind (buf_getptr typebuf (b_len typebuf)) (\<lambda>p.
       rbind (mem_read (b_data typebuf) p (unat (b_len typebuf))) (\<lambda>bs.
       rbind (buf_putstring b bs (b_len typebuf)) (\<lambda>b.
       buf_putbyte b (if partial then 1 else 0))))))) s) (\<lambda>s.
     let s = (if incrfail then set_auth (\<lambda>a. a\<lparr>as_failcount := as_failcount a + 1\<rparr>) s else s)
     in if as_failcount (s_authstate s) \<ge> MAX_AUTH_TRIES then Inl (Exit ''Max auth tries reached'') else Inr s)"

text \<open>\<open>m_close\<close> does nothing for -1.\<close>

definition send_msg_userauth_success ::
  "crypto \<Rightarrow> env \<Rightarrow> nat \<Rightarrow> 'a authsession_scheme \<Rightarrow> 'a authsession_scheme result" where
  "send_msg_userauth_success cr env k s =
     rbind (send_payload cr env k (\<lambda>b. buf_putbyte b SSH_MSG_USERAUTH_SUCCESS) s) (\<lambda>s.
     Inr (s\<lparr>s_authdone := True, s_connect_time := 0,
            s_allowprivport := (s_allowprivport s \<or> as_pw_uid (s_authstate s) = 0),
            s_pipes_closed := s_pipes_closed s @ (if s_childpipe s = -1 then [] else [s_childpipe s])\<rparr>))"

subsection \<open>The user\<close>

definition checkusername ::
  "auth_world \<Rightarrow> svr_runopts \<Rightarrow> bytes \<Rightarrow> u32 \<Rightarrow> AuthState \<Rightarrow> (bool \<times> AuthState) result" where
  "checkusername w opts username userlen a =
     (if userlen > MAX_USERNAME_LEN then Inr (False, a)
      else
        let a = (if as_username a = Some (cstr username) then a
                 else (fill_passwd w (cstr username) (authclear opts))\<lparr>as_username := Some (cstr username)\<rparr>)
        in if as_pw_name a = None then Inr (False, a)
        else if w_geteuid w \<noteq> 0 \<and> w_geteuid w \<noteq> as_pw_uid a then Inr (False, a)
        else if o_norootlogin opts \<and> as_pw_uid a = 0 then Inr (False, a)
        else
          rbind (deref (as_pw_shell a)) (\<lambda>usershell.
          let usershell = (if usershell = [] then ascii ''/bin/sh'' else usershell)
          in Inr (usershell \<in> set (w_shells w), a)))"

subsection \<open>Methods\<close>

definition constant_time_strcmp :: "bytes \<Rightarrow> bytes \<Rightarrow> u8 result" where
  "constant_time_strcmp a b = (if length a \<noteq> length b then Inr 1 else constant_time_memcmp a b (length a))"

definition get_payload :: "(buffer \<Rightarrow> ('b \<times> buffer) result) \<Rightarrow> 'a sshsession_scheme \<Rightarrow> ('b \<times> 'a sshsession_scheme) result" where
  "get_payload f s = rbind (deref (s_payload s)) (\<lambda>b. rbind (f b) (\<lambda>(x, b). Inr (x, s\<lparr>s_payload := Some b\<rparr>)))"

definition get_string :: "buffer \<Rightarrow> ((bytes \<times> u32) \<times> buffer) result" where
  "get_string b = rbind (buf_getstring b) (\<lambda>(str, n, b). Inr ((str, n), b))"

definition svr_auth_password ::
  "crypto \<Rightarrow> env \<Rightarrow> auth_world \<Rightarrow> 'a authsession_scheme \<Rightarrow> 'a authsession_scheme result" where
  "svr_auth_password cr env w s =
     rbind (get_payload buf_getbool s) (\<lambda>(changepw, s).
     if changepw \<noteq> 0 then send_msg_userauth_failure cr env 1 False True s
     else
       rbind (get_payload get_string s) (\<lambda>((password, passwordlen), s).
       rbind (deref (as_pw_passwd (s_authstate s))) (\<lambda>passwdcrypt.
       case w_crypt w (cstr password) passwdcrypt of
         None \<Rightarrow> send_msg_userauth_failure cr env 1 False True s
       | Some testcrypt \<Rightarrow>
           if passwdcrypt = [] then send_msg_userauth_failure cr env 1 False True s
           else
             rbind (constant_time_strcmp testcrypt passwdcrypt) (\<lambda>d.
             if d = 0 then send_msg_userauth_success cr env 1 s
             else send_msg_userauth_failure cr env 1 False True s))))"

definition send_msg_userauth_pk_ok ::
  "crypto \<Rightarrow> env \<Rightarrow> nat \<Rightarrow> bytes \<Rightarrow> u32 \<Rightarrow> bytes \<Rightarrow> u32 \<Rightarrow> 'a sshsession_scheme \<Rightarrow> 'a sshsession_scheme result" where
  "send_msg_userauth_pk_ok cr env k algo algolen keyblob keybloblen s =
     send_payload cr env k (\<lambda>b.
       rbind (buf_putbyte b SSH_MSG_USERAUTH_PK_OK) (\<lambda>b.
       rbind (buf_putstring b algo algolen) (\<lambda>b.
       buf_putstring b keyblob keybloblen))) s"

text \<open>The bytes that are signed: the session identifier as a string and the request up to the signature.\<close>

definition signed_request :: "bytes \<Rightarrow> buffer \<Rightarrow> bytes result" where
  "signed_request session_id payload =
     rbind (buf_new (b_pos payload + 4 + of_nat SHA1_HASH_SIZE)) (\<lambda>signbuf.
     rbind (buf_putstring signbuf session_id (of_nat SHA1_HASH_SIZE)) (\<lambda>signbuf.
     rbind (buf_putbytes signbuf (b_data payload) (b_pos payload)) (\<lambda>signbuf.
     rbind (buf_setpos signbuf 0) (\<lambda>signbuf.
     rbind (buf_getptr signbuf (b_len signbuf)) (\<lambda>p.
     mem_read (b_data signbuf) p (unat (b_len signbuf)))))))"

text \<open>An actual attempt, with a signature; \<open>ses.payload\<close> is at the key.\<close>

definition pubkey_attempt :: "crypto \<Rightarrow> env \<Rightarrow> 'a authsession_scheme \<Rightarrow> 'a authsession_scheme result" where
  "pubkey_attempt cr env s =
     rbind (deref (s_payload s)) (\<lambda>payload.
     rbind (buf_get_pub_key payload new_sign_key DROPBEAR_SIGNKEY_ANY) (\<lambda>(ok, key, type, payload).
     let s = s\<lparr>s_payload := Some payload\<rparr>
     in if \<not> ok then send_msg_userauth_failure cr env 1 False True s
     else
       rbind (deref (s_session_id s)) (\<lambda>session_id.
       rbind (signed_request session_id payload) (\<lambda>data.
       rbind (buf_verify cr payload key data) (\<lambda>(good, payload).
       let s = s\<lparr>s_payload := Some payload\<rparr>
       in if good then send_msg_userauth_success cr env 1 s
          else send_msg_userauth_failure cr env 1 False True s)))))"

definition svr_auth_pubkey ::
  "crypto \<Rightarrow> env \<Rightarrow> auth_world \<Rightarrow> 'a authsession_scheme \<Rightarrow> 'a authsession_scheme result" where
  "svr_auth_pubkey cr env w s =
     rbind (get_payload buf_getbool s) (\<lambda>(real, s).
     rbind (get_payload get_string s) (\<lambda>((algo, algolen), s).
     rbind (get_payload buf_getint s) (\<lambda>(keybloblen, s).
     rbind (deref (s_payload s)) (\<lambda>payload.
     rbind (buf_getptr payload keybloblen) (\<lambda>p.
     let keyblob = drop p (b_data payload)
     in rbind (checkpubkey w algo algolen keyblob keybloblen (s_authstate s)) (\<lambda>(ok, a).
        let s = s\<lparr>s_authstate := a\<rparr>
        in if \<not> ok then send_msg_userauth_failure cr env 1 False False s
           else if real = 0 then send_msg_userauth_pk_ok cr env 1 algo algolen keyblob keybloblen s
           else pubkey_attempt cr env s))))))"

subsection \<open>The request\<close>

definition is_method :: "bytes \<Rightarrow> u32 \<Rightarrow> string \<Rightarrow> bool result" where
  "is_method name len method =
     (if unat len = length method then strn_eq id (length method) name (ascii method) else Inr False)"

text \<open>\<open>servicelen != 14 && strncmp (servicename, "ssh-connection", 14) != 0\<close>\<close>

definition service_unknown :: "bytes \<Rightarrow> u32 \<Rightarrow> bool result" where
  "service_unknown servicename servicelen =
     (if servicelen \<noteq> 14
      then rbind (strn_eq id 14 servicename (ascii ''ssh-connection'' @ [0])) (\<lambda>eq. Inr (\<not> eq))
      else Inr False)"

text \<open>The methods in turn, once the user has been looked up; \<open>valid_user\<close> is the result of \<open>checkusername\<close>.\<close>

definition userauth_none ::
  "crypto \<Rightarrow> env \<Rightarrow> svr_runopts \<Rightarrow> bool \<Rightarrow> 'a authsession_scheme \<Rightarrow> 'a authsession_scheme result" where
  "userauth_none cr env opts valid_user s =
     (let a = s_authstate s in
      if valid_user \<and> o_allowblankpass opts \<and> \<not> o_noauthpass opts \<and> \<not> (o_norootpass opts \<and> as_pw_uid a = 0)
      then rbind (deref (as_pw_passwd a)) (\<lambda>pw.
           if pw = [] then send_msg_userauth_success cr env 1 s else send_msg_userauth_failure cr env 1 False False s)
      else send_msg_userauth_failure cr env 1 False False s)"

definition userauth_method ::
  "crypto \<Rightarrow> env \<Rightarrow> auth_world \<Rightarrow> svr_runopts \<Rightarrow> bool \<Rightarrow> bytes \<Rightarrow> u32 \<Rightarrow> 'a authsession_scheme \<Rightarrow> 'a authsession_scheme result" where
  "userauth_method cr env w opts valid_user methodname methodlen s =
     rbind (is_method methodname methodlen ''none'') (\<lambda>none.
     if none then userauth_none cr env opts valid_user s
     else
       rbind (is_method methodname methodlen ''password'') (\<lambda>password.
       if \<not> o_noauthpass opts \<and> \<not> (o_norootpass opts \<and> as_pw_uid (s_authstate s) = 0) \<and> password \<and> valid_user
       then svr_auth_password cr env w s
       else
         rbind (is_method methodname methodlen ''publickey'') (\<lambda>publickey.
         if publickey
         then if valid_user then svr_auth_pubkey cr env w s else send_msg_userauth_failure cr env 1 False False s
         else send_msg_userauth_failure cr env 1 False True s)))"

definition send_banner :: "crypto \<Rightarrow> env \<Rightarrow> 'a authsession_scheme \<Rightarrow> 'a authsession_scheme result" where
  "send_banner cr env s =
     (case s_banner s of
        None \<Rightarrow> Inr s
      | Some banner \<Rightarrow> rbind (send_msg_userauth_banner cr env 0 banner s) (\<lambda>s. Inr (s\<lparr>s_banner := None\<rparr>)))"

definition recv_msg_userauth_request ::
  "crypto \<Rightarrow> env \<Rightarrow> auth_world \<Rightarrow> svr_runopts \<Rightarrow> 'a authsession_scheme \<Rightarrow> 'a authsession_scheme result" where
  "recv_msg_userauth_request cr env w opts s =
     (if s_authdone s then Inr s
      else
        rbind (send_banner cr env s) (\<lambda>s.
        rbind (get_payload get_string s) (\<lambda>((username, userlen), s).
        rbind (get_payload get_string s) (\<lambda>((servicename, servicelen), s).
        rbind (get_payload get_string s) (\<lambda>((methodname, methodlen), s).
        rbind (service_unknown servicename servicelen) (\<lambda>unknown.
        if unknown then Inl (Exit ''unknown service in auth'')
        else
          rbind (checkusername w opts username userlen (s_authstate s)) (\<lambda>(valid_user, a).
          userauth_method cr env w opts valid_user methodname methodlen (s\<lparr>s_authstate := a\<rparr>))))))))"

subsection \<open>Services (svr-service.c)\<close>

definition send_msg_service_accept ::
  "crypto \<Rightarrow> env \<Rightarrow> bytes \<Rightarrow> u32 \<Rightarrow> 'a sshsession_scheme \<Rightarrow> 'a sshsession_scheme result" where
  "send_msg_service_accept cr env name len s =
     send_payload cr env 0 (\<lambda>b. rbind (buf_putbyte b SSH_MSG_SERVICE_ACCEPT) (\<lambda>b. buf_putstring b name len)) s"

definition recv_msg_service_request :: "crypto \<Rightarrow> env \<Rightarrow> 'a sshsession_scheme \<Rightarrow> 'a sshsession_scheme result" where
  "recv_msg_service_request cr env s =
     rbind (get_payload get_string s) (\<lambda>((name, len), s).
     rbind (is_method name len ''ssh-userauth'') (\<lambda>userauth.
     if userauth then send_msg_service_accept cr env name len s
     else
       rbind (is_method name len ''ssh-connection'') (\<lambda>connection.
       if connection
       then if \<not> s_authdone s then Inl (Exit ''Request for connection before auth'') else send_msg_service_accept cr env name len s
       else Inl (Exit ''Unrecognised SSH_MSG_SERVICE_REQUEST''))))"

subsection \<open>Sending and reading\<close>

lemma send_payload_only: "send_payload cr env k f s = Inr s' \<Longrightarrow> only_sent s s'"
  unfolding send_payload_def by (rule write_encrypt_only_sends)

lemma only_sent_auth:
  fixes s :: "'a authsession_scheme"
  assumes "only_sent s s'"
  shows "s_authstate s' = s_authstate s" "s_authdone s' = s_authdone s" "s_payload s' = s_payload s" "s_session_id s' = s_session_id s"
    "s_banner s' = s_banner s" "s_connect_time s' = s_connect_time s" "s_allowprivport s' = s_allowprivport s"
    "s_pipes_closed s' = s_pipes_closed s" "s_childpipe s' = s_childpipe s"
  by (subst assms[unfolded only_sent_def], simp)+

lemma get_payload_Inr:
  "get_payload f s = Inr (x, s1) \<longleftrightarrow> (\<exists>b b'. s_payload s = Some b \<and> f b = Inr (x, b') \<and> s1 = s\<lparr>s_payload := Some b'\<rparr>)"
  by (auto simp: get_payload_def result_simps)

lemma userauth_failure_result:
  fixes s :: "'a authsession_scheme"
  assumes "send_msg_userauth_failure cr env k partial incrfail s = Inr s'"
  shows "s_authdone s' = s_authdone s"
    and "s_authstate s' = (s_authstate s)\<lparr>as_failcount := as_failcount (s_authstate s) + (if incrfail then 1 else 0)\<rparr>"
    and "as_failcount (s_authstate s') < MAX_AUTH_TRIES"
proof -
  obtain f s1 where s1: "send_payload cr env k f s = Inr s1"
    "(let s = (if incrfail then set_auth (\<lambda>a. a\<lparr>as_failcount := as_failcount a + 1\<rparr>) s1 else s1)
     in if as_failcount (s_authstate s) \<ge> MAX_AUTH_TRIES then Inl (Exit ''Max auth tries reached'') else Inr s) = Inr s'"
    using assms unfolding send_msg_userauth_failure_def rbind_eq_Inr_iff by blast
  note k = only_sent_auth[OF send_payload_only[OF s1(1)]]
  show "s_authdone s' = s_authdone s" "as_failcount (s_authstate s') < MAX_AUTH_TRIES"
    "s_authstate s' = (s_authstate s)\<lparr>as_failcount := as_failcount (s_authstate s) + (if incrfail then 1 else 0)\<rparr>"
    using s1(2) k by (auto simp: Let_def set_auth_def not_le split: if_splits)
qed

lemma userauth_success_result:
  fixes s :: "'a authsession_scheme"
  assumes "send_msg_userauth_success cr env k s = Inr s'"
  shows "s_authdone s'" and "s_authstate s' = s_authstate s"
  using assms only_sent_auth[OF send_payload_only, of cr env k _ s]
  by (auto simp: send_msg_userauth_success_def result_simps)

text \<open>Reading moves the position of a buffer and changes nothing else.\<close>

definition same_buf :: "buffer \<Rightarrow> buffer \<Rightarrow> bool" where
  "same_buf b b' \<longleftrightarrow> buf_inv b' \<and> b_data b' = b_data b \<and> b_len b' = b_len b"

lemma same_buf_trans: "same_buf a b \<Longrightarrow> same_buf b c \<Longrightarrow> same_buf a c"
  by (simp add: same_buf_def)

lemma advance_same: "buf_inv b \<Longrightarrow> n \<le> length (unread b) \<Longrightarrow> same_buf b (advance b n)"
  by (simp add: same_buf_def advance_inv)

lemma getint_same: "buf_inv b \<Longrightarrow> buf_getint b = Inr (x, b') \<Longrightarrow> same_buf b b'"
  using buf_getint_result[of b x b'] advance_same[of b 4] by simp

lemma getstring_same: "buf_inv b \<Longrightarrow> buf_getstring b = Inr (x, n, b') \<Longrightarrow> same_buf b b'"
  using buf_getstring_result[of b x n b'] advance_same[of b "4 + unat n"] by simp

lemma getbool_same: "buf_inv b \<Longrightarrow> buf_getbool b = Inr (x, b') \<Longrightarrow> same_buf b b'"
  using buf_getbyte_result[of b] advance_same[of b 1] by (fastforce simp: buf_getbool_eq result_simps)

lemma incrpos_same: "buf_inv b \<Longrightarrow> buf_incrpos b n = Inr b' \<Longrightarrow> same_buf b b'"
  using buf_incrpos_inv[of b n b'] by (auto simp: same_buf_def buf_incrpos_def split: if_splits)

lemma getmpint_same:
  assumes "buf_inv b" and "buf_getmpint b = Inr (v, b')"
  shows "same_buf b b'"
proof -
  obtain n b1 where b1: "buf_getint b = Inr (n, b1)" using assms(2) by (auto simp: buf_getmpint_def result_simps)
  note s = getint_same[OF assms(1) b1]
  have "b' = b1 \<or> buf_incrpos b1 n = Inr b'"
    using assms(2) b1 by (auto simp: buf_getmpint_def result_simps split: if_splits)
  then show ?thesis using s incrpos_same[of b1 n b'] same_buf_trans[OF s] by (auto simp: same_buf_def)
qed

lemma with_mpint_same:
  assumes "buf_inv b" and "with_mpint k b = Inr (v, b')" and "\<And>m b1. same_buf b b1 \<Longrightarrow> k m b1 = Inr (v, b') \<Longrightarrow> same_buf b1 b'"
  shows "same_buf b b'"
proof -
  obtain m b1 where b1: "buf_getmpint b = Inr (m, b1)" "(case m of None \<Rightarrow> Inr (None, b1) | Some m \<Rightarrow> k m b1) = Inr (v, b')"
    using assms(2) by (auto simp: with_mpint_def result_simps)
  note s = getmpint_same[OF assms(1) b1(1)]
  show ?thesis
  proof (cases m)
    case None
    then show ?thesis using s b1(2) by simp
  next
    case (Some x)
    then show ?thesis using b1(2) assms(3)[OF s] same_buf_trans[OF s] by simp
  qed
qed

lemma same_buf_inv: "same_buf b b' \<Longrightarrow> buf_inv b'"
  by (simp add: same_buf_def)

lemma same_buf_refl: "buf_inv b \<Longrightarrow> same_buf b b"
  by (simp add: same_buf_def)

lemma get_rsa_same:
  assumes "buf_inv b" and "buf_get_rsa_pub_key b = Inr (v, b')"
  shows "same_buf b b'"
proof -
  obtain b1 where b1: "buf_incrpos b 11 = Inr b1" "with_mpint (\<lambda>e. with_mpint (\<lambda>n buf.
       if mp_count_bits n < MIN_RSA_KEYLEN then Inr (None, buf)
       else Inr (Some \<lparr>rsa_n = n, rsa_e = e, rsa_d = None, rsa_p = None, rsa_q = None\<rparr>, buf))) b1 = Inr (v, b')"
    using assms(2) by (auto simp: buf_get_rsa_pub_key_def result_simps)
  note s = incrpos_same[OF assms(1) b1(1)]
  have "same_buf b1 b'"
    by (rule with_mpint_same[OF same_buf_inv[OF s] b1(2)], rule with_mpint_same[OF same_buf_inv], assumption+)
      (auto split: if_splits intro: same_buf_refl same_buf_inv)
  then show ?thesis by (rule same_buf_trans[OF s])
qed

lemma get_dss_same:
  assumes "buf_inv b" and "buf_get_dss_pub_key b = Inr (v, b')"
  shows "same_buf b b'"
proof -
  obtain b1 where b1: "buf_incrpos b 11 = Inr b1"
    using assms(2) by (auto simp: buf_get_dss_pub_key_def result_simps)
  note s = incrpos_same[OF assms(1) b1]
  have "same_buf b1 b'" using assms(2) unfolding buf_get_dss_pub_key_def b1 rbind_simps
    by (elim with_mpint_same[OF same_buf_inv, rotated 1]) (auto split: if_splits intro: same_buf_refl same_buf_inv s)
  then show ?thesis by (rule same_buf_trans[OF s])
qed

lemma get_pub_key_same:
  assumes "buf_inv b" and "buf_get_pub_key b key t = Inr (ok, key', t', b')"
  shows "same_buf b b'"
proof -
  obtain ident n b1 where b1: "buf_getstring b = Inr (ident, n, b1)"
    using assms(2) by (auto simp: buf_get_pub_key_def get_key_with_def result_simps)
  note s = getstring_same[OF assms(1) b1]
  note i = same_buf_inv[OF s]
  consider "b' = b1" | b2 where "buf_incrpos b1 (- n - 4) = Inr b2" "b' = b2 \<or> (\<exists>k. buf_get_dss_pub_key b2 = Inr (k, b')) \<or> (\<exists>k. buf_get_rsa_pub_key b2 = Inr (k, b'))"
    using assms(2) b1 by (auto simp: buf_get_pub_key_def get_key_with_def result_simps split: if_splits)
  then have "same_buf b1 b'"
  proof cases
    case (2 b2)
    note t = incrpos_same[OF i 2(1)]
    show ?thesis using 2(2) get_dss_same[OF same_buf_inv[OF t]] get_rsa_same[OF same_buf_inv[OF t]] same_buf_trans[OF t] t by blast
  qed (simp add: same_buf_refl i)
  then show ?thesis by (rule same_buf_trans[OF s])
qed

text \<open>What is signed.\<close>

lemma signed_request_bytes:
  assumes "buf_inv b" and "20 \<le> length sid" and "signed_request sid b = Inr data"
  shows "data = store32h 20 @ take 20 sid @ take (unat (b_pos b)) (b_data b)"
proof -
  define bs where "bs = store32h 20 @ take 20 sid @ take (unat (b_pos b)) (b_data b)"
  let ?n = "unat (b_pos b)"
  note inv = buf_invD[OF assms(1)]
  have n: "unat (b_pos b + 4 + 20) = ?n + 24"
    using inv by (subst unat_add_no_overflow; simp)+
  obtain b0 where b0: "buf_new (b_pos b + 4 + 20) = Inr b0" using assms(3) by (auto simp: signed_request_def SHA1_HASH_SIZE_def result_simps)
  note i = buf_new_inv[OF b0]
  have len: "length bs = ?n + 24" using assms(2) inv by (simp add: bs_def)
  have room: "room b0 = ?n + 24" using i n by (simp add: room_def)
  have "puts (\<lambda>b1. rbind (buf_putstring b1 sid 20) (\<lambda>b1. buf_putbytes b1 (b_data b) (b_pos b))) bs"
    using puts_seq[OF puts_string[of 20 sid] puts_bytes[of "b_pos b" "b_data b"]] assms(2) inv by (simp add: bs_def)
  from puts_ok[OF this i(1)] have w: "rbind (buf_putstring b0 sid 20) (\<lambda>b1. buf_putbytes b1 (b_data b) (b_pos b)) = Inr (overwrite b0 bs)"
    using len room by simp
  have r: "length bs \<le> room b0" using len room by simp
  note o = overwrite_fresh[OF i(1,3,2) r] overwrite_inv[OF i(1) r]
  let ?b1 = "overwrite b0 bs"
  have z: "buf_setpos ?b1 0 = Inr (?b1\<lparr>b_pos := 0\<rparr>)" by (simp add: buf_setpos_def)
  have j: "buf_inv (?b1\<lparr>b_pos := 0\<rparr>)" by (rule buf_setpos_inv[OF o(5) z])
  have u: "unread (?b1\<lparr>b_pos := 0\<rparr>) = bs" using o(1) by (simp add: unread_def contents_def)
  have l: "unat (b_len ?b1) = length bs" using o(1) length_contents[OF o(5)] by simp
  have "buf_getptr (?b1\<lparr>b_pos := 0\<rparr>) (b_len ?b1) = Inr 0" using buf_getptr_ok[OF j, of "b_len ?b1"] u l by simp
  moreover have "mem_read (b_data ?b1) 0 (unat (b_len ?b1)) = Inr bs" using take_unread[OF j, of "unat (b_len ?b1)"] u l by (simp del: mem_read_ok)
  moreover have "signed_request sid b = rbind (rbind (buf_putstring b0 sid 20) (\<lambda>b1. buf_putbytes b1 (b_data b) (b_pos b))) (\<lambda>signbuf.
     rbind (buf_setpos signbuf 0) (\<lambda>signbuf.
     rbind (buf_getptr signbuf (b_len signbuf)) (\<lambda>p.
     mem_read (b_data signbuf) p (unat (b_len signbuf)))))"
    using b0 by (simp add: signed_request_def SHA1_HASH_SIZE_def rbind_assoc)
  ultimately show ?thesis using assms(3) w z by (simp add: bs_def)
qed

subsection \<open>Who may log in\<close>

text \<open>
  What the server promises, without its state: a user of the password file who may log in, and one of three proofs of
  identity. \<open>user_hash\<close> is the password as it is stored, with the shadow file first.
\<close>

definition user_hash :: "auth_world \<Rightarrow> passwd \<Rightarrow> bytes" where
  "user_hash w pw = (case w_getspnam w (pwd_name pw) of Some x \<Rightarrow> x | None \<Rightarrow> (case pwd_passwd pw of Some x \<Rightarrow> x | None \<Rightarrow> ascii ''!!''))"

definition login_allowed :: "auth_world \<Rightarrow> svr_runopts \<Rightarrow> passwd \<Rightarrow> bool" where
  "login_allowed w opts pw \<longleftrightarrow> (w_geteuid w = 0 \<or> w_geteuid w = pwd_uid pw) \<and> \<not> (o_norootlogin opts \<and> pwd_uid pw = 0) \<and>
     (if pwd_shell pw = [] then ascii ''/bin/sh'' else pwd_shell pw) \<in> set (w_shells w)"

definition password_allowed :: "svr_runopts \<Rightarrow> passwd \<Rightarrow> bool" where
  "password_allowed opts pw \<longleftrightarrow> \<not> o_noauthpass opts \<and> \<not> (o_norootpass opts \<and> pwd_uid pw = 0)"

text \<open>The right password follows in the request \<open>b\<close>.\<close>

definition password_proof :: "auth_world \<Rightarrow> passwd \<Rightarrow> buffer \<Rightarrow> bool" where
  "password_proof w pw b \<longleftrightarrow> user_hash w pw \<noteq> [] \<and> (\<exists>b1 password n b2. buf_getbool b = Inr (0, b1) \<and>
     buf_getstring b1 = Inr (password, n, b2) \<and> w_crypt w (cstr password) (user_hash w pw) = Some (user_hash w pw))"

text \<open>
  A key that the user has authorised follows in the request, and a signature that it verifies, of the session identifier and the
  request up to the signature.
\<close>

definition pubkey_proof :: "crypto \<Rightarrow> auth_world \<Rightarrow> bytes \<Rightarrow> passwd \<Rightarrow> buffer \<Rightarrow> bool" where
  "pubkey_proof cr w sid pw b \<longleftrightarrow>
     (\<exists>real b1 name n b2 len b3 key t b4 b5. buf_getbool b = Inr (real, b1) \<and> buf_getstring b1 = Inr (name @ [0], n, b2) \<and>
        buf_getint b2 = Inr (len, b3) \<and> real \<noteq> 0 \<and> unat len \<le> length (unread b3) \<and>
        user_key w (pwd_uid pw) (pwd_dir pw) name (take (unat len) (unread b3)) \<and>
        buf_get_pub_key b3 new_sign_key DROPBEAR_SIGNKEY_ANY = Inr (True, key, t, b4) \<and>
        buf_verify cr b4 key (store32h 20 @ take 20 sid @ take (unat (b_pos b4)) (b_data b)) = Inr (True, b5))"

definition proves_identity :: "crypto \<Rightarrow> auth_world \<Rightarrow> svr_runopts \<Rightarrow> bytes \<Rightarrow> passwd \<Rightarrow> bytes \<Rightarrow> buffer \<Rightarrow> bool" where
  "proves_identity cr w opts sid pw method b \<longleftrightarrow>
     method = ascii ''none'' \<and> o_allowblankpass opts \<and> password_allowed opts pw \<and> user_hash w pw = [] \<or>
     method = ascii ''password'' \<and> password_allowed opts pw \<and> password_proof w pw b \<or>
     method = ascii ''publickey'' \<and> pubkey_proof cr w sid pw b"

text \<open>A request \<open>b\<close> that deserves to be granted: the user's name, the service, the method and what the method asks for.\<close>

definition login_request :: "crypto \<Rightarrow> auth_world \<Rightarrow> svr_runopts \<Rightarrow> bytes \<Rightarrow> buffer \<Rightarrow> bytes \<Rightarrow> bool" where
  "login_request cr w opts sid b user \<longleftrightarrow>
     (\<exists>name n1 b1 service n2 b2 method n3 b3 pw. buf_getstring b = Inr (name @ [0], n1, b1) \<and> buf_getstring b1 = Inr (service, n2, b2) \<and>
        buf_getstring b2 = Inr (method @ [0], n3, b3) \<and> user = cstr name \<and> unat n1 \<le> 25 \<and>
        w_getpwnam w user = Some pw \<and> login_allowed w opts pw \<and> proves_identity cr w opts sid pw method b3)"

text \<open>The state that is kept between requests agrees with the password file, and is all there or not at all.\<close>

definition user_entry :: "auth_world \<Rightarrow> bytes \<Rightarrow> AuthState \<Rightarrow> bool" where
  "user_entry w user a \<longleftrightarrow> (case w_getpwnam w user of
     None \<Rightarrow> as_pw_name a = None \<and> as_pw_dir a = None \<and> as_pw_shell a = None \<and> as_pw_passwd a = None \<and> as_pw_uid a = 0 \<and> as_pw_gid a = 0
   | Some pw \<Rightarrow> as_pw_name a = Some (pwd_name pw) \<and> as_pw_dir a = Some (pwd_dir pw) \<and> as_pw_shell a = Some (pwd_shell pw) \<and>
       as_pw_passwd a = Some (user_hash w pw) \<and> as_pw_uid a = pwd_uid pw \<and> as_pw_gid a = pwd_gid pw)"

definition auth_wf :: "auth_world \<Rightarrow> svr_runopts \<Rightarrow> AuthState \<Rightarrow> bool" where
  "auth_wf w opts a \<longleftrightarrow> as_failcount a < MAX_AUTH_TRIES \<and>
     as_authtypes a = AUTH_TYPE_PUBKEY OR (if o_noauthpass opts then 0 else AUTH_TYPE_PASSWORD) \<and>
     (case as_username a of
        None \<Rightarrow> as_pw_name a = None \<and> as_pw_dir a = None \<and> as_pw_shell a = None \<and> as_pw_passwd a = None \<and> as_pw_uid a = 0 \<and> as_pw_gid a = 0
      | Some user \<Rightarrow> length user \<le> 25 \<and> 0 \<notin> set user \<and> user_entry w user a)"

lemma fill_passwd_entry: "user_entry w user ((fill_passwd w user (authclear opts))\<lparr>as_username := u\<rparr>)"
  by (auto simp: user_entry_def fill_passwd_def authclear_def zero_AuthState_def user_hash_def Let_def split: option.split)

lemma authclear_wf: "auth_wf w opts (authclear opts)"
  by (auto simp: auth_wf_def authclear_def zero_AuthState_def MAX_AUTH_TRIES_def)

lemma cstr_NUL: "cstr (xs @ [0]) = cstr xs" "length (cstr xs) \<le> length xs" "0 \<notin> set (cstr xs)"
  unfolding cstr_def by (induction xs) auto

lemma checkusername_result:
  assumes "checkusername w opts (name @ [0]) n a = Inr (valid, a')" and "auth_wf w opts a" and "unat n = length name"
  shows "auth_wf w opts a'"
    and "valid \<Longrightarrow> unat n \<le> 25 \<and> as_username a' = Some (cstr name) \<and> (\<exists>pw. w_getpwnam w (cstr name) = Some pw \<and> login_allowed w opts pw)"
proof -
  let ?a = "if as_username a = Some (cstr (name @ [0])) then a
    else (fill_passwd w (cstr (name @ [0])) (authclear opts))\<lparr>as_username := Some (cstr (name @ [0]))\<rparr>"
  have a': "a' = (if n > MAX_USERNAME_LEN then a else ?a)"
    using assms(1) by (auto simp: checkusername_def Let_def result_simps split: if_splits)
  have wf: "auth_wf w opts ?a" "as_username ?a = Some (cstr name)" if "unat n \<le> 25"
  proof -
    have c: "length (cstr (name @ [0])) \<le> 25" using cstr_NUL(1,2)[of name] assms(3) that by simp
    have f: "as_failcount (fill_passwd w u (authclear opts)) = 0" "as_authtypes (fill_passwd w u (authclear opts)) = as_authtypes (authclear opts)" for u
      by (auto simp: fill_passwd_def Let_def authclear_def zero_AuthState_def split: option.split)
    show "auth_wf w opts ?a" using assms(2) c f cstr_NUL(3)[of "name @ [0]"] fill_passwd_entry authclear_wf[of w opts]
      by (auto simp: auth_wf_def MAX_AUTH_TRIES_def)
    show "as_username ?a = Some (cstr name)" using cstr_NUL(1)[of name] by simp
  qed
  show "auth_wf w opts a'" using a' wf(1) assms(2) by (auto simp: MAX_USERNAME_LEN_def word_nat split: if_splits)
  assume v: "valid"
  have n: "unat n \<le> 25" using assms(1) v by (auto simp: checkusername_def MAX_USERNAME_LEN_def word_nat split: if_splits)
  have e: "user_entry w (cstr name) ?a" using wf[OF n] by (auto simp: auth_wf_def)
  have "as_pw_name ?a \<noteq> None" using assms(1) v n by (auto simp: checkusername_def MAX_USERNAME_LEN_def word_nat Let_def split: if_splits)
  then obtain pw where pw: "w_getpwnam w (cstr name) = Some pw" using e by (auto simp: user_entry_def split: option.splits)
  have "login_allowed w opts pw" using assms(1) v n e pw
    by (auto simp: checkusername_def MAX_USERNAME_LEN_def word_nat Let_def result_simps login_allowed_def user_entry_def split: if_splits)
  then show "unat n \<le> 25 \<and> as_username a' = Some (cstr name) \<and> (\<exists>pw. w_getpwnam w (cstr name) = Some pw \<and> login_allowed w opts pw)"
    using n wf(2)[OF n] a' pw by (simp add: MAX_USERNAME_LEN_def word_nat)
qed

subsection \<open>The methods\<close>

text \<open>What a request leaves: a state that is well-formed, for the same user, and authenticated only if \<open>P\<close>.\<close>

definition outcome ::
  "auth_world \<Rightarrow> svr_runopts \<Rightarrow> bool \<Rightarrow> 'a authsession_scheme \<Rightarrow> 'b authsession_scheme \<Rightarrow> bool" where
  "outcome w opts P s s' \<longleftrightarrow> auth_wf w opts (s_authstate s') \<and> as_username (s_authstate s') = as_username (s_authstate s) \<and>
     (s_authdone s' \<longrightarrow> s_authdone s \<or> P)"

lemma auth_wf_failcount: "auth_wf w opts a \<Longrightarrow> n < MAX_AUTH_TRIES \<Longrightarrow> auth_wf w opts (a\<lparr>as_failcount := n\<rparr>)"
  by (auto simp: auth_wf_def user_entry_def split: option.splits)

lemma auth_wf_keeps: "auth_wf w opts a \<Longrightarrow> keeps_user a a' \<Longrightarrow> auth_wf w opts a' \<and> as_username a' = as_username a"
  by (auto simp: auth_wf_def user_entry_def keeps_user_def split: option.splits)

lemma failure_outcome:
  fixes s :: "'a authsession_scheme"
  assumes "send_msg_userauth_failure cr env k partial incrfail s = Inr s'" and "auth_wf w opts (s_authstate s)"
  shows "outcome w opts P s s'"
proof -
  note r = userauth_failure_result[OF assms(1)]
  have "auth_wf w opts (s_authstate s')"
    using auth_wf_failcount[OF assms(2), of "as_failcount (s_authstate s')"] r(2,3) by simp
  then show ?thesis using r(1,2) by (simp add: outcome_def)
qed

lemma success_outcome:
  fixes s :: "'a authsession_scheme"
  assumes "send_msg_userauth_success cr env k s = Inr s'" and "auth_wf w opts (s_authstate s)" and "P"
  shows "outcome w opts P s s'"
  using userauth_success_result[OF assms(1)] assms(2,3) by (simp add: outcome_def)

lemma outcome_payload: "outcome w opts P (s\<lparr>s_payload := p\<rparr>) s' = outcome w opts P s s'"
  by (simp add: outcome_def)

lemma known_user:
  assumes "auth_wf w opts a" and "as_username a = Some user" and "w_getpwnam w user = Some pw"
  shows "as_pw_passwd a = Some (user_hash w pw)" "as_pw_uid a = pwd_uid pw" "as_pw_dir a = Some (pwd_dir pw)"
  using assms by (auto simp: auth_wf_def user_entry_def)

lemma constant_time_strcmp_zero: "constant_time_strcmp a b = Inr 0 \<longleftrightarrow> a = b"
  using constant_time_memcmp_eq[of "length a" a b] by (auto simp: constant_time_strcmp_def)

lemma none_outcome:
  fixes s :: "'a authsession_scheme"
  assumes "userauth_none cr env opts valid s = Inr s'" and "auth_wf w opts (s_authstate s)"
    and "valid \<Longrightarrow> as_username (s_authstate s) = Some user \<and> w_getpwnam w user = Some pw"
  shows "outcome w opts (valid \<and> o_allowblankpass opts \<and> password_allowed opts pw \<and> user_hash w pw = []) s s'"
  using assms(1) known_user[OF assms(2), of user pw] assms(3) failure_outcome[OF _ assms(2)] success_outcome[OF _ assms(2)]
  by (auto simp: userauth_none_def Let_def result_simps password_allowed_def split: if_splits)

lemma password_outcome:
  fixes s :: "'a authsession_scheme"
  assumes "svr_auth_password cr env w s = Inr s'" and "auth_wf w opts (s_authstate s)"
    and "as_username (s_authstate s) = Some user" and "w_getpwnam w user = Some pw" and "s_payload s = Some b"
  shows "outcome w opts (password_proof w pw b) s s'"
proof -
  let ?h = "user_hash w pw"
  note h = known_user[OF assms(2-4)]
  obtain c b1 where b1: "buf_getbool b = Inr (c, b1)"
    using assms(1,5) by (auto simp: svr_auth_password_def result_simps get_payload_def)
  show ?thesis
  proof (cases "c = 0")
    case False
    then have "send_msg_userauth_failure cr env 1 False True (s\<lparr>s_payload := Some b1\<rparr>) = Inr s'"
      using assms(1,5) b1 by (simp add: svr_auth_password_def get_payload_def)
    then have "outcome w opts (password_proof w pw b) (s\<lparr>s_payload := Some b1\<rparr>) s'" by (rule failure_outcome) (use assms(2) in simp)
    then show ?thesis by (simp add: outcome_payload)
  next
    case True
    obtain password n b2 where b2: "buf_getstring b1 = Inr (password, n, b2)"
      using assms(1,5) b1 True by (auto simp: svr_auth_password_def result_simps get_payload_def get_string_def)
    let ?s = "s\<lparr>s_payload := Some b2\<rparr>"
    have r: "(case w_crypt w (cstr password) ?h of
         None \<Rightarrow> send_msg_userauth_failure cr env 1 False True ?s
       | Some testcrypt \<Rightarrow>
           if ?h = [] then send_msg_userauth_failure cr env 1 False True ?s
           else
             rbind (constant_time_strcmp testcrypt ?h) (\<lambda>d.
             if d = 0 then send_msg_userauth_success cr env 1 ?s
             else send_msg_userauth_failure cr env 1 False True ?s)) = Inr s'"
      using assms(1,5) b1 b2 True h(1) by (simp add: svr_auth_password_def get_payload_def get_string_def)
    have wf: "auth_wf w opts (s_authstate ?s)" using assms(2) by simp
    have "password_proof w pw b" if "w_crypt w (cstr password) ?h = Some t" "?h \<noteq> []" "constant_time_strcmp t ?h = Inr 0" for t
      using that b1 b2 True by (auto simp: password_proof_def constant_time_strcmp_zero)
    then have "outcome w opts (password_proof w pw b) ?s s'"
      using r by (auto simp: result_simps split: option.splits if_splits intro: failure_outcome[OF _ wf] success_outcome[OF _ wf])
    then show ?thesis by (simp add: outcome_payload)
  qed
qed

text \<open>A string read from a buffer.\<close>

lemma getstring_text:
  assumes "buf_inv b" and "buf_getstring b = Inr (str, n, b')"
  obtains name where "str = name @ [0]" "length name = unat n"
  using buf_getstring_result[OF assms] by auto

lemma attempt_outcome:
  fixes s :: "'a authsession_scheme"
  assumes "pubkey_attempt cr env s = Inr s'" and "auth_wf w opts (s_authstate s)" and "s_payload s = Some b" and "buf_inv b"
    and "\<And>sid. s_session_id s = Some sid \<Longrightarrow> 20 \<le> length sid"
  shows "outcome w opts (\<exists>sid key t b4 b5. s_session_id s = Some sid \<and> buf_get_pub_key b new_sign_key DROPBEAR_SIGNKEY_ANY = Inr (True, key, t, b4) \<and>
    buf_verify cr b4 key (store32h 20 @ take 20 sid @ take (unat (b_pos b4)) (b_data b)) = Inr (True, b5)) s s'" (is "outcome w opts ?P s s'")
proof -
  have out: "outcome w opts ?P (s\<lparr>s_payload := x\<rparr>) s' \<Longrightarrow> outcome w opts ?P s s'" for x by (simp add: outcome_def)
  have wf: "auth_wf w opts (s_authstate (s\<lparr>s_payload := x\<rparr>))" for x using assms(2) by simp
  consider (fail) i x where "send_msg_userauth_failure cr env 1 False i (s\<lparr>s_payload := x\<rparr>) = Inr s'"
    | (good) key t b4 sid data b5 where "buf_get_pub_key b new_sign_key DROPBEAR_SIGNKEY_ANY = Inr (True, key, t, b4)"
        "s_session_id s = Some sid" "signed_request sid b4 = Inr data" "buf_verify cr b4 key data = Inr (True, b5)"
        "send_msg_userauth_success cr env 1 (s\<lparr>s_payload := Some b5\<rparr>) = Inr s'"
    using assms(1,3) by (auto simp: pubkey_attempt_def result_simps Let_def split: if_splits)
  then show ?thesis
  proof cases
    case fail
    then show ?thesis by (rule out[OF failure_outcome[OF _ wf]])
  next
    case (good key t b4 sid data b5)
    note b4 = get_pub_key_same[OF assms(4) good(1)]
    have "data = store32h 20 @ take 20 sid @ take (unat (b_pos b4)) (b_data b)"
      using signed_request_bytes[OF same_buf_inv[OF b4] assms(5)[OF good(2)] good(3)] b4 by (simp add: same_buf_def)
    then have ?P using good by blast
    then show ?thesis by (rule out[OF success_outcome[OF good(5) wf]])
  qed
qed

text \<open>The pointer to the key: \<open>pos + len\<close> wraps for the largest lengths only.\<close>

lemma getptr_blob:
  assumes "buf_inv b" and "buf_getptr b n = Inr p"
  shows "p = unat (b_pos b)" and "unat n \<le> length (unread b) \<or> 1000000000 < unat n"
proof -
  show "p = unat (b_pos b)" using assms(2) by (simp add: buf_getptr_def split: if_splits)
  show "unat n \<le> length (unread b) \<or> 1000000000 < unat n"
  proof (rule ccontr)
    assume "\<not> ?thesis"
    then have "buf_getptr b n = Inl (Exit ''Bad buf_getptr'')" by (intro buf_getptr_fail[OF assms(1)]) simp_all
    then show False using assms(2) by simp
  qed
qed

lemma pubkey_outcome:
  fixes s :: "'a authsession_scheme"
  assumes "svr_auth_pubkey cr env w s = Inr s'" and "auth_wf w opts (s_authstate s)"
    and "as_username (s_authstate s) = Some user" and "w_getpwnam w user = Some pw" and "s_payload s = Some b" and "buf_inv b"
    and "\<And>sid. s_session_id s = Some sid \<Longrightarrow> 20 \<le> length sid"
  shows "outcome w opts (\<exists>sid. s_session_id s = Some sid \<and> pubkey_proof cr w sid pw b) s s'" (is "outcome w opts ?P s s'")
proof -
  note h = known_user[OF assms(2-4)]
  obtain real b1 algo n b2 len b3 where g: "buf_getbool b = Inr (real, b1)" "buf_getstring b1 = Inr (algo, n, b2)" "buf_getint b2 = Inr (len, b3)"
    using assms(1,5) by (auto simp: svr_auth_pubkey_def result_simps get_payload_def get_string_def)
  have sb: "same_buf b b1" by (rule getbool_same[OF assms(6) g(1)])
  then have sb: "same_buf b b1" "same_buf b b2" "same_buf b b3"
    using getstring_same[OF same_buf_inv g(2)] getint_same[OF same_buf_inv g(3)] same_buf_trans by blast+
  note i3 = same_buf_inv[OF sb(3)]
  obtain name where name: "algo = name @ [0]" "length name = unat n" using getstring_text[OF same_buf_inv[OF sb(1)] g(2)] .
  let ?blob = "drop (unat (b_pos b3)) (b_data b3)"
  obtain p ok a where r: "buf_getptr b3 len = Inr p" "checkpubkey w algo n (drop p (b_data b3)) len (s_authstate s) = Inr (ok, a)"
    using assms(1,5) g by (auto simp: svr_auth_pubkey_def result_simps get_payload_def get_string_def Let_def)
  note p = getptr_blob[OF i3 r(1)]
  let ?s = "s\<lparr>s_payload := Some b3, s_authstate := a\<rparr>"
  have "length (unread b3) \<le> length ?blob" using length_unread[OF i3] buf_invD[OF i3] by simp
  then have q: "unat len \<le> length ?blob \<or> 1000000000 < unat len" using p(2) by linarith
  have k: "keeps_user (s_authstate s) a"
    "ok \<Longrightarrow> unat len \<le> length (unread b3) \<and> user_key w (pwd_uid pw) (pwd_dir pw) name (take (unat len) (unread b3))"
    using satD[OF checkpubkey_sat[OF _ q] r(2)[unfolded p(1)]] h name p(2) unread_data[OF i3, of "unat len"] by auto
  note wf = auth_wf_keeps[OF assms(2) k(1)]
  have wf1: "auth_wf w opts (s_authstate ?s)" using wf by simp
  have step: "(if \<not> ok then send_msg_userauth_failure cr env 1 False False ?s
        else if real = 0 then send_msg_userauth_pk_ok cr env 1 algo n (drop p (b_data b3)) len ?s
        else pubkey_attempt cr env ?s) = Inr s'"
    using assms(1,5) g r by (simp add: svr_auth_pubkey_def get_payload_def get_string_def Let_def)
  have "outcome w opts ?P ?s s'"
  proof (cases "ok \<and> real \<noteq> 0")
    case True
    have "outcome w opts (\<exists>sid key t b4 b5. s_session_id ?s = Some sid \<and> buf_get_pub_key b3 new_sign_key DROPBEAR_SIGNKEY_ANY = Inr (True, key, t, b4) \<and>
      buf_verify cr b4 key (store32h 20 @ take 20 sid @ take (unat (b_pos b4)) (b_data b3)) = Inr (True, b5)) ?s s'"
      by (rule attempt_outcome) (use step True wf1 i3 assms(7) in simp_all)
    moreover have "b_data b3 = b_data b" using sb(3) by (simp add: same_buf_def)
    ultimately show ?thesis using True k(2) g name unfolding outcome_def pubkey_proof_def by auto
  next
    case False
    then consider "send_msg_userauth_failure cr env 1 False False ?s = Inr s'"
      | "send_msg_userauth_pk_ok cr env 1 algo n (drop p (b_data b3)) len ?s = Inr s'" using step by (auto split: if_splits)
    then show ?thesis
    proof cases
      case 2
      note o = only_sent_auth[OF send_payload_only[OF 2[unfolded send_msg_userauth_pk_ok_def]]]
      show ?thesis using o(1,2) wf by (simp add: outcome_def)
    qed (rule failure_outcome[OF _ wf1])
  qed
  then show ?thesis using wf by (simp add: outcome_def)
qed

lemma is_method_eq:
  assumes "length name = unat n" and "0 \<notin> set (ascii method)"
  shows "is_method (name @ [0]) n method = Inr (name = ascii method)"
proof (cases "unat n = length method")
  case True
  then have "strn_eq id (length method) (name @ [0]) (ascii method) = Inr (take (length method) (name @ [0]) = take (length method) (ascii method))"
    using assms by (intro strn_eq_id) (auto simp: ascii_def dest: in_set_takeD)
  then show ?thesis using True assms(1) by (simp add: is_method_def ascii_def)
next
  case False
  then show ?thesis using assms(1) by (auto simp: is_method_def ascii_def)
qed

lemma method_outcome:
  fixes s :: "'a authsession_scheme"
  assumes "userauth_method cr env w opts valid (method @ [0]) n s = Inr s'" and "auth_wf w opts (s_authstate s)" and "length method = unat n"
    and "valid \<Longrightarrow> as_username (s_authstate s) = Some user \<and> w_getpwnam w user = Some pw" and "s_payload s = Some b" and "buf_inv b"
    and "\<And>sid. s_session_id s = Some sid \<Longrightarrow> 20 \<le> length sid"
  shows "outcome w opts (valid \<and> (\<exists>sid. (method = ascii ''publickey'' \<longrightarrow> s_session_id s = Some sid) \<and> proves_identity cr w opts sid pw method b)) s s'"
    (is "outcome w opts ?P s s'")
proof -
  have m: "is_method (method @ [0]) n ''none'' = Inr (method = ascii ''none'')"
    "is_method (method @ [0]) n ''password'' = Inr (method = ascii ''password'')"
    "is_method (method @ [0]) n ''publickey'' = Inr (method = ascii ''publickey'')"
    by (rule is_method_eq[OF assms(3)], simp add: ascii_def)+
  have ne: "ascii ''none'' \<noteq> ascii ''publickey''" "ascii ''password'' \<noteq> ascii ''publickey''" by (simp_all add: ascii_def)
  have mono: "outcome w opts Q s s' \<Longrightarrow> (Q \<Longrightarrow> ?P) \<Longrightarrow> outcome w opts ?P s s'" for Q by (auto simp: outcome_def)
  consider (none) "method = ascii ''none''" "userauth_none cr env opts valid s = Inr s'"
    | (password) "method = ascii ''password''" "valid" "\<not> o_noauthpass opts" "\<not> (o_norootpass opts \<and> as_pw_uid (s_authstate s) = 0)"
        "svr_auth_password cr env w s = Inr s'"
    | (pubkey) "method = ascii ''publickey''" "valid" "svr_auth_pubkey cr env w s = Inr s'"
    | (fail) i where "send_msg_userauth_failure cr env 1 False i s = Inr s'"
    using assms(1) m by (auto simp: userauth_method_def result_simps split: if_splits)
  then show ?thesis
  proof cases
    case none
    show ?thesis by (rule mono[OF none_outcome[OF none(2) assms(2,4)]]) (use none(1) ne in \<open>auto simp: proves_identity_def\<close>)
  next
    case password
    note u = assms(4)[OF password(2)]
    show ?thesis
      by (rule mono[OF password_outcome[OF password(5) assms(2) u[THEN conjunct1] u[THEN conjunct2] assms(5)]])
        (use password known_user[OF assms(2), of user pw] u ne in \<open>auto simp: proves_identity_def password_allowed_def\<close>)
  next
    case pubkey
    note u = assms(4)[OF pubkey(2)]
    show ?thesis
      by (rule mono[OF pubkey_outcome[OF pubkey(3) assms(2) u[THEN conjunct1] u[THEN conjunct2] assms(5-7)]])
        (use pubkey in \<open>auto simp: proves_identity_def\<close>)
  next
    case fail
    then show ?thesis by (rule failure_outcome[OF _ assms(2)])
  qed
qed

subsection \<open>The request\<close>

text \<open>A session between two requests.\<close>

definition request_ready :: "'a authsession_scheme \<Rightarrow> bool" where
  "request_ready s \<longleftrightarrow> (\<exists>b. s_payload s = Some b \<and> buf_inv b) \<and> (\<exists>sid. s_session_id s = Some sid \<and> 20 \<le> length sid)"

lemma banner_keeps:
  fixes s :: "'a authsession_scheme"
  assumes "send_banner cr env s = Inr s1"
  shows "s_authstate s1 = s_authstate s" "s_authdone s1 = s_authdone s" "s_payload s1 = s_payload s" "s_session_id s1 = s_session_id s"
  using assms only_sent_auth[OF send_payload_only, of cr env 0 _ s]
  by (auto simp: send_banner_def send_msg_userauth_banner_def result_simps split: option.splits)

lemma request_outcome:
  fixes s :: "'a authsession_scheme"
  assumes "recv_msg_userauth_request cr env w opts s = Inr s'" and "auth_wf w opts (s_authstate s)" and "\<not> s_authdone s"
    and "s_payload s = Some b" and "buf_inv b" and "s_session_id s = Some sid" and "20 \<le> length sid"
  shows "auth_wf w opts (s_authstate s')"
    and "s_authdone s' \<Longrightarrow> \<exists>user. as_username (s_authstate s') = Some user \<and> login_request cr w opts sid b user"
proof -
  obtain s1 where s1: "send_banner cr env s = Inr s1" using assms(1,3) by (auto simp: recv_msg_userauth_request_def result_simps)
  note k = banner_keeps[OF s1]
  obtain nm n1 b1 sv n2 b2 mt n3 b3 valid a where g: "buf_getstring b = Inr (nm, n1, b1)" "buf_getstring b1 = Inr (sv, n2, b2)"
    "buf_getstring b2 = Inr (mt, n3, b3)" "checkusername w opts nm n1 (s_authstate s) = Inr (valid, a)"
    "userauth_method cr env w opts valid mt n3 (s1\<lparr>s_payload := Some b3, s_authstate := a\<rparr>) = Inr s'"
    using assms(1,3,4) s1 k by (auto simp: recv_msg_userauth_request_def result_simps get_payload_def get_string_def split: if_splits)
  have sb: "same_buf b b1" by (rule getstring_same[OF assms(5) g(1)])
  then have sb: "buf_inv b1" "buf_inv b2" "buf_inv b3"
    using getstring_same[OF same_buf_inv g(2)] getstring_same[OF same_buf_inv g(3)] same_buf_inv by blast+
  obtain name where name: "nm = name @ [0]" "length name = unat n1" using getstring_text[OF assms(5) g(1)] .
  obtain meth where meth: "mt = meth @ [0]" "length meth = unat n3" using getstring_text[OF sb(2) g(3)] .
  let ?s = "s1\<lparr>s_payload := Some b3, s_authstate := a\<rparr>"
  note u = checkusername_result[OF g(4)[unfolded name(1)] assms(2) name(2)[symmetric]]
  define pw where "pw = the (w_getpwnam w (cstr name))"
  have v: "valid \<Longrightarrow> as_username (s_authstate ?s) = Some (cstr name) \<and> w_getpwnam w (cstr name) = Some pw" using u(2) by (auto simp: pw_def)
  have out: "outcome w opts (valid \<and> (\<exists>sid. (meth = ascii ''publickey'' \<longrightarrow> s_session_id ?s = Some sid) \<and> proves_identity cr w opts sid pw meth b3)) ?s s'"
    by (rule method_outcome[OF g(5)[unfolded meth(1)] _ meth(2) v]) (use u(1) k assms(6,7) sb(3) in auto)
  then show "auth_wf w opts (s_authstate s')" by (simp add: outcome_def)
  assume d: "s_authdone s'"
  then obtain sid' where p: "valid" "meth = ascii ''publickey'' \<longrightarrow> s_session_id ?s = Some sid'" "proves_identity cr w opts sid' pw meth b3"
    using out k(2) assms(3) by (auto simp: outcome_def)
  then have "proves_identity cr w opts sid pw meth b3" using k(4) assms(6) by (auto simp: proves_identity_def)
  moreover have "login_allowed w opts pw" "unat n1 \<le> 25" using u(2)[OF p(1)] v[OF p(1)] by auto
  ultimately have "login_request cr w opts sid b (cstr name)" unfolding login_request_def using g(1-3) name(1) meth(1) v[OF p(1)] by blast
  then show "\<exists>user. as_username (s_authstate s') = Some user \<and> login_request cr w opts sid b user"
    using out v[OF p(1)] by (auto simp: outcome_def)
qed

text \<open>
  The states a server passes through: from \<open>svr_authinitialise\<close> on, requests, and whatever else the server does in between,
  which leaves \<open>authdone\<close> and \<open>authstate\<close> alone.
\<close>

inductive auth_run :: "crypto \<Rightarrow> auth_world \<Rightarrow> svr_runopts \<Rightarrow> 'a authsession_scheme \<Rightarrow> bool" for cr w opts where
  auth_start: "auth_run cr w opts (svr_authinitialise opts s)"
| auth_other: "auth_run cr w opts s \<Longrightarrow> s_authstate s' = s_authstate s \<Longrightarrow> s_authdone s' = s_authdone s \<Longrightarrow> auth_run cr w opts s'"
| auth_request: "auth_run cr w opts s \<Longrightarrow> request_ready s \<Longrightarrow> recv_msg_userauth_request cr env w opts s = Inr s' \<Longrightarrow> auth_run cr w opts s'"

lemma done_ignored: "s_authdone s \<Longrightarrow> recv_msg_userauth_request cr env w opts s = Inr s' \<Longrightarrow> s' = s"
  by (simp add: recv_msg_userauth_request_def)

lemma auth_run_wf: "auth_run cr w opts s \<Longrightarrow> auth_wf w opts (s_authstate s)"
proof (induction rule: auth_run.induct)
  case (auth_request s env s')
  then show ?case using request_outcome(1)[of cr env w opts s s'] done_ignored[of s cr env w opts s']
    by (cases "s_authdone s") (auto simp: request_ready_def)
qed (simp_all add: svr_authinitialise_def authclear_wf)

lemma auth_run_granted:
  fixes s :: "'a authsession_scheme"
  assumes "auth_run cr w opts s" and "s_authdone s"
  shows "\<exists>(s0 :: 'a authsession_scheme) b sid user. auth_run cr w opts s0 \<and> s_payload s0 = Some b \<and> s_session_id s0 = Some sid \<and>
    as_username (s_authstate s) = Some user \<and> login_request cr w opts sid b user"
  using assms
proof (induction rule: auth_run.induct)
  case (auth_request s env s')
  show ?case
  proof (cases "s_authdone s")
    case True
    then show ?thesis using auth_request.IH done_ignored[OF True auth_request.hyps(3)] by simp
  next
    case False
    obtain b sid where r: "s_payload s = Some b" "buf_inv b" "s_session_id s = Some sid" "20 \<le> length sid"
      using auth_request.hyps(2) by (auto simp: request_ready_def)
    show ?thesis
      using request_outcome(2)[OF auth_request.hyps(3) auth_run_wf[OF auth_request.hyps(1)] False r auth_request.prems] r(1,3) auth_request.hyps(1)
      by blast
  qed
qed (simp_all add: svr_authinitialise_def)

end
