(* ===== verification/AuthProps.thy ===== *)
theory AuthProps
  imports Auth AuthAccept
begin

text \<open>
  What user authentication guarantees: who can be logged in, that the right password is accepted, the state that is kept between
  requests, and where the code falls short of what it means to do.
\<close>

subsection \<open>Answers are sent\<close>

lemma auth_types_string_ok:
  assumes "t = 2 \<or> t = 6"
  obtains b where "auth_types_string t = Inr b" "buf_inv b" "b_pos b = 0" "b_len b = (if t = 2 then 9 else 18)"
proof -
  have "\<exists>b. auth_types_string t = Inr b \<and> buf_inv b \<and> b_pos b = 0 \<and> b_len b = (if t = 2 then 9 else 18)"
    using assms by (auto simp: auth_types_string_def AUTH_TYPE_PUBKEY_def AUTH_TYPE_PASSWORD_def buf_eval buf_inv_def ascii_def)
  then show ?thesis using that by blast
qed

lemma failure_sent:
  fixes s :: "'a authsession_scheme"
  assumes "sender_ok cr s" and "env_ok env" and "auth_wf w opts (s_authstate s)"
  shows "\<exists>s1. only_sent s s1 \<and> send_msg_userauth_failure cr env k partial incrfail s =
    (let s = (if incrfail then set_auth (\<lambda>a. a\<lparr>as_failcount := as_failcount a + 1\<rparr>) s1 else s1)
     in if as_failcount (s_authstate s) \<ge> MAX_AUTH_TRIES then Inl (Exit ''Max auth tries reached'') else Inr s)"
proof -
  let ?t = "as_authtypes (s_authstate s)"
  have "?t = 2 \<or> ?t = 6" using assms(3) by (auto simp: auth_wf_def AUTH_TYPE_PUBKEY_def AUTH_TYPE_PASSWORD_def)
  then obtain tb where tb: "auth_types_string ?t = Inr tb" "buf_inv tb" "b_pos tb = 0" "b_len tb = (if ?t = 2 then 9 else 18)"
    using auth_types_string_ok by blast
  have l: "unat (b_len tb) \<le> 18" using tb(4) by auto
  have u: "length (unread tb) = unat (b_len tb)" using length_unread[OF tb(2)] tb(3) by simp
  have g: "buf_getptr tb (b_len tb) = Inr 0" using buf_getptr_ok[OF tb(2), of "b_len tb"] u tb(3) by simp
  have r: "mem_read (b_data tb) 0 (unat (b_len tb)) = Inr (unread tb)" using take_unread[OF tb(2), of "unat (b_len tb)"] u tb(3) by simp
  let ?bs = "[SSH_MSG_USERAUTH_FAILURE] @ (store32h (b_len tb) @ take (unat (b_len tb)) (unread tb)) @ [if partial then 1 else 0]"
  have "puts (\<lambda>b. rbind (buf_putbyte b SSH_MSG_USERAUTH_FAILURE) (\<lambda>b. rbind (buf_putstring b (unread tb) (b_len tb)) (\<lambda>b.
      buf_putbyte b (if partial then 1 else 0)))) ?bs"
    using l u by (intro puts_seq puts_byte puts_string) simp_all
  from send_payload_ok[OF assms(1,2) this] obtain s1 where s1: "send_payload cr env k (\<lambda>b. rbind (buf_putbyte b SSH_MSG_USERAUTH_FAILURE) (\<lambda>b.
      rbind (buf_putstring b (unread tb) (b_len tb)) (\<lambda>b. buf_putbyte b (if partial then 1 else 0)))) s = Inr s1" using l u by auto
  then show ?thesis using tb(1) g r send_payload_only[OF s1] by (auto simp: send_msg_userauth_failure_def)
qed

text \<open>The tenth counted failure ends the session, the others are answered.\<close>

lemma counted_failure:
  fixes s :: "'a authsession_scheme"
  assumes "sender_ok cr s" and "env_ok env" and "auth_wf w opts (s_authstate s)"
  shows "if as_failcount (s_authstate s) + 1 < MAX_AUTH_TRIES
    then \<exists>s'. send_msg_userauth_failure cr env k partial True s = Inr s' \<and> s_authdone s' = s_authdone s \<and>
      s_authstate s' = (s_authstate s)\<lparr>as_failcount := as_failcount (s_authstate s) + 1\<rparr>
    else send_msg_userauth_failure cr env k partial True s = Inl (Exit ''Max auth tries reached'')"
proof -
  obtain s1 where s1: "only_sent s s1" "send_msg_userauth_failure cr env k partial True s =
    (let s = set_auth (\<lambda>a. a\<lparr>as_failcount := as_failcount a + 1\<rparr>) s1
     in if as_failcount (s_authstate s) \<ge> MAX_AUTH_TRIES then Inl (Exit ''Max auth tries reached'') else Inr s)"
    using failure_sent[OF assms, of k partial True] by auto
  then show ?thesis using only_sent_auth(1,2)[OF s1(1)]
    by (cases "as_failcount (s_authstate s) + 1 < MAX_AUTH_TRIES") (simp_all add: Let_def set_auth_def not_less not_le)
qed

lemma success_ok:
  fixes s :: "'a authsession_scheme"
  assumes "sender_ok cr s" and "env_ok env"
  shows "\<exists>s'. send_msg_userauth_success cr env k s = Inr s'"
  using send_payload_ok[OF assms puts_byte[of SSH_MSG_USERAUTH_SUCCESS], of k] by (auto simp: send_msg_userauth_success_def)

subsection \<open>Reading a request\<close>

definition wire_string :: "bytes \<Rightarrow> bytes" where
  "wire_string x = store32h (of_nat (length x)) @ x"

lemma getstring_wire:
  assumes "buf_inv b" and "unread b = wire_string x @ rest" and "length x \<le> 1400"
  shows "buf_getstring b = Inr (x @ [0], of_nat (length x), advance b (4 + length x))"
    and "buf_inv (advance b (4 + length x))" and "unread (advance b (4 + length x)) = rest"
proof -
  have u: "unat (of_nat (length x) :: u32) = length x" using assms(3) by (intro unat_of_nat_u32) simp
  have l: "4 + length x \<le> length (unread b)" using assms(2) by (simp add: wire_string_def)
  have t: "take 4 (unread b) = store32h (of_nat (length x))" "drop 4 (unread b) = x @ rest" using assms(2) by (simp_all add: wire_string_def)
  show "buf_getstring b = Inr (x @ [0], of_nat (length x), advance b (4 + length x))"
    using buf_getstring_eq[OF assms(1), of "of_nat (length x)"] l t u assms(3) by (simp add: MAX_STRING_LEN_def word_nat)
  show "buf_inv (advance b (4 + length x))" by (rule advance_inv[OF assms(1) l])
  show "unread (advance b (4 + length x)) = rest" using unread_advance[OF assms(1) l] assms(2) by (simp add: wire_string_def)
qed

lemma service_known: "service_unknown (ascii ''ssh-connection'' @ [0]) 14 = Inr False"
  by (simp add: service_unknown_def)

lemma strn_eq_text:
  assumes "0 \<notin> set lit"
  shows "strn_eq id (length lit) (name @ [0]) (lit @ rest) = Inr (take (length lit) name = lit)"
  using assms
proof (induction lit arbitrary: name)
  case (Cons c lit)
  then show ?case by (cases name) auto
qed simp

lemma cstr_id: "0 \<notin> set x \<Longrightarrow> cstr (x @ [0]) = x"
  by (induction x) (auto simp: cstr_def)

lemma checkusername_accepts:
  assumes "auth_wf w opts a" and "0 \<notin> set user" and "length user \<le> 25" and "w_getpwnam w user = Some pw" and "login_allowed w opts pw"
  shows "\<exists>a'. checkusername w opts (user @ [0]) (of_nat (length user)) a = Inr (True, a') \<and> auth_wf w opts a' \<and> as_username a' = Some user \<and>
    as_failcount a' = (if as_username a = Some user then as_failcount a else 0)"
proof -
  define a1 where "a1 = (if as_username a = Some user then a else (fill_passwd w user (authclear opts))\<lparr>as_username := Some user\<rparr>)"
  have u: "unat (of_nat (length user) :: u32) = length user" using assms(3) by (intro unat_of_nat_u32) simp
  have e: "user_entry w user a1" using assms(1) fill_passwd_entry by (auto simp: a1_def auth_wf_def)
  have l: "\<not> MAX_USERNAME_LEN < (of_nat (length user) :: u32)" using assms(3) u by (simp add: MAX_USERNAME_LEN_def word_nat)
  have "checkusername w opts (user @ [0]) (of_nat (length user)) a = Inr (True, a1)"
    unfolding checkusername_def Let_def cstr_id[OF assms(2)] a1_def[symmetric]
    using e l assms(4,5) by (auto simp: user_entry_def login_allowed_def)
  moreover note checkusername_result(1)[OF this assms(1) u]
  moreover have "as_username a1 = Some user" "as_failcount a1 = (if as_username a = Some user then as_failcount a else 0)"
    by (auto simp: a1_def fill_passwd_def Let_def authclear_def zero_AuthState_def split: option.split)
  ultimately show ?thesis by auto
qed

subsection \<open>Logging in\<close>

text \<open>The request as the client writes it, after the message number.\<close>

definition password_request :: "bytes \<Rightarrow> bytes \<Rightarrow> bytes" where
  "password_request user password = wire_string user @ wire_string (ascii ''ssh-connection'') @ wire_string (ascii ''password'') @ [0] @ wire_string password"

lemma recv_steps:
  fixes s :: "'a authsession_scheme"
  assumes "\<not> s_authdone s" and "s_banner s = None" and "s_payload s = Some b" and "buf_inv b"
    and "unread b = wire_string user @ wire_string (ascii ''ssh-connection'') @ wire_string method @ rest"
    and "length user \<le> 1400" and "length method \<le> 1400"
    and "checkusername w opts (user @ [0]) (of_nat (length user)) (s_authstate s) = Inr (valid, a)"
  shows "\<exists>b3. buf_inv b3 \<and> unread b3 = rest \<and> recv_msg_userauth_request cr env w opts s =
    userauth_method cr env w opts valid (method @ [0]) (of_nat (length method)) (s\<lparr>s_payload := Some b3, s_authstate := a\<rparr>)"
proof -
  let ?c = "ascii ''ssh-connection''"
  have c: "length ?c = 14" by (simp add: ascii_def)
  note 1 = getstring_wire[OF assms(4,5,6)]
  note 2 = getstring_wire[OF 1(2,3)]
  have 2: "buf_getstring (advance b (4 + length user)) = Inr (?c @ [0], 14, advance (advance b (4 + length user)) 18)"
    "buf_inv (advance (advance b (4 + length user)) 18)" "unread (advance (advance b (4 + length user)) 18) = wire_string method @ rest"
    using 2 c by simp_all
  note 3 = getstring_wire[OF 2(2,3) assms(7)]
  show ?thesis using assms(1-3,8) 1(1) 2(1) 3 service_known
    by (simp add: recv_msg_userauth_request_def send_banner_def get_payload_def get_string_def) blast
qed

lemma password_reads:
  fixes s :: "'a authsession_scheme"
  assumes "s_payload s = Some b" and "buf_inv b" and "unread b = [0] @ wire_string password" and "length password \<le> 1400" and "0 \<notin> set password"
    and "as_pw_passwd (s_authstate s) = Some h" and "h \<noteq> []"
  shows "\<exists>b2. svr_auth_password cr env w s = (if w_crypt w password h = Some h then send_msg_userauth_success cr env 1 (s\<lparr>s_payload := Some b2\<rparr>)
     else send_msg_userauth_failure cr env 1 False True (s\<lparr>s_payload := Some b2\<rparr>))"
proof -
  define b1 where "b1 = advance b 1"
  have b1: "buf_getbool b = Inr (0, b1)" "buf_inv b1" "unread b1 = wire_string password @ []"
    using assms(2,3) by (simp_all add: b1_def buf_getbool_eq buf_getbyte_ok advance_inv unread_advance)
  note g = getstring_wire[OF b1(2,3) assms(4)]
  let ?s = "s\<lparr>s_payload := Some (advance b1 (4 + length password))\<rparr>"
  have r: "svr_auth_password cr env w s = (case w_crypt w password h of
         None \<Rightarrow> send_msg_userauth_failure cr env 1 False True ?s
       | Some testcrypt \<Rightarrow>
             rbind (constant_time_strcmp testcrypt h) (\<lambda>d.
             if d = 0 then send_msg_userauth_success cr env 1 ?s
             else send_msg_userauth_failure cr env 1 False True ?s))"
    using assms(1,6,7) b1(1) g(1) cstr_id[OF assms(5)] by (simp add: svr_auth_password_def get_payload_def get_string_def split: option.split)
  have "svr_auth_password cr env w s = (if w_crypt w password h = Some h then send_msg_userauth_success cr env 1 ?s
     else send_msg_userauth_failure cr env 1 False True ?s)"
  proof (cases "w_crypt w password h")
    case (Some t)
    obtain d where d: "constant_time_strcmp t h = Inr d"
      using constant_time_memcmp_eq[of "length t" t h] by (cases "length t = length h") (auto simp: constant_time_strcmp_def)
    then have "d = 0 \<longleftrightarrow> t = h" using constant_time_strcmp_zero[of t h] by auto
    then show ?thesis using r Some d by simp
  qed (simp add: r)
  then show ?thesis by blast
qed

lemma password_method:
  fixes s :: "'a authsession_scheme"
  assumes "password_allowed opts pw" and "auth_wf w opts (s_authstate s)" and "as_username (s_authstate s) = Some user" and "w_getpwnam w user = Some pw"
  shows "userauth_method cr env w opts True (ascii ''password'' @ [0]) 8 s = svr_auth_password cr env w s"
proof -
  have "is_method (ascii ''password'' @ [0]) 8 ''none'' = Inr False" "is_method (ascii ''password'' @ [0]) 8 ''password'' = Inr True"
    by (subst is_method_eq; simp add: ascii_def)+
  then show ?thesis using assms(1) known_user[OF assms(2-4)] by (simp add: userauth_method_def password_allowed_def)
qed

lemma payload_again:
  fixes s :: "'a authsession_scheme"
  shows "s\<lparr>s_payload := x, s_authstate := a, s_payload := y\<rparr> = s\<lparr>s_payload := y, s_authstate := a\<rparr>"
  by simp

lemma password_steps:
  fixes s :: "'a authsession_scheme"
  assumes "auth_wf w opts (s_authstate s)" and "\<not> s_authdone s" and "s_banner s = None" and "s_payload s = Some b" and "buf_inv b"
    and "unread b = password_request user password" and "0 \<notin> set user" and "length user \<le> 25" and "0 \<notin> set password" and "length password \<le> 1400"
    and "w_getpwnam w user = Some pw" and "login_allowed w opts pw" and "password_allowed opts pw" and "user_hash w pw \<noteq> []"
  shows "\<exists>b2 a. auth_wf w opts a \<and> as_username a = Some user \<and>
    as_failcount a = (if as_username (s_authstate s) = Some user then as_failcount (s_authstate s) else 0) \<and>
    recv_msg_userauth_request cr env w opts s = (if w_crypt w password (user_hash w pw) = Some (user_hash w pw)
      then send_msg_userauth_success cr env 1 (s\<lparr>s_payload := Some b2, s_authstate := a\<rparr>)
      else send_msg_userauth_failure cr env 1 False True (s\<lparr>s_payload := Some b2, s_authstate := a\<rparr>))"
proof -
  obtain a where a: "checkusername w opts (user @ [0]) (of_nat (length user)) (s_authstate s) = Inr (True, a)" "auth_wf w opts a" "as_username a = Some user"
    "as_failcount a = (if as_username (s_authstate s) = Some user then as_failcount (s_authstate s) else 0)"
    using checkusername_accepts[OF assms(1,7,8,11,12)] by blast
  have u: "length user \<le> 1400" "length (ascii ''password'') \<le> 1400" "length (ascii ''password'') = 8" using assms(8) by (simp_all add: ascii_def)
  obtain b3 where b3: "buf_inv b3" "unread b3 = [0] @ wire_string password" "recv_msg_userauth_request cr env w opts s =
    userauth_method cr env w opts True (ascii ''password'' @ [0]) 8 (s\<lparr>s_payload := Some b3, s_authstate := a\<rparr>)"
    using recv_steps[OF assms(2-5) assms(6)[unfolded password_request_def] u(1,2) a(1), of cr env] u(3) by auto
  have "userauth_method cr env w opts True (ascii ''password'' @ [0]) 8 (s\<lparr>s_payload := Some b3, s_authstate := a\<rparr>) =
      svr_auth_password cr env w (s\<lparr>s_payload := Some b3, s_authstate := a\<rparr>)"
    by (rule password_method[OF assms(13) _ _ assms(11)]) (use a in simp_all)
  moreover obtain b2 where "svr_auth_password cr env w (s\<lparr>s_payload := Some b3, s_authstate := a\<rparr>) =
     (if w_crypt w password (user_hash w pw) = Some (user_hash w pw)
      then send_msg_userauth_success cr env 1 (s\<lparr>s_payload := Some b2, s_authstate := a\<rparr>)
      else send_msg_userauth_failure cr env 1 False True (s\<lparr>s_payload := Some b2, s_authstate := a\<rparr>))"
    using password_reads[of "s\<lparr>s_payload := Some b3, s_authstate := a\<rparr>" b3 password "user_hash w pw" cr env w] b3(1,2)
      known_user(1)[OF a(2,3) assms(11)] assms(9,10,14) unfolding payload_again by auto
  ultimately show ?thesis using a(2-4) b3(3) by metis
qed

lemma right_password:
  fixes s :: "'a authsession_scheme"
  assumes "sender_ok cr s" and "env_ok env" and "auth_wf w opts (s_authstate s)" and "\<not> s_authdone s" and "s_banner s = None"
    and "s_payload s = Some b" and "buf_inv b" and "unread b = password_request user password"
    and "0 \<notin> set user" and "length user \<le> 25" and "0 \<notin> set password" and "length password \<le> 1400"
    and "w_getpwnam w user = Some pw" and "login_allowed w opts pw" and "password_allowed opts pw" and "user_hash w pw \<noteq> []"
    and "w_crypt w password (user_hash w pw) = Some (user_hash w pw)"
  shows "\<exists>s'. recv_msg_userauth_request cr env w opts s = Inr s' \<and> s_authdone s' \<and> as_username (s_authstate s') = Some user"
proof -
  obtain b2 a where a: "as_username a = Some user"
    "recv_msg_userauth_request cr env w opts s = send_msg_userauth_success cr env 1 (s\<lparr>s_payload := Some b2, s_authstate := a\<rparr>)"
    using password_steps[OF assms(3-16), of cr env] assms(17) by auto
  have "sender_ok cr (s\<lparr>s_payload := Some b2, s_authstate := a\<rparr>)" using assms(1) by (subst sender_ok_cong[of _ s]) simp_all
  from success_ok[OF this assms(2)] obtain s' where s': "send_msg_userauth_success cr env 1 (s\<lparr>s_payload := Some b2, s_authstate := a\<rparr>) = Inr s'" by blast
  then show ?thesis using a userauth_success_result[OF s'] by simp
qed

subsection \<open>A world to evaluate with\<close>

definition joe :: passwd where
  "joe = \<lparr>pwd_name = ascii ''joe'', pwd_uid = 1000, pwd_gid = 1000, pwd_dir = ascii ''/home/joe'', pwd_shell = ascii ''/bin/sh'', pwd_passwd = Some (ascii ''H'')\<rparr>"

definition sample_world :: "bytes \<Rightarrow> auth_world" where
  "sample_world keys = \<lparr>w_getpwnam = (\<lambda>u. if u = ascii ''joe'' then Some joe else None), w_getspnam = (\<lambda>_. None),
     w_crypt = (\<lambda>p h. Some (if p = ascii ''pw'' then ascii ''H'' else ascii ''X'')), w_geteuid = 0, w_shells = [ascii ''/bin/sh''],
     w_stat = (\<lambda>_. Some (1000, 0)), w_file = (\<lambda>_. Some keys)\<rparr>"

definition sample_opts :: svr_runopts where
  "sample_opts = \<lparr>o_noauthpass = False, o_norootpass = True, o_norootlogin = False, o_allowblankpass = False\<rparr>"

definition sample_auth :: "bytes \<Rightarrow> authsession" where
  "sample_auth p = sshsession.extend
     ((sample_session (mkbuf (replicate 16384 0) 0 0 16384))\<lparr>s_payload := Some (mkbuf p (length p) 0 (length p)), s_session_id := Some (replicate 20 9)\<rparr>)
     (authsession.fields zero_AuthState 0 False (-1) [] None)"

abbreviation sample_start :: "bytes \<Rightarrow> authsession" where
  "sample_start p \<equiv> svr_authinitialise sample_opts (sample_auth p)"

lemma sample_auth_simps [simp]:
  "s_payload (sample_start p) = Some (mkbuf p (length p) 0 (length p))" "s_session_id (sample_start p) = Some (replicate 20 9)"
  "s_banner (sample_start p) = None" "\<not> s_authdone (sample_start p)" "s_authstate (sample_start p) = authclear sample_opts"
  by (simp_all add: sample_auth_def svr_authinitialise_def sshsession.defs authsession.defs)

lemma sample_auth_sender: "sender_ok toy_crypto (sample_start p)"
  using sender_ok_cong[of "sample_start p" "sample_session (mkbuf (replicate 16384 0) 0 0 16384)" toy_crypto] sample_sender
  by (simp add: sample_auth_def svr_authinitialise_def sshsession.defs authsession.defs sample_session_def)

abbreviation joes_request :: bytes where
  "joes_request \<equiv> password_request (ascii ''joe'') (ascii ''pw'')"

abbreviation bad_request :: bytes where
  "bad_request \<equiv> password_request (ascii ''joe'') (ascii ''no'')"

lemma sample_payload: "length p \<le> 1000000000 \<Longrightarrow> buf_inv (mkbuf p (length p) 0 (length p)) \<and> unread (mkbuf p (length p) 0 (length p)) = p"
  using unread_mk[of p "length p" 0 "length p"] by (simp add: mk_inv mk_ok_def)

lemma sample_request:
  "buf_inv (mkbuf joes_request (length joes_request) 0 (length joes_request))" "unread (mkbuf joes_request (length joes_request) 0 (length joes_request)) = joes_request"
  "buf_inv (mkbuf bad_request (length bad_request) 0 (length bad_request))" "unread (mkbuf bad_request (length bad_request) 0 (length bad_request)) = bad_request"
proof -
  have "length joes_request \<le> 1000000000" "length bad_request \<le> 1000000000" by (simp_all add: password_request_def wire_string_def ascii_def)
  from this[THEN sample_payload] show
    "buf_inv (mkbuf joes_request (length joes_request) 0 (length joes_request))" "unread (mkbuf joes_request (length joes_request) 0 (length joes_request)) = joes_request"
    "buf_inv (mkbuf bad_request (length bad_request) 0 (length bad_request))" "unread (mkbuf bad_request (length bad_request) 0 (length bad_request)) = bad_request"
    by blast+
qed

lemma sample_user:
  "w_getpwnam (sample_world keys) (ascii ''joe'') = Some joe" "login_allowed (sample_world keys) sample_opts joe" "password_allowed sample_opts joe"
  "user_hash (sample_world keys) joe = ascii ''H''" "0 \<notin> set (ascii ''joe'')" "length (ascii ''joe'') \<le> 25" "ascii ''H'' \<noteq> []"
  "0 \<notin> set (ascii ''pw'')" "length (ascii ''pw'') \<le> 1400" "0 \<notin> set (ascii ''no'')" "length (ascii ''no'') \<le> 1400"
  "w_crypt (sample_world keys) (ascii ''pw'') h = Some (ascii ''H'')" "w_crypt (sample_world keys) (ascii ''no'') h \<noteq> Some (ascii ''H'')"
  by (simp_all add: sample_world_def joe_def sample_opts_def login_allowed_def password_allowed_def user_hash_def ascii_def)

subsection \<open>Properties\<close>


lemma joe_logs_in:
  "\<exists>s'. recv_msg_userauth_request toy_crypto sample_env (sample_world []) sample_opts (sample_start joes_request) = Inr s' \<and>
     s_authdone s' \<and> as_username (s_authstate s') = Some (ascii ''joe'')"
proof -
  show ?thesis
    by (rule right_password[where b="mkbuf joes_request (length joes_request) 0 (length joes_request)" and user="ascii ''joe''" and password="ascii ''pw''" and pw=joe, OF sample_auth_sender sample_env_ok])
      (simp_all add: sample_user sample_request authclear_wf)
qed


text \<open>
  C4: The state that is kept between requests stays well-formed, whatever requests arrive: the methods on offer are those of the
  configuration, the count of failures is below the limit, and the fields of the password entry are set all together or not at all, to
  what the password file has for the name that is kept with them.
\<close>

theorem auth_state_stays_well_formed:
  assumes "auth_run cr w opts s"
  shows "auth_wf w opts (s_authstate s)"
  using assms by (rule auth_run_wf)

theorem auth_state_stays_well_formed_witness:
  "auth_run toy_crypto (sample_world []) sample_opts (sample_start []) \<and> auth_wf (sample_world []) sample_opts (authclear sample_opts)"
  using auth_state_stays_well_formed[OF auth_start, of "sample_world []" sample_opts "sample_auth []"] auth_start by simp

text \<open>
  C2: The right password is accepted: in any state the server reaches before authentication, the request of a user who may log in, with
  the password whose \<open>crypt\<close> is the stored one, is answered, and the user is authenticated.
\<close>

theorem right_password_logs_in:
  fixes s :: "'a authsession_scheme"
  assumes "auth_run cr w opts s" and "sender_ok cr s" and "env_ok env" and "\<not> s_authdone s" and "s_banner s = None"
    and "s_payload s = Some b" and "buf_inv b" and "unread b = password_request user password"
    and "0 \<notin> set user" and "length user \<le> 25" and "0 \<notin> set password" and "length password \<le> 1400"
    and "w_getpwnam w user = Some pw" and "login_allowed w opts pw" and "password_allowed opts pw" and "user_hash w pw \<noteq> []"
    and "w_crypt w password (user_hash w pw) = Some (user_hash w pw)"
  shows "\<exists>s'. recv_msg_userauth_request cr env w opts s = Inr s' \<and> s_authdone s' \<and> as_username (s_authstate s') = Some user"
  using right_password[OF assms(2,3) auth_run_wf[OF assms(1)] assms(4-17)] .

theorem right_password_logs_in_witness:
  "\<exists>s'. recv_msg_userauth_request toy_crypto sample_env (sample_world []) sample_opts (sample_start joes_request) = Inr s' \<and> s_authdone s' \<and>
     as_username (s_authstate s') = Some (ascii ''joe'')"
proof -
  show ?thesis
    by (rule right_password_logs_in[where b="mkbuf joes_request (length joes_request) 0 (length joes_request)" and user="ascii ''joe''" and password="ascii ''pw''" and pw=joe, OF auth_start sample_auth_sender sample_env_ok])
      (simp_all add: sample_user sample_request)
qed

text \<open>
  C36: Wrong passwords are counted, but for one name at a time. A wrong password for the name of the previous request adds one to the
  count, and the tenth ends the session; for any other name the count starts again at one, whatever it was, although \<open>authclear\<close> is
  meant not to reset it. So a client that alternates between two names is never cut off.
\<close>

theorem wrong_passwords_are_counted_per_name:
  fixes s :: "'a authsession_scheme"
  assumes "auth_run cr w opts s" and "sender_ok cr s" and "env_ok env" and "\<not> s_authdone s" and "s_banner s = None"
    and "s_payload s = Some b" and "buf_inv b" and "unread b = password_request user password"
    and "0 \<notin> set user" and "length user \<le> 25" and "0 \<notin> set password" and "length password \<le> 1400"
    and "w_getpwnam w user = Some pw" and "login_allowed w opts pw" and "password_allowed opts pw" and "user_hash w pw \<noteq> []"
    and "w_crypt w password (user_hash w pw) \<noteq> Some (user_hash w pw)"
  shows "if as_username (s_authstate s) = Some user \<and> as_failcount (s_authstate s) = 9
    then recv_msg_userauth_request cr env w opts s = Inl (Exit ''Max auth tries reached'')
    else \<exists>s'. recv_msg_userauth_request cr env w opts s = Inr s' \<and> \<not> s_authdone s' \<and>
      as_failcount (s_authstate s') = (if as_username (s_authstate s) = Some user then as_failcount (s_authstate s) + 1 else 1)"
proof -
  note wf = auth_run_wf[OF assms(1)]
  obtain b2 a where a: "auth_wf w opts a"
    "as_failcount a = (if as_username (s_authstate s) = Some user then as_failcount (s_authstate s) else 0)"
    "recv_msg_userauth_request cr env w opts s = send_msg_userauth_failure cr env 1 False True (s\<lparr>s_payload := Some b2, s_authstate := a\<rparr>)"
    using password_steps[OF wf assms(4-16), of cr env] assms(17) by auto
  let ?s = "s\<lparr>s_payload := Some b2, s_authstate := a\<rparr>"
  have "sender_ok cr ?s" using assms(2) by (subst sender_ok_cong[of _ s]) simp_all
  note f = counted_failure[OF this assms(3), of w opts 1 False]
  have c: "as_failcount a < 10" using a(1) by (simp add: auth_wf_def MAX_AUTH_TRIES_def)
  then have "unat (as_failcount a) < 10" "unat (as_failcount a + 1) = unat (as_failcount a) + 1"
    by (simp_all add: word_nat unat_add_no_overflow)
  then have "(as_failcount a + 1 < MAX_AUTH_TRIES) = (as_failcount a \<noteq> 9)" by (auto simp: MAX_AUTH_TRIES_def word_nat word_unat_eq_iff)
  then show ?thesis using f a assms(4) by (auto split: if_splits)
qed

theorem wrong_passwords_are_counted_per_name_witness:
  "\<exists>s'. recv_msg_userauth_request toy_crypto sample_env (sample_world []) sample_opts (sample_start bad_request) = Inr s' \<and> \<not> s_authdone s' \<and>
     as_failcount (s_authstate s') = 1"
proof -
  have "as_username (authclear sample_opts) = None" by (simp add: authclear_def zero_AuthState_def)
  moreover have "if as_username (s_authstate (sample_start bad_request)) = Some (ascii ''joe'') \<and> as_failcount (s_authstate (sample_start bad_request)) = 9
    then recv_msg_userauth_request toy_crypto sample_env (sample_world []) sample_opts (sample_start bad_request) = Inl (Exit ''Max auth tries reached'')
    else \<exists>s'. recv_msg_userauth_request toy_crypto sample_env (sample_world []) sample_opts (sample_start bad_request) = Inr s' \<and> \<not> s_authdone s' \<and>
      as_failcount (s_authstate s') = (if as_username (s_authstate (sample_start bad_request)) = Some (ascii ''joe'')
        then as_failcount (s_authstate (sample_start bad_request)) + 1 else 1)"
    by (rule wrong_passwords_are_counted_per_name[where b="mkbuf bad_request (length bad_request) 0 (length bad_request)" and user="ascii ''joe''" and password="ascii ''no''" and pw=joe, OF auth_start sample_auth_sender sample_env_ok])
      (simp_all add: sample_user sample_request)
  ultimately show ?thesis by simp
qed



text \<open>
  C3: \<open>checkpubkey\<close> accepts listed keys only. Whatever the file, the request and the state, it ends without undefined
  behaviour, and when it accepts a key, then the algorithm is one the server knows, the home directory, \<open>.ssh\<close> and
  \<open>authorized_keys\<close> belong to the user or to root and can be written by no one else, and a line of the file has, after its options
  if there are any, that algorithm and the base64 text of exactly that key. Of the state it changes the options of the key and the
  warning about permissions only.
\<close>

theorem checkpubkey_accepts_listed_keys_only:
  assumes "unat algolen < length algo" and "unat keybloblen \<le> length keyblob \<or> 1000000000 < unat keybloblen"
  shows "is_safe (checkpubkey w algo algolen keyblob keybloblen a) \<and> checkpubkey w algo algolen keyblob keybloblen a \<noteq> Inl Hang \<and>
    (\<forall>ok a'. checkpubkey w algo algolen keyblob keybloblen a = Inr (ok, a') \<longrightarrow> keeps_user a a' \<and>
      (ok \<longrightarrow> (\<exists>dir. as_pw_dir a = Some dir \<and> user_key w (as_pw_uid a) dir (take (unat algolen) algo) (take (unat keybloblen) keyblob))))"
  using checkpubkey_sat[OF assms, of w a] by (auto simp: sat_def)

abbreviation sample_blob :: bytes where
  "sample_blob \<equiv> store32h 7 @ ascii ''ssh-rsa'' @ [1, 2, 3]"

abbreviation sample_keys :: bytes where
  "sample_keys \<equiv> ascii ''ssh-rsa'' @ [32] @ b64_enc sample_blob @ [10] @ ascii ''# the end''"

abbreviation joes_state :: AuthState where
  "joes_state \<equiv> zero_AuthState\<lparr>as_pw_uid := 1000, as_pw_dir := Some (ascii ''/home/joe'')\<rparr>"

lemma sample_files:
  "\<forall>path \<in> {dir, dir @ ascii ''/.ssh'', dir @ ascii ''/.ssh/authorized_keys''}. private_file (sample_world keys) (as_pw_uid joes_state) path"
  by (simp add: private_file_def sample_world_def)

lemma sample_key_line: "length (ascii ''ssh-rsa'' @ [32] @ b64_enc sample_blob) < 4200"
  using b64_enc_text(1)[of sample_blob] by (simp add: ascii_def)

lemma sample_key_accepted:
  "checkpubkey (sample_world sample_keys) (ascii ''ssh-rsa'' @ [0]) 7 (sample_blob @ []) (of_nat (length sample_blob)) joes_state = Inr (True, joes_state)"
  by (rule listed_key_accepted[where dir="ascii ''/home/joe''" and others="ascii ''# the end''", OF _ refl sample_key_line _ _ sample_files])
    (simp_all add: key_algos_def sample_world_def, simp_all add: ascii_def)

theorem checkpubkey_accepts_listed_keys_only_witness:
  "checkpubkey (sample_world sample_keys) (ascii ''ssh-rsa'' @ [0]) 7 sample_blob 14 joes_state = Inr (True, joes_state) \<and>
   user_key (sample_world sample_keys) 1000 (ascii ''/home/joe'') (ascii ''ssh-rsa'') sample_blob"
proof -
  have l: "length sample_blob = 14" "length (ascii ''ssh-rsa'') = 7" by (simp_all add: ascii_def)
  have c: "checkpubkey (sample_world sample_keys) (ascii ''ssh-rsa'' @ [0]) 7 sample_blob 14 joes_state = Inr (True, joes_state)"
    using sample_key_accepted l by simp
  show ?thesis
    using checkpubkey_accepts_listed_keys_only[of 7 "ascii ''ssh-rsa'' @ [0]" 14 sample_blob "sample_world sample_keys" joes_state] c l by auto
qed

text \<open>
  C37: A listed key is accepted: when the files have the right owners and permissions and the first line of \<open>authorized_keys\<close> is the name
  of the key's algorithm, a space and the key in base64, a request with that key is accepted, whatever follows in the file. The key
  starts with the name of its algorithm, as keys do, and the line fits into the buffer.
\<close>

theorem listed_key_is_accepted:
  assumes "name \<in> set key_algos" and "blob = store32h 7 @ name @ rest" and "length (name @ [32] @ b64_enc blob) < 4200"
    and "as_pw_dir a = Some dir" and "dir \<noteq> []"
    and "\<forall>path \<in> {dir, dir @ ascii ''/.ssh'', dir @ ascii ''/.ssh/authorized_keys''}. private_file w (as_pw_uid a) path"
    and "w_file w (dir @ ascii ''/.ssh/authorized_keys'') = Some (name @ [32] @ b64_enc blob @ [10] @ others)"
  shows "checkpubkey w (name @ [0]) 7 (blob @ tail) (of_nat (length blob)) a = Inr (True, a)"
  using assms by (rule listed_key_accepted)

theorem listed_key_is_accepted_witness:
  "checkpubkey (sample_world sample_keys) (ascii ''ssh-rsa'' @ [0]) 7 (sample_blob @ [5]) (of_nat (length sample_blob)) joes_state = Inr (True, joes_state)"
  by (rule listed_key_is_accepted[where dir="ascii ''/home/joe''" and others="ascii ''# the end''", OF _ refl sample_key_line _ _ sample_files])
    (simp_all add: key_algos_def sample_world_def, simp_all add: ascii_def)


text \<open>
  An escaped quote ends the quoting of the options of a line. \<open>checkpubkey\<close> updates \<open>escape\<close> before it looks at a quote, so that a
  quote is never escaped: for a line that starts with \<open>command="a\" b" \<close> the options end inside of the command, at the space after the
  escaped quote, although \<open>svr_add_pubkey_options\<close>, which parses the options then, knows such commands.
\<close>

definition quoted_command :: buffer where
  "quoted_command = \<lparr>b_data = ascii (''command='' @ [CHR 0x22, CHR ''a'', CHR 0x5C, CHR 0x22, CHR '' '', CHR ''b'', CHR 0x22]), b_len = 15, b_pos = 0, b_size = 15\<rparr>"

definition no_options :: PubKeyOptions where
  "no_options = \<lparr>po_no_port_forwarding = False, po_no_agent_forwarding = False, po_no_x11_forwarding = False, po_no_pty = False, po_forced_command = None\<rparr>"

theorem escaped_quote_ends_the_quoting:
  "options_end 15 False False 0 quoted_command = Inr (12, quoted_command\<lparr>b_pos := 13\<rparr>) \<and>
   parse_option quoted_command no_options =
     Inr (Some (quoted_command\<lparr>b_pos := 15\<rparr>, no_options\<lparr>po_forced_command := Some (ascii [CHR ''a'', CHR 0x5C, CHR 0x22, CHR '' '', CHR ''b''])\<rparr>))"
  by code_simp

end
